(* ===== verification/Prelude.thy ===== *)
theory Prelude
  imports Complex_Main "HOL-Library.AList" "HOL-Library.List_Lexorder"
    "HOL-Library.Char_ord" "HOL-Library.Product_Lexorder"
begin

text \<open>
  Shared vocabulary of the development: how Python's values, dictionaries, clocks and
  exceptions are represented, and the generic lemmas the components use.

  \<^item> UUIDs are natural numbers. \<open>str(uuid)\<close> is a fixed-width lower-case hexadecimal
    string, so its lexicographic order is the numeric order.
  \<^item> A \<open>datetime\<close> is an integer number of microseconds; a \<open>float\<close> number of seconds is a
    rational (the exact value of a finite double), and \<open>timedelta(seconds=x)\<close> rounds it to
    whole microseconds, half to even.
  \<^item> A \<open>dict\<close> is an association list in insertion order: storing a present key updates it in
    place and a new key goes to the end, which is what \<open>AList.update\<close> does.
  \<^item> A computation that may raise is a state transformer that returns the exception or the
    value together with the state it leaves behind: a state change made before the exception
    stays, as in the source.
  \<^item> The clock and \<open>uuid4()\<close> are two streams carried by the state (\<open>host\<close>); every reading takes
    the next element, and the theorems hold for all streams.
\<close>

subsection \<open>Named collections\<close>

named_theorems dict_simps \<open>lookups in updated dictionaries\<close>
named_theorems prog_simps \<open>unfolding of raising computations\<close>

subsection \<open>Types\<close>

type_synonym uuid = nat
type_synonym timestamp = int
type_synonym seconds = rat
type_synonym ('k, 'v) dict = "('k \<times> 'v) list"

abbreviation dict_get :: "('k, 'v) dict \<Rightarrow> 'k \<Rightarrow> 'v option" where
  "dict_get d k \<equiv> map_of d k"

abbreviation dict_set :: "'k \<Rightarrow> 'v \<Rightarrow> ('k, 'v) dict \<Rightarrow> ('k, 'v) dict" where
  "dict_set k v d \<equiv> AList.update k v d"

abbreviation dict_pop :: "'k \<Rightarrow> ('k, 'v) dict \<Rightarrow> ('k, 'v) dict" where
  "dict_pop k d \<equiv> AList.delete k d"

abbreviation dict_values :: "('k, 'v) dict \<Rightarrow> 'v list" where
  "dict_values d \<equiv> map snd d"

abbreviation dict_keys :: "('k, 'v) dict \<Rightarrow> 'k list" where
  "dict_keys d \<equiv> map fst d"

text \<open>A dictionary never holds a key twice.\<close>

abbreviation dict_ok :: "('k, 'v) dict \<Rightarrow> bool" where
  "dict_ok d \<equiv> distinct (map fst d)"

subsection \<open>Strings\<close>

text \<open>
  \<open>str.isspace\<close> on the code points a \<open>char\<close> can hold, and \<open>not s.strip()\<close>. Pydantic's
  \<open>min_length=1\<close> accepts a blank string; the code's own \<open>strip()\<close> checks do not.
\<close>

definition py_space :: "char \<Rightarrow> bool" where
  "py_space c \<longleftrightarrow> (let n = (of_char c :: nat) in
     (9 \<le> n \<and> n \<le> 13) \<or> (28 \<le> n \<and> n \<le> 32) \<or> n = 133 \<or> n = 160)"

definition blank :: "string \<Rightarrow> bool" where
  "blank s \<longleftrightarrow> list_all py_space s"

definition ascii_alnum :: "char \<Rightarrow> bool" where
  "ascii_alnum c \<longleftrightarrow> (let n = (of_char c :: nat) in
     (48 \<le> n \<and> n \<le> 57) \<or> (65 \<le> n \<and> n \<le> 90) \<or> (97 \<le> n \<and> n \<le> 122))"

definition hex_digit :: "char \<Rightarrow> bool" where
  "hex_digit c \<longleftrightarrow> (let n = (of_char c :: nat) in
     (48 \<le> n \<and> n \<le> 57) \<or> (97 \<le> n \<and> n \<le> 102))"

text \<open>A pattern of the form \<open>^[A-Za-z0-9][A-Za-z0-9<extra>]*$\<close>.\<close>

definition name_pattern :: "string \<Rightarrow> string \<Rightarrow> bool" where
  "name_pattern extra s \<longleftrightarrow> (case s of [] \<Rightarrow> False
     | c # cs \<Rightarrow> ascii_alnum c \<and> list_all (\<lambda>d. ascii_alnum d \<or> d \<in> set extra) cs)"

text \<open>The pattern \<open>^[0-9a-f]{64}$\<close> of a hexadecimal SHA-256 digest.\<close>

definition sha256_pattern :: "string \<Rightarrow> bool" where
  "sha256_pattern s \<longleftrightarrow> length s = 64 \<and> list_all hex_digit s"

definition within_length :: "nat \<Rightarrow> string \<Rightarrow> bool" where
  "within_length n s \<longleftrightarrow> 1 \<le> length s \<and> length s \<le> n"

text \<open>Decimal rendering of an integer, as in an f-string.\<close>

fun nat_digits :: "nat \<Rightarrow> string" where
  "nat_digits n = (if n < 10 then [char_of (48 + n)] else nat_digits (n div 10) @ [char_of (48 + n mod 10)])"

declare nat_digits.simps [simp del]

definition str_int :: "int \<Rightarrow> string" where
  "str_int i = (if i < 0 then ''-'' @ nat_digits (nat (- i)) else nat_digits (nat i))"

text \<open>\<open>str(uuid)\<close>: 32 hexadecimal digits in groups of 8, 4, 4, 4 and 12.\<close>

definition hex_char :: "nat \<Rightarrow> char" where
  "hex_char d = char_of (if d < 10 then 48 + d else 87 + d)"

fun hex_pad :: "nat \<Rightarrow> nat \<Rightarrow> string" where
  "hex_pad 0 n = []"
| "hex_pad (Suc w) n = hex_pad w (n div 16) @ [hex_char (n mod 16)]"

definition str_uuid :: "uuid \<Rightarrow> string" where
  "str_uuid u = (let h = hex_pad 32 u in
     take 8 h @ ''-'' @ take 4 (drop 8 h) @ ''-'' @ take 4 (drop 12 h) @ ''-'' @
     take 4 (drop 16 h) @ ''-'' @ drop 20 h)"

lemma blank_Nil [simp]: "blank []"
  by (simp add: blank_def)

lemma blank_append [simp]: "blank (s @ t) \<longleftrightarrow> blank s \<and> blank t"
  by (simp add: blank_def)

lemma not_blankD [dest]: "\<not> blank s \<Longrightarrow> s \<noteq> []"
  by auto

subsection \<open>Times\<close>

text \<open>Rounding half to even, as \<open>timedelta\<close> rounds fractional microseconds.\<close>

definition round_half_even :: "rat \<Rightarrow> int" where
  "round_half_even x = (let f = \<lfloor>x\<rfloor>; d = x - of_int f in
     if d < 1 / 2 then f else if 1 / 2 < d then f + 1 else if even f then f else f + 1)"

definition timedelta :: "seconds \<Rightarrow> timestamp" where
  "timedelta s = round_half_even (s * 1000000)"

definition total_seconds :: "timestamp \<Rightarrow> seconds" where
  "total_seconds d = of_int d / 1000000"

lemma round_half_even_of_int [simp]: "round_half_even (of_int n) = n"
  by (simp add: round_half_even_def)

lemma round_half_even_ge_floor: "\<lfloor>x\<rfloor> \<le> round_half_even x"
  by (simp add: round_half_even_def Let_def)

lemma timedelta_nonneg: "0 \<le> s \<Longrightarrow> 0 \<le> timedelta s"
proof -
  assume "0 \<le> s"
  then have "0 \<le> \<lfloor>s * 1000000\<rfloor>" by simp
  also have "\<dots> \<le> timedelta s" unfolding timedelta_def by (rule round_half_even_ge_floor)
  finally show ?thesis .
qed

text \<open>A duration of at least one microsecond does not vanish.\<close>

lemma timedelta_pos: "1 / 1000000 \<le> s \<Longrightarrow> 0 < timedelta s"
proof -
  assume "1 / 1000000 \<le> s"
  then have "1 \<le> s * 1000000" by (simp add: field_simps)
  then have "1 \<le> \<lfloor>s * 1000000\<rfloor>" by (simp add: le_floor_iff)
  also have "\<dots> \<le> timedelta s" unfolding timedelta_def by (rule round_half_even_ge_floor)
  finally show ?thesis by simp
qed

subsection \<open>Dictionaries\<close>

lemma dict_get_set [dict_simps, simp]:
  "dict_get (dict_set k v d) k' = (if k' = k then Some v else dict_get d k')"
  by (simp add: AList.update_conv)

lemma dict_get_pop [dict_simps]:
  "dict_get (dict_pop k d) k' = (if k' = k then None else dict_get d k')"
  by (simp add: AList.delete_conv)

lemma dict_ok_set [intro, simp]: "dict_ok d \<Longrightarrow> dict_ok (dict_set k v d)"
  by (rule AList.distinct_update)

lemma dict_ok_pop [intro, simp]: "dict_ok d \<Longrightarrow> dict_ok (dict_pop k d)"
  by (rule AList.distinct_delete)

lemma dict_keys_set: "set (dict_keys (dict_set k v d)) = insert k (set (dict_keys d))"
  by (simp add: AList.dom_update)

lemma dict_get_in_values: "dict_get d k = Some v \<Longrightarrow> v \<in> set (dict_values d)"
  by (metis image_eqI map_of_SomeD set_map snd_conv)

lemma dict_values_get: "dict_ok d \<Longrightarrow> v \<in> set (dict_values d) \<Longrightarrow> \<exists>k. dict_get d k = Some v"
  by (auto simp: map_of_eq_Some_iff)

lemma dict_get_keys: "dict_get d k = None \<longleftrightarrow> k \<notin> set (dict_keys d)"
  by (simp add: map_of_eq_None_iff)

text \<open>Properties that hold of every stored value.\<close>

definition dict_all :: "('k \<Rightarrow> 'v \<Rightarrow> bool) \<Rightarrow> ('k, 'v) dict \<Rightarrow> bool" where
  "dict_all P d \<longleftrightarrow> (\<forall>k v. dict_get d k = Some v \<longrightarrow> P k v)"

lemma dict_all_Nil [simp]: "dict_all P []"
  by (simp add: dict_all_def)

lemma dict_all_set [intro]: "dict_all P d \<Longrightarrow> P k v \<Longrightarrow> dict_all P (dict_set k v d)"
  by (simp add: dict_all_def)

lemma dict_all_mono: "dict_all P d \<Longrightarrow> (\<And>k v. dict_get d k = Some v \<Longrightarrow> P k v \<Longrightarrow> Q k v) \<Longrightarrow> dict_all Q d"
  by (simp add: dict_all_def)

lemma dict_allD: "dict_all P d \<Longrightarrow> dict_get d k = Some v \<Longrightarrow> P k v"
  by (simp add: dict_all_def)

subsection \<open>Lists\<close>

text \<open>\<open>len(set(xs)) == len(xs)\<close>.\<close>

definition unique_ids :: "'a list \<Rightarrow> bool" where
  "unique_ids xs \<longleftrightarrow> card (set xs) = length xs"

lemma unique_ids_distinct [simp]: "unique_ids xs \<longleftrightarrow> distinct xs"
  by (metis card_distinct distinct_card unique_ids_def)

text \<open>\<open>tuple(new if item.key == k else item for item in items)\<close>.\<close>

definition replace_by :: "('a \<Rightarrow> 'k) \<Rightarrow> 'k \<Rightarrow> 'a \<Rightarrow> 'a list \<Rightarrow> 'a list" where
  "replace_by key k y xs = map (\<lambda>x. if key x = k then y else x) xs"

lemma length_replace_by [simp]: "length (replace_by key k y xs) = length xs"
  by (simp add: replace_by_def)

lemma replace_by_map:
  assumes "\<And>x. x \<in> set xs \<Longrightarrow> key x = k \<Longrightarrow> g y = g x"
  shows "map g (replace_by key k y xs) = map g xs"
  using assms by (simp add: replace_by_def)

lemma replace_by_keys: "key y = k \<Longrightarrow> map key (replace_by key k y xs) = map key xs"
  by (rule replace_by_map) simp

lemma set_replace_by:
  "x \<in> set (replace_by key k y xs) \<Longrightarrow> x = y \<or> (x \<in> set xs \<and> key x \<noteq> k)"
  by (auto simp: replace_by_def split: if_splits)

lemma replace_by_Nil_iff [simp]: "replace_by key k y xs = [] \<longleftrightarrow> xs = []"
  by (simp add: replace_by_def)

lemma find_replace_by:
  assumes "key y = k" and "find (\<lambda>x. key x = k) xs \<noteq> None"
  shows "find (\<lambda>x. key x = k) (replace_by key k y xs) = Some y"
  using assms by (induction xs) (auto simp: replace_by_def)

lemma find_Some_in: "find P xs = Some x \<Longrightarrow> x \<in> set xs \<and> P x"
  by (auto simp: find_Some_iff)

text \<open>\<open>next((x for x in xs if P x), None)\<close> is \<open>find\<close>; \<open>range(1, n + 1)\<close> is \<open>[1..<Suc n]\<close>.\<close>

definition contiguous :: "('a \<Rightarrow> int) \<Rightarrow> 'a list \<Rightarrow> bool" where
  "contiguous sq xs \<longleftrightarrow> map sq xs = map int [1..<Suc (length xs)]"

lemma contiguous_Nil [simp]: "contiguous sq []"
  by (simp add: contiguous_def)

lemma contiguous_snoc:
  "contiguous sq (xs @ [x]) \<longleftrightarrow> contiguous sq xs \<and> sq x = int (length xs) + 1"
  by (auto simp: contiguous_def)

lemma contiguous_append:
  "contiguous sq xs \<Longrightarrow> (\<And>i. i < length ys \<Longrightarrow> sq (ys ! i) = int (length xs) + 1 + int i) \<Longrightarrow>
   contiguous sq (xs @ ys)"
proof (induction ys rule: rev_induct)
  case Nil
  then show ?case by simp
next
  case (snoc y ys)
  have "sq (ys ! i) = int (length xs) + 1 + int i" if "i < length ys" for i
    using snoc.prems(2)[of i] that by (simp add: nth_append)
  with snoc.IH snoc.prems(1) have "contiguous sq (xs @ ys)" by blast
  moreover have "sq y = int (length (xs @ ys)) + 1"
    using snoc.prems(2)[of "length ys"] by simp
  ultimately show ?case using contiguous_snoc[of sq "xs @ ys" y] by simp
qed

lemma contiguous_nth:
  "contiguous sq xs \<Longrightarrow> i < length xs \<Longrightarrow> sq (xs ! i) = int i + 1"
proof -
  assume c: "contiguous sq xs" and i: "i < length xs"
  have "map sq xs ! i = map int [1..<Suc (length xs)] ! i" using c by (simp add: contiguous_def)
  with i show ?thesis by (simp add: nth_append del: upt_Suc)
qed

subsection \<open>Exceptions\<close>

text \<open>
  The exception classes the modelled code raises. \<open>ValueError\<close> carries its text, because
  \<open>_transport_failure\<close> copies it into the Flow's error; no code reads the text of the others.
  \<open>OtherError\<close> is an exception of application code: its class name and its text.
\<close>

datatype exn =
    ValueError string
  | ValidationError
  | KeyError
  | IndexError
  | AssertionError
  | CancelledError
  | InvalidFlowTransitionError
  | FlowRunAlreadyExistsError
  | FlowRunNotFoundError
  | FlowRevisionConflictError
  | FlowLeaseUnavailableError
  | FlowLeaseLostError
  | UnsupportedFlowStrategyError
  | FlowSideEffectNotFoundError
  | FlowSideEffectConflictError
  | FlowSideEffectRevisionConflictError
  | InvalidFlowSideEffectTransitionError
  | ToolSideEffectContextError
  | ToolSideEffectRecorderError
  | ToolSideEffectReplayUnsafeError
  | FlowWorkIdempotencyConflictError
  | FlowWorkDeliveryLostError
  | FlowWorkNotFoundError
  | FlowWorkBlockedError string
  | FlowWorkReviewConflictError
  | FlowWorkReviewStateError
  | FlowDefinitionNotFoundError
  | FlowDefinitionConflictError
  | FlowDefinitionMismatchError
  | RunAlreadyExistsError
  | RunNotFoundError
  | RunNotCancellableError
  | ConversationAlreadyExistsError
  | ConversationNotFoundError
  | ConversationBusyError
  | ConversationProfileMismatchError
  | ConversationTurnNotFoundError
  | CheckpointNotFoundError
  | AttachmentNotFoundError
  | ArtifactNotFoundError
  | InvalidStateTransitionError
  | DuplicateToolError
  | ToolNotFoundError
  | ToolInvalidArgumentsError string
  | TimeoutError
  | OtherError string string

text \<open>What \<open>except ValueError\<close> catches: pydantic's \<open>ValidationError\<close> is a subclass.\<close>

definition is_value_error :: "exn \<Rightarrow> bool" where
  "is_value_error e \<longleftrightarrow> (case e of ValueError _ \<Rightarrow> True | ValidationError \<Rightarrow> True
     | UnsupportedFlowStrategyError \<Rightarrow> True
     | DuplicateToolError \<Rightarrow> True | ToolInvalidArgumentsError _ \<Rightarrow> True | _ \<Rightarrow> False)"

text \<open>\<open>type(exc).__name__\<close>.\<close>

fun exn_name :: "exn \<Rightarrow> string" where
  "exn_name (ValueError _) = ''ValueError''"
| "exn_name ValidationError = ''ValidationError''"
| "exn_name KeyError = ''KeyError''"
| "exn_name IndexError = ''IndexError''"
| "exn_name AssertionError = ''AssertionError''"
| "exn_name CancelledError = ''CancelledError''"
| "exn_name InvalidFlowTransitionError = ''InvalidFlowTransitionError''"
| "exn_name FlowRunAlreadyExistsError = ''FlowRunAlreadyExistsError''"
| "exn_name FlowRunNotFoundError = ''FlowRunNotFoundError''"
| "exn_name FlowRevisionConflictError = ''FlowRevisionConflictError''"
| "exn_name FlowLeaseUnavailableError = ''FlowLeaseUnavailableError''"
| "exn_name FlowLeaseLostError = ''FlowLeaseLostError''"
| "exn_name UnsupportedFlowStrategyError = ''UnsupportedFlowStrategyError''"
| "exn_name FlowSideEffectNotFoundError = ''FlowSideEffectNotFoundError''"
| "exn_name FlowSideEffectConflictError = ''FlowSideEffectConflictError''"
| "exn_name FlowSideEffectRevisionConflictError = ''FlowSideEffectRevisionConflictError''"
| "exn_name InvalidFlowSideEffectTransitionError = ''InvalidFlowSideEffectTransitionError''"
| "exn_name ToolSideEffectContextError = ''ToolSideEffectContextError''"
| "exn_name ToolSideEffectRecorderError = ''ToolSideEffectRecorderError''"
| "exn_name ToolSideEffectReplayUnsafeError = ''ToolSideEffectReplayUnsafeError''"
| "exn_name FlowWorkIdempotencyConflictError = ''FlowWorkIdempotencyConflictError''"
| "exn_name FlowWorkDeliveryLostError = ''FlowWorkDeliveryLostError''"
| "exn_name FlowWorkNotFoundError = ''FlowWorkNotFoundError''"
| "exn_name (FlowWorkBlockedError _) = ''FlowWorkBlockedError''"
| "exn_name FlowWorkReviewConflictError = ''FlowWorkReviewConflictError''"
| "exn_name FlowWorkReviewStateError = ''FlowWorkReviewStateError''"
| "exn_name FlowDefinitionNotFoundError = ''FlowDefinitionNotFoundError''"
| "exn_name FlowDefinitionConflictError = ''FlowDefinitionConflictError''"
| "exn_name FlowDefinitionMismatchError = ''FlowDefinitionMismatchError''"
| "exn_name RunAlreadyExistsError = ''RunAlreadyExistsError''"
| "exn_name RunNotFoundError = ''RunNotFoundError''"
| "exn_name RunNotCancellableError = ''RunNotCancellableError''"
| "exn_name ConversationAlreadyExistsError = ''ConversationAlreadyExistsError''"
| "exn_name ConversationNotFoundError = ''ConversationNotFoundError''"
| "exn_name ConversationBusyError = ''ConversationBusyError''"
| "exn_name ConversationProfileMismatchError = ''ConversationProfileMismatchError''"
| "exn_name ConversationTurnNotFoundError = ''ConversationTurnNotFoundError''"
| "exn_name CheckpointNotFoundError = ''CheckpointNotFoundError''"
| "exn_name AttachmentNotFoundError = ''AttachmentNotFoundError''"
| "exn_name ArtifactNotFoundError = ''ArtifactNotFoundError''"
| "exn_name InvalidStateTransitionError = ''InvalidStateTransitionError''"
| "exn_name DuplicateToolError = ''DuplicateToolError''"
| "exn_name ToolNotFoundError = ''ToolNotFoundError''"
| "exn_name (ToolInvalidArgumentsError _) = ''ToolInvalidArgumentsError''"
| "exn_name TimeoutError = ''TimeoutError''"
| "exn_name (OtherError n _) = n"

subsection \<open>Raising computations\<close>

text \<open>
  A result is the raised exception (\<open>Inl\<close>) or the value (\<open>Inr\<close>); a program threads a state
  through and keeps what was written before an exception.
\<close>

type_synonym ('s, 'e, 'a) prog = "'s \<Rightarrow> ('e + 'a) \<times> 's"

definition pret :: "'a \<Rightarrow> ('s, 'e, 'a) prog" where
  "pret x = (\<lambda>s. (Inr x, s))"

definition praise :: "'e \<Rightarrow> ('s, 'e, 'a) prog" where
  "praise e = (\<lambda>s. (Inl e, s))"

definition plift :: "'e + 'a \<Rightarrow> ('s, 'e, 'a) prog" where
  "plift r = (\<lambda>s. (r, s))"

definition pbind :: "('s, 'e, 'a) prog \<Rightarrow> ('a \<Rightarrow> ('s, 'e, 'b) prog) \<Rightarrow> ('s, 'e, 'b) prog" where
  "pbind m f = (\<lambda>s. case m s of (Inl e, s') \<Rightarrow> (Inl e, s') | (Inr x, s') \<Rightarrow> f x s')"

definition pget :: "('s, 'e, 's) prog" where
  "pget = (\<lambda>s. (Inr s, s))"

definition pput :: "('s \<Rightarrow> 's) \<Rightarrow> ('s, 'e, unit) prog" where
  "pput f = (\<lambda>s. (Inr (), f s))"

text \<open>\<open>try: m except E: h\<close>: the handler sees the exception and the state at the raise.\<close>

definition ptry :: "('s, 'e, 'a) prog \<Rightarrow> ('e + 'a \<Rightarrow> ('s, 'e, 'b) prog) \<Rightarrow> ('s, 'e, 'b) prog" where
  "ptry m h = (\<lambda>s. case m s of (r, s') \<Rightarrow> h r s')"

definition rbind :: "'e + 'a \<Rightarrow> ('a \<Rightarrow> 'e + 'b) \<Rightarrow> 'e + 'b" where
  "rbind r f = (case r of Inl e \<Rightarrow> Inl e | Inr x \<Rightarrow> f x)"

definition guard :: "bool \<Rightarrow> 'e \<Rightarrow> 'e + unit" where
  "guard b e = (if b then Inr () else Inl e)"

lemma pret_app [prog_simps, simp]: "pret x s = (Inr x, s)"
  and praise_app [prog_simps, simp]: "praise e s = (Inl e, s)"
  and plift_app [prog_simps, simp]: "plift r s = (r, s)"
  and pget_app [prog_simps, simp]: "pget s = (Inr s, s)"
  and pput_app [prog_simps, simp]: "pput f s = (Inr (), f s)"
  by (simp_all add: pret_def praise_def plift_def pget_def pput_def)

lemma pbind_app [prog_simps]:
  "pbind m f s = (case m s of (Inl e, s') \<Rightarrow> (Inl e, s') | (Inr x, s') \<Rightarrow> f x s')"
  by (simp add: pbind_def)

lemma ptry_app [prog_simps]: "ptry m h s = (case m s of (r, s') \<Rightarrow> h r s')"
  by (simp add: ptry_def)

lemma pbind_Inr_iff:
  "pbind m f s = (Inr y, t) \<longleftrightarrow> (\<exists>x s'. m s = (Inr x, s') \<and> f x s' = (Inr y, t))"
  by (auto simp: pbind_app split: prod.splits sum.splits)

lemma pbind_Inl_iff:
  "pbind m f s = (Inl e, t) \<longleftrightarrow>
   m s = (Inl e, t) \<or> (\<exists>x s'. m s = (Inr x, s') \<and> f x s' = (Inl e, t))"
  by (auto simp: pbind_app split: prod.splits sum.splits)

lemma pbind_step: "m s = (Inr x, s') \<Longrightarrow> pbind m f s = f x s'"
  and pbind_raise: "m s = (Inl e, s') \<Longrightarrow> pbind m f s = (Inl e, s')"
  by (simp_all add: pbind_app)

lemma rbind_simps [simp]: "rbind (Inl e) f = Inl e" "rbind (Inr x) f = f x"
  by (simp_all add: rbind_def)

lemma rbind_Inr_iff: "rbind r f = Inr y \<longleftrightarrow> (\<exists>x. r = Inr x \<and> f x = Inr y)"
  by (cases r) auto

lemma rbind_Inl_iff: "rbind r f = Inl e \<longleftrightarrow> r = Inl e \<or> (\<exists>x. r = Inr x \<and> f x = Inl e)"
  by (cases r) auto

lemma guard_simps [simp]: "guard True e = Inr ()" "guard False e = Inl e"
  by (simp_all add: guard_def)

lemma guard_Inr_iff [simp]: "guard b e = Inr u \<longleftrightarrow> b"
  and guard_Inl_iff [simp]: "guard b e = Inl e' \<longleftrightarrow> \<not> b \<and> e' = e"
  by (auto simp: guard_def)

text \<open>A run that did not raise, as an equation.\<close>

lemma succeeded: "\<not> isl (fst p) \<Longrightarrow> p = (Inr (projr (fst p)), snd p)"
  by (cases p) (auto simp: isl_def split: sum.splits elim: sumE)

lemmas result_iffs = pbind_Inr_iff pbind_Inl_iff rbind_Inr_iff rbind_Inl_iff

subsection \<open>Triples\<close>

text \<open>
  From every state with \<open>P\<close> a program ends with \<open>E\<close> when it raises and with \<open>Q\<close> when it returns.
\<close>

definition leads :: "('s \<Rightarrow> bool) \<Rightarrow> ('s, 'e, 'a) prog \<Rightarrow> ('e \<Rightarrow> 's \<Rightarrow> bool) \<Rightarrow> ('a \<Rightarrow> 's \<Rightarrow> bool) \<Rightarrow> bool" where
  "leads P m E Q \<longleftrightarrow> (\<forall>s. P s \<longrightarrow> (case m s of (Inl e, s') \<Rightarrow> E e s' | (Inr x, s') \<Rightarrow> Q x s'))"

lemma leadsI: "(\<And>s e s'. P s \<Longrightarrow> m s = (Inl e, s') \<Longrightarrow> E e s') \<Longrightarrow> (\<And>s x s'. P s \<Longrightarrow> m s = (Inr x, s') \<Longrightarrow> Q x s') \<Longrightarrow> leads P m E Q"
  by (auto simp: leads_def split: prod.split sum.split)

lemma leadsD: "leads P m E Q \<Longrightarrow> P s \<Longrightarrow> m s = (Inl e, s') \<Longrightarrow> E e s'" "leads P m E Q \<Longrightarrow> P s \<Longrightarrow> m s = (Inr x, s') \<Longrightarrow> Q x s'"
  by (auto simp: leads_def split: prod.splits sum.splits)

lemma leads_bind: "leads P m E M \<Longrightarrow> (\<And>x. leads (M x) (f x) E Q) \<Longrightarrow> leads P (pbind m f) E Q"
  by (rule leadsI) (auto simp: result_iffs dest: leadsD)

lemma leads_app: "leads P m E Q \<Longrightarrow> P s \<Longrightarrow> (case m s of (Inl e, s') \<Rightarrow> E e s' | (Inr x, s') \<Rightarrow> Q x s')"
  by (simp add: leads_def)

lemma leads_try:
  assumes m: "leads P m (\<lambda>e. M (Inl e)) (\<lambda>x. M (Inr x))" and h: "\<And>r. leads (M r) (h r) E Q"
  shows "leads P (ptry m h) E Q"
  unfolding leads_def
proof (intro allI impI)
  fix s assume s: "P s"
  obtain r s1 where r: "m s = (r, s1)" by (cases "m s")
  with leads_app [OF m s] have "M r s1" by (cases r) auto
  from leads_app [OF h this] r show "case ptry m h s of (Inl e, s') \<Rightarrow> E e s' | (Inr x, s') \<Rightarrow> Q x s'" by (simp add: ptry_app)
qed

lemma leads_conseq: "leads P' m E' Q' \<Longrightarrow> (\<And>s. P s \<Longrightarrow> P' s) \<Longrightarrow> (\<And>e s. E' e s \<Longrightarrow> E e s) \<Longrightarrow> (\<And>x s. Q' x s \<Longrightarrow> Q x s) \<Longrightarrow> leads P m E Q"
  by (rule leadsI) (metis leadsD(1), metis leadsD(2))

lemma leads_pre: "(\<And>s. P s \<Longrightarrow> leads ((=) s) m E Q) \<Longrightarrow> leads P m E Q"
  by (auto simp: leads_def)

lemma leads_ret: "(\<And>s. P s \<Longrightarrow> Q x s) \<Longrightarrow> leads P (pret x) E Q"
  by (simp add: leads_def)

lemma leads_raise: "(\<And>s. P s \<Longrightarrow> E e s) \<Longrightarrow> leads P (praise e) E Q"
  by (simp add: leads_def)

lemma leads_put: "(\<And>s. P s \<Longrightarrow> Q () (f s)) \<Longrightarrow> leads P (pput f) E Q"
  by (simp add: leads_def)

lemma leads_lift: "(\<And>s e. P s \<Longrightarrow> r = Inl e \<Longrightarrow> E e s) \<Longrightarrow> (\<And>s y. P s \<Longrightarrow> r = Inr y \<Longrightarrow> Q y s) \<Longrightarrow> leads P (plift r) E Q"
  by (auto simp: leads_def split: sum.split)

lemma leads_from: "leads P m E Q \<Longrightarrow> P s \<Longrightarrow> leads ((=) s) m E Q"
  by (auto simp: leads_def)

lemma leads_get: "(\<And>s. P s \<Longrightarrow> leads ((=) s) (f s) E Q) \<Longrightarrow> leads P (pbind pget f) E Q"
  by (simp add: leads_def pbind_app)

subsection \<open>The host: clock and identifiers\<close>

record host =
  clock_stream :: "nat \<Rightarrow> timestamp"
  clock_reads :: nat
  uuid_stream :: "nat \<Rightarrow> uuid"
  uuid_draws :: nat

definition utc_now :: "('a host_scheme, 'e, timestamp) prog" where
  "utc_now s = (Inr (clock_stream s (clock_reads s)), s\<lparr>clock_reads := Suc (clock_reads s)\<rparr>)"

definition uuid4 :: "('a host_scheme, 'e, uuid) prog" where
  "uuid4 s = (Inr (uuid_stream s (uuid_draws s)), s\<lparr>uuid_draws := Suc (uuid_draws s)\<rparr>)"

text \<open>\<open>now or self._clock()\<close>.\<close>

definition now_or_clock :: "timestamp option \<Rightarrow> ('a host_scheme, 'e, timestamp) prog" where
  "now_or_clock n = (case n of Some t \<Rightarrow> pret t | None \<Rightarrow> utc_now)"

lemma now_or_clock_Some [simp]: "now_or_clock (Some t) = pret t"
  by (simp add: now_or_clock_def)

lemma now_or_clock_Inl [simp]: "now_or_clock n s \<noteq> (Inl e, t)"
  by (simp add: now_or_clock_def utc_now_def split: option.splits)

subsection \<open>Properties that every step keeps\<close>

locale stable_property =
  fixes step :: "'s \<Rightarrow> 's \<Rightarrow> bool" and P :: "'s \<Rightarrow> bool"
  assumes step_keeps: "P s \<Longrightarrow> step s s' \<Longrightarrow> P s'"
begin

lemma steps_stable: "step\<^sup>*\<^sup>* s s' \<Longrightarrow> P s \<Longrightarrow> P s'"
  by (induction rule: rtranclp_induct) (auto intro: step_keeps)

end

end
