(* ===== verification/Flow_Models.thy ===== *)
theory Flow_Models
  imports Prelude
begin

text \<open>
  The serialisable data of the Flow layer: run and result statuses, token usage, attachments
  and artifacts, agent and Flow definitions, budgets, handoffs, requests and results, as in
  \<open>flows/models.py\<close>, \<open>models/*.py\<close> and \<open>profiles.py\<close>. Every pydantic model is a record; its
  field constraints and validators are one executable predicate \<open>valid_\<dots>\<close>, and where the code
  constructs a model the constructor is a function that raises \<open>ValidationError\<close> when the
  predicate fails. A record update is \<open>model_copy(update=...)\<close>, which runs no validator.

  A content hash (\<open>sha256\<close> of a canonical JSON text) is a parameter \<open>digest\<close> of the
  definitions that use it; the theorems hold for every \<open>digest\<close>.
\<close>

subsection \<open>JSON values\<close>

datatype json =
    JNull
  | JBool bool
  | JInt int
  | JFloat rat
  | JStr string
  | JList "json list"
  | JObj "(string \<times> json) list"

type_synonym jobj = "(string, json) dict"

text \<open>Python's \<open>==\<close>: booleans and numbers compare by value, objects ignore key order.\<close>

fun json_number :: "json \<Rightarrow> rat option" where
  "json_number (JBool b) = Some (if b then 1 else 0)"
| "json_number (JInt i) = Some (of_int i)"
| "json_number (JFloat x) = Some x"
| "json_number _ = None"

lemma zip_size_fst [termination_simp]:
  "(a, b) \<in> set (zip xs ys) \<Longrightarrow> size a < Suc (size_list size xs)"
  by (drule set_zip_leftD) (meson le_imp_less_Suc size_list_estimation' order_refl)

fun json_eq :: "json \<Rightarrow> json \<Rightarrow> bool" where
  "json_eq JNull y = (y = JNull)"
| "json_eq (JStr s) y = (y = JStr s)"
| "json_eq (JList xs) y = (case y of
     JList ys \<Rightarrow> length xs = length ys \<and> list_all (\<lambda>(a, b). json_eq a b) (zip xs ys)
   | _ \<Rightarrow> False)"
| "json_eq (JObj xs) y = (case y of
     JObj ys \<Rightarrow> length xs = length ys \<and>
       list_all (\<lambda>(k, v). case map_of ys k of None \<Rightarrow> False | Some w \<Rightarrow> json_eq v w) xs
   | _ \<Rightarrow> False)"
| "json_eq x y = (json_number y \<noteq> None \<and> json_number x = json_number y)"

definition jobj_eq :: "jobj \<Rightarrow> jobj \<Rightarrow> bool" where
  "jobj_eq a b = json_eq (JObj a) (JObj b)"


subsection \<open>Statuses\<close>

datatype run_status =
    Created | Running | Completed | Failed | Cancelled | Interrupted | LimitReached | Waiting

datatype agent_result_status =
    ACompleted | AFailed | ACancelled | AInterrupted | ALimitReached | AWaiting

text \<open>\<open>_RESULT_TO_RUN_STATUS\<close> and its inverse dictionary \<open>_RUN_TO_RESULT_STATUS\<close>.\<close>

fun result_to_run_status :: "agent_result_status \<Rightarrow> run_status" where
  "result_to_run_status ACompleted = Completed"
| "result_to_run_status AFailed = Failed"
| "result_to_run_status ACancelled = Cancelled"
| "result_to_run_status AInterrupted = Interrupted"
| "result_to_run_status ALimitReached = LimitReached"
| "result_to_run_status AWaiting = Waiting"

fun run_to_result_status :: "run_status \<Rightarrow> agent_result_status option" where
  "run_to_result_status Completed = Some ACompleted"
| "run_to_result_status Failed = Some AFailed"
| "run_to_result_status Cancelled = Some ACancelled"
| "run_to_result_status Interrupted = Some AInterrupted"
| "run_to_result_status LimitReached = Some ALimitReached"
| "run_to_result_status Waiting = Some AWaiting"
| "run_to_result_status _ = None"

definition terminal_statuses :: "run_status list" where
  "terminal_statuses = [Completed, Failed, Cancelled, Interrupted, LimitReached]"

definition error_statuses :: "run_status list" where
  "error_statuses = filter (\<lambda>s. s \<noteq> Completed) terminal_statuses"

abbreviation terminal :: "run_status \<Rightarrow> bool" where
  "terminal s \<equiv> s \<in> set terminal_statuses"

abbreviation error_status :: "run_status \<Rightarrow> bool" where
  "error_status s \<equiv> s \<in> set error_statuses"

lemma terminal_iff: "terminal s \<longleftrightarrow> s \<notin> {Created, Running, Waiting}"
  by (cases s) (simp_all add: terminal_statuses_def)

lemma error_status_iff: "error_status s \<longleftrightarrow> terminal s \<and> s \<noteq> Completed"
  by (auto simp: error_statuses_def)

lemma terminal_simps [simp]:
  "terminal Completed" "terminal Failed" "terminal Cancelled" "terminal Interrupted"
  "terminal LimitReached" "\<not> terminal Created" "\<not> terminal Running" "\<not> terminal Waiting"
  by (simp_all add: terminal_statuses_def)

lemma error_status_simps [simp]:
  "\<not> error_status Completed" "error_status Failed" "error_status Cancelled"
  "error_status Interrupted" "error_status LimitReached" "\<not> error_status Created"
  "\<not> error_status Running" "\<not> error_status Waiting"
  by (simp_all add: error_status_iff)

lemma run_to_result_inverse: "run_to_result_status s = Some r \<longleftrightarrow> result_to_run_status r = s"
  by (cases s; cases r) simp_all

lemma result_to_run_iffs [simp]:
  "result_to_run_status r = Waiting \<longleftrightarrow> r = AWaiting"
  "result_to_run_status r = Completed \<longleftrightarrow> r = ACompleted"
  "result_to_run_status r \<noteq> Running" "result_to_run_status r \<noteq> Created"
  by (cases r; simp)+

lemma terminal_result: "terminal (result_to_run_status r) \<longleftrightarrow> r \<noteq> AWaiting"
  by (cases r) simp_all

lemma error_status_result: "error_status s \<Longrightarrow>
  \<exists>r. run_to_result_status s = Some r \<and> result_to_run_status r = s \<and> r \<notin> {ACompleted, AWaiting}"
  by (cases s) simp_all

subsection \<open>Token usage\<close>

record token_usage =
  input_tokens :: int
  output_tokens :: int
  total_tokens :: int

text \<open>
  The \<open>before\<close> validator fills in \<open>total_tokens\<close>; a caller's total must be 0 or the sum. The
  fields must then be non-negative.
\<close>

definition mk_token_usage :: "int \<Rightarrow> int \<Rightarrow> int \<Rightarrow> exn + token_usage" where
  "mk_token_usage i u t =
     (if t \<noteq> 0 \<and> t \<noteq> i + u then Inl ValidationError
      else if i < 0 \<or> u < 0 \<or> i + u < 0 then Inl ValidationError
      else Inr \<lparr>input_tokens = i, output_tokens = u, total_tokens = i + u\<rparr>)"

definition no_usage :: token_usage where
  "no_usage = \<lparr>input_tokens = 0, output_tokens = 0, total_tokens = 0\<rparr>"

definition valid_usage :: "token_usage \<Rightarrow> bool" where
  "valid_usage u \<longleftrightarrow> 0 \<le> input_tokens u \<and> 0 \<le> output_tokens u \<and>
     total_tokens u = input_tokens u + output_tokens u"

text \<open>\<open>__add__\<close>; the constructor cannot fail on two valid usages.\<close>

definition add_usage :: "token_usage \<Rightarrow> token_usage \<Rightarrow> token_usage" where
  "add_usage a b = \<lparr>input_tokens = input_tokens a + input_tokens b,
     output_tokens = output_tokens a + output_tokens b,
     total_tokens = input_tokens a + input_tokens b + (output_tokens a + output_tokens b)\<rparr>"

lemma mk_token_usage_valid: "mk_token_usage i u t = Inr x \<Longrightarrow> valid_usage x"
  by (auto simp: mk_token_usage_def valid_usage_def split: if_splits)

lemma valid_no_usage [simp]: "valid_usage no_usage"
  by (simp add: no_usage_def valid_usage_def)

lemma add_usage_mk:
  "valid_usage a \<Longrightarrow> valid_usage b \<Longrightarrow>
   mk_token_usage (input_tokens a + input_tokens b) (output_tokens a + output_tokens b) 0
     = Inr (add_usage a b)"
  by (auto simp: mk_token_usage_def add_usage_def valid_usage_def)

lemma add_usage_valid [intro]: "valid_usage a \<Longrightarrow> valid_usage b \<Longrightarrow> valid_usage (add_usage a b)"
  by (simp add: add_usage_def valid_usage_def)

subsection \<open>Attachments, artifacts and human input\<close>

record attachment =
  att_id :: uuid
  att_name :: string
  att_media_type :: string
  att_size_bytes :: int
  att_checksum :: string
  att_created_at :: timestamp
  att_metadata :: jobj

record artifact =
  art_id :: uuid
  art_run_id :: uuid
  art_name :: string
  art_media_type :: string
  art_size_bytes :: int
  art_checksum :: string
  art_created_at :: timestamp
  art_metadata :: jobj

record pending_input =
  pi_tool_call_id :: string
  pi_tool_name :: string
  pi_prompt :: string
  pi_metadata :: jobj

datatype confirmation_decision = Approve | Reject

record tool_confirmation =
  tc_request_id :: uuid
  tc_decision :: confirmation_decision
  tc_subject_id :: string
  tc_reason_code :: string
  tc_decided_at :: timestamp

definition valid_pending_input :: "pending_input \<Rightarrow> bool" where
  "valid_pending_input p \<longleftrightarrow> pi_tool_call_id p \<noteq> [] \<and> pi_tool_name p \<noteq> [] \<and> pi_prompt p \<noteq> []"

definition valid_confirmation :: "tool_confirmation \<Rightarrow> bool" where
  "valid_confirmation c \<longleftrightarrow> within_length 256 (tc_subject_id c) \<and>
     within_length 256 (tc_reason_code c) \<and> name_pattern ''_.:-'' (tc_reason_code c)"

subsection \<open>Definitions\<close>

record agent_profile =
  ap_id :: string
  ap_instructions :: string
  ap_model :: "string option"
  ap_tools :: "string list"
  ap_skills :: "string list"
  ap_permissions :: "string set"
  ap_max_steps :: int
  ap_max_tool_calls :: int
  ap_duplicate_threshold :: int
  ap_max_failures :: int
  ap_max_result_bytes :: int

record agent_definition = agent_profile +
  ad_version :: string

definition valid_profile :: "'a agent_profile_scheme \<Rightarrow> bool" where
  "valid_profile p \<longleftrightarrow> within_length 128 (ap_id p) \<and>
     list_all (\<lambda>c. ascii_alnum c \<or> c \<in> set ''_.-'') (ap_id p) \<and> ap_instructions p \<noteq> [] \<and>
     1 \<le> ap_max_steps p \<and> 1 \<le> ap_max_tool_calls p \<and> 2 \<le> ap_duplicate_threshold p \<and>
     1 \<le> ap_max_failures p \<and> 512 \<le> ap_max_result_bytes p"

definition valid_agent_definition :: "agent_definition \<Rightarrow> bool" where
  "valid_agent_definition d \<longleftrightarrow> valid_profile d \<and> within_length 64 (ad_version d) \<and>
     name_pattern ''._+-'' (ad_version d)"

text \<open>\<open>to_profile\<close> drops the version.\<close>

definition to_profile :: "agent_definition \<Rightarrow> agent_profile" where
  "to_profile d = agent_profile.truncate d"

definition agent_fingerprint :: "(json \<Rightarrow> string) \<Rightarrow> agent_definition \<Rightarrow> string" where
  "agent_fingerprint digest d = digest (JObj [
     (''duplicate_tool_call_threshold'', JInt (ap_duplicate_threshold d)),
     (''id'', JStr (ap_id d)),
     (''instructions'', JStr (ap_instructions d)),
     (''max_consecutive_tool_failures'', JInt (ap_max_failures d)),
     (''max_steps'', JInt (ap_max_steps d)),
     (''max_tool_calls'', JInt (ap_max_tool_calls d)),
     (''max_tool_result_bytes'', JInt (ap_max_result_bytes d)),
     (''model'', case ap_model d of None \<Rightarrow> JNull | Some m \<Rightarrow> JStr m),
     (''permissions'', JList (map JStr (sorted_list_of_set (ap_permissions d)))),
     (''skills'', JList (map JStr (ap_skills d))),
     (''tools'', JList (map JStr (ap_tools d))),
     (''version'', JStr (ad_version d))])"

record flow_agent =
  fa_key :: string
  fa_definition :: agent_definition

record flow_budget =
  max_invocations :: int
  max_input_tokens :: "int option"
  max_output_tokens :: "int option"
  max_total_tokens :: "int option"
  max_model_calls :: "int option"
  max_tool_calls :: "int option"
  timeout_seconds :: "seconds option"

definition default_budget :: flow_budget where
  "default_budget = \<lparr>max_invocations = 20, max_input_tokens = None, max_output_tokens = None,
     max_total_tokens = None, max_model_calls = None, max_tool_calls = None,
     timeout_seconds = None\<rparr>"

definition opt_all :: "('a \<Rightarrow> bool) \<Rightarrow> 'a option \<Rightarrow> bool" where
  "opt_all P x \<longleftrightarrow> (case x of None \<Rightarrow> True | Some y \<Rightarrow> P y)"

lemma opt_all_simps [simp]: "opt_all P None" "opt_all P (Some y) \<longleftrightarrow> P y"
  by (simp_all add: opt_all_def)

definition valid_budget :: "flow_budget \<Rightarrow> bool" where
  "valid_budget b \<longleftrightarrow> 1 \<le> max_invocations b \<and> opt_all (\<lambda>n. 1 \<le> n) (max_input_tokens b) \<and>
     opt_all (\<lambda>n. 1 \<le> n) (max_output_tokens b) \<and> opt_all (\<lambda>n. 1 \<le> n) (max_total_tokens b) \<and>
     opt_all (\<lambda>n. 1 \<le> n) (max_model_calls b) \<and> opt_all (\<lambda>n. 1 \<le> n) (max_tool_calls b) \<and>
     opt_all (\<lambda>x. 0 < x) (timeout_seconds b)"

record flow_definition =
  fd_id :: string
  fd_version :: string
  fd_agents :: "flow_agent list"
  fd_strategy :: string
  fd_budget :: flow_budget
  fd_metadata :: jobj

text \<open>\<open>_KEY_PATTERN\<close> and \<open>_VERSION_PATTERN\<close> with the length bounds of the fields that use them.\<close>

definition valid_key :: "string \<Rightarrow> bool" where
  "valid_key s \<longleftrightarrow> within_length 128 s \<and> name_pattern ''_.-'' s"

definition valid_version :: "string \<Rightarrow> bool" where
  "valid_version s \<longleftrightarrow> within_length 64 s \<and> name_pattern ''._+-'' s"

definition valid_flow_definition :: "flow_definition \<Rightarrow> bool" where
  "valid_flow_definition d \<longleftrightarrow> valid_key (fd_id d) \<and> valid_version (fd_version d) \<and>
     fd_agents d \<noteq> [] \<and> list_all (\<lambda>a. valid_key (fa_key a) \<and>
       valid_agent_definition (fa_definition a)) (fd_agents d) \<and>
     valid_key (fd_strategy d) \<and> valid_budget (fd_budget d) \<and>
     unique_ids (map fa_key (fd_agents d))"

text \<open>\<open>FlowDefinition.agent\<close>.\<close>

fun find_agent :: "flow_agent list \<Rightarrow> string \<Rightarrow> exn + agent_definition" where
  "find_agent [] k = Inl KeyError"
| "find_agent (a # as) k = (if fa_key a = k then Inr (fa_definition a) else find_agent as k)"

definition flow_agent_of :: "flow_definition \<Rightarrow> string \<Rightarrow> exn + agent_definition" where
  "flow_agent_of d k = find_agent (fd_agents d) k"

definition opt_json :: "('a \<Rightarrow> json) \<Rightarrow> 'a option \<Rightarrow> json" where
  "opt_json f x = (case x of None \<Rightarrow> JNull | Some y \<Rightarrow> f y)"

text \<open>\<open>budget.model_dump(mode="json")\<close>.\<close>

definition budget_json :: "flow_budget \<Rightarrow> json" where
  "budget_json b = JObj [
     (''schema_version'', JStr ''1''),
     (''max_invocations'', JInt (max_invocations b)),
     (''max_input_tokens'', opt_json JInt (max_input_tokens b)),
     (''max_output_tokens'', opt_json JInt (max_output_tokens b)),
     (''max_total_tokens'', opt_json JInt (max_total_tokens b)),
     (''max_model_calls'', opt_json JInt (max_model_calls b)),
     (''max_tool_calls'', opt_json JInt (max_tool_calls b)),
     (''timeout_seconds'', opt_json JFloat (timeout_seconds b))]"

definition flow_fingerprint :: "(json \<Rightarrow> string) \<Rightarrow> flow_definition \<Rightarrow> string" where
  "flow_fingerprint digest d = digest (JObj [
     (''agents'', JList (map (\<lambda>a. JObj [
        (''definition_fingerprint'', JStr (agent_fingerprint digest (fa_definition a))),
        (''key'', JStr (fa_key a))]) (fd_agents d))),
     (''id'', JStr (fd_id d)),
     (''budget'', budget_json (fd_budget d)),
     (''metadata'', JObj (fd_metadata d)),
     (''strategy'', JStr (fd_strategy d)),
     (''version'', JStr (fd_version d))])"

lemma find_agent_distinct:
  "distinct (map fa_key as) \<Longrightarrow> i < length as \<Longrightarrow>
   find_agent as (fa_key (as ! i)) = Inr (fa_definition (as ! i))"
proof (induction as arbitrary: i)
  case (Cons a as)
  then show ?case by (cases i) force+
qed simp

subsection \<open>Handoffs, requests and results\<close>

record agent_handoff =
  ho_source_agent_key :: string
  ho_summary :: string
  ho_data :: jobj
  ho_artifacts :: "artifact list"

record agent_invocation_input =
  ii_prompt :: string
  ii_handoff :: "agent_handoff option"
  ii_attachments :: "attachment list"

record flow_input =
  fi_prompt :: string
  fi_attachments :: "attachment list"

record agent_invocation_request =
  rq_flow_run_id :: uuid
  rq_invocation_id :: uuid
  rq_sequence :: int
  rq_agent_key :: string
  rq_definition_id :: string
  rq_definition_version :: string
  rq_definition_fingerprint :: string
  rq_input :: agent_invocation_input

record agent_invocation_resume =
  rs_flow_run_id :: uuid
  rs_invocation_id :: uuid
  rs_agent_key :: string
  rs_user_input :: "string option"
  rs_confirmation :: "tool_confirmation option"

record agent_invocation_cancel =
  cn_flow_run_id :: uuid
  cn_invocation_id :: uuid
  cn_agent_key :: string
  cn_reason :: string

record agent_invocation_result =
  ar_flow_run_id :: uuid
  ar_invocation_id :: uuid
  ar_agent_key :: string
  ar_status :: agent_result_status
  ar_output :: "string option"
  ar_usage :: token_usage
  ar_artifacts :: "artifact list"
  ar_pending_input :: "pending_input option"
  ar_error :: "string option"
  ar_metadata :: jobj

record flow_result =
  fr_run_id :: uuid
  fr_status :: run_status
  fr_output :: "string option"
  fr_usage :: token_usage
  fr_artifacts :: "artifact list"
  fr_invocation_count :: int
  fr_model_call_count :: int
  fr_tool_call_count :: int
  fr_waiting_invocation_id :: "uuid option"
  fr_pending_input :: "pending_input option"
  fr_error :: "string option"

text \<open>\<open>not self.error\<close>: absent or empty.\<close>

definition falsy :: "string option \<Rightarrow> bool" where
  "falsy x \<longleftrightarrow> (case x of None \<Rightarrow> True | Some s \<Rightarrow> s = [])"

lemma falsy_simps [simp]: "falsy None" "falsy (Some s) \<longleftrightarrow> s = []"
  by (simp_all add: falsy_def)

definition valid_handoff :: "agent_handoff \<Rightarrow> bool" where
  "valid_handoff h \<longleftrightarrow> valid_key (ho_source_agent_key h) \<and> ho_summary h \<noteq> [] \<and>
     unique_ids (map art_id (ho_artifacts h))"

definition valid_invocation_input :: "agent_invocation_input \<Rightarrow> bool" where
  "valid_invocation_input i \<longleftrightarrow> ii_prompt i \<noteq> [] \<and> unique_ids (map att_id (ii_attachments i)) \<and>
     opt_all valid_handoff (ii_handoff i)"

definition valid_flow_input :: "flow_input \<Rightarrow> bool" where
  "valid_flow_input i \<longleftrightarrow> fi_prompt i \<noteq> [] \<and> unique_ids (map att_id (fi_attachments i))"

definition valid_request :: "agent_invocation_request \<Rightarrow> bool" where
  "valid_request r \<longleftrightarrow> 1 \<le> rq_sequence r \<and> valid_key (rq_agent_key r) \<and>
     valid_key (rq_definition_id r) \<and> valid_version (rq_definition_version r) \<and>
     sha256_pattern (rq_definition_fingerprint r) \<and> valid_invocation_input (rq_input r)"

definition valid_resume :: "agent_invocation_resume \<Rightarrow> bool" where
  "valid_resume r \<longleftrightarrow> valid_key (rs_agent_key r) \<and> rs_user_input r \<noteq> Some [] \<and>
     (rs_user_input r = None) \<noteq> (rs_confirmation r = None)"

definition valid_cancel :: "agent_invocation_cancel \<Rightarrow> bool" where
  "valid_cancel r \<longleftrightarrow> valid_key (cn_agent_key r) \<and> within_length 1000 (cn_reason r)"

definition valid_result :: "agent_invocation_result \<Rightarrow> bool" where
  "valid_result r \<longleftrightarrow> valid_key (ar_agent_key r) \<and> valid_usage (ar_usage r) \<and>
     unique_ids (map art_id (ar_artifacts r)) \<and>
     (if ar_status r = AWaiting then ar_pending_input r \<noteq> None else ar_pending_input r = None) \<and>
     \<not> (ar_status r \<in> {AFailed, ACancelled, AInterrupted, ALimitReached} \<and> falsy (ar_error r)) \<and>
     \<not> (ar_status r = ACompleted \<and> ar_error r \<noteq> None)"

definition valid_flow_result :: "flow_result \<Rightarrow> bool" where
  "valid_flow_result r \<longleftrightarrow> 0 \<le> fr_invocation_count r \<and> 0 \<le> fr_model_call_count r \<and>
     0 \<le> fr_tool_call_count r \<and>
     \<not> (fr_status r = Waiting \<and> (fr_waiting_invocation_id r = None \<or> fr_pending_input r = None)) \<and>
     \<not> (fr_status r \<noteq> Waiting \<and>
        (fr_waiting_invocation_id r \<noteq> None \<or> fr_pending_input r \<noteq> None)) \<and>
     \<not> (fr_status r \<in> {Failed, Cancelled, Interrupted, LimitReached} \<and> falsy (fr_error r)) \<and>
     \<not> (fr_status r = Completed \<and> fr_error r \<noteq> None)"

text \<open>Constructing a model runs its validators.\<close>

definition construct :: "('a \<Rightarrow> bool) \<Rightarrow> 'a \<Rightarrow> exn + 'a" where
  "construct P x = (if P x then Inr x else Inl ValidationError)"

lemma construct_Inr_iff [simp]: "construct P x = Inr y \<longleftrightarrow> P x \<and> y = x"
  and construct_Inl_iff [simp]: "construct P x = Inl e \<longleftrightarrow> \<not> P x \<and> e = ValidationError"
  by (auto simp: construct_def)

end
