(* ===== verification/Flow_Lifecycle.thy ===== *)
theory Flow_Lifecycle
  imports Flow_Models
begin

text \<open>
  \<open>flows/lifecycle.py\<close>: the immutable aggregate of one Flow Run and its agent invocations.
  Every transition returns a new aggregate through \<open>model_copy\<close>, which runs no validator; the
  validators \<open>validate_result\<close> and \<open>validate_state\<close> are therefore claims about the transitions,
  and this theory proves them as the invariant \<open>flow_inv\<close>. The times a transition reads from
  the clock are its arguments.
\<close>

subsection \<open>Agent invocations\<close>

record agent_invocation =
  inv_id :: uuid
  inv_flow_run_id :: uuid
  inv_sequence :: int
  inv_agent_key :: string
  inv_definition_id :: string
  inv_definition_version :: string
  inv_definition_fingerprint :: string
  inv_input :: agent_invocation_input
  inv_status :: run_status
  inv_result :: "agent_invocation_result option"
  inv_created_at :: timestamp
  inv_updated_at :: timestamp

text \<open>\<open>_validate_result_identity\<close>, also written out in \<open>settle\<close>.\<close>

definition check_result_identity :: "agent_invocation \<Rightarrow> agent_invocation_result \<Rightarrow> exn + unit" where
  "check_result_identity i r =
     (if ar_flow_run_id r \<noteq> inv_flow_run_id i
      then Inl (ValueError ''AgentInvocation result flow_run_id does not match'')
      else if ar_invocation_id r \<noteq> inv_id i
      then Inl (ValueError ''AgentInvocation result invocation_id does not match'')
      else if ar_agent_key r \<noteq> inv_agent_key i
      then Inl (ValueError ''AgentInvocation result agent_key does not match'')
      else Inr ())"

definition matches_result :: "agent_invocation \<Rightarrow> agent_invocation_result \<Rightarrow> bool" where
  "matches_result i r \<longleftrightarrow> ar_flow_run_id r = inv_flow_run_id i \<and> ar_invocation_id r = inv_id i \<and>
     ar_agent_key r = inv_agent_key i"

lemma check_result_identity_Inr [simp]: "check_result_identity i r = Inr u \<longleftrightarrow> matches_result i r"
  by (simp add: check_result_identity_def matches_result_def)

lemma check_result_identity_Inl:
  "check_result_identity i r = Inl e \<Longrightarrow> is_value_error e \<and> \<not> matches_result i r"
  by (auto simp: check_result_identity_def matches_result_def is_value_error_def split: if_splits)

text \<open>The field constraints and the validator \<open>validate_result\<close>.\<close>

definition valid_invocation :: "agent_invocation \<Rightarrow> bool" where
  "valid_invocation i \<longleftrightarrow> 1 \<le> inv_sequence i \<and> sha256_pattern (inv_definition_fingerprint i) \<and>
     (case inv_status i of
        Created \<Rightarrow> inv_result i = None
      | Running \<Rightarrow> (case inv_result i of None \<Rightarrow> True
           | Some r \<Rightarrow> ar_status r = AWaiting \<and> matches_result i r)
      | s \<Rightarrow> (case inv_result i of None \<Rightarrow> False
           | Some r \<Rightarrow> matches_result i r \<and> result_to_run_status (ar_status r) = s))"

definition inv_usage :: "agent_invocation \<Rightarrow> token_usage" where
  "inv_usage i = (case inv_result i of None \<Rightarrow> no_usage | Some r \<Rightarrow> ar_usage r)"

definition settle :: "timestamp \<Rightarrow> agent_invocation_result \<Rightarrow> agent_invocation \<Rightarrow> exn + agent_invocation" where
  "settle t r i =
     (if inv_status i \<notin> {Running, Waiting} then Inl InvalidFlowTransitionError
      else rbind (check_result_identity i r) (\<lambda>_.
        Inr (i\<lparr>inv_status := result_to_run_status (ar_status r), inv_result := Some r,
               inv_updated_at := t\<rparr>)))"

definition resume :: "timestamp \<Rightarrow> agent_invocation \<Rightarrow> exn + agent_invocation" where
  "resume t i =
     (if inv_status i \<noteq> Waiting then Inl InvalidFlowTransitionError
      else Inr (i\<lparr>inv_status := Running, inv_updated_at := t\<rparr>))"

definition terminate :: "timestamp \<Rightarrow> run_status \<Rightarrow> string \<Rightarrow> agent_invocation \<Rightarrow> exn + agent_invocation" where
  "terminate t st err i =
     (if \<not> error_status st
      then Inl (ValueError ''AgentInvocation termination requires an error status'')
      else if blank err then Inl (ValueError ''AgentInvocation termination requires an error'')
      else if inv_status i \<notin> {Created, Running, Waiting} then Inl InvalidFlowTransitionError
      else case run_to_result_status st of None \<Rightarrow> Inl KeyError
      | Some rst \<Rightarrow>
        rbind (construct valid_result
          \<lparr>ar_flow_run_id = inv_flow_run_id i, ar_invocation_id = inv_id i,
           ar_agent_key = inv_agent_key i, ar_status = rst, ar_output = None,
           ar_usage = inv_usage i,
           ar_artifacts = (case inv_result i of None \<Rightarrow> [] | Some r \<Rightarrow> ar_artifacts r),
           ar_pending_input = None, ar_error = Some err, ar_metadata = []\<rparr>) (\<lambda>r.
        Inr (i\<lparr>inv_status := st, inv_result := Some r, inv_updated_at := t\<rparr>)))"

subsection \<open>The Flow Run\<close>

record flow_run_state =
  fs_run_id :: uuid
  fs_definition_id :: string
  fs_definition_version :: string
  fs_definition_fingerprint :: string
  fs_budget :: flow_budget
  fs_deadline_at :: "timestamp option"
  fs_revision :: int
  fs_status :: run_status
  fs_invocations :: "agent_invocation list"
  fs_active_invocation_id :: "uuid option"
  fs_output :: "string option"
  fs_error :: "string option"
  fs_created_at :: timestamp
  fs_updated_at :: timestamp

text \<open>\<open>_active_or_none\<close>, the property \<open>active_invocation\<close>.\<close>

definition active_invocation :: "flow_run_state \<Rightarrow> agent_invocation option" where
  "active_invocation st = (case fs_active_invocation_id st of None \<Rightarrow> None
     | Some a \<Rightarrow> find (\<lambda>i. inv_id i = a) (fs_invocations st))"

text \<open>The field constraints and the validator \<open>validate_state\<close>.\<close>

definition valid_state :: "flow_run_state \<Rightarrow> bool" where
  "valid_state st \<longleftrightarrow>
     sha256_pattern (fs_definition_fingerprint st) \<and> 1 \<le> fs_revision st \<and>
     unique_ids (map inv_id (fs_invocations st)) \<and>
     contiguous inv_sequence (fs_invocations st) \<and>
     int (length (fs_invocations st)) \<le> max_invocations (fs_budget st) \<and>
     (timeout_seconds (fs_budget st) = None) = (fs_deadline_at st = None) \<and>
     list_all (\<lambda>i. inv_flow_run_id i = fs_run_id st) (fs_invocations st) \<and>
     \<not> (fs_active_invocation_id st \<noteq> None \<and> active_invocation st = None) \<and>
     \<not> (fs_status st = Created \<and> fs_invocations st \<noteq> []) \<and>
     (fs_status st = Waiting \<longrightarrow> (case active_invocation st of None \<Rightarrow> False
        | Some a \<Rightarrow> inv_status a = Waiting)) \<and>
     (fs_status st = Running \<longrightarrow> (case active_invocation st of None \<Rightarrow> True
        | Some a \<Rightarrow> inv_status a = Running)) \<and>
     \<not> (terminal (fs_status st) \<and> active_invocation st \<noteq> None) \<and>
     (if fs_status st = Completed then fs_output st \<noteq> None \<and> fs_error st = None
      else \<not> (error_status (fs_status st) \<and> falsy (fs_error st)))"

text \<open>\<open>FlowRunState.create\<close>, the only place where the state's validators run.\<close>

definition create_state ::
  "(json \<Rightarrow> string) \<Rightarrow> flow_definition \<Rightarrow> uuid \<Rightarrow> timestamp \<Rightarrow> exn + flow_run_state" where
  "create_state digest d run_id created_at = construct valid_state
     \<lparr>fs_run_id = run_id, fs_definition_id = fd_id d, fs_definition_version = fd_version d,
      fs_definition_fingerprint = flow_fingerprint digest d, fs_budget = fd_budget d,
      fs_deadline_at = (case timeout_seconds (fd_budget d) of None \<Rightarrow> None
        | Some x \<Rightarrow> Some (created_at + timedelta x)),
      fs_revision = 1, fs_status = Created, fs_invocations = [],
      fs_active_invocation_id = None, fs_output = None, fs_error = None,
      fs_created_at = created_at, fs_updated_at = created_at\<rparr>"

definition state_usage :: "flow_run_state \<Rightarrow> token_usage" where
  "state_usage st = fold (\<lambda>i total. add_usage total (inv_usage i)) (fs_invocations st) no_usage"

text \<open>\<open>_result_count\<close>: an integer of the result's metadata, and a Boolean is no integer.\<close>

definition result_count :: "agent_invocation_result option \<Rightarrow> string \<Rightarrow> int" where
  "result_count r k = (case r of None \<Rightarrow> 0 | Some x \<Rightarrow>
     (case dict_get (ar_metadata x) k of Some (JInt n) \<Rightarrow> n | _ \<Rightarrow> 0))"

definition model_call_count :: "flow_run_state \<Rightarrow> int" where
  "model_call_count st = sum_list (map (\<lambda>i. result_count (inv_result i) ''model_calls'') (fs_invocations st))"

definition tool_call_count :: "flow_run_state \<Rightarrow> int" where
  "tool_call_count st = sum_list (map (\<lambda>i. result_count (inv_result i) ''tool_calls'') (fs_invocations st))"

text \<open>\<open>_evolve\<close>: one revision more and a new \<open>updated_at\<close> on top of the field updates.\<close>

definition evolve :: "timestamp \<Rightarrow> flow_run_state \<Rightarrow> flow_run_state" where
  "evolve t st = st\<lparr>fs_revision := fs_revision st + 1, fs_updated_at := t\<rparr>"

definition start :: "timestamp \<Rightarrow> flow_run_state \<Rightarrow> exn + flow_run_state" where
  "start t st = (if fs_status st \<noteq> Created then Inl InvalidFlowTransitionError
     else Inr (evolve t (st\<lparr>fs_status := Running\<rparr>)))"

text \<open>\<open>_require_definition\<close>.\<close>

definition same_definition :: "(json \<Rightarrow> string) \<Rightarrow> flow_run_state \<Rightarrow> flow_definition \<Rightarrow> bool" where
  "same_definition digest st d \<longleftrightarrow> fd_id d = fs_definition_id st \<and>
     fd_version d = fs_definition_version st \<and>
     flow_fingerprint digest d = fs_definition_fingerprint st"

definition begin_invocation ::
  "(json \<Rightarrow> string) \<Rightarrow> timestamp \<times> timestamp \<times> timestamp \<Rightarrow> agent_invocation_request \<Rightarrow>
   flow_definition \<Rightarrow> flow_run_state \<Rightarrow> exn + flow_run_state" where
  "begin_invocation digest ts r d st =
     (if fs_status st \<noteq> Running then Inl InvalidFlowTransitionError
      else if fs_active_invocation_id st \<noteq> None then Inl InvalidFlowTransitionError
      else if \<not> same_definition digest st d
      then Inl (ValueError ''FlowDefinition does not match this Flow Run'')
      else if rq_flow_run_id r \<noteq> fs_run_id st
      then Inl (ValueError ''AgentInvocation request belongs to another Flow Run'')
      else let expected = int (length (fs_invocations st)) + 1 in
      if rq_sequence r \<noteq> expected
      then Inl (ValueError (''AgentInvocation sequence must be '' @ str_int expected @
                            '', got '' @ str_int (rq_sequence r)))
      else if expected > max_invocations (fs_budget st) then Inl InvalidFlowTransitionError
      else rbind (flow_agent_of d (rq_agent_key r)) (\<lambda>ad.
        if rq_definition_id r \<noteq> ap_id ad \<or> rq_definition_version r \<noteq> ad_version ad \<or>
           rq_definition_fingerprint r \<noteq> agent_fingerprint digest ad
        then Inl (ValueError ''AgentInvocation request definition does not match FlowDefinition'')
        else rbind (construct valid_invocation
          \<lparr>inv_id = rq_invocation_id r, inv_flow_run_id = fs_run_id st,
           inv_sequence = rq_sequence r, inv_agent_key = rq_agent_key r,
           inv_definition_id = rq_definition_id r,
           inv_definition_version = rq_definition_version r,
           inv_definition_fingerprint = rq_definition_fingerprint r,
           inv_input = rq_input r, inv_status = Running, inv_result = None,
           inv_created_at = fst ts, inv_updated_at = fst (snd ts)\<rparr>) (\<lambda>i.
        Inr (evolve (snd (snd ts)) (st\<lparr>fs_invocations := fs_invocations st @ [i],
               fs_active_invocation_id := Some (inv_id i)\<rparr>)))))"

definition settle_invocation ::
  "timestamp \<times> timestamp \<Rightarrow> agent_invocation_result \<Rightarrow> flow_run_state \<Rightarrow> exn + flow_run_state" where
  "settle_invocation ts r st =
     (if fs_status st \<notin> {Running, Waiting} then Inl InvalidFlowTransitionError
      else case active_invocation st of None \<Rightarrow> Inl InvalidFlowTransitionError
      | Some active \<Rightarrow> rbind (settle (fst ts) r active) (\<lambda>settled.
          let waiting = (inv_status settled = Waiting) in
          Inr (evolve (snd ts) (st\<lparr>
            fs_status := (if waiting then Waiting else Running),
            fs_invocations := replace_by inv_id (inv_id settled) settled (fs_invocations st),
            fs_active_invocation_id := (if waiting then Some (inv_id settled) else None)\<rparr>))))"

definition resume_invocation ::
  "timestamp \<times> timestamp \<Rightarrow> uuid \<Rightarrow> flow_run_state \<Rightarrow> exn + flow_run_state" where
  "resume_invocation ts iid st =
     (if fs_status st \<noteq> Waiting then Inl InvalidFlowTransitionError
      else case active_invocation st of None \<Rightarrow> Inl InvalidFlowTransitionError
      | Some active \<Rightarrow>
          if inv_id active \<noteq> iid
          then Inl (ValueError ''invocation_id does not match the waiting invocation'')
          else rbind (resume (fst ts) active) (\<lambda>resumed.
            Inr (evolve (snd ts) (st\<lparr>fs_status := Running,
              fs_invocations := replace_by inv_id (inv_id resumed) resumed (fs_invocations st)\<rparr>))))"

definition complete :: "timestamp \<Rightarrow> string \<Rightarrow> flow_run_state \<Rightarrow> exn + flow_run_state" where
  "complete t output st =
     (if fs_status st \<noteq> Running then Inl InvalidFlowTransitionError
      else if fs_active_invocation_id st \<noteq> None then Inl InvalidFlowTransitionError
      else if fs_invocations st = [] then Inl InvalidFlowTransitionError
      else if list_ex (\<lambda>i. inv_status i \<noteq> Completed) (fs_invocations st)
      then Inl InvalidFlowTransitionError
      else Inr (evolve t (st\<lparr>fs_status := Completed, fs_output := Some output, fs_error := None\<rparr>)))"

text \<open>\<open>_terminate\<close>; \<open>fail\<close>, \<open>cancel\<close>, \<open>interrupt\<close> and \<open>reach_limit\<close> are its four instances.\<close>

definition terminate_state ::
  "timestamp \<times> timestamp \<Rightarrow> run_status \<Rightarrow> string \<Rightarrow> flow_run_state \<Rightarrow> exn + flow_run_state" where
  "terminate_state ts status err st =
     (if terminal (fs_status st) then Inl InvalidFlowTransitionError
      else if blank err then Inl (ValueError ''Flow Run termination requires an error'')
      else let close = (\<lambda>invs. evolve (snd ts) (st\<lparr>fs_status := status, fs_invocations := invs,
                 fs_active_invocation_id := None, fs_error := Some err\<rparr>)) in
      case active_invocation st of None \<Rightarrow> Inr (close (fs_invocations st))
      | Some active \<Rightarrow> rbind (terminate (fst ts) status err active) (\<lambda>terminated.
          Inr (close (replace_by inv_id (inv_id active) terminated (fs_invocations st)))))"

definition fail :: "timestamp \<times> timestamp \<Rightarrow> string \<Rightarrow> flow_run_state \<Rightarrow> exn + flow_run_state" where
  "fail ts err st = terminate_state ts Failed err st"

definition cancel :: "timestamp \<times> timestamp \<Rightarrow> string \<Rightarrow> flow_run_state \<Rightarrow> exn + flow_run_state" where
  "cancel ts err st = terminate_state ts Cancelled err st"

definition interrupt :: "timestamp \<times> timestamp \<Rightarrow> string \<Rightarrow> flow_run_state \<Rightarrow> exn + flow_run_state" where
  "interrupt ts err st = terminate_state ts Interrupted err st"

definition reach_limit :: "timestamp \<times> timestamp \<Rightarrow> string \<Rightarrow> flow_run_state \<Rightarrow> exn + flow_run_state" where
  "reach_limit ts err st = terminate_state ts LimitReached err st"

subsection \<open>The invariant\<close>

text \<open>
  What every stored aggregate satisfies: its own validators, those of its invocations and of
  their results, and that every invocation but the active one has settled.
\<close>

definition sound_invocation :: "agent_invocation \<Rightarrow> bool" where
  "sound_invocation i \<longleftrightarrow> valid_invocation i \<and> valid_key (inv_agent_key i) \<and>
     opt_all valid_result (inv_result i)"

definition flow_inv :: "flow_run_state \<Rightarrow> bool" where
  "flow_inv st \<longleftrightarrow> valid_state st \<and> list_all sound_invocation (fs_invocations st) \<and>
     list_all (\<lambda>i. fs_active_invocation_id st = Some (inv_id i) \<or> terminal (inv_status i))
       (fs_invocations st)"

named_theorems evolve_simps \<open>fields of an evolved aggregate\<close>

lemma evolve_fields [evolve_simps, simp]:
  "fs_run_id (evolve t st) = fs_run_id st"
  "fs_definition_id (evolve t st) = fs_definition_id st"
  "fs_definition_version (evolve t st) = fs_definition_version st"
  "fs_definition_fingerprint (evolve t st) = fs_definition_fingerprint st"
  "fs_budget (evolve t st) = fs_budget st"
  "fs_deadline_at (evolve t st) = fs_deadline_at st"
  "fs_revision (evolve t st) = fs_revision st + 1"
  "fs_status (evolve t st) = fs_status st"
  "fs_invocations (evolve t st) = fs_invocations st"
  "fs_active_invocation_id (evolve t st) = fs_active_invocation_id st"
  "fs_output (evolve t st) = fs_output st"
  "fs_error (evolve t st) = fs_error st"
  "fs_created_at (evolve t st) = fs_created_at st"
  by (simp_all add: evolve_def)

lemma active_invocation_evolve [evolve_simps, simp]:
  "active_invocation (evolve t st) = active_invocation st"
  by (simp add: active_invocation_def split: option.split)

lemma active_in: "active_invocation st = Some a \<Longrightarrow>
  a \<in> set (fs_invocations st) \<and> fs_active_invocation_id st = Some (inv_id a)"
  by (auto simp: active_invocation_def find_Some_iff split: option.splits)

lemma active_lookup: "fs_active_invocation_id st = Some a \<Longrightarrow>
  active_invocation st = find (\<lambda>i. inv_id i = a) (fs_invocations st)"
  by (simp add: active_invocation_def)

lemma active_None [simp]: "fs_active_invocation_id st = None \<Longrightarrow> active_invocation st = None"
  by (simp add: active_invocation_def)

text \<open>What each successful transition did, as an elimination rule.\<close>

lemma startE:
  assumes "start t st = Inr st'"
  obtains "fs_status st = Created" "st' = evolve t (st\<lparr>fs_status := Running\<rparr>)"
  using assms by (auto simp: start_def split: if_splits)

lemma begin_invocationE:
  assumes "begin_invocation digest ts r d st = Inr st'"
  obtains i where "fs_status st = Running" "fs_active_invocation_id st = None"
    "same_definition digest st d" "rq_flow_run_id r = fs_run_id st"
    "rq_sequence r = int (length (fs_invocations st)) + 1"
    "int (length (fs_invocations st)) + 1 \<le> max_invocations (fs_budget st)"
    "valid_invocation i" "inv_id i = rq_invocation_id r" "inv_flow_run_id i = fs_run_id st"
    "inv_sequence i = rq_sequence r" "inv_agent_key i = rq_agent_key r"
    "inv_input i = rq_input r" "inv_status i = Running" "inv_result i = None"
    "st' = evolve (snd (snd ts)) (st\<lparr>fs_invocations := fs_invocations st @ [i],
       fs_active_invocation_id := Some (inv_id i)\<rparr>)"
  using assms
  by (fastforce simp: begin_invocation_def Let_def rbind_Inr_iff split: if_splits)

lemma settleE:
  assumes "settle t r i = Inr i'"
  obtains "inv_status i \<in> {Running, Waiting}" "matches_result i r"
    "i' = i\<lparr>inv_status := result_to_run_status (ar_status r), inv_result := Some r,
            inv_updated_at := t\<rparr>"
  using assms by (auto simp: settle_def rbind_Inr_iff split: if_splits)

lemma settle_invocationE:
  assumes "settle_invocation ts r st = Inr st'"
  obtains a a' where "fs_status st \<in> {Running, Waiting}" "active_invocation st = Some a"
    "settle (fst ts) r a = Inr a'"
    "st' = evolve (snd ts) (st\<lparr>
       fs_status := (if ar_status r = AWaiting then Waiting else Running),
       fs_invocations := replace_by inv_id (inv_id a) a' (fs_invocations st),
       fs_active_invocation_id := (if ar_status r = AWaiting then Some (inv_id a) else None)\<rparr>)"
proof -
  from assms obtain a a' where a: "fs_status st \<in> {Running, Waiting}" "active_invocation st = Some a"
    "settle (fst ts) r a = Inr a'"
    and st': "st' = evolve (snd ts) (st\<lparr>
       fs_status := (if inv_status a' = Waiting then Waiting else Running),
       fs_invocations := replace_by inv_id (inv_id a') a' (fs_invocations st),
       fs_active_invocation_id := (if inv_status a' = Waiting then Some (inv_id a') else None)\<rparr>)"
    by (auto simp: settle_invocation_def rbind_Inr_iff Let_def split: if_splits option.splits)
  have "inv_id a' = inv_id a" "inv_status a' = Waiting \<longleftrightarrow> ar_status r = AWaiting"
    using a(3) by (auto elim!: settleE)
  with a st' that show thesis by simp
qed

lemma resume_invocationE:
  assumes "resume_invocation ts iid st = Inr st'"
  obtains a where "fs_status st = Waiting" "active_invocation st = Some a" "inv_id a = iid"
    "inv_status a = Waiting"
    "st' = evolve (snd ts) (st\<lparr>fs_status := Running, fs_invocations :=
       replace_by inv_id iid (a\<lparr>inv_status := Running, inv_updated_at := fst ts\<rparr>)
         (fs_invocations st)\<rparr>)"
  using assms
  by (auto simp: resume_invocation_def resume_def rbind_Inr_iff split: if_splits option.splits)

lemma completeE:
  assumes "complete t output st = Inr st'"
  obtains "fs_status st = Running" "fs_active_invocation_id st = None" "fs_invocations st \<noteq> []"
    "list_all (\<lambda>i. inv_status i = Completed) (fs_invocations st)"
    "st' = evolve t (st\<lparr>fs_status := Completed, fs_output := Some output, fs_error := None\<rparr>)"
  using assms by (auto simp: complete_def list_ex_iff list_all_iff split: if_splits)

lemma terminateE:
  assumes "terminate t s err i = Inr i'"
  obtains r where "error_status s" "\<not> blank err" "inv_status i \<in> {Created, Running, Waiting}"
    "valid_result r" "matches_result i r" "result_to_run_status (ar_status r) = s"
    "ar_usage r = inv_usage i" "ar_metadata r = []" "ar_error r = Some err"
    "i' = i\<lparr>inv_status := s, inv_result := Some r, inv_updated_at := t\<rparr>"
  using assms
  by (auto simp: terminate_def rbind_Inr_iff matches_result_def run_to_result_inverse
      split: if_splits option.splits)

lemma terminate_stateE:
  assumes "terminate_state ts s err st = Inr st'"
  obtains invs where "\<not> terminal (fs_status st)" "\<not> blank err"
    "st' = evolve (snd ts) (st\<lparr>fs_status := s, fs_invocations := invs,
       fs_active_invocation_id := None, fs_error := Some err\<rparr>)"
    "(active_invocation st = None \<and> invs = fs_invocations st) \<or>
     (\<exists>a a'. active_invocation st = Some a \<and> terminate (fst ts) s err a = Inr a' \<and>
        invs = replace_by inv_id (inv_id a) a' (fs_invocations st))"
proof -
  note d = assms [unfolded terminate_state_def Let_def]
  show thesis
  proof (cases "active_invocation st")
    case None
    with d that show thesis by (auto split: if_splits)
  next
    case (Some a)
    with d obtain a' where "terminate (fst ts) s err a = Inr a'" "\<not> terminal (fs_status st)"
      "\<not> blank err" "st' = evolve (snd ts) (st\<lparr>fs_status := s,
         fs_invocations := replace_by inv_id (inv_id a) a' (fs_invocations st),
         fs_active_invocation_id := None, fs_error := Some err\<rparr>)"
      by (auto simp: rbind_Inr_iff split: if_splits)
    with Some that show thesis by blast
  qed
qed

text \<open>Replacing the active invocation by one with the same identity keeps the list's shape.\<close>

lemma replace_active:
  assumes inv: "flow_inv st" and a: "active_invocation st = Some a"
    and y: "inv_id y = inv_id a" "inv_flow_run_id y = inv_flow_run_id a"
      "inv_sequence y = inv_sequence a"
  defines "ys \<equiv> replace_by inv_id (inv_id a) y (fs_invocations st)"
  shows "distinct (map inv_id ys)" "contiguous inv_sequence ys"
    "list_all (\<lambda>i. inv_flow_run_id i = fs_run_id st) ys" "length ys = length (fs_invocations st)"
    "find (\<lambda>i. inv_id i = inv_id a) ys = Some y"
    "sound_invocation y \<Longrightarrow> list_all sound_invocation ys"
    "i \<in> set ys \<Longrightarrow> i = y \<or> (i \<in> set (fs_invocations st) \<and> terminal (inv_status i))"
proof -
  let ?xs = "fs_invocations st"
  from inv have dist: "distinct (map inv_id ?xs)" and cont: "contiguous inv_sequence ?xs"
    and run: "list_all (\<lambda>i. inv_flow_run_id i = fs_run_id st) ?xs"
    and sound: "list_all sound_invocation ?xs"
    and settled: "list_all (\<lambda>i. fs_active_invocation_id st = Some (inv_id i) \<or> terminal (inv_status i)) ?xs"
    by (auto simp: flow_inv_def valid_state_def)
  from a have ain: "a \<in> set ?xs" and act: "fs_active_invocation_id st = Some (inv_id a)"
    by (auto dest: active_in)
  have same: "x = a" if "x \<in> set ?xs" "inv_id x = inv_id a" for x
    using dist that ain by (simp add: distinct_map inj_on_def)
  have ids: "map inv_id ys = map inv_id ?xs" and seqs: "map inv_sequence ys = map inv_sequence ?xs"
    unfolding ys_def by (rule replace_by_map; use y same in auto)+
  show "distinct (map inv_id ys)" using dist by (simp only: ids)
  show len: "length ys = length ?xs" by (simp add: ys_def)
  show "contiguous inv_sequence ys" using cont by (simp only: contiguous_def seqs len)
  show "find (\<lambda>i. inv_id i = inv_id a) ys = Some y"
    unfolding ys_def using y(1) ain by (intro find_replace_by) (auto simp: find_None_iff)
  show "list_all (\<lambda>i. inv_flow_run_id i = fs_run_id st) ys"
    using run y(2) ain by (auto simp: list_all_iff ys_def dest!: set_replace_by)
  show "list_all sound_invocation ys" if "sound_invocation y"
    using sound that by (auto simp: list_all_iff ys_def dest!: set_replace_by)
  show "i \<in> set ys \<Longrightarrow> i = y \<or> (i \<in> set ?xs \<and> terminal (inv_status i))"
    using settled act by (auto simp: list_all_iff ys_def dest!: set_replace_by)
qed

text \<open>Each transition keeps the invariant.\<close>

lemma create_state_inv:
  assumes "create_state digest d run_id now = Inr st"
  shows "flow_inv st"
  using assms by (auto simp: create_state_def flow_inv_def)

lemma start_inv:
  assumes "flow_inv st" and "start t st = Inr st'"
  shows "flow_inv st'"
proof -
  from assms(2) have "fs_status st = Created" and st': "st' = evolve t (st\<lparr>fs_status := Running\<rparr>)"
    by (auto elim: startE)
  moreover from this(1) assms(1) have "fs_invocations st = []" "fs_active_invocation_id st = None"
    by (auto simp: flow_inv_def valid_state_def active_invocation_def split: option.splits)
  ultimately show ?thesis using assms(1) by (simp add: flow_inv_def valid_state_def)
qed

lemma begin_invocation_inv:
  assumes inv: "flow_inv st" and r: "valid_request r"
    and fresh: "rq_invocation_id r \<notin> set (map inv_id (fs_invocations st))"
    and step: "begin_invocation digest ts r d st = Inr st'"
  shows "flow_inv st'"
  using step
proof (rule begin_invocationE)
  fix i
  assume *: "fs_status st = Running" "fs_active_invocation_id st = None"
    "rq_sequence r = int (length (fs_invocations st)) + 1"
    "int (length (fs_invocations st)) + 1 \<le> max_invocations (fs_budget st)"
    "valid_invocation i" "inv_id i = rq_invocation_id r" "inv_flow_run_id i = fs_run_id st"
    "inv_sequence i = rq_sequence r" "inv_agent_key i = rq_agent_key r"
    "inv_status i = Running" "inv_result i = None"
    and st': "st' = evolve (snd (snd ts)) (st\<lparr>fs_invocations := fs_invocations st @ [i],
       fs_active_invocation_id := Some (inv_id i)\<rparr>)"
  have "find (\<lambda>j. inv_id j = inv_id i) (fs_invocations st @ [i]) = Some i"
    using fresh *(6) by (auto simp: find_Some_iff nth_append intro!: exI[of _ "length (fs_invocations st)"])
      (metis image_eqI nth_mem)
  then have "active_invocation st' = Some i" by (simp add: st' active_invocation_def)
  moreover have "sound_invocation i"
    using * r by (simp add: sound_invocation_def valid_request_def)
  ultimately show ?thesis
    using inv fresh *
    by (auto simp: flow_inv_def valid_state_def st' contiguous_snoc list_all_iff)
qed

lemma settle_invocation_inv:
  assumes inv: "flow_inv st" and r: "valid_result r" and step: "settle_invocation ts r st = Inr st'"
  shows "flow_inv st'"
  using step
proof (rule settle_invocationE)
  fix a a' :: agent_invocation
  let ?w = "ar_status r = AWaiting" and ?ys = "replace_by inv_id (inv_id a) a' (fs_invocations st)"
  assume a: "active_invocation st = Some a" and "settle (fst ts) r a = Inr a'"
    and st': "st' = evolve (snd ts) (st\<lparr>fs_status := (if ?w then Waiting else Running),
       fs_invocations := ?ys, fs_active_invocation_id := (if ?w then Some (inv_id a) else None)\<rparr>)"
  then have m: "matches_result a r" and a': "a' = a\<lparr>inv_status := result_to_run_status (ar_status r),
      inv_result := Some r, inv_updated_at := fst ts\<rparr>" by (auto elim!: settleE)
  have "sound_invocation a" using inv active_in[OF a] by (auto simp: flow_inv_def list_all_iff)
  then have snd: "sound_invocation a'"
    using m r unfolding a'
    by (cases "ar_status r") (simp_all add: sound_invocation_def valid_invocation_def matches_result_def)
  have same: "inv_id a' = inv_id a" "inv_flow_run_id a' = inv_flow_run_id a"
    "inv_sequence a' = inv_sequence a" by (simp_all add: a')
  note ra = replace_active [OF inv a same]
  have "list_all (\<lambda>i. (?w \<and> inv_id a = inv_id i) \<or> terminal (inv_status i)) ?ys"
    using ra(7) by (fastforce simp: list_all_iff a' terminal_result)
  moreover have "active_invocation st' = (if ?w then Some a' else None)"
    using ra(5) by (simp add: st' active_invocation_def)
  ultimately show ?thesis using inv ra(1-4) ra(6)[OF snd]
    by (cases ?w) (simp_all add: flow_inv_def valid_state_def st' a')
qed

lemma resume_invocation_inv:
  assumes inv: "flow_inv st" and step: "resume_invocation ts iid st = Inr st'"
  shows "flow_inv st'"
  using step
proof (rule resume_invocationE)
  fix a :: agent_invocation
  let ?a = "a\<lparr>inv_status := Running, inv_updated_at := fst ts\<rparr>"
  let ?ys = "replace_by inv_id iid ?a (fs_invocations st)"
  assume s: "fs_status st = Waiting" and a: "active_invocation st = Some a" and iid: "inv_id a = iid"
    and w: "inv_status a = Waiting"
    and st': "st' = evolve (snd ts) (st\<lparr>fs_status := Running, fs_invocations := ?ys\<rparr>)"
  have act: "fs_active_invocation_id st = Some iid" using active_in[OF a] iid by simp
  have "sound_invocation a" using inv active_in[OF a] by (auto simp: flow_inv_def list_all_iff)
  then have snd: "sound_invocation ?a"
    using w by (simp add: sound_invocation_def valid_invocation_def matches_result_def split: option.splits)
  have same: "inv_id ?a = inv_id a" "inv_flow_run_id ?a = inv_flow_run_id a"
    "inv_sequence ?a = inv_sequence a" by simp_all
  note ra = replace_active [OF inv a same, unfolded iid]
  have "list_all (\<lambda>i. iid = inv_id i \<or> terminal (inv_status i)) ?ys"
    using ra(7) iid by (fastforce simp: list_all_iff)
  moreover have "active_invocation st' = Some ?a"
    using ra(5) act by (simp add: st' active_invocation_def)
  ultimately show ?thesis using inv ra(1-4) ra(6)[OF snd] act
    by (simp add: flow_inv_def valid_state_def st')
qed

lemma complete_inv:
  assumes "flow_inv st" and "complete t output st = Inr st'"
  shows "flow_inv st'"
proof -
  from assms(2) have "fs_active_invocation_id st = None" "fs_status st = Running"
    "st' = evolve t (st\<lparr>fs_status := Completed, fs_output := Some output, fs_error := None\<rparr>)"
    by (auto elim: completeE)
  with assms(1) show ?thesis by (simp add: flow_inv_def valid_state_def)
qed

lemma terminate_state_inv:
  assumes inv: "flow_inv st" and s: "error_status s" and step: "terminate_state ts s err st = Inr st'"
  shows "flow_inv st'"
  using step
proof (rule terminate_stateE)
  fix invs
  assume st': "st' = evolve (snd ts) (st\<lparr>fs_status := s, fs_invocations := invs,
       fs_active_invocation_id := None, fs_error := Some err\<rparr>)"
    and err: "\<not> blank err"
    and alt: "(active_invocation st = None \<and> invs = fs_invocations st) \<or>
     (\<exists>a a'. active_invocation st = Some a \<and> terminate (fst ts) s err a = Inr a' \<and>
        invs = replace_by inv_id (inv_id a) a' (fs_invocations st))"
  have "distinct (map inv_id invs) \<and> contiguous inv_sequence invs \<and>
    list_all (\<lambda>i. inv_flow_run_id i = fs_run_id st) invs \<and> length invs = length (fs_invocations st) \<and>
    list_all sound_invocation invs \<and> list_all (\<lambda>i. terminal (inv_status i)) invs"
    using alt
  proof (elim disjE exE conjE)
    assume "active_invocation st = None" "invs = fs_invocations st"
    with inv show ?thesis by (auto simp: flow_inv_def valid_state_def list_all_iff)
  next
    fix a a'
    assume a: "active_invocation st = Some a" and t: "terminate (fst ts) s err a = Inr a'"
      and invs: "invs = replace_by inv_id (inv_id a) a' (fs_invocations st)"
    from t obtain r where r: "valid_result r" "matches_result a r" "result_to_run_status (ar_status r) = s"
      and a': "a' = a\<lparr>inv_status := s, inv_result := Some r, inv_updated_at := fst ts\<rparr>"
      by (rule terminateE)
    have "sound_invocation a" using inv active_in[OF a] by (auto simp: flow_inv_def list_all_iff)
    then have snd: "sound_invocation a'" using r s unfolding a'
      by (cases s) (simp_all add: sound_invocation_def valid_invocation_def matches_result_def)
    have same: "inv_id a' = inv_id a" "inv_flow_run_id a' = inv_flow_run_id a"
      "inv_sequence a' = inv_sequence a" by (simp_all add: a')
    note ra = replace_active [OF inv a same, folded invs]
    have "list_all (\<lambda>i. terminal (inv_status i)) invs"
      using ra(7) s by (fastforce simp: list_all_iff a' error_status_iff)
    with ra(1-3) ra(6)[OF snd] show ?thesis by (simp add: invs)
  qed
  moreover have "terminal s" "s \<noteq> Completed" using s by (auto simp: error_status_iff)
  ultimately show ?thesis using inv err s
    by (auto simp: flow_inv_def valid_state_def st' list_all_iff)
qed

subsection \<open>Runs of the aggregate\<close>

text \<open>
  One rule per transition of \<open>FlowRunState\<close>, guarded by nothing but its success: the request
  and the result are validated pydantic objects, and \<open>invocation_id\<close> is whatever the caller
  gives, a new identifier or one the Flow already has.
\<close>

inductive flow_step :: "(json \<Rightarrow> string) \<Rightarrow> flow_run_state \<Rightarrow> flow_run_state \<Rightarrow> bool"
  for digest :: "json \<Rightarrow> string" where
  step_start: "start t st = Inr st' \<Longrightarrow> flow_step digest st st'"
| step_begin: "valid_request r \<Longrightarrow> begin_invocation digest ts r d st = Inr st' \<Longrightarrow>
    flow_step digest st st'"
| step_settle: "valid_result r \<Longrightarrow> settle_invocation tt r st = Inr st' \<Longrightarrow> flow_step digest st st'"
| step_resume: "resume_invocation tt iid st = Inr st' \<Longrightarrow> flow_step digest st st'"
| step_complete: "complete t output st = Inr st' \<Longrightarrow> flow_step digest st st'"
| step_fail: "fail tt err st = Inr st' \<Longrightarrow> flow_step digest st st'"
| step_cancel: "cancel tt err st = Inr st' \<Longrightarrow> flow_step digest st st'"
| step_interrupt: "interrupt tt err st = Inr st' \<Longrightarrow> flow_step digest st st'"
| step_reach_limit: "reach_limit tt err st = Inr st' \<Longrightarrow> flow_step digest st st'"

inductive flow_reachable :: "(json \<Rightarrow> string) \<Rightarrow> flow_run_state \<Rightarrow> bool"
  for digest :: "json \<Rightarrow> string" where
  reach_create: "create_state digest d run_id now = Inr st \<Longrightarrow> flow_reachable digest st"
| reach_step: "flow_reachable digest st \<Longrightarrow> flow_step digest st st' \<Longrightarrow> flow_reachable digest st'"

lemmas termination_defs = fail_def cancel_def interrupt_def reach_limit_def

text \<open>The nine rules in four shapes: the four terminations are one.\<close>

lemma flow_step_cases [consumes 1, case_names Start Begin Settle Resume Complete Terminate]:
  assumes "flow_step digest st st'"
  obtains t where "start t st = Inr st'"
  | r ts d where "valid_request r" "begin_invocation digest ts r d st = Inr st'"
  | r tt where "valid_result r" "settle_invocation tt r st = Inr st'"
  | tt iid where "resume_invocation tt iid st = Inr st'"
  | t outp where "complete t outp st = Inr st'"
  | tt s err where "error_status s" "terminate_state tt s err st = Inr st'"
  using assms unfolding flow_step.simps termination_defs
  by (blast intro: that error_status_simps)

text \<open>
  The aggregate's identifiers: a transition appends at most one, the one of the request, and
  keeps the invariant unless that one is already there.
\<close>

definition distinct_ids :: "flow_run_state \<Rightarrow> bool" where
  "distinct_ids st \<longleftrightarrow> distinct (map inv_id (fs_invocations st))"

lemma begin_invocation_ids:
  "begin_invocation digest ts r d st = Inr st' \<Longrightarrow>
   map inv_id (fs_invocations st') = map inv_id (fs_invocations st) @ [rq_invocation_id r]"
  by (auto elim!: begin_invocationE)

lemma flow_step_history:
  assumes "flow_step digest st st'"
  shows "\<exists>new. map inv_id (fs_invocations st') = map inv_id (fs_invocations st) @ new \<and> length new \<le> 1"
  using assms
proof (cases rule: flow_step_cases)
  case (Terminate tt s err)
  from Terminate(2) show ?thesis
    by (rule terminate_stateE) (auto elim!: terminateE simp: replace_by_keys)
qed (auto elim!: startE begin_invocationE settle_invocationE settleE resume_invocationE completeE
      simp: replace_by_keys)

lemma flow_step_distinct: "flow_step digest st st' \<Longrightarrow> distinct_ids st' \<Longrightarrow> distinct_ids st"
  unfolding distinct_ids_def using flow_step_history by fastforce

lemma flow_step_inv_or_reuse:
  assumes "flow_step digest st st'" and "flow_inv st"
  shows "flow_inv st' \<or> (\<exists>ts r d. begin_invocation digest ts r d st = Inr st' \<and>
    rq_invocation_id r \<in> set (map inv_id (fs_invocations st)))"
  using assms
proof (cases rule: flow_step_cases)
  case (Begin r ts d)
  then show ?thesis using begin_invocation_inv [OF assms(2), of r digest ts d st'] by blast
qed (auto intro: start_inv settle_invocation_inv resume_invocation_inv complete_inv terminate_state_inv)

lemma flow_step_inv:
  assumes "flow_step digest st st'" and "flow_inv st" and "distinct_ids st'"
  shows "flow_inv st'"
  using flow_step_inv_or_reuse [OF assms(1,2)] assms(3)
  by (auto simp: distinct_ids_def begin_invocation_ids)

lemma flow_reachable_flow_inv: "flow_reachable digest st \<Longrightarrow> distinct_ids st \<Longrightarrow> flow_inv st"
  by (induction rule: flow_reachable.induct)
    (auto intro: create_state_inv flow_step_inv flow_step_distinct)

lemma flow_inv_distinct: "flow_inv st \<Longrightarrow> distinct_ids st"
  by (simp add: flow_inv_def valid_state_def distinct_ids_def)

lemma valid_state_distinct: "valid_state st \<Longrightarrow> distinct_ids st"
  by (simp add: valid_state_def distinct_ids_def)

text \<open>What a step changes of the aggregate's identity, revision, status and history.\<close>

definition same_identity :: "flow_run_state \<Rightarrow> flow_run_state \<Rightarrow> bool" where
  "same_identity a b \<longleftrightarrow> fs_run_id a = fs_run_id b \<and> fs_definition_id a = fs_definition_id b \<and>
     fs_definition_version a = fs_definition_version b \<and>
     fs_definition_fingerprint a = fs_definition_fingerprint b \<and> fs_budget a = fs_budget b \<and>
     fs_deadline_at a = fs_deadline_at b \<and> fs_created_at a = fs_created_at b"

text \<open>The status changes the transitions can make.\<close>

definition flow_edge :: "run_status \<Rightarrow> run_status \<Rightarrow> bool" where
  "flow_edge s t \<longleftrightarrow> (case s of
     Created \<Rightarrow> t = Running \<or> error_status t
   | Running \<Rightarrow> t \<noteq> Created
   | Waiting \<Rightarrow> t \<noteq> Created \<and> t \<noteq> Completed
   | _ \<Rightarrow> False)"

lemma flow_step_frame:
  assumes "flow_step digest st st'"
  shows "same_identity st st' \<and> fs_revision st' = fs_revision st + 1 \<and>
    flow_edge (fs_status st) (fs_status st')"
  using assms
proof (cases rule: flow_step_cases)
  case (Terminate tt s err)
  then show ?thesis
    by (elim terminate_stateE) (cases "fs_status st"; cases s; simp add: same_identity_def flow_edge_def)
qed (auto elim!: startE begin_invocationE settle_invocationE resume_invocationE completeE
      simp: same_identity_def flow_edge_def)

subsection \<open>Progress\<close>

text \<open>A waiting Flow can be resumed at its active invocation.\<close>

lemma resume_invocation_succeeds:
  assumes inv: "flow_inv st" and w: "fs_status st = Waiting"
  shows "\<exists>a st'. active_invocation st = Some a \<and>
    resume_invocation ts (inv_id a) st = Inr st' \<and> fs_status st' = Running \<and>
    fs_active_invocation_id st' = Some (inv_id a)"
proof -
  from inv w obtain a where a: "active_invocation st = Some a" "inv_status a = Waiting"
    by (auto simp: flow_inv_def valid_state_def split: option.splits)
  then show ?thesis using w active_in[OF a(1)]
    by (simp add: resume_invocation_def resume_def)
qed

lemma terminate_sound:
  assumes "sound_invocation i" and "inv_status i \<in> {Created, Running, Waiting}"
    and s: "error_status s" and "\<not> blank err"
  shows "\<exists>i'. terminate t s err i = Inr i'"
proof -
  from error_status_result[OF s] obtain rst where
    "run_to_result_status s = Some rst" "rst \<notin> {ACompleted, AWaiting}" by blast
  moreover have "valid_usage (inv_usage i)"
    "distinct (map art_id (case inv_result i of None \<Rightarrow> [] | Some r \<Rightarrow> ar_artifacts r))"
    using assms(1) by (auto simp: inv_usage_def sound_invocation_def valid_result_def split: option.splits)
  ultimately show ?thesis using assms
    by (auto simp: terminate_def construct_def valid_result_def sound_invocation_def)
qed

lemma active_open:
  assumes "flow_inv st" and "active_invocation st = Some a" and "\<not> terminal (fs_status st)"
  shows "sound_invocation a \<and> inv_status a \<in> {Running, Waiting}"
proof -
  have "fs_status st \<noteq> Created"
    using assms active_in[of st a] by (auto simp: flow_inv_def valid_state_def)
  then have "fs_status st = Running \<or> fs_status st = Waiting"
    using assms(3) by (cases "fs_status st") auto
  then show ?thesis using assms active_in[of st a]
    by (auto simp: flow_inv_def valid_state_def list_all_iff)
qed

text \<open>An open Flow can always be closed, with its active invocation.\<close>

lemma terminate_state_succeeds:
  assumes inv: "flow_inv st" and o: "\<not> terminal (fs_status st)" and s: "error_status s"
    and err: "\<not> blank err"
  shows "\<exists>st'. terminate_state ts s err st = Inr st' \<and> fs_status st' = s \<and>
    fs_active_invocation_id st' = None \<and> fs_error st' = Some err"
proof (cases "active_invocation st")
  case None
  then show ?thesis using o err by (simp add: terminate_state_def Let_def)
next
  case (Some a)
  then obtain a' where "terminate (fst ts) s err a = Inr a'"
    using terminate_sound[OF _ _ s err] active_open[OF inv Some o] by blast
  with Some show ?thesis using o err by (simp add: terminate_state_def Let_def)
qed

subsection \<open>Accounting\<close>

lemma fold_add_usage:
  "fold (\<lambda>i total. add_usage total (inv_usage i)) xs u =
   \<lparr>input_tokens = input_tokens u + sum_list (map (input_tokens \<circ> inv_usage) xs),
    output_tokens = output_tokens u + sum_list (map (output_tokens \<circ> inv_usage) xs),
    total_tokens = (if xs = [] then total_tokens u else
      input_tokens u + sum_list (map (input_tokens \<circ> inv_usage) xs) +
      (output_tokens u + sum_list (map (output_tokens \<circ> inv_usage) xs)))\<rparr>"
  by (induction xs arbitrary: u) (auto simp: add_usage_def)

lemma state_usage_sums:
  "input_tokens (state_usage st) = sum_list (map (input_tokens \<circ> inv_usage) (fs_invocations st))"
  "output_tokens (state_usage st) = sum_list (map (output_tokens \<circ> inv_usage) (fs_invocations st))"
  "total_tokens (state_usage st) = input_tokens (state_usage st) + output_tokens (state_usage st)"
  by (auto simp: state_usage_def fold_add_usage no_usage_def)

lemma replace_by_same:
  assumes "distinct (map key xs)" and "x \<in> set xs" and "key x = k"
  shows "sum_list (map g (replace_by key k y xs)) = sum_list (map g xs) - g x + (g y :: int)"
  using assms
proof (induction xs)
  case (Cons z zs)
  show ?case
  proof (cases "key z = k")
    case True
    then have "z = x" using Cons.prems by (auto simp: image_iff)
    have "\<forall>w \<in> set zs. key w \<noteq> k" using Cons.prems True by (auto simp: image_iff)
    then have "replace_by key k y zs = zs" by (simp add: replace_by_def map_idI)
    then show ?thesis using True \<open>z = x\<close> by (simp add: replace_by_def)
  next
    case False
    then show ?thesis using Cons by (auto simp: replace_by_def)
  qed
qed simp

lemma terminate_state_accounting:
  assumes inv: "flow_inv st" and step: "terminate_state ts s err st = Inr st'"
  shows "state_usage st' = state_usage st"
    and "model_call_count st' = model_call_count st -
      (case active_invocation st of None \<Rightarrow> 0 | Some a \<Rightarrow> result_count (inv_result a) ''model_calls'')"
    and "tool_call_count st' = tool_call_count st -
      (case active_invocation st of None \<Rightarrow> 0 | Some a \<Rightarrow> result_count (inv_result a) ''tool_calls'')"
proof -
  let ?goal = "state_usage st' = state_usage st \<and>
    model_call_count st' = model_call_count st -
      (case active_invocation st of None \<Rightarrow> 0 | Some a \<Rightarrow> result_count (inv_result a) ''model_calls'') \<and>
    tool_call_count st' = tool_call_count st -
      (case active_invocation st of None \<Rightarrow> 0 | Some a \<Rightarrow> result_count (inv_result a) ''tool_calls'')"
  from step have ?goal
  proof (rule terminate_stateE, elim disjE exE conjE)
    fix invs
    assume "st' = evolve (snd ts) (st\<lparr>fs_status := s, fs_invocations := invs,
       fs_active_invocation_id := None, fs_error := Some err\<rparr>)"
      "active_invocation st = None" "invs = fs_invocations st"
    then show ?thesis by (simp add: state_usage_def model_call_count_def tool_call_count_def)
  next
    fix invs a a'
    assume st': "st' = evolve (snd ts) (st\<lparr>fs_status := s, fs_invocations := invs,
       fs_active_invocation_id := None, fs_error := Some err\<rparr>)"
      and a: "active_invocation st = Some a" and "terminate (fst ts) s err a = Inr a'"
      and invs: "invs = replace_by inv_id (inv_id a) a' (fs_invocations st)"
    then have u: "inv_usage a' = inv_usage a" and c: "result_count (inv_result a') k = 0" for k
      by (auto elim!: terminateE simp: inv_usage_def result_count_def)
    have d: "distinct (map inv_id (fs_invocations st))"
      using inv by (simp add: flow_inv_def valid_state_def)
    note sums = replace_by_same [OF d active_in[OF a, THEN conjunct1] refl, of _ a']
    show ?thesis using a u c
      by (auto simp: st' invs model_call_count_def tool_call_count_def sums
          intro!: token_usage.equality simp: state_usage_sums)
  qed
  then show "state_usage st' = state_usage st"
    and "model_call_count st' = model_call_count st -
      (case active_invocation st of None \<Rightarrow> 0 | Some a \<Rightarrow> result_count (inv_result a) ''model_calls'')"
    and "tool_call_count st' = tool_call_count st -
      (case active_invocation st of None \<Rightarrow> 0 | Some a \<Rightarrow> result_count (inv_result a) ''tool_calls'')"
    by blast+
qed

subsection \<open>A concrete Flow\<close>

text \<open>
  A two-agent Flow used by the witnesses: created, started, and with its first invocation
  running, waiting for input, and settled. The digest is a constant function.
\<close>

definition ex_digest :: "json \<Rightarrow> string" where
  "ex_digest j = replicate 64 CHR ''0''"

definition ex_agent :: "string \<Rightarrow> agent_definition" where
  "ex_agent n = \<lparr>ap_id = n, ap_instructions = ''work'', ap_model = None, ap_tools = [],
     ap_skills = [], ap_permissions = {}, ap_max_steps = 10, ap_max_tool_calls = 50,
     ap_duplicate_threshold = 3, ap_max_failures = 3, ap_max_result_bytes = 262144,
     ad_version = ''1.0''\<rparr>"

definition ex_definition :: flow_definition where
  "ex_definition = \<lparr>fd_id = ''report'', fd_version = ''1.0.0'',
     fd_agents = [\<lparr>fa_key = ''draft'', fa_definition = ex_agent ''writer''\<rparr>,
                  \<lparr>fa_key = ''check'', fa_definition = ex_agent ''reviewer''\<rparr>],
     fd_strategy = ''sequential'', fd_budget = default_budget, fd_metadata = []\<rparr>"

definition ex_request :: "uuid \<Rightarrow> agent_invocation_request" where
  "ex_request iid = \<lparr>rq_flow_run_id = 7, rq_invocation_id = iid, rq_sequence = 1,
     rq_agent_key = ''draft'', rq_definition_id = ''writer'', rq_definition_version = ''1.0'',
     rq_definition_fingerprint = ex_digest JNull,
     rq_input = \<lparr>ii_prompt = ''go'', ii_handoff = None, ii_attachments = []\<rparr>\<rparr>"

definition ex_result :: "uuid \<Rightarrow> agent_result_status \<Rightarrow> agent_invocation_result" where
  "ex_result iid s = \<lparr>ar_flow_run_id = 7, ar_invocation_id = iid, ar_agent_key = ''draft'',
     ar_status = s, ar_output = Some ''text'',
     ar_usage = \<lparr>input_tokens = 3, output_tokens = 4, total_tokens = 7\<rparr>, ar_artifacts = [],
     ar_pending_input = (if s = AWaiting then Some \<lparr>pi_tool_call_id = ''c'', pi_tool_name = ''ask'',
        pi_prompt = ''?'', pi_metadata = []\<rparr> else None),
     ar_error = (if s = ACompleted \<or> s = AWaiting then None else Some ''boom''),
     ar_metadata = [(''model_calls'', JInt 5)]\<rparr>"

definition ex_created :: flow_run_state where
  "ex_created = projr (create_state ex_digest ex_definition 7 1000)"

definition ex_started :: flow_run_state where
  "ex_started = projr (start 1001 ex_created)"

definition ex_running :: flow_run_state where
  "ex_running = projr (begin_invocation ex_digest (1002, 1002, 1002) (ex_request 20) ex_definition ex_started)"

definition ex_waiting :: flow_run_state where
  "ex_waiting = projr (settle_invocation (1003, 1003) (ex_result 20 AWaiting) ex_running)"

definition ex_settled :: flow_run_state where
  "ex_settled = projr (settle_invocation (1003, 1003) (ex_result 20 ACompleted) ex_running)"

definition ex_completed :: flow_run_state where
  "ex_completed = projr (complete 1004 ''text'' ex_settled)"

lemma ex_created_eq: "create_state ex_digest ex_definition 7 1000 = Inr ex_created"
  by code_simp

lemma ex_started_eq: "start 1001 ex_created = Inr ex_started"
  by code_simp

lemma ex_running_eq:
  "begin_invocation ex_digest (1002, 1002, 1002) (ex_request 20) ex_definition ex_started = Inr ex_running"
  by code_simp

lemma ex_waiting_eq: "settle_invocation (1003, 1003) (ex_result 20 AWaiting) ex_running = Inr ex_waiting"
  by code_simp

lemma ex_settled_eq: "settle_invocation (1003, 1003) (ex_result 20 ACompleted) ex_running = Inr ex_settled"
  by code_simp

lemma ex_completed_eq: "complete 1004 ''text'' ex_settled = Inr ex_completed"
  by code_simp

lemma ex_reachable:
  "flow_reachable ex_digest ex_created" "flow_reachable ex_digest ex_started"
  "flow_reachable ex_digest ex_running" "flow_reachable ex_digest ex_waiting"
  "flow_reachable ex_digest ex_settled" "flow_reachable ex_digest ex_completed"
proof -
  show c: "flow_reachable ex_digest ex_created" using ex_created_eq by (rule reach_create)
  show s: "flow_reachable ex_digest ex_started"
    using c step_start [OF ex_started_eq] by (rule reach_step)
  have r: "valid_request (ex_request 20)"
    "valid_result (ex_result 20 AWaiting)" "valid_result (ex_result 20 ACompleted)"
    by code_simp+
  show b: "flow_reachable ex_digest ex_running"
    using s step_begin [OF r(1) ex_running_eq] by (rule reach_step)
  show "flow_reachable ex_digest ex_waiting" using b step_settle [OF r(2) ex_waiting_eq] by (rule reach_step)
  show d: "flow_reachable ex_digest ex_settled" using b step_settle [OF r(3) ex_settled_eq] by (rule reach_step)
  show "flow_reachable ex_digest ex_completed" using d step_complete [OF ex_completed_eq] by (rule reach_step)
qed

subsection \<open>Properties\<close>

lemma completed_history:
  assumes "flow_reachable digest st"
  shows "fs_status st = Completed \<longrightarrow> fs_invocations st \<noteq> [] \<and>
    list_all (\<lambda>i. inv_status i = Completed) (fs_invocations st)"
  using assms
proof (induction rule: flow_reachable.induct)
  case (reach_create d run_id now st)
  then show ?case by (auto simp: create_state_def)
next
  case (reach_step st st')
  from reach_step.hyps(2) show ?case
    by (cases rule: flow_step_cases)
      (auto elim!: startE begin_invocationE settle_invocationE resume_invocationE completeE
        terminate_stateE split: if_splits)
qed

lemma ex_distinct: "distinct_ids ex_waiting" "distinct_ids ex_completed" "distinct_ids ex_settled"
  by code_simp+

text \<open>
  C1. No transition of \<open>FlowRunState\<close> re-runs the model validators, since each goes through
  \<open>model_copy\<close>, and \<open>begin_invocation\<close> does not compare the identifier it is given with the
  ones the Flow has. Over every sequence of transitions, with any identifiers: the aggregate
  satisfies \<open>validate_state\<close> if and only if the identifiers of its invocations are distinct;
  then every invocation satisfies \<open>validate_result\<close> and every invocation but the active one has
  settled; and the only transition that makes a valid aggregate invalid is \<open>begin_invocation\<close>
  with an identifier already used.
\<close>

theorem flow_reachable_valid:
  assumes "flow_reachable digest st"
  shows "(valid_state st \<longleftrightarrow> distinct (map inv_id (fs_invocations st))) \<and>
    (valid_state st \<longrightarrow> list_all valid_invocation (fs_invocations st) \<and>
      (\<forall>i \<in> set (fs_invocations st). fs_active_invocation_id st \<noteq> Some (inv_id i) \<longrightarrow>
         terminal (inv_status i))) \<and>
    (\<forall>st'. flow_step digest st st' \<and> valid_state st \<and> \<not> valid_state st' \<longrightarrow>
      (\<exists>ts r d. begin_invocation digest ts r d st = Inr st' \<and>
         rq_invocation_id r \<in> set (map inv_id (fs_invocations st))))"
proof -
  have inv: "flow_inv st" if "distinct_ids st" using assms that by (rule flow_reachable_flow_inv)
  have v: "valid_state x" if "flow_inv x" for x using that by (simp add: flow_inv_def)
  have iff: "valid_state st \<longleftrightarrow> distinct_ids st" using inv v valid_state_distinct by blast
  moreover have "list_all valid_invocation (fs_invocations st) \<and>
      (\<forall>i \<in> set (fs_invocations st). fs_active_invocation_id st \<noteq> Some (inv_id i) \<longrightarrow>
         terminal (inv_status i))" if "valid_state st"
    using inv [OF valid_state_distinct [OF that]]
    by (auto simp: flow_inv_def list_all_iff sound_invocation_def)
  moreover have "\<exists>ts r d. begin_invocation digest ts r d st = Inr st' \<and>
         rq_invocation_id r \<in> set (map inv_id (fs_invocations st))"
    if "flow_step digest st st'" "valid_state st" "\<not> valid_state st'" for st'
    using flow_step_inv_or_reuse [OF that(1) inv] that iff v by blast
  ultimately show ?thesis unfolding distinct_ids_def by blast
qed

theorem flow_reachable_valid_witness:
  "flow_reachable ex_digest ex_waiting \<and> valid_state ex_waiting \<and> fs_status ex_waiting = Waiting \<and>
   list_all valid_invocation (fs_invocations ex_waiting)"
proof -
  have "fs_status ex_waiting = Waiting" by code_simp
  then show ?thesis
    using flow_reachable_valid [OF ex_reachable(4)] ex_reachable(4) ex_distinct(1)
    unfolding distinct_ids_def by blast
qed

text \<open>
  Every transition adds exactly one revision, keeps the pinned identity of the run
  (definition, fingerprint, budget, deadline, creation time), never drops or reorders an
  invocation and adds at most one, and moves the status only along the edges of \<open>flow_edge\<close>.
\<close>

theorem flow_step_effect:
  assumes "flow_step digest st st'"
  shows "fs_revision st' = fs_revision st + 1 \<and> same_identity st st' \<and>
    flow_edge (fs_status st) (fs_status st') \<and>
    (\<exists>new. map inv_id (fs_invocations st') = map inv_id (fs_invocations st) @ new \<and> length new \<le> 1)"
  using flow_step_frame [OF assms] flow_step_history [OF assms] by blast

theorem flow_step_effect_witness:
  "fs_revision ex_started = fs_revision ex_created + 1 \<and> same_identity ex_created ex_started"
  using flow_step_effect [OF step_start [OF ex_started_eq]] by blast

text \<open>
  A terminal Flow Run is final: starting, invoking, settling, resuming, completing and
  every kind of termination raise \<open>InvalidFlowTransitionError\<close>.
\<close>

theorem terminal_absorbing:
  assumes "terminal (fs_status st)"
  shows "start t st = Inl InvalidFlowTransitionError \<and>
    begin_invocation digest ts r d st = Inl InvalidFlowTransitionError \<and>
    settle_invocation tt res st = Inl InvalidFlowTransitionError \<and>
    resume_invocation tt iid st = Inl InvalidFlowTransitionError \<and>
    complete t outp st = Inl InvalidFlowTransitionError \<and>
    fail tt err st = Inl InvalidFlowTransitionError \<and>
    cancel tt err st = Inl InvalidFlowTransitionError \<and>
    interrupt tt err st = Inl InvalidFlowTransitionError \<and>
    reach_limit tt err st = Inl InvalidFlowTransitionError"
proof -
  have "fs_status st \<noteq> Created" "fs_status st \<noteq> Running" "fs_status st \<noteq> Waiting"
    using assms by auto
  with assms show ?thesis
    by (simp add: start_def begin_invocation_def settle_invocation_def resume_invocation_def
        complete_def terminate_state_def termination_defs)
qed

theorem terminal_absorbing_witness:
  "terminal (fs_status ex_completed) \<and> start 9 ex_completed = Inl InvalidFlowTransitionError"
proof -
  have "terminal (fs_status ex_completed)" by code_simp
  then show ?thesis using terminal_absorbing [of ex_completed 9] by blast
qed

text \<open>
  No reachable open Flow Run whose invocation identifiers are distinct is stuck: it can be terminated with any error status and any
  non-blank error, which also settles the active invocation, and when it waits for input it can
  be resumed at its active invocation.
\<close>

theorem open_flow_progress:
  assumes "flow_reachable digest st" and "distinct_ids st" and "\<not> terminal (fs_status st)"
    and "error_status s" and "\<not> blank err"
  shows "(\<exists>st'. terminate_state ts s err st = Inr st' \<and> fs_status st' = s \<and>
      fs_active_invocation_id st' = None \<and> fs_error st' = Some err) \<and>
    (fs_status st = Waiting \<longrightarrow> (\<exists>a st'. active_invocation st = Some a \<and>
      resume_invocation ts (inv_id a) st = Inr st' \<and> fs_status st' = Running \<and>
      fs_active_invocation_id st' = Some (inv_id a)))"
  using terminate_state_succeeds [OF flow_reachable_flow_inv [OF assms(1,2)] assms(3-5)]
    resume_invocation_succeeds [OF flow_reachable_flow_inv [OF assms(1,2)]] by blast

theorem open_flow_progress_witness:
  "\<exists>st'. terminate_state (5, 6) Failed ''boom'' ex_waiting = Inr st' \<and> fs_status st' = Failed"
proof -
  have "\<not> terminal (fs_status ex_waiting)" "error_status Failed" "\<not> blank ''boom''" by code_simp+
  then show ?thesis using open_flow_progress [OF ex_reachable(4) ex_distinct(1), of Failed "''boom''" "(5, 6)"] by blast
qed

text \<open>
  A Flow Run completes only after at least one invocation, and only when every invocation
  it ever made completed successfully.
\<close>

theorem completed_flow_succeeded:
  assumes "flow_reachable digest st" and "distinct_ids st" and "fs_status st = Completed"
  shows "fs_invocations st \<noteq> [] \<and> (\<forall>i \<in> set (fs_invocations st). inv_status i = Completed) \<and>
    fs_output st \<noteq> None \<and> fs_error st = None"
  using completed_history [OF assms(1)] flow_reachable_flow_inv [OF assms(1,2)] assms(3)
  by (auto simp: list_all_iff flow_inv_def valid_state_def)

theorem completed_flow_succeeded_witness:
  "flow_reachable ex_digest ex_completed \<and> fs_invocations ex_completed \<noteq> []"
proof -
  have "fs_status ex_completed = Completed" by code_simp
  then show ?thesis using completed_flow_succeeded [OF ex_reachable(6) ex_distinct(2)] ex_reachable(6) by blast
qed

text \<open>
  Terminating an open Flow Run keeps its token usage, but the result written for the active
  invocation carries no metadata, so the model and tool calls that invocation had already
  reported vanish from the Flow's call counts.
\<close>

theorem termination_accounting:
  assumes "flow_inv st" and "terminate_state ts s err st = Inr st'"
    and "active_invocation st = Some a"
  shows "state_usage st' = state_usage st \<and>
    model_call_count st' = model_call_count st - result_count (inv_result a) ''model_calls'' \<and>
    tool_call_count st' = tool_call_count st - result_count (inv_result a) ''tool_calls''"
  using terminate_state_accounting [OF assms(1,2)] assms(3) by simp

theorem termination_accounting_witness:
  "\<exists>st'. terminate_state (5, 6) Cancelled ''stop'' ex_waiting = Inr st' \<and>
     state_usage st' = state_usage ex_waiting \<and>
     model_call_count ex_waiting = 5 \<and> model_call_count st' = 0"
proof -
  let ?st = "projr (terminate_state (5, 6) Cancelled ''stop'' ex_waiting)"
  have e: "terminate_state (5, 6) Cancelled ''stop'' ex_waiting = Inr ?st"
    "active_invocation ex_waiting = Some (hd (fs_invocations ex_waiting))"
    "result_count (inv_result (hd (fs_invocations ex_waiting))) ''model_calls'' = 5"
    "model_call_count ex_waiting = 5" by code_simp+
  from termination_accounting [OF flow_reachable_flow_inv [OF ex_reachable(4) ex_distinct(1)] e(1,2)] e(1,3,4)
  show ?thesis by (intro exI[of _ ?st]) simp
qed

text \<open>
  \<open>begin_invocation\<close> does not check that the request's \<open>invocation_id\<close> is new: with a
  repeated identifier it succeeds and returns an aggregate that \<open>validate_state\<close> rejects.
\<close>

theorem begin_duplicate_id_invalid:
  assumes "begin_invocation digest ts r d st = Inr st'"
    and "rq_invocation_id r \<in> set (map inv_id (fs_invocations st))"
  shows "\<not> valid_state st'"
  using assms by (auto elim!: begin_invocationE simp: valid_state_def)

theorem begin_duplicate_id_invalid_witness:
  "\<exists>st'. begin_invocation ex_digest (8, 8, 8) ((ex_request 20)\<lparr>rq_sequence := 2\<rparr>) ex_definition ex_settled
     = Inr st' \<and> \<not> valid_state st'"
proof -
  let ?r = "(ex_request 20)\<lparr>rq_sequence := 2\<rparr>"
  let ?st = "projr (begin_invocation ex_digest (8, 8, 8) ?r ex_definition ex_settled)"
  have e: "begin_invocation ex_digest (8, 8, 8) ?r ex_definition ex_settled = Inr ?st"
    "rq_invocation_id ?r \<in> set (map inv_id (fs_invocations ex_settled))" by code_simp+
  from begin_duplicate_id_invalid [OF e] e(1) show ?thesis by blast
qed

end
