(* ===== verification/Flow_Interfaces.thy ===== *)
theory Flow_Interfaces
  imports Flow_Lifecycle
begin

text \<open>
  The interfaces between the Flow components, as the protocol classes of the source name them:
  what a client may rely on, as locales, with the client's lemmas proved once. Each locale is
  interpreted on the in-memory implementation in that implementation's theory.
\<close>

subsection \<open>Optimistic commits\<close>

text \<open>
  \<open>FlowRepository\<close> as its clients see it: \<open>look\<close> is the stored aggregate, \<open>log\<close> the event list
  of a run, \<open>commit\<close> replaces an aggregate and appends events, and \<open>step\<close> is any operation of any
  client. A commit succeeds only against the revision it was computed from, writes the next
  revision, and a failed one changes neither aggregates nor events; no operation removes an
  aggregate, lowers its revision or rewrites an event.
\<close>

locale optimistic_store =
  fixes look :: "'s \<Rightarrow> uuid \<Rightarrow> flow_run_state option"
    and log :: "'s \<Rightarrow> uuid \<Rightarrow> 'ev list"
    and commit :: "flow_run_state \<Rightarrow> int \<Rightarrow> 'd list \<Rightarrow> uuid option \<Rightarrow> 's \<Rightarrow> (exn + 'ev list) \<times> 's"
    and step :: "'s \<Rightarrow> 's \<Rightarrow> bool"
  assumes commit_checks: "commit st n ds tok s = (Inr es, s') \<Longrightarrow>
      \<exists>cur. look s (fs_run_id st) = Some cur \<and> fs_revision cur = n \<and> fs_revision st = n + 1"
    and commit_writes: "commit st n ds tok s = (Inr es, s') \<Longrightarrow>
      look s' = (look s)(fs_run_id st \<mapsto> st) \<and>
      log s' = (log s)(fs_run_id st := log s (fs_run_id st) @ es)"
    and commit_fails: "commit st n ds tok s = (Inl e, s') \<Longrightarrow> look s' = look s \<and> log s' = log s"
    and step_keeps: "step s s' \<Longrightarrow> look s k = Some st \<Longrightarrow>
      \<exists>st'. look s' k = Some st' \<and> fs_revision st \<le> fs_revision st'"
    and step_appends: "step s s' \<Longrightarrow> \<exists>new. log s' k = log s k @ new"
begin

lemma steps_keep:
  assumes "step\<^sup>*\<^sup>* s s'" and "look s k = Some st"
  shows "\<exists>st'. look s' k = Some st' \<and> fs_revision st \<le> fs_revision st'"
  using assms(1)
proof (induction rule: rtranclp_induct)
  case base
  with assms(2) show ?case by simp
next
  case (step y z)
  then obtain a where "look y k = Some a" and "fs_revision st \<le> fs_revision a" by blast
  with step_keeps [OF step.hyps(2)] show ?case by fastforce
qed

text \<open>
  Optimistic concurrency: of two writers that read the same revision, at most one commits,
  whatever other operations happen in between.
\<close>

lemma no_lost_update:
  assumes first: "commit st n ds tok s = (Inr es, s1)" and steps: "step\<^sup>*\<^sup>* s1 s2"
    and same: "fs_run_id st' = fs_run_id st"
  shows "\<exists>e s3. commit st' n ds' tok' s2 = (Inl e, s3) \<and> look s3 = look s2 \<and> log s3 = log s2"
proof (cases "commit st' n ds' tok' s2")
  case (Pair r s3)
  from commit_checks [OF first] commit_writes [OF first]
  have "look s1 (fs_run_id st) = Some st" "fs_revision st = n + 1" by auto
  with steps_keep [OF steps] obtain cur where cur: "look s2 (fs_run_id st) = Some cur" "n < fs_revision cur"
    by fastforce
  show ?thesis
  proof (cases r)
    case (Inl e)
    with Pair commit_fails show ?thesis by blast
  next
    case (Inr es')
    with Pair commit_checks [of st' n ds' tok' s2 es' s3] same cur show ?thesis by auto
  qed
qed

text \<open>History is never rewritten: what a reader saw of a log stays its prefix.\<close>

lemma steps_append: "step\<^sup>*\<^sup>* s s' \<Longrightarrow> \<exists>new. log s' k = log s k @ new"
proof (induction rule: rtranclp_induct)
  case (step y z)
  then obtain a where "log y k = log s k @ a" by blast
  with step_appends [OF step.hyps(2), of k] show ?case by auto
qed simp

end

end
