(* ===== verification/Flow_Repository.thy ===== *)
theory Flow_Repository
  imports Flow_Interfaces
begin

text \<open>
  \<open>flows/repository.py\<close> and \<open>flows/lease.py\<close>: the in-memory repository of Flow aggregates, their
  event logs and the fenced execution leases. Every public operation runs under the repository's
  lock, so it is one atomic state transformer here; interleavings of clients are sequences of
  such steps (\<open>repo_step\<close>). The stored objects are immutable, so the deep copies are identities.
\<close>

subsection \<open>Events\<close>

datatype flow_event_type =
    FLOW_CREATED | FLOW_STARTED | FLOW_RESUMED | FLOW_WAITING | FLOW_COMPLETED | FLOW_FAILED
  | FLOW_CANCELLED | FLOW_INTERRUPTED | FLOW_LIMIT_REACHED | AGENT_INVOCATION_STARTED
  | AGENT_INVOCATION_RESUMED | AGENT_INVOCATION_WAITING | AGENT_INVOCATION_COMPLETED
  | AGENT_INVOCATION_FAILED | AGENT_INVOCATION_CANCELLED | AGENT_INVOCATION_INTERRUPTED
  | AGENT_INVOCATION_LIMIT_REACHED | AGENT_INVOCATION_CANCELLATION_PROPAGATION_FAILED

text \<open>
  Values of an event's data before their JSON rendering (\<open>str\<close> of a UUID, \<open>isoformat\<close> of a time,
  \<open>model_dump\<close> of a budget, the \<open>value\<close> of a status).
\<close>

datatype event_value =
    EvUuid uuid | EvInt int | EvStr string | EvTime "timestamp option" | EvBudget flow_budget
  | EvStatus run_status | EvJson json

record flow_event_draft =
  dr_type :: flow_event_type
  dr_data :: "(string, event_value) dict"

record runtime_event =
  ev_id :: uuid
  ev_run_id :: uuid
  ev_sequence :: int
  ev_type :: flow_event_type
  ev_timestamp :: timestamp
  ev_data :: "(string, event_value) dict"

subsection \<open>Leases and the repository's state\<close>

record flow_lease =
  ls_run_id :: uuid
  ls_token :: uuid
  ls_owner_id :: string
  ls_attempt :: int
  ls_acquired_at :: timestamp
  ls_heartbeat_at :: timestamp
  ls_expires_at :: timestamp

definition valid_lease :: "flow_lease \<Rightarrow> bool" where
  "valid_lease l \<longleftrightarrow> within_length 256 (ls_owner_id l) \<and> 1 \<le> ls_attempt l"

definition is_expired :: "flow_lease \<Rightarrow> timestamp \<Rightarrow> bool" where
  "is_expired l now \<longleftrightarrow> ls_expires_at l \<le> now"

record flow_repo = host +
  repo_states :: "(uuid, flow_run_state) dict"
  repo_events :: "(uuid, runtime_event list) dict"
  repo_leases :: "(uuid, flow_lease \<times> bool) dict"

type_synonym 'a repo_prog = "(flow_repo, exn, 'a) prog"

definition empty_repo :: "(nat \<Rightarrow> timestamp) \<Rightarrow> (nat \<Rightarrow> uuid) \<Rightarrow> flow_repo" where
  "empty_repo clk ids = \<lparr>clock_stream = clk, clock_reads = 0, uuid_stream = ids, uuid_draws = 0,
     repo_states = [], repo_events = [], repo_leases = []\<rparr>"

subsection \<open>Operations\<close>

text \<open>\<open>_materialize_events\<close>: consecutive sequence numbers; identity and time are fresh readings.\<close>

fun materialize_events :: "uuid \<Rightarrow> int \<Rightarrow> flow_event_draft list \<Rightarrow> runtime_event list repo_prog" where
  "materialize_events run_id sq [] = pret []"
| "materialize_events run_id sq (d # ds) = pbind uuid4 (\<lambda>i. pbind utc_now (\<lambda>t.
     pbind (materialize_events run_id (sq + 1) ds) (\<lambda>es.
     pret (\<lparr>ev_id = i, ev_run_id = run_id, ev_sequence = sq, ev_type = dr_type d,
            ev_timestamp = t, ev_data = dr_data d\<rparr> # es))))"

definition repo_create :: "flow_run_state \<Rightarrow> flow_event_draft list \<Rightarrow> runtime_event list repo_prog" where
  "repo_create st events =
     (if fs_revision st \<noteq> 1 then praise (ValueError ''a new Flow Run must start at revision 1'')
      else if events = [] then praise (ValueError ''creating a Flow Run requires at least one event'')
      else pbind pget (\<lambda>r.
        if dict_get (repo_states r) (fs_run_id st) \<noteq> None then praise FlowRunAlreadyExistsError
        else pbind (materialize_events (fs_run_id st) 1 events) (\<lambda>es.
          pbind (pput (\<lambda>r. r\<lparr>repo_states := dict_set (fs_run_id st) st (repo_states r),
                            repo_events := dict_set (fs_run_id st) es (repo_events r)\<rparr>)) (\<lambda>_.
          pret es))))"

definition repo_get :: "uuid \<Rightarrow> flow_run_state repo_prog" where
  "repo_get run_id = pbind pget (\<lambda>r. case dict_get (repo_states r) run_id of
     None \<Rightarrow> praise FlowRunNotFoundError | Some st \<Rightarrow> pret st)"

text \<open>\<open>_validate_execution_token\<close>.\<close>

definition validate_execution_token ::
  "flow_repo \<Rightarrow> uuid \<Rightarrow> uuid option \<Rightarrow> timestamp \<Rightarrow> exn + unit" where
  "validate_execution_token r run_id token now = (case dict_get (repo_leases r) run_id of
     None \<Rightarrow> (if token \<noteq> None then Inl FlowLeaseLostError else Inr ())
   | Some (lease, active) \<Rightarrow>
       (if token = None \<or> \<not> active \<or> Some (ls_token lease) \<noteq> token \<or> is_expired lease now
        then Inl FlowLeaseLostError else Inr ()))"

definition validate_flow_replacement ::
  "flow_run_state \<Rightarrow> flow_run_state \<Rightarrow> int \<Rightarrow> exn + unit" where
  "validate_flow_replacement current replacement expected =
     (if fs_revision current \<noteq> expected then Inl FlowRevisionConflictError
      else if fs_run_id replacement \<noteq> fs_run_id current
      then Inl (ValueError ''committed Flow Run changed its run_id'')
      else if fs_revision replacement \<noteq> expected + 1
      then Inl (ValueError (''committed Flow Run revision must be exactly one greater '' @
                            ''than expected_revision''))
      else if fs_definition_id replacement \<noteq> fs_definition_id current \<or>
        fs_definition_version replacement \<noteq> fs_definition_version current \<or>
        fs_definition_fingerprint replacement \<noteq> fs_definition_fingerprint current \<or>
        fs_budget replacement \<noteq> fs_budget current \<or>
        fs_deadline_at replacement \<noteq> fs_deadline_at current \<or>
        fs_created_at replacement \<noteq> fs_created_at current
      then Inl (ValueError ''committed Flow Run changed immutable identity'')
      else Inr ())"

text \<open>The events of a run; \<open>self._events[run_id]\<close>.\<close>

definition require_events :: "uuid \<Rightarrow> runtime_event list repo_prog" where
  "require_events run_id = pbind pget (\<lambda>r. case dict_get (repo_events r) run_id of
     None \<Rightarrow> praise KeyError | Some es \<Rightarrow> pret es)"

definition repo_commit ::
  "flow_run_state \<Rightarrow> int \<Rightarrow> flow_event_draft list \<Rightarrow> uuid option \<Rightarrow> runtime_event list repo_prog" where
  "repo_commit st expected events token =
     (if events = [] then praise (ValueError ''committing a Flow Run requires at least one event'')
      else pbind (repo_get (fs_run_id st)) (\<lambda>current.
        pbind utc_now (\<lambda>now. pbind pget (\<lambda>r.
        pbind (plift (validate_execution_token r (fs_run_id st) token now)) (\<lambda>_.
        pbind (plift (validate_flow_replacement current st expected)) (\<lambda>_.
        pbind (require_events (fs_run_id st)) (\<lambda>olds.
        pbind (materialize_events (fs_run_id st) (int (length olds) + 1) events) (\<lambda>es.
        pbind (pput (\<lambda>r. r\<lparr>repo_states := dict_set (fs_run_id st) st (repo_states r),
                          repo_events := dict_set (fs_run_id st) (olds @ es) (repo_events r)\<rparr>)) (\<lambda>_.
        pret es)))))))))"

definition repo_events_of :: "uuid \<Rightarrow> runtime_event list repo_prog" where
  "repo_events_of run_id = pbind pget (\<lambda>r.
     if dict_get (repo_states r) run_id = None then praise FlowRunNotFoundError
     else require_events run_id)"

definition repo_append_events ::
  "uuid \<Rightarrow> int \<Rightarrow> flow_event_draft list \<Rightarrow> uuid option \<Rightarrow> runtime_event list repo_prog" where
  "repo_append_events run_id expected events token =
     (if events = [] then praise (ValueError ''appending Flow events requires at least one event'')
      else pbind (repo_get run_id) (\<lambda>current.
        pbind utc_now (\<lambda>now. pbind pget (\<lambda>r.
        pbind (plift (validate_execution_token r run_id token now)) (\<lambda>_.
        if fs_revision current \<noteq> expected then praise FlowRevisionConflictError
        else pbind (require_events run_id) (\<lambda>olds.
        pbind (materialize_events run_id (int (length olds) + 1) events) (\<lambda>es.
        pbind (pput (\<lambda>r. r\<lparr>repo_events := dict_set run_id (olds @ es) (repo_events r)\<rparr>)) (\<lambda>_.
        pret es))))))))"

text \<open>\<open>_validate_lease_arguments\<close>.\<close>

definition validate_lease_arguments :: "string \<Rightarrow> seconds \<Rightarrow> exn + unit" where
  "validate_lease_arguments owner_id ttl =
     (if blank owner_id then Inl (ValueError ''Flow lease owner_id must not be blank'')
      else if 256 < length owner_id
      then Inl (ValueError ''Flow lease owner_id must not exceed 256 characters'')
      else if ttl \<le> 0 then Inl (ValueError ''Flow lease ttl_seconds must be greater than zero'')
      else Inr ())"

definition acquire_execution ::
  "uuid \<Rightarrow> string \<Rightarrow> seconds \<Rightarrow> timestamp option \<Rightarrow> flow_lease repo_prog" where
  "acquire_execution run_id owner_id ttl now =
     pbind (plift (validate_lease_arguments owner_id ttl)) (\<lambda>_.
     pbind (now_or_clock now) (\<lambda>acquired_at.
     pbind (repo_get run_id) (\<lambda>st.
     if terminal (fs_status st) then praise FlowLeaseUnavailableError
     else pbind pget (\<lambda>r.
       let prior = dict_get (repo_leases r) run_id in
       if (case prior of None \<Rightarrow> False | Some (l, active) \<Rightarrow> active \<and> \<not> is_expired l acquired_at)
       then praise FlowLeaseUnavailableError
       else pbind uuid4 (\<lambda>token.
         pbind (plift (construct valid_lease
           \<lparr>ls_run_id = run_id, ls_token = token, ls_owner_id = owner_id,
            ls_attempt = (case prior of None \<Rightarrow> 1 | Some (l, _) \<Rightarrow> ls_attempt l + 1),
            ls_acquired_at = acquired_at, ls_heartbeat_at = acquired_at,
            ls_expires_at = acquired_at + timedelta ttl\<rparr>)) (\<lambda>lease.
         pbind (pput (\<lambda>r. r\<lparr>repo_leases := dict_set run_id (lease, True) (repo_leases r)\<rparr>)) (\<lambda>_.
         pret lease)))))))"

text \<open>\<open>_require_lease\<close>.\<close>

definition require_lease :: "uuid \<Rightarrow> (flow_lease \<times> bool) repo_prog" where
  "require_lease run_id = pbind pget (\<lambda>r. case dict_get (repo_leases r) run_id of
     None \<Rightarrow> praise FlowLeaseLostError | Some la \<Rightarrow> pret la)"

definition renew_execution ::
  "flow_lease \<Rightarrow> seconds \<Rightarrow> timestamp option \<Rightarrow> flow_lease repo_prog" where
  "renew_execution lease ttl now =
     pbind (plift (validate_lease_arguments (ls_owner_id lease) ttl)) (\<lambda>_.
     pbind (now_or_clock now) (\<lambda>heartbeat_at.
     pbind (require_lease (ls_run_id lease)) (\<lambda>(current, active).
     if \<not> active \<or> ls_token current \<noteq> ls_token lease \<or> is_expired current heartbeat_at
     then praise FlowLeaseLostError
     else let renewed = current\<lparr>ls_heartbeat_at := heartbeat_at,
                          ls_expires_at := heartbeat_at + timedelta ttl\<rparr> in
       pbind (pput (\<lambda>r. r\<lparr>repo_leases := dict_set (ls_run_id lease) (renewed, True) (repo_leases r)\<rparr>)) (\<lambda>_.
       pret renewed))))"

definition release_execution :: "flow_lease \<Rightarrow> unit repo_prog" where
  "release_execution lease =
     pbind (require_lease (ls_run_id lease)) (\<lambda>(current, active).
     if ls_token current \<noteq> ls_token lease then praise FlowLeaseLostError
     else if active
     then pput (\<lambda>r. r\<lparr>repo_leases := dict_set (ls_run_id lease) (current, False) (repo_leases r)\<rparr>)
     else pret ())"


subsection \<open>What the operations do\<close>

text \<open>Two repositories that differ at most in the clock and identifier readings taken.\<close>

definition same_store :: "flow_repo \<Rightarrow> flow_repo \<Rightarrow> bool" where
  "same_store r r' \<longleftrightarrow> repo_states r' = repo_states r \<and> repo_events r' = repo_events r \<and>
     repo_leases r' = repo_leases r \<and> uuid_stream r' = uuid_stream r \<and>
     clock_stream r' = clock_stream r \<and> uuid_draws r \<le> uuid_draws r' \<and> clock_reads r \<le> clock_reads r'"

lemma same_store_refl [simp, intro]: "same_store r r"
  by (simp add: same_store_def)

lemma same_store_clock [simp]: "same_store r (r\<lparr>clock_reads := Suc (clock_reads r)\<rparr>)"
  by (simp add: same_store_def)

definition materialized :: "flow_repo \<Rightarrow> uuid \<Rightarrow> int \<Rightarrow> flow_event_draft list \<Rightarrow> runtime_event list" where
  "materialized r run_id sq ds = map (\<lambda>i. \<lparr>ev_id = uuid_stream r (uuid_draws r + i), ev_run_id = run_id,
     ev_sequence = sq + int i, ev_type = dr_type (ds ! i),
     ev_timestamp = clock_stream r (clock_reads r + i), ev_data = dr_data (ds ! i)\<rparr>) [0..<length ds]"

lemma materialize_events_eq:
  "materialize_events run_id sq ds r = (Inr (materialized r run_id sq ds),
     r\<lparr>uuid_draws := uuid_draws r + length ds, clock_reads := clock_reads r + length ds\<rparr>)"
proof (induction ds arbitrary: sq r)
  case Nil
  show ?case by (simp add: materialized_def)
next
  case (Cons d ds)
  have "[0..<length (d # ds)] = 0 # map Suc [0..<length ds]"
    by (simp add: map_Suc_upt upt_conv_Cons del: upt_Suc)
  with Cons.IH show ?case
    by (simp add: pbind_app uuid4_def utc_now_def materialized_def comp_def del: upt_Suc)
qed

lemma materialized_length [simp]: "length (materialized r run_id sq ds) = length ds"
  and materialized_sequence: "i < length ds \<Longrightarrow> ev_sequence (materialized r run_id sq ds ! i) = sq + int i"
  and materialized_run: "e \<in> set (materialized r run_id sq ds) \<Longrightarrow> ev_run_id e = run_id"
  and materialized_types [simp]: "map ev_type (materialized r run_id sq ds) = map dr_type ds"
  and materialized_data [simp]: "map ev_data (materialized r run_id sq ds) = map dr_data ds"
  by (auto simp: materialized_def intro: nth_equalityI)

lemma materialized_contiguous:
  "contiguous ev_sequence es \<Longrightarrow> contiguous ev_sequence (es @ materialized r k (int (length es) + 1) ds)"
  by (rule contiguous_append) (auto simp: materialized_sequence)

lemma materialized_Nil_iff [simp]: "materialized r k sq ds = [] \<longleftrightarrow> ds = []"
  by (simp add: materialized_def)

lemma repo_get_eq: "repo_get k r =
   (case dict_get (repo_states r) k of None \<Rightarrow> (Inl FlowRunNotFoundError, r) | Some st \<Rightarrow> (Inr st, r))"
  by (simp add: repo_get_def pbind_app split: option.split)

text \<open>The reading of the repository's clock that the next operation takes.\<close>

abbreviation next_time :: "flow_repo \<Rightarrow> timestamp" where
  "next_time r \<equiv> clock_stream r (clock_reads r)"

lemma validate_execution_token_clock [simp]:
  "validate_execution_token (r\<lparr>clock_reads := c\<rparr>) k tok t = validate_execution_token r k tok t"
  by (simp add: validate_execution_token_def)

lemma repo_createE:
  assumes "repo_create st ds r = (res, r')"
  obtains (failed) e where "res = Inl e" "r' = r"
  | (stored) es where "res = Inr es" "es = materialized r (fs_run_id st) 1 ds" "ds \<noteq> []" "fs_revision st = 1"
      "dict_get (repo_states r) (fs_run_id st) = None"
      "r' = r\<lparr>uuid_draws := uuid_draws r + length ds, clock_reads := clock_reads r + length ds,
            repo_states := dict_set (fs_run_id st) st (repo_states r),
            repo_events := dict_set (fs_run_id st) es (repo_events r)\<rparr>"
  using assms by (auto simp: repo_create_def pbind_app materialize_events_eq split: if_splits)

lemma repo_commit_eq: "repo_commit st n ds tok r =
   (if ds = [] then (Inl (ValueError ''committing a Flow Run requires at least one event''), r)
    else case dict_get (repo_states r) (fs_run_id st) of None \<Rightarrow> (Inl FlowRunNotFoundError, r)
    | Some cur \<Rightarrow> (let r1 = r\<lparr>clock_reads := Suc (clock_reads r)\<rparr> in
      case validate_execution_token r (fs_run_id st) tok (next_time r) of Inl e \<Rightarrow> (Inl e, r1)
      | Inr _ \<Rightarrow> (case validate_flow_replacement cur st n of Inl e \<Rightarrow> (Inl e, r1)
      | Inr _ \<Rightarrow> (case dict_get (repo_events r) (fs_run_id st) of None \<Rightarrow> (Inl KeyError, r1)
      | Some olds \<Rightarrow> (let es = materialized r1 (fs_run_id st) (int (length olds) + 1) ds in
          (Inr es, r\<lparr>uuid_draws := uuid_draws r + length ds, clock_reads := Suc (clock_reads r + length ds),
            repo_states := dict_set (fs_run_id st) st (repo_states r),
            repo_events := dict_set (fs_run_id st) (olds @ es) (repo_events r)\<rparr>))))))"
  by (cases "dict_get (repo_states r) (fs_run_id st)";
      cases "validate_execution_token r (fs_run_id st) tok (next_time r)";
      cases "dict_get (repo_events r) (fs_run_id st)")
    (simp_all add: repo_commit_def pbind_app repo_get_eq utc_now_def require_events_def
      materialize_events_eq Let_def split: sum.split)

lemma repo_commit_Inl: "repo_commit st n ds tok r = (Inl e, r') \<Longrightarrow> same_store r r'"
  unfolding repo_commit_eq Let_def by (auto split: if_splits option.splits sum.splits)

lemma repo_commit_Inr:
  assumes "repo_commit st n ds tok r = (Inr es, r')"
  obtains cur olds where "ds \<noteq> []"
      "dict_get (repo_states r) (fs_run_id st) = Some cur"
      "dict_get (repo_events r) (fs_run_id st) = Some olds"
      "validate_execution_token r (fs_run_id st) tok (next_time r) = Inr ()"
      "validate_flow_replacement cur st n = Inr ()"
      "es = materialized (r\<lparr>clock_reads := Suc (clock_reads r)\<rparr>) (fs_run_id st) (int (length olds) + 1) ds"
      "r' = r\<lparr>uuid_draws := uuid_draws r + length ds, clock_reads := Suc (clock_reads r + length ds),
            repo_states := dict_set (fs_run_id st) st (repo_states r),
            repo_events := dict_set (fs_run_id st) (olds @ es) (repo_events r)\<rparr>"
  using assms unfolding repo_commit_eq Let_def
  by (clarsimp split: if_splits option.splits sum.splits)

lemma repo_append_events_eq: "repo_append_events k n ds tok r =
   (if ds = [] then (Inl (ValueError ''appending Flow events requires at least one event''), r)
    else case dict_get (repo_states r) k of None \<Rightarrow> (Inl FlowRunNotFoundError, r)
    | Some cur \<Rightarrow> (let r1 = r\<lparr>clock_reads := Suc (clock_reads r)\<rparr> in
      case validate_execution_token r k tok (next_time r) of Inl e \<Rightarrow> (Inl e, r1)
      | Inr _ \<Rightarrow> if fs_revision cur \<noteq> n then (Inl FlowRevisionConflictError, r1)
      else (case dict_get (repo_events r) k of None \<Rightarrow> (Inl KeyError, r1)
      | Some olds \<Rightarrow> (let es = materialized r1 k (int (length olds) + 1) ds in
          (Inr es, r\<lparr>uuid_draws := uuid_draws r + length ds, clock_reads := Suc (clock_reads r + length ds),
            repo_events := dict_set k (olds @ es) (repo_events r)\<rparr>)))))"
  by (cases "dict_get (repo_states r) k"; cases "validate_execution_token r k tok (next_time r)";
      cases "dict_get (repo_events r) k")
    (simp_all add: repo_append_events_def pbind_app repo_get_eq utc_now_def require_events_def
      materialize_events_eq Let_def)

lemma repo_append_events_Inl: "repo_append_events k n ds tok r = (Inl e, r') \<Longrightarrow> same_store r r'"
  unfolding repo_append_events_eq Let_def by (auto split: if_splits option.splits sum.splits)

lemma repo_append_events_Inr:
  assumes "repo_append_events k n ds tok r = (Inr es, r')"
  obtains cur olds where "ds \<noteq> []"
      "dict_get (repo_states r) k = Some cur" "fs_revision cur = n"
      "dict_get (repo_events r) k = Some olds"
      "validate_execution_token r k tok (next_time r) = Inr ()"
      "es = materialized (r\<lparr>clock_reads := Suc (clock_reads r)\<rparr>) k (int (length olds) + 1) ds"
      "r' = r\<lparr>uuid_draws := uuid_draws r + length ds, clock_reads := Suc (clock_reads r + length ds),
            repo_events := dict_set k (olds @ es) (repo_events r)\<rparr>"
  using assms unfolding repo_append_events_eq Let_def
  by (clarsimp split: if_splits option.splits sum.splits)

lemma validate_lease_arguments_Inr: "validate_lease_arguments owner_id ttl = Inr () \<longleftrightarrow>
    \<not> blank owner_id \<and> length owner_id \<le> 256 \<and> 0 < ttl"
  by (auto simp: validate_lease_arguments_def)

text \<open>The time and the repository after \<open>now or self._clock()\<close>.\<close>

definition at_time :: "timestamp option \<Rightarrow> flow_repo \<Rightarrow> timestamp" where
  "at_time n r = (case n of Some t \<Rightarrow> t | None \<Rightarrow> next_time r)"

definition after_read :: "timestamp option \<Rightarrow> flow_repo \<Rightarrow> flow_repo" where
  "after_read n r = (case n of Some t \<Rightarrow> r | None \<Rightarrow> r\<lparr>clock_reads := Suc (clock_reads r)\<rparr>)"

lemma now_or_clock_eq: "now_or_clock n r = (Inr (at_time n r), after_read n r)"
  by (simp add: now_or_clock_def utc_now_def at_time_def after_read_def split: option.split)

lemma after_read_sel [simp]: "repo_states (after_read n r) = repo_states r"
  "repo_events (after_read n r) = repo_events r" "repo_leases (after_read n r) = repo_leases r"
  "uuid_stream (after_read n r) = uuid_stream r" "uuid_draws (after_read n r) = uuid_draws r"
  "clock_stream (after_read n r) = clock_stream r" "clock_reads r \<le> clock_reads (after_read n r)"
  by (simp_all add: after_read_def split: option.split)

lemma after_read_same [simp]: "same_store r (after_read n r)"
  by (simp add: same_store_def)

text \<open>A stored lease that blocks other owners at a time.\<close>

definition lease_holds :: "flow_repo \<Rightarrow> uuid \<Rightarrow> timestamp \<Rightarrow> bool" where
  "lease_holds r k t \<longleftrightarrow> (case dict_get (repo_leases r) k of None \<Rightarrow> False
     | Some (l, active) \<Rightarrow> active \<and> \<not> is_expired l t)"

definition last_attempt :: "flow_repo \<Rightarrow> uuid \<Rightarrow> int" where
  "last_attempt r k = (case dict_get (repo_leases r) k of None \<Rightarrow> 0 | Some (l, _) \<Rightarrow> ls_attempt l)"

definition granted_lease :: "uuid \<Rightarrow> string \<Rightarrow> seconds \<Rightarrow> timestamp option \<Rightarrow> flow_repo \<Rightarrow> flow_lease" where
  "granted_lease k owner_id ttl now r = \<lparr>ls_run_id = k, ls_token = uuid_stream r (uuid_draws r),
     ls_owner_id = owner_id, ls_attempt = last_attempt r k + 1, ls_acquired_at = at_time now r,
     ls_heartbeat_at = at_time now r, ls_expires_at = at_time now r + timedelta ttl\<rparr>"

lemma acquire_execution_Inl: "acquire_execution k owner_id ttl now r = (Inl e, r') \<Longrightarrow> same_store r r'"
  by (auto simp: acquire_execution_def pbind_app now_or_clock_eq repo_get_eq uuid4_def construct_def
      Let_def same_store_def split: if_splits option.splits sum.splits)

lemma acquire_execution_eq:
  "acquire_execution k owner_id ttl now r =
    (case validate_lease_arguments owner_id ttl of Inl e \<Rightarrow> (Inl e, r)
     | Inr _ \<Rightarrow> (case dict_get (repo_states r) k of None \<Rightarrow> (Inl FlowRunNotFoundError, after_read now r)
     | Some st \<Rightarrow> if terminal (fs_status st) \<or> lease_holds r k (at_time now r)
         then (Inl FlowLeaseUnavailableError, after_read now r)
         else if \<not> valid_lease (granted_lease k owner_id ttl now r)
         then (Inl ValidationError, (after_read now r)\<lparr>uuid_draws := Suc (uuid_draws r)\<rparr>)
         else (Inr (granted_lease k owner_id ttl now r),
           (after_read now r)\<lparr>uuid_draws := Suc (uuid_draws r),
             repo_leases := dict_set k (granted_lease k owner_id ttl now r, True) (repo_leases r)\<rparr>)))"
  by (cases "validate_lease_arguments owner_id ttl"; cases "dict_get (repo_states r) k";
      cases "dict_get (repo_leases r) k")
    (auto simp: acquire_execution_def pbind_app now_or_clock_eq repo_get_eq uuid4_def construct_def
      Let_def lease_holds_def last_attempt_def granted_lease_def)

lemma acquire_execution_Inr:
  assumes "acquire_execution k owner_id ttl now r = (Inr l, r')"
  obtains st where "dict_get (repo_states r) k = Some st" "\<not> terminal (fs_status st)"
    "\<not> lease_holds r k (at_time now r)" "valid_lease l" "l = granted_lease k owner_id ttl now r"
    "r' = (after_read now r)\<lparr>uuid_draws := Suc (uuid_draws r),
       repo_leases := dict_set k (l, True) (repo_leases r)\<rparr>"
  using assms unfolding acquire_execution_eq
  by (clarsimp split: if_splits option.splits sum.splits)

lemma renew_execution_eq:
  "renew_execution lease ttl now r =
    (case validate_lease_arguments (ls_owner_id lease) ttl of Inl e \<Rightarrow> (Inl e, r)
     | Inr _ \<Rightarrow> (case dict_get (repo_leases r) (ls_run_id lease) of None \<Rightarrow> (Inl FlowLeaseLostError, after_read now r)
     | Some (cur, active) \<Rightarrow>
         if \<not> active \<or> ls_token cur \<noteq> ls_token lease \<or> is_expired cur (at_time now r)
         then (Inl FlowLeaseLostError, after_read now r)
         else (let l = cur\<lparr>ls_heartbeat_at := at_time now r, ls_expires_at := at_time now r + timedelta ttl\<rparr> in
           (Inr l, (after_read now r)\<lparr>repo_leases := dict_set (ls_run_id lease) (l, True) (repo_leases r)\<rparr>))))"
  by (cases "validate_lease_arguments (ls_owner_id lease) ttl";
      cases "dict_get (repo_leases r) (ls_run_id lease)")
    (auto simp: renew_execution_def pbind_app now_or_clock_eq require_lease_def Let_def)

lemma release_execution_eq:
  "release_execution lease r =
    (case dict_get (repo_leases r) (ls_run_id lease) of None \<Rightarrow> (Inl FlowLeaseLostError, r)
     | Some (cur, active) \<Rightarrow>
         if ls_token cur \<noteq> ls_token lease then (Inl FlowLeaseLostError, r)
         else if active
         then (Inr (), r\<lparr>repo_leases := dict_set (ls_run_id lease) (cur, False) (repo_leases r)\<rparr>)
         else (Inr (), r))"
  by (cases "dict_get (repo_leases r) (ls_run_id lease)")
    (auto simp: release_execution_def pbind_app require_lease_def)

subsection \<open>Steps of the clients\<close>

text \<open>One operation of some client, with its arguments; it may succeed or raise.\<close>

inductive repo_step :: "flow_repo \<Rightarrow> flow_repo \<Rightarrow> bool" where
  creates: "repo_create st ds r = (res, r') \<Longrightarrow> repo_step r r'"
| commits: "repo_commit st n ds tok r = (res, r') \<Longrightarrow> repo_step r r'"
| appends: "repo_append_events k n ds tok r = (res, r') \<Longrightarrow> repo_step r r'"
| acquires: "acquire_execution k owner_id ttl now r = (res, r') \<Longrightarrow> repo_step r r'"
| renews: "renew_execution lease ttl now r = (res, r') \<Longrightarrow> repo_step r r'"
| releases: "release_execution lease r = (res, r') \<Longrightarrow> repo_step r r'"
| reads: "(if run then snd (repo_get k r) else snd (repo_events_of k r)) = r' \<Longrightarrow> repo_step r r'"
| idles: "r' = r\<lparr>clock_reads := clock_reads r + i, uuid_draws := uuid_draws r + j\<rparr> \<Longrightarrow> repo_step r r'"

text \<open>
  The changes a step can make, one constructor per kind of write: every step is \<open>same_store\<close> or one
  of these, so that facts on all steps are proved from five cases instead of eight operations.
\<close>

inductive repo_change :: "flow_repo \<Rightarrow> flow_repo \<Rightarrow> bool" where
  unchanged: "same_store r r' \<Longrightarrow> repo_change r r'"
| created: "ds \<noteq> [] \<Longrightarrow> fs_revision st = 1 \<Longrightarrow> dict_get (repo_states r) (fs_run_id st) = None \<Longrightarrow>
    es = materialized r (fs_run_id st) 1 ds \<Longrightarrow> uuid_draws r \<le> d \<Longrightarrow>
    r' = r\<lparr>uuid_draws := d, clock_reads := c, repo_states := dict_set (fs_run_id st) st (repo_states r),
      repo_events := dict_set (fs_run_id st) es (repo_events r)\<rparr> \<Longrightarrow> repo_change r r'"
| committed: "ds \<noteq> [] \<Longrightarrow> dict_get (repo_states r) (fs_run_id st) = Some cur \<Longrightarrow>
    dict_get (repo_events r) (fs_run_id st) = Some olds \<Longrightarrow>
    validate_execution_token r (fs_run_id st) tok (next_time r) = Inr () \<Longrightarrow>
    validate_flow_replacement cur st (fs_revision cur) = Inr () \<Longrightarrow>
    es = materialized (r\<lparr>clock_reads := Suc (clock_reads r)\<rparr>) (fs_run_id st) (int (length olds) + 1) ds \<Longrightarrow>
    uuid_draws r \<le> d \<Longrightarrow>
    r' = r\<lparr>uuid_draws := d, clock_reads := c, repo_states := dict_set (fs_run_id st) st (repo_states r),
      repo_events := dict_set (fs_run_id st) (olds @ es) (repo_events r)\<rparr> \<Longrightarrow> repo_change r r'"
| appended: "ds \<noteq> [] \<Longrightarrow> dict_get (repo_states r) k = Some cur \<Longrightarrow>
    dict_get (repo_events r) k = Some olds \<Longrightarrow>
    validate_execution_token r k tok (next_time r) = Inr () \<Longrightarrow>
    es = materialized (r\<lparr>clock_reads := Suc (clock_reads r)\<rparr>) k (int (length olds) + 1) ds \<Longrightarrow>
    uuid_draws r \<le> d \<Longrightarrow>
    r' = r\<lparr>uuid_draws := d, clock_reads := c,
      repo_events := dict_set k (olds @ es) (repo_events r)\<rparr> \<Longrightarrow> repo_change r r'"
| leased: "dict_get (repo_states r) k = Some st \<Longrightarrow> ls_run_id l = k \<Longrightarrow> valid_lease l \<Longrightarrow>
    (case dict_get (repo_leases r) k of
       None \<Rightarrow> active \<and> ls_token l = uuid_stream r (uuid_draws r) \<and> ls_attempt l = 1 \<and> uuid_draws r < d
     | Some (l0, a0) \<Rightarrow> (ls_token l = ls_token l0 \<and> ls_attempt l = ls_attempt l0) \<or>
         (active \<and> ls_token l = uuid_stream r (uuid_draws r) \<and> ls_attempt l = ls_attempt l0 + 1 \<and> uuid_draws r < d)) \<Longrightarrow>
    uuid_draws r \<le> d \<Longrightarrow>
    r' = r\<lparr>uuid_draws := d, clock_reads := c, repo_leases := dict_set k (l, active) (repo_leases r)\<rparr> \<Longrightarrow>
    repo_change r r'"

subsection \<open>The repository invariant\<close>

text \<open>
  Aggregates and logs have the same keys in the same order; every log is non-empty, its sequence
  numbers are 1, 2, 3, ..., and it has at least as many events as the aggregate has revisions; a
  lease belongs to a stored run, and its token was drawn from \<open>uuid4\<close>.
\<close>

definition lease_ok :: "flow_repo \<Rightarrow> uuid \<Rightarrow> flow_lease \<times> bool \<Rightarrow> bool" where
  "lease_ok r k la \<longleftrightarrow> ls_run_id (fst la) = k \<and> valid_lease (fst la) \<and>
     dict_get (repo_states r) k \<noteq> None \<and>
     (\<exists>i < uuid_draws r. ls_token (fst la) = uuid_stream r i)"

definition log_ok :: "flow_repo \<Rightarrow> uuid \<Rightarrow> runtime_event list \<Rightarrow> bool" where
  "log_ok r k es \<longleftrightarrow> es \<noteq> [] \<and> contiguous ev_sequence es \<and> (\<forall>e \<in> set es. ev_run_id e = k) \<and>
     (\<forall>st. dict_get (repo_states r) k = Some st \<longrightarrow> fs_revision st \<le> int (length es))"

definition repo_inv :: "flow_repo \<Rightarrow> bool" where
  "repo_inv r \<longleftrightarrow> dict_ok (repo_states r) \<and> dict_keys (repo_events r) = dict_keys (repo_states r) \<and>
     dict_ok (repo_leases r) \<and>
     dict_all (\<lambda>k st. fs_run_id st = k \<and> 1 \<le> fs_revision st) (repo_states r) \<and>
     dict_all (log_ok r) (repo_events r) \<and> dict_all (lease_ok r) (repo_leases r)"

lemma repo_invD:
  assumes "repo_inv r"
  shows repo_inv_state: "dict_get (repo_states r) k = Some st \<Longrightarrow> fs_run_id st = k \<and> 1 \<le> fs_revision st"
    and repo_inv_log: "dict_get (repo_events r) k = Some es \<Longrightarrow> log_ok r k es"
    and repo_inv_lease: "dict_get (repo_leases r) k = Some la \<Longrightarrow> lease_ok r k la"
    and repo_inv_aligned: "dict_get (repo_events r) k = None \<longleftrightarrow> dict_get (repo_states r) k = None"
    and repo_inv_keys: "dict_keys (repo_events r) = dict_keys (repo_states r)"
  using assms unfolding repo_inv_def
  by (auto dest: dict_allD simp: dict_get_keys simp del: map_of_eq_None_iff)

lemma validate_flow_replacement_Inr: "validate_flow_replacement cur st n = Inr () \<longleftrightarrow>
    fs_revision cur = n \<and> fs_run_id st = fs_run_id cur \<and> fs_revision st = n + 1 \<and>
    fs_definition_id st = fs_definition_id cur \<and> fs_definition_version st = fs_definition_version cur \<and>
    fs_definition_fingerprint st = fs_definition_fingerprint cur \<and> fs_budget st = fs_budget cur \<and>
    fs_deadline_at st = fs_deadline_at cur \<and> fs_created_at st = fs_created_at cur"
  by (auto simp: validate_flow_replacement_def)

lemma repo_events_of_state [simp]: "snd (repo_events_of k r) = r"
  by (simp add: repo_events_of_def require_events_def pbind_app split: option.split)

lemma repo_get_state [simp]: "snd (repo_get k r) = r"
  by (simp add: repo_get_eq split: option.split)

lemma renewed_change:
  assumes inv: "repo_inv r" and res: "renew_execution lease ttl now r = (res, r')"
  shows "repo_change r r'"
proof (cases res)
  case (Inl e)
  with res show ?thesis
    by (auto simp: renew_execution_eq Let_def unchanged split: if_splits option.splits sum.splits)
next
  case (Inr l)
  let ?k = "ls_run_id lease"
  from Inr res obtain cur where cur: "dict_get (repo_leases r) ?k = Some (cur, True)"
    and l: "l = cur\<lparr>ls_heartbeat_at := at_time now r, ls_expires_at := at_time now r + timedelta ttl\<rparr>"
    and r': "r' = (after_read now r)\<lparr>repo_leases := dict_set ?k (l, True) (repo_leases r)\<rparr>"
    unfolding renew_execution_eq Let_def by (auto split: if_splits option.splits sum.splits)
  from repo_inv_lease [OF inv cur] obtain st where
    "dict_get (repo_states r) ?k = Some st" "ls_run_id cur = ?k" "valid_lease cur"
    by (auto simp: lease_ok_def)
  with cur l r' show ?thesis
    by (intro leased [of r ?k st l True "uuid_draws r" r' "clock_reads r'"])
      (auto simp: valid_lease_def after_read_def split: option.split)
qed

lemma released_change:
  assumes inv: "repo_inv r" and res: "release_execution lease r = (res, r')"
  shows "repo_change r r'"
proof (cases "same_store r r'")
  case True
  then show ?thesis by (rule unchanged)
next
  case False
  let ?k = "ls_run_id lease"
  from False res obtain cur where cur: "dict_get (repo_leases r) ?k = Some (cur, True)"
    and r': "r' = r\<lparr>repo_leases := dict_set ?k (cur, False) (repo_leases r)\<rparr>"
    unfolding release_execution_eq by (auto split: if_splits option.splits)
  from repo_inv_lease [OF inv cur] obtain st where
    "dict_get (repo_states r) ?k = Some st" "ls_run_id cur = ?k" "valid_lease cur"
    by (auto simp: lease_ok_def)
  with cur r' show ?thesis
    by (intro leased [of r ?k st cur False "uuid_draws r" r' "clock_reads r"]) auto
qed

lemma acquired_change:
  assumes res: "acquire_execution k owner_id ttl now r = (res, r')"
  shows "repo_change r r'"
proof (cases res)
  case (Inl e)
  with res acquire_execution_Inl show ?thesis by (blast intro: unchanged)
next
  case (Inr l)
  with res obtain st where "dict_get (repo_states r) k = Some st" "valid_lease l"
    and l: "l = granted_lease k owner_id ttl now r"
    and r': "r' = (after_read now r)\<lparr>uuid_draws := Suc (uuid_draws r),
       repo_leases := dict_set k (l, True) (repo_leases r)\<rparr>"
    by (auto elim: acquire_execution_Inr)
  then show ?thesis
    by (intro leased [of r k st l True "Suc (uuid_draws r)" r' "clock_reads r'"])
      (auto simp: granted_lease_def last_attempt_def after_read_def split: option.split)
qed

lemma committed_change:
  assumes res: "repo_commit st n ds tok r = (res, r')"
  shows "repo_change r r'"
proof (cases res)
  case (Inl e)
  with res repo_commit_Inl show ?thesis by (blast intro: unchanged)
next
  case (Inr es)
  from res [unfolded Inr] show ?thesis
    by (rule repo_commit_Inr)
      (rule committed, assumption+, simp add: validate_flow_replacement_Inr, assumption, rule le_add1, assumption)
qed

lemma repo_step_change:
  assumes "repo_step r r'" and inv: "repo_inv r"
  shows "repo_change r r'"
  using assms(1)
proof cases
  case (creates st ds res)
  then show ?thesis
    by (rule repo_createE) (simp add: unchanged, rule created, assumption+, rule le_add1, assumption)
next
  case (appends k n ds tok res)
  show ?thesis
  proof (cases res)
    case (Inl e)
    with appends repo_append_events_Inl show ?thesis by (blast intro: unchanged)
  next
    case (Inr es)
    from appends [unfolded Inr] show ?thesis
      by (rule repo_append_events_Inr) (rule appended, assumption+, rule le_add1, assumption)
  qed
qed (use inv in \<open>auto intro: renewed_change released_change acquired_change committed_change
       unchanged simp: same_store_def\<close>)

lemma lease_ok_mono:
  "lease_ok r k la \<Longrightarrow> uuid_stream r' = uuid_stream r \<Longrightarrow> uuid_draws r \<le> uuid_draws r' \<Longrightarrow>
   (dict_get (repo_states r) k \<noteq> None \<Longrightarrow> dict_get (repo_states r') k \<noteq> None) \<Longrightarrow> lease_ok r' k la"
  unfolding lease_ok_def by (metis less_le_trans)

lemma lease_token_drawn: "repo_inv r \<Longrightarrow> dict_get (repo_leases r) k = Some (l, a) \<Longrightarrow>
    \<exists>i < uuid_draws r. ls_token l = uuid_stream r i"
  by (drule (1) repo_inv_lease) (simp add: lease_ok_def)

lemma log_ok_revision: "log_ok r k es \<Longrightarrow> dict_get (repo_states r) k = Some st \<Longrightarrow> fs_revision st \<le> int (length es)"
  by (simp add: log_ok_def)

lemma log_ok_appended:
  assumes "log_ok r k olds" and "ds \<noteq> []"
    and "\<And>st. dict_get (repo_states r') k = Some st \<Longrightarrow> fs_revision st \<le> int (length olds) + 1"
  shows "log_ok r' k (olds @ materialized q k (int (length olds) + 1) ds)"
  using assms materialized_contiguous [of olds q k ds]
  by (cases ds) (force simp: log_ok_def dest: materialized_run)+

lemma logs_set:
  assumes "repo_inv r" and "log_ok r' k es"
    and "\<And>j. j \<noteq> k \<Longrightarrow> dict_get (repo_states r') j = dict_get (repo_states r) j"
  shows "dict_all (log_ok r') (dict_set k es (repo_events r))"
  using assms by (simp add: dict_all_def log_ok_def repo_inv_def)

lemma repo_change_inv:
  assumes "repo_change r r'" and inv: "repo_inv r"
  shows "repo_inv r'"
  using assms(1)
proof cases
  case unchanged
  with inv show ?thesis
    by (auto simp: repo_inv_def same_store_def log_ok_def elim!: dict_all_mono lease_ok_mono)
next
  case (created ds st es d c)
  have "log_ok r' (fs_run_id st) es"
    using created materialized_contiguous [of "[]" r "fs_run_id st" ds]
    by (cases ds) (auto simp: log_ok_def dest: materialized_run)
  then have "dict_all (log_ok r') (repo_events r')"
    using created logs_set [OF inv, of r' "fs_run_id st" es] by simp
  moreover have "dict_all (lease_ok r') (repo_leases r)"
    using inv created by (auto simp: repo_inv_def elim!: dict_all_mono lease_ok_mono)
  ultimately show ?thesis
    using inv created by (auto simp: repo_inv_def AList.update_keys)
next
  case (committed ds st cur olds tok es d c)
  have log: "log_ok r (fs_run_id st) olds" and cur: "fs_run_id cur = fs_run_id st" "1 \<le> fs_revision cur"
    using repo_inv_log [OF inv] repo_inv_state [OF inv] committed by auto
  have "fs_revision st \<le> int (length olds) + 1"
    using committed log_ok_revision [OF log] by (simp add: validate_flow_replacement_Inr)
  then have "log_ok r' (fs_run_id st) (olds @ es)"
    unfolding committed(6) by (intro log_ok_appended [OF log committed(1)]) (simp add: committed(8))
  moreover have "dict_all (lease_ok r') (repo_leases r)"
    using inv committed by (auto simp: repo_inv_def elim!: dict_all_mono lease_ok_mono)
  moreover have "dict_all (\<lambda>k st. fs_run_id st = k \<and> 1 \<le> fs_revision st) (repo_states r')"
    using inv committed cur by (auto simp: repo_inv_def validate_flow_replacement_Inr)
  ultimately show ?thesis
    using inv committed(2,3,8) logs_set [OF inv, of r' "fs_run_id st" "olds @ es"]
      repo_inv_keys [OF inv]
    by (simp add: repo_inv_def AList.update_keys)
next
  case (appended ds k cur olds tok es d c)
  then have log: "log_ok r k olds" by (simp add: repo_inv_log [OF inv])
  then have "log_ok r' k (olds @ es)"
    using appended log_ok_revision [OF log] by (auto intro!: log_ok_appended [OF log])
  then have "dict_all (log_ok r') (repo_events r')"
    using appended logs_set [OF inv, of r' k "olds @ es"] by simp
  moreover have "dict_all (lease_ok r') (repo_leases r)"
    using inv appended by (auto simp: repo_inv_def elim!: dict_all_mono lease_ok_mono)
  moreover have "k \<in> set (dict_keys (repo_states r))"
    using appended(2) repo_inv_keys [OF inv] by (metis dict_get_keys option.distinct(1))
  ultimately show ?thesis
    using inv appended(7) by (simp add: repo_inv_def AList.update_keys)
next
  case (leased k st l active d c)
  have "\<exists>i < d. ls_token l = uuid_stream r i"
  proof (cases "ls_token l = uuid_stream r (uuid_draws r) \<and> uuid_draws r < d")
    case False
    then obtain l0 a0 where "dict_get (repo_leases r) k = Some (l0, a0)" "ls_token l = ls_token l0"
      using leased(4) by (auto split: option.splits)
    with lease_token_drawn [OF inv] leased(5) show ?thesis by (metis less_le_trans)
  qed blast
  then have "lease_ok r' k (l, active)"
    using leased by (simp add: lease_ok_def)
  moreover have "dict_all (lease_ok r') (repo_leases r)"
    using inv leased by (auto simp: repo_inv_def elim!: dict_all_mono lease_ok_mono)
  moreover have "dict_all (log_ok r') (repo_events r)"
    using inv leased by (auto simp: repo_inv_def log_ok_def elim!: dict_all_mono)
  ultimately show ?thesis using inv leased by (auto simp: repo_inv_def)
qed

lemma repo_step_inv: "repo_step r r' \<Longrightarrow> repo_inv r \<Longrightarrow> repo_inv r'"
  by (blast intro: repo_change_inv repo_step_change)

lemma repo_steps_inv: "repo_step\<^sup>*\<^sup>* r r' \<Longrightarrow> repo_inv r \<Longrightarrow> repo_inv r'"
  by (induction rule: rtranclp_induct) (blast intro: repo_step_inv)+

lemma empty_repo_inv [simp]: "repo_inv (empty_repo clk ids)"
  by (simp add: empty_repo_def repo_inv_def)

text \<open>The repositories a process can hold: the empty one and what any clients' operations make of it.\<close>

definition repo_reachable :: "flow_repo \<Rightarrow> bool" where
  "repo_reachable r \<longleftrightarrow> (\<exists>clk ids. repo_step\<^sup>*\<^sup>* (empty_repo clk ids) r)"

lemma repo_reachable_inv: "repo_reachable r \<Longrightarrow> repo_inv r"
  by (auto simp: repo_reachable_def intro: repo_steps_inv)

text \<open>What one step can do to one aggregate, one log and one lease.\<close>

definition events_of :: "flow_repo \<Rightarrow> uuid \<Rightarrow> runtime_event list" where
  "events_of r k = (case dict_get (repo_events r) k of None \<Rightarrow> [] | Some es \<Rightarrow> es)"

lemma repo_change_state:
  assumes "repo_change r r'" and "dict_get (repo_states r) k = Some st"
  shows "\<exists>st'. dict_get (repo_states r') k = Some st' \<and>
           (st' = st \<or> validate_flow_replacement st st' (fs_revision st) = Inr ())"
  using assms(1) by cases (use assms(2) in \<open>auto simp: same_store_def\<close>)

lemma repo_change_log: "repo_change r r' \<Longrightarrow> repo_inv r \<Longrightarrow> \<exists>new. events_of r' k = events_of r k @ new"
  by (induction rule: repo_change.cases)
    (auto simp: events_of_def same_store_def dest: repo_inv_aligned [THEN iffD2] split: option.split)

lemma repo_change_lease:
  assumes "repo_change r r'" and "dict_get (repo_leases r) k = Some (l, a)"
  shows "\<exists>l' a'. dict_get (repo_leases r') k = Some (l', a') \<and> ls_attempt l \<le> ls_attempt l' \<and>
           (ls_token l' = ls_token l \<or>
            (\<exists>i. uuid_draws r \<le> i \<and> ls_token l' = uuid_stream r i \<and> ls_attempt l < ls_attempt l'))"
  using assms(1) by cases (use assms(2) in \<open>auto simp: same_store_def\<close>)

lemma repo_change_streams: "repo_change r r' \<Longrightarrow>
    uuid_stream r' = uuid_stream r \<and> clock_stream r' = clock_stream r \<and> uuid_draws r \<le> uuid_draws r'"
  by (induction rule: repo_change.cases) (auto simp: same_store_def)

subsection \<open>The repository implements the optimistic store\<close>

lemma repo_commit_writes:
  assumes "repo_commit st n ds tok r = (Inr es, r')"
  shows "dict_get (repo_states r') = (dict_get (repo_states r))(fs_run_id st \<mapsto> st)"
    and "events_of r' = (events_of r)(fs_run_id st := events_of r (fs_run_id st) @ es)"
  using assms by (auto elim!: repo_commit_Inr simp: events_of_def)

interpretation repo: optimistic_store "\<lambda>r. dict_get (repo_states r)" events_of repo_commit
  "\<lambda>r r'. repo_inv r \<and> repo_step r r'"
proof unfold_locales
  fix st :: flow_run_state and n ds tok r es r'
  assume c: "repo_commit st n ds tok r = (Inr es, r')"
  then show "\<exists>cur. dict_get (repo_states r) (fs_run_id st) = Some cur \<and> fs_revision cur = n \<and>
      fs_revision st = n + 1"
    by (auto elim!: repo_commit_Inr simp: validate_flow_replacement_Inr)
  from repo_commit_writes [OF c]
  show "dict_get (repo_states r') = (dict_get (repo_states r))(fs_run_id st \<mapsto> st) \<and>
      events_of r' = (events_of r)(fs_run_id st := events_of r (fs_run_id st) @ es)" by blast
next
  fix st :: flow_run_state and n ds tok r e r'
  assume "repo_commit st n ds tok r = (Inl e, r')"
  from repo_commit_Inl [OF this]
  show "dict_get (repo_states r') = dict_get (repo_states r) \<and> events_of r' = events_of r"
    by (simp add: same_store_def events_of_def fun_eq_iff)
next
  fix r r' :: flow_repo and k st
  assume "repo_inv r \<and> repo_step r r'" and "dict_get (repo_states r) k = Some st"
  then obtain st' where "dict_get (repo_states r') k = Some st'"
    "st' = st \<or> validate_flow_replacement st st' (fs_revision st) = Inr ()"
    using repo_step_change repo_change_state by metis
  then show "\<exists>st'. dict_get (repo_states r') k = Some st' \<and> fs_revision st \<le> fs_revision st'"
    by (auto simp: validate_flow_replacement_Inr)
next
  fix r r' :: flow_repo and k
  assume "repo_inv r \<and> repo_step r r'"
  then show "\<exists>new. events_of r' k = events_of r k @ new"
    by (blast intro: repo_change_log repo_step_change)
qed

lemma repo_steps_checked:
  assumes "repo_step\<^sup>*\<^sup>* r r'" and "repo_inv r"
  shows "(\<lambda>r r'. repo_inv r \<and> repo_step r r')\<^sup>*\<^sup>* r r'"
  using assms(1)
proof (induction rule: rtranclp_induct)
  case (step y z)
  moreover from step.hyps(1) assms(2) have "repo_inv y" by (rule repo_steps_inv)
  ultimately show ?case by (simp add: rtranclp.rtrancl_into_rtrancl)
qed simp

subsection \<open>Fencing\<close>

text \<open>The current token of a run was drawn at or after the given position of the \<open>uuid4\<close> stream.\<close>

definition lease_above :: "flow_repo \<Rightarrow> uuid \<Rightarrow> nat \<Rightarrow> int \<Rightarrow> bool" where
  "lease_above r k n att \<longleftrightarrow> (\<exists>l a i. dict_get (repo_leases r) k = Some (l, a) \<and> n \<le> i \<and>
     ls_token l = uuid_stream r i \<and> att \<le> ls_attempt l)"

lemma lease_above_step:
  assumes "repo_change r r'" and "lease_above r k n att" and "n \<le> uuid_draws r"
  shows "lease_above r' k n att"
proof -
  from assms(2) obtain l a i where "dict_get (repo_leases r) k = Some (l, a)" "n \<le> i"
    "ls_token l = uuid_stream r i" "att \<le> ls_attempt l" unfolding lease_above_def by blast
  moreover from repo_change_lease [OF assms(1) this(1)] obtain l' a' where
    "dict_get (repo_leases r') k = Some (l', a')" "ls_attempt l \<le> ls_attempt l'"
    "ls_token l' = ls_token l \<or> (\<exists>i. uuid_draws r \<le> i \<and> ls_token l' = uuid_stream r i)" by blast
  ultimately have "\<exists>i. n \<le> i \<and> ls_token l' = uuid_stream r i" "att \<le> ls_attempt l'"
    "dict_get (repo_leases r') k = Some (l', a')" using assms(3) by (auto intro: le_trans)
  then show ?thesis
    using repo_change_streams [OF assms(1)] unfolding lease_above_def by auto
qed

lemma lease_above_steps:
  assumes "repo_step\<^sup>*\<^sup>* r r'" and "repo_inv r" and "lease_above r k n att" and "n \<le> uuid_draws r"
  shows "lease_above r' k n att \<and> uuid_stream r' = uuid_stream r \<and> uuid_draws r \<le> uuid_draws r'"
  using assms(1)
proof (induction rule: rtranclp_induct)
  case base
  with assms show ?case by simp
next
  case (step y z)
  with assms have "repo_change y z" by (blast intro: repo_step_change repo_steps_inv)
  with step.IH assms(4) show ?case using repo_change_streams lease_above_step by (metis le_trans)
qed

text \<open>A token other than the stored one is refused by every guarded operation.\<close>

lemma wrong_token_refused:
  assumes "dict_get (repo_leases r) k = Some (cur, a)" and "token \<noteq> Some (ls_token cur)"
  shows "validate_execution_token r k token t = Inl FlowLeaseLostError"
  using assms by (auto simp: validate_execution_token_def)

lemma refused_commit:
  assumes "validate_execution_token r (fs_run_id st) token (next_time r) = Inl e"
  shows "\<exists>e' r'. repo_commit st n ds token r = (Inl e', r') \<and> same_store r r'"
  using assms by (simp add: repo_commit_eq Let_def split: option.split)

lemma refused_append:
  assumes "validate_execution_token r k token (next_time r) = Inl e"
  shows "\<exists>e' r'. repo_append_events k n ds token r = (Inl e', r') \<and> same_store r r'"
  using assms by (simp add: repo_append_events_eq Let_def split: option.split)

lemma refused_renewal:
  assumes "dict_get (repo_leases r) (ls_run_id l) = Some (cur, a)" and "ls_token cur \<noteq> ls_token l"
  shows "\<exists>e r'. renew_execution l ttl now r = (Inl e, r') \<and> same_store r r'"
    and "release_execution l r = (Inl FlowLeaseLostError, r)"
  using assms by (auto simp: renew_execution_eq release_execution_eq split: sum.split)

lemma acquired_above:
  assumes "acquire_execution k owner_id ttl now r = (Inr l, r')"
  shows "lease_above r' k (uuid_draws r) (ls_attempt l)" and "uuid_draws r' = Suc (uuid_draws r)"
    and "uuid_stream r' = uuid_stream r" and "ls_token l = uuid_stream r (uuid_draws r)"
    and "ls_run_id l = k" and "ls_attempt l = last_attempt r k + 1"
  using assms by (auto elim!: acquire_execution_Inr simp: lease_above_def granted_lease_def)

subsection \<open>A concrete history\<close>

text \<open>Run 7 is created and then claimed for one second; the clock reads 1000, 1001, ...\<close>

definition ex_draft :: "flow_event_type \<Rightarrow> flow_event_draft" where
  "ex_draft t = \<lparr>dr_type = t, dr_data = []\<rparr>"

definition ex_repo :: flow_repo where
  "ex_repo = snd (repo_create ex_created [ex_draft FLOW_CREATED] (empty_repo (\<lambda>n. 1000 + int n) (\<lambda>n. n)))"

definition ex_lease :: flow_lease where
  "ex_lease = projr (fst (acquire_execution 7 ''a'' 1 None ex_repo))"

definition ex_leased :: flow_repo where
  "ex_leased = snd (acquire_execution 7 ''a'' 1 None ex_repo)"

lemma ex_lease_eq: "acquire_execution 7 ''a'' 1 None ex_repo = (Inr ex_lease, ex_leased)"
proof -
  have "\<not> isl (fst (acquire_execution 7 ''a'' 1 None ex_repo))" by code_simp
  then show ?thesis by (simp add: ex_lease_def ex_leased_def prod_eq_iff)
qed

lemma ex_repo_reachable: "repo_reachable ex_repo" "repo_reachable ex_leased" "inj (uuid_stream ex_repo)"
proof -
  let ?e = "empty_repo (\<lambda>n. 1000 + int n) (\<lambda>n. n)"
  have step: "repo_step ?e ex_repo" unfolding ex_repo_def by (rule creates) (rule prod.collapse [symmetric])
  then have "uuid_stream ex_repo = uuid_stream ?e"
    using repo_change_streams [OF repo_step_change [OF step]] by simp
  then show "inj (uuid_stream ex_repo)" by (simp add: empty_repo_def)
  from step have e: "repo_step\<^sup>*\<^sup>* ?e ex_repo" by simp
  then show "repo_reachable ex_repo" unfolding repo_reachable_def by blast
  from e have "repo_step\<^sup>*\<^sup>* ?e ex_leased"
    by (rule rtranclp.rtrancl_into_rtrancl) (rule acquires [OF ex_lease_eq])
  then show "repo_reachable ex_leased" unfolding repo_reachable_def by blast
qed

text \<open>The condition under which a commit is accepted.\<close>

definition entitled :: "flow_repo \<Rightarrow> uuid \<Rightarrow> uuid option \<Rightarrow> timestamp \<Rightarrow> bool" where
  "entitled r k tok now \<longleftrightarrow> (case dict_get (repo_leases r) k of None \<Rightarrow> tok = None
     | Some (l, active) \<Rightarrow> active \<and> tok = Some (ls_token l) \<and> now < ls_expires_at l)"

definition commit_allowed ::
  "flow_run_state \<Rightarrow> int \<Rightarrow> flow_event_draft list \<Rightarrow> uuid option \<Rightarrow> flow_repo \<Rightarrow> bool" where
  "commit_allowed st n ds tok r \<longleftrightarrow> ds \<noteq> [] \<and> entitled r (fs_run_id st) tok (next_time r) \<and>
     (case dict_get (repo_states r) (fs_run_id st) of None \<Rightarrow> False
      | Some cur \<Rightarrow> fs_revision cur = n \<and> fs_run_id st = fs_run_id cur \<and> fs_revision st = n + 1 \<and>
          fs_definition_id st = fs_definition_id cur \<and> fs_definition_version st = fs_definition_version cur \<and>
          fs_definition_fingerprint st = fs_definition_fingerprint cur \<and> fs_budget st = fs_budget cur \<and>
          fs_deadline_at st = fs_deadline_at cur \<and> fs_created_at st = fs_created_at cur)"

lemma token_accepted: "validate_execution_token r k tok now = Inr () \<longleftrightarrow> entitled r k tok now"
  by (auto simp: validate_execution_token_def entitled_def is_expired_def split: option.split)

lemma last_attempt_nonneg: "repo_inv r \<Longrightarrow> 0 \<le> last_attempt r k"
  by (auto simp: last_attempt_def lease_ok_def valid_lease_def split: option.split dest: repo_inv_lease)

subsection \<open>Properties of the repository\<close>

text \<open>
  C3. In every repository that the clients' operations can produce, aggregates and event logs
  have the same runs in the same order, and for every stored run the log is non-empty, its
  sequence numbers are 1, 2, 3, ... without gaps, all its events carry the run's identifier, and
  the revision never exceeds the number of events.
\<close>

theorem repo_logs_contiguous:
  assumes "repo_reachable r" and "dict_get (repo_states r) k = Some st"
  shows "dict_keys (repo_events r) = dict_keys (repo_states r) \<and>
    (\<exists>es. repo_events_of k r = (Inr es, r) \<and> map ev_sequence es = map int [1..<Suc (length es)] \<and>
      (\<forall>e \<in> set es. ev_run_id e = fs_run_id st) \<and>
      1 \<le> fs_revision st \<and> fs_revision st \<le> int (length es))"
proof -
  have inv: "repo_inv r" using assms(1) by (rule repo_reachable_inv)
  with assms(2) obtain es where es: "dict_get (repo_events r) k = Some es"
    using repo_inv_aligned [OF inv, of k] by auto
  from repo_inv_log [OF inv es] repo_inv_state [OF inv assms(2)] assms(2) repo_inv_keys [OF inv] es
  show ?thesis by (simp add: log_ok_def contiguous_def repo_events_of_def require_events_def pbind_app)
qed

theorem repo_logs_contiguous_witness:
  "repo_reachable ex_leased \<and> (\<exists>es. repo_events_of 7 ex_leased = (Inr es, ex_leased) \<and>
     map ev_sequence es = map int [1..<Suc (length es)])"
proof -
  have "dict_get (repo_states ex_leased) 7 = Some ex_created" by code_simp
  from repo_logs_contiguous [OF ex_repo_reachable(2) this] ex_repo_reachable(2) show ?thesis by blast
qed

text \<open>
  A commit succeeds exactly when it carries an event, the run exists at the expected
  revision, the replacement has the next revision and the same run, definition, budget, deadline
  and creation time, and the caller is entitled to write: no lease was ever taken and no token is
  given, or the token is that of the active lease and the lease has not expired at the commit's
  clock reading. Then the aggregate is replaced and the numbered events are appended, in one
  step; otherwise aggregates, logs and leases stay as they were.
\<close>

theorem repo_commit_exact:
  assumes "repo_reachable r"
  shows "(case repo_commit st n ds tok r of
       (Inl e, r') \<Rightarrow> \<not> commit_allowed st n ds tok r \<and> repo_states r' = repo_states r \<and>
          repo_events r' = repo_events r \<and> repo_leases r' = repo_leases r
     | (Inr es, r') \<Rightarrow> commit_allowed st n ds tok r \<and>
          dict_get (repo_states r') = (dict_get (repo_states r))(fs_run_id st \<mapsto> st) \<and>
          events_of r' = (events_of r)(fs_run_id st := events_of r (fs_run_id st) @ es) \<and>
          map ev_type es = map dr_type ds \<and> map ev_data es = map dr_data ds \<and>
          repo_leases r' = repo_leases r)"
proof (cases "repo_commit st n ds tok r")
  case (Pair res r')
  show ?thesis
  proof (cases res)
    case (Inr es)
    with Pair have c: "repo_commit st n ds tok r = (Inr es, r')" by simp
    then have "commit_allowed st n ds tok r" "repo_leases r' = repo_leases r"
      "map ev_type es = map dr_type ds" "map ev_data es = map dr_data ds"
      by (auto elim!: repo_commit_Inr
          simp: commit_allowed_def token_accepted validate_flow_replacement_Inr)
    with repo_commit_writes [OF c] Pair Inr show ?thesis by (simp del: dict_get_set)
  next
    case (Inl e)
    with Pair have c: "repo_commit st n ds tok r = (Inl e, r')" by simp
    have "\<not> commit_allowed st n ds tok r"
      using c repo_inv_aligned [OF repo_reachable_inv [OF assms], of "fs_run_id st"]
      by (auto simp: repo_commit_eq commit_allowed_def token_accepted [symmetric] Let_def
          validate_flow_replacement_Inr [symmetric] split: if_splits option.splits sum.splits)
    with repo_commit_Inl [OF c] Pair Inl show ?thesis by (simp add: same_store_def)
  qed
qed

theorem repo_commit_exact_witness:
  "repo_reachable ex_leased \<and>
   (\<exists>e r'. repo_commit ex_started 1 [ex_draft FLOW_STARTED] None ex_leased = (Inl e, r') \<and>
      repo_states r' = repo_states ex_leased)"
proof -
  have "\<not> commit_allowed ex_started 1 [ex_draft FLOW_STARTED] None ex_leased"
    by code_simp
  with repo_commit_exact [OF ex_repo_reachable(2), of ex_started 1
      "[ex_draft FLOW_STARTED]" None] ex_repo_reachable(2)
  show ?thesis by (auto split: prod.splits sum.splits)
qed

text \<open>
  C4. No lost updates: once a commit against a revision has succeeded, every later commit against
  that same revision of the same run raises and changes neither aggregates nor events, whatever
  operations of whatever clients happen in between.
\<close>

theorem repo_no_lost_update:
  assumes "repo_reachable r" and "repo_commit st n ds tok r = (Inr es, r1)"
    and "repo_step\<^sup>*\<^sup>* r1 r2" and "fs_run_id st' = fs_run_id st"
  shows "\<exists>e r3. repo_commit st' n ds' tok' r2 = (Inl e, r3) \<and>
    dict_get (repo_states r3) = dict_get (repo_states r2) \<and> events_of r3 = events_of r2"
proof -
  have "repo_inv r1" using assms(1,2) by (blast intro: repo_step_inv repo_reachable_inv commits)
  with assms(3) have "(\<lambda>r r'. repo_inv r \<and> repo_step r r')\<^sup>*\<^sup>* r1 r2" by (rule repo_steps_checked)
  from repo.no_lost_update [OF assms(2) this assms(4)] show ?thesis .
qed

theorem repo_no_lost_update_witness:
  "\<exists>es r1. repo_commit ex_started 1 [ex_draft FLOW_STARTED] None ex_repo = (Inr es, r1) \<and>
     (\<exists>e r3. repo_commit ex_started 1 [ex_draft FLOW_STARTED] None r1 = (Inl e, r3))"
proof -
  let ?d = "[ex_draft FLOW_STARTED]"
  have "\<not> isl (fst (repo_commit ex_started 1 ?d None ex_repo))" by code_simp
  then obtain es r1 where c: "repo_commit ex_started 1 ?d None ex_repo = (Inr es, r1)"
    by (blast dest: succeeded)
  from repo_no_lost_update [OF ex_repo_reachable(1) c rtranclp.rtrancl_refl refl, of ?d None] c
  show ?thesis by blast
qed

text \<open>
  Mutual exclusion: with valid arguments, claiming a run succeeds exactly when the run exists
  and is not in a terminal status and no active lease of the run is unexpired at the claim's time.
  A granted lease has a fresh token, an attempt number one above the last one, and expires after
  the time to live; a refused claim changes nothing stored.
\<close>

theorem acquire_exclusive:
  assumes "repo_reachable r" and "\<not> blank owner_id" and "length owner_id \<le> 256" and "0 < ttl"
  shows "(case acquire_execution k owner_id ttl (Some t) r of
      (Inl e, r') \<Rightarrow> e \<in> {FlowRunNotFoundError, FlowLeaseUnavailableError} \<and> r' = r \<and>
        (dict_get (repo_states r) k = None \<or> (\<exists>st. dict_get (repo_states r) k = Some st \<and> terminal (fs_status st)) \<or>
         (\<exists>l. dict_get (repo_leases r) k = Some (l, True) \<and> t < ls_expires_at l))
    | (Inr l, r') \<Rightarrow> (\<exists>st. dict_get (repo_states r) k = Some st \<and> \<not> terminal (fs_status st)) \<and>
        (\<forall>l0. dict_get (repo_leases r) k = Some (l0, True) \<longrightarrow> ls_expires_at l0 \<le> t) \<and>
        ls_run_id l = k \<and> ls_owner_id l = owner_id \<and> ls_token l = uuid_stream r (uuid_draws r) \<and>
        ls_attempt l = last_attempt r k + 1 \<and> ls_expires_at l = t + timedelta ttl \<and>
        dict_get (repo_leases r') = (dict_get (repo_leases r))(k \<mapsto> (l, True)) \<and>
        repo_states r' = repo_states r \<and> repo_events r' = repo_events r)"
proof -
  have args: "validate_lease_arguments owner_id ttl = Inr ()"
    using assms by (simp add: validate_lease_arguments_Inr)
  have "valid_lease (granted_lease k owner_id ttl (Some t) r)"
    using assms(2,3) last_attempt_nonneg [OF repo_reachable_inv [OF assms(1)], of k]
    by (auto simp: valid_lease_def granted_lease_def within_length_def Suc_le_eq)
  then show ?thesis
    by (auto simp: acquire_execution_eq args after_read_def at_time_def granted_lease_def lease_holds_def
        is_expired_def fun_eq_iff split: option.splits)
qed

theorem acquire_exclusive_witness:
  "repo_reachable ex_leased \<and> 500000 < ls_expires_at ex_lease \<and>
   (\<exists>e. acquire_execution 7 ''b'' 1 (Some 500000) ex_leased = (Inl e, ex_leased))"
proof -
  have b: "\<not> blank ''b''" and u: "500000 < ls_expires_at ex_lease"
    and l: "dict_get (repo_leases ex_leased) 7 = Some (ex_lease, True)" by code_simp+
  have "\<exists>e. acquire_execution 7 ''b'' 1 (Some 500000) ex_leased = (Inl e, ex_leased)"
    using acquire_exclusive [OF ex_repo_reachable(2) b, of 1 7 500000] l u
    by (auto split: prod.splits sum.splits)
  with u ex_repo_reachable(2) show ?thesis by blast
qed

text \<open>
  C5. Fencing: when the identifiers that \<open>uuid4\<close> yields are distinct and a second lease has been
  granted for a run, the first lease is dead for ever: at every later point its token cannot
  commit, append events, renew or release, and the attempt number of the second lease is larger.
\<close>

theorem superseded_lease_fenced:
  assumes "repo_reachable r" and fresh: "inj (uuid_stream r)"
    and first: "acquire_execution k owner1 ttl1 now1 r = (Inr l1, r1)" and between: "repo_step\<^sup>*\<^sup>* r1 r2"
    and second: "acquire_execution k owner2 ttl2 now2 r2 = (Inr l2, r3)" and later: "repo_step\<^sup>*\<^sup>* r3 r4"
    and run: "fs_run_id st = k"
  shows "ls_attempt l1 < ls_attempt l2 \<and>
    (\<exists>e r'. repo_commit st n ds (Some (ls_token l1)) r4 = (Inl e, r') \<and> same_store r4 r') \<and>
    (\<exists>e r'. repo_append_events k n ds (Some (ls_token l1)) r4 = (Inl e, r') \<and> same_store r4 r') \<and>
    (\<exists>e r'. renew_execution l1 ttl now r4 = (Inl e, r') \<and> same_store r4 r') \<and>
    release_execution l1 r4 = (Inl FlowLeaseLostError, r4)"
proof -
  have inv: "repo_inv r" "repo_inv r1" "repo_inv r2" "repo_inv r3"
    using assms by (meson repo_reachable_inv repo_step_inv repo_steps_inv acquires)+
  note a1 = acquired_above [OF first] and a2 = acquired_above [OF second]
  have r2: "lease_above r2 k (uuid_draws r) (ls_attempt l1) \<and> uuid_stream r2 = uuid_stream r \<and>
      Suc (uuid_draws r) \<le> uuid_draws r2"
    using lease_above_steps [OF between inv(2) a1(1)] a1(2,3) by simp
  then have att: "ls_attempt l1 < ls_attempt l2"
    using a2(6) by (auto simp: lease_above_def last_attempt_def)
  have r4: "lease_above r4 k (uuid_draws r2) (ls_attempt l2)" "uuid_stream r4 = uuid_stream r"
    using lease_above_steps [OF later inv(4) a2(1)] a2(2,3) r2 by simp_all
  then obtain cur a i where cur: "dict_get (repo_leases r4) k = Some (cur, a)" "uuid_draws r2 \<le> i"
    "ls_token cur = uuid_stream r i" by (auto simp: lease_above_def)
  moreover have "uuid_draws r \<noteq> i" using cur(2) r2 by simp
  ultimately have ne: "ls_token cur \<noteq> ls_token l1" using a1(4) fresh by (auto dest: injD)
  have "validate_execution_token r4 k (Some (ls_token l1)) t = Inl FlowLeaseLostError" for t
    using wrong_token_refused [OF cur(1)] ne by simp
  then show ?thesis
    using refused_commit refused_append refused_renewal [of r4 l1 cur a] cur(1) ne a1(5) att run by simp
qed

text \<open>The claim is repeated after the lease has expired.\<close>

definition ex_lease2 :: flow_lease where
  "ex_lease2 = projr (fst (acquire_execution 7 ''b'' 1 (Some 3000000) ex_leased))"

definition ex_leased2 :: flow_repo where
  "ex_leased2 = snd (acquire_execution 7 ''b'' 1 (Some 3000000) ex_leased)"

lemma ex_lease2_eq: "acquire_execution 7 ''b'' 1 (Some 3000000) ex_leased = (Inr ex_lease2, ex_leased2)"
  unfolding ex_lease2_def ex_leased2_def by (rule succeeded) code_simp

theorem superseded_lease_fenced_witness:
  "ls_attempt ex_lease < ls_attempt ex_lease2 \<and>
   release_execution ex_lease ex_leased2 = (Inl FlowLeaseLostError, ex_leased2)"
proof -
  have "fs_run_id ex_created = 7" by code_simp
  then show ?thesis
    using superseded_lease_fenced [OF ex_repo_reachable(1,3) ex_lease_eq rtranclp.rtrancl_refl
        ex_lease2_eq rtranclp.rtrancl_refl] by blast
qed

text \<open>
  Leasing is sticky: once a run has ever been claimed, a write without a token is refused for
  ever, also after the lease was released, so a caller that holds no lease cannot commit to or
  append events to the run any more.
\<close>

theorem unfenced_write_refused:
  assumes "repo_reachable r" and first: "acquire_execution k owner ttl now r = (Inr l, r1)"
    and later: "repo_step\<^sup>*\<^sup>* r1 r2" and run: "fs_run_id st = k"
  shows "(\<exists>e r'. repo_commit st n ds None r2 = (Inl e, r') \<and> same_store r2 r') \<and>
    (\<exists>e r'. repo_append_events k n ds None r2 = (Inl e, r') \<and> same_store r2 r')"
proof -
  have "repo_inv r1" using assms by (meson repo_reachable_inv repo_step_inv acquires)
  from lease_above_steps [OF later this acquired_above(1) [OF first]] acquired_above(2) [OF first]
  have "lease_above r2 k (uuid_draws r) (ls_attempt l)" by simp
  then obtain cur a where "dict_get (repo_leases r2) k = Some (cur, a)" by (auto simp: lease_above_def)
  from wrong_token_refused [OF this, of None] refused_commit refused_append run show ?thesis by simp
qed

theorem unfenced_write_refused_witness:
  "\<exists>r2. release_execution ex_lease ex_leased = (Inr (), r2) \<and>
     (\<exists>e r'. repo_commit ex_started 1 [ex_draft FLOW_CANCELLED] None r2 = (Inl e, r'))"
proof -
  have "\<not> isl (fst (release_execution ex_lease ex_leased))" by code_simp
  then obtain u r2 where rel: "release_execution ex_lease ex_leased = (Inr u, r2)" by (blast dest: succeeded)
  have "repo_step\<^sup>*\<^sup>* ex_leased r2" using releases [OF rel] by simp
  moreover have "fs_run_id ex_started = 7" by code_simp
  ultimately show ?thesis
    using unfenced_write_refused [OF ex_repo_reachable(1) ex_lease_eq] rel by fastforce
qed

end
