(* ===== verification/Flow_Service.thy ===== *)
theory Flow_Service
  imports Flow_Repository
begin

text \<open>
  \<open>flows/service.py\<close>: \<open>FlowLifecycle\<close>, the application service that reads an aggregate, computes
  its successor with a transition of \<open>lifecycle.py\<close>, and commits the successor together with the
  events that describe it. The service's optional execution lease is the first argument of every
  operation. Times that a transition takes from the clock are readings of the host's clock; the
  clock is arbitrary, so a reading taken and not used has no effect on any theorem.
\<close>

subsection \<open>Tokens, event data and the shared shape of a transition\<close>

definition execution_token_for :: "flow_lease option \<Rightarrow> uuid \<Rightarrow> exn + uuid option" where
  "execution_token_for lease run_id = (case lease of None \<Rightarrow> Inr None
     | Some l \<Rightarrow> if ls_run_id l \<noteq> run_id
         then Inl (ValueError (''execution lease belongs to Flow Run '' @ [CHR 0x27] @
                str_uuid (ls_run_id l) @ [CHR 0x27] @ '', not '' @ [CHR 0x27] @
                str_uuid run_id @ [CHR 0x27]))
         else Inr (Some (ls_token l)))"

text \<open>\<open>_invocation_data\<close>.\<close>

definition invocation_data :: "agent_invocation \<Rightarrow> (string, event_value) dict" where
  "invocation_data i =
     [(''invocation_id'', EvUuid (inv_id i)), (''invocation_sequence'', EvInt (inv_sequence i)),
      (''agent_key'', EvStr (inv_agent_key i)), (''definition_id'', EvStr (inv_definition_id i)),
      (''definition_version'', EvStr (inv_definition_version i)),
      (''definition_fingerprint'', EvStr (inv_definition_fingerprint i))]"

definition utc_now2 :: "(timestamp \<times> timestamp) repo_prog" where
  "utc_now2 = pbind utc_now (\<lambda>a. pbind utc_now (\<lambda>b. pret (a, b)))"

definition utc_now3 :: "(timestamp \<times> timestamp \<times> timestamp) repo_prog" where
  "utc_now3 = pbind utc_now (\<lambda>a. pbind utc_now2 (\<lambda>bc. pret (a, bc)))"

text \<open>
  The shape every transition of the service has: get the aggregate, compute its successor, draft the
  events, look up the fencing token, and commit against the revision that was read.
\<close>

definition svc_transition :: "flow_lease option \<Rightarrow> uuid \<Rightarrow> (flow_run_state \<Rightarrow> flow_run_state repo_prog) \<Rightarrow>
    (flow_run_state \<Rightarrow> flow_run_state \<Rightarrow> exn + flow_event_draft list) \<Rightarrow> flow_run_state repo_prog" where
  "svc_transition lease run_id next_of drafts =
     pbind (repo_get run_id) (\<lambda>current.
     pbind (next_of current) (\<lambda>st.
     pbind (plift (drafts current st)) (\<lambda>events.
     pbind (plift (execution_token_for lease run_id)) (\<lambda>token.
     pbind (repo_commit st (fs_revision current) events token) (\<lambda>_.
     pret st)))))"

subsection \<open>Operations\<close>

definition run_id_or_new :: "uuid option \<Rightarrow> uuid repo_prog" where
  "run_id_or_new run_id = (case run_id of Some k \<Rightarrow> pret k | None \<Rightarrow> uuid4)"

definition svc_create ::
  "(json \<Rightarrow> string) \<Rightarrow> flow_definition \<Rightarrow> uuid option \<Rightarrow> timestamp option \<Rightarrow> flow_run_state repo_prog" where
  "svc_create digest d run_id now =
     pbind (now_or_clock now) (\<lambda>created_at.
     pbind (run_id_or_new run_id) (\<lambda>k.
     pbind (plift (create_state digest d k created_at)) (\<lambda>st.
     pbind (repo_create st [\<lparr>dr_type = FLOW_CREATED, dr_data =
       [(''definition_id'', EvStr (fs_definition_id st)),
        (''definition_version'', EvStr (fs_definition_version st)),
        (''definition_fingerprint'', EvStr (fs_definition_fingerprint st)),
        (''budget'', EvBudget (fs_budget st)), (''deadline_at'', EvTime (fs_deadline_at st)),
        (''revision'', EvInt (fs_revision st))]\<rparr>]) (\<lambda>_.
     pret st))))"

definition svc_get :: "uuid \<Rightarrow> flow_run_state repo_prog" where
  "svc_get run_id = repo_get run_id"

definition record_cancellation_propagation_failure ::
  "flow_lease option \<Rightarrow> uuid \<Rightarrow> agent_invocation \<Rightarrow> string \<Rightarrow> unit repo_prog" where
  "record_cancellation_propagation_failure lease run_id i error_type =
     pbind (repo_get run_id) (\<lambda>current.
     pbind (plift (execution_token_for lease run_id)) (\<lambda>token.
     pbind (repo_append_events run_id (fs_revision current)
       [\<lparr>dr_type = AGENT_INVOCATION_CANCELLATION_PROPAGATION_FAILED, dr_data = invocation_data i @
          [(''flow_status'', EvStatus (fs_status current)), (''error_type'', EvStr error_type),
           (''revision'', EvInt (fs_revision current))]\<rparr>] token) (\<lambda>_.
     pret ())))"

definition svc_start :: "flow_lease option \<Rightarrow> uuid \<Rightarrow> flow_run_state repo_prog" where
  "svc_start lease run_id = svc_transition lease run_id
     (\<lambda>current. pbind utc_now (\<lambda>t. plift (start t current)))
     (\<lambda>_ st. Inr [\<lparr>dr_type = FLOW_STARTED, dr_data = [(''revision'', EvInt (fs_revision st))]\<rparr>])"

definition svc_begin_invocation :: "(json \<Rightarrow> string) \<Rightarrow> flow_lease option \<Rightarrow> uuid \<Rightarrow>
    agent_invocation_request \<Rightarrow> flow_definition \<Rightarrow> flow_run_state repo_prog" where
  "svc_begin_invocation digest lease run_id request d = svc_transition lease run_id
     (\<lambda>current. pbind utc_now3 (\<lambda>ts. plift (begin_invocation digest ts request d current)))
     (\<lambda>_ st. case active_invocation st of None \<Rightarrow> Inl AssertionError
       | Some i \<Rightarrow> Inr [\<lparr>dr_type = AGENT_INVOCATION_STARTED,
           dr_data = invocation_data i @ [(''revision'', EvInt (fs_revision st))]\<rparr>])"

text \<open>\<open>_INVOCATION_RESULT_EVENTS\<close>.\<close>

fun invocation_result_event :: "agent_result_status \<Rightarrow> flow_event_type" where
  "invocation_result_event ACompleted = AGENT_INVOCATION_COMPLETED"
| "invocation_result_event AFailed = AGENT_INVOCATION_FAILED"
| "invocation_result_event ACancelled = AGENT_INVOCATION_CANCELLED"
| "invocation_result_event AInterrupted = AGENT_INVOCATION_INTERRUPTED"
| "invocation_result_event ALimitReached = AGENT_INVOCATION_LIMIT_REACHED"
| "invocation_result_event AWaiting = AGENT_INVOCATION_WAITING"

definition settle_drafts :: "agent_invocation_result \<Rightarrow> flow_run_state \<Rightarrow> exn + flow_event_draft list" where
  "settle_drafts result st = (if fs_invocations st = [] then Inl IndexError
     else let settled = last (fs_invocations st) in
       Inr (\<lparr>dr_type = invocation_result_event (ar_status result), dr_data = invocation_data settled @
               [(''revision'', EvInt (fs_revision st)),
                (''input_tokens'', EvInt (input_tokens (ar_usage result))),
                (''output_tokens'', EvInt (output_tokens (ar_usage result))),
                (''artifact_count'', EvInt (int (length (ar_artifacts result))))]\<rparr> #
            (if ar_status result = AWaiting
             then [\<lparr>dr_type = FLOW_WAITING, dr_data =
                     [(''invocation_id'', EvUuid (inv_id settled)), (''revision'', EvInt (fs_revision st))]\<rparr>]
             else [])))"

definition svc_settle_invocation ::
  "flow_lease option \<Rightarrow> uuid \<Rightarrow> agent_invocation_result \<Rightarrow> flow_run_state repo_prog" where
  "svc_settle_invocation lease run_id result = svc_transition lease run_id
     (\<lambda>current. pbind utc_now2 (\<lambda>ts. plift (settle_invocation ts result current)))
     (\<lambda>_ st. settle_drafts result st)"

definition svc_resume_invocation :: "flow_lease option \<Rightarrow> uuid \<Rightarrow> uuid \<Rightarrow> flow_run_state repo_prog" where
  "svc_resume_invocation lease run_id invocation_id = svc_transition lease run_id
     (\<lambda>current. pbind utc_now2 (\<lambda>ts. plift (resume_invocation ts invocation_id current)))
     (\<lambda>_ st. case active_invocation st of None \<Rightarrow> Inl AssertionError
       | Some i \<Rightarrow> Inr [\<lparr>dr_type = AGENT_INVOCATION_RESUMED,
             dr_data = invocation_data i @ [(''revision'', EvInt (fs_revision st))]\<rparr>,
           \<lparr>dr_type = FLOW_RESUMED,
             dr_data = [(''invocation_id'', EvUuid (inv_id i)), (''revision'', EvInt (fs_revision st))]\<rparr>])"

definition svc_complete :: "flow_lease option \<Rightarrow> uuid \<Rightarrow> string \<Rightarrow> flow_run_state repo_prog" where
  "svc_complete lease run_id outp = svc_transition lease run_id
     (\<lambda>current. pbind utc_now (\<lambda>t. plift (complete t outp current)))
     (\<lambda>_ st. Inr [\<lparr>dr_type = FLOW_COMPLETED, dr_data =
        [(''revision'', EvInt (fs_revision st)),
         (''invocation_count'', EvInt (int (length (fs_invocations st)))),
         (''input_tokens'', EvInt (input_tokens (state_usage st))),
         (''output_tokens'', EvInt (output_tokens (state_usage st))),
         (''model_calls'', EvInt (model_call_count st)),
         (''tool_calls'', EvInt (tool_call_count st))]\<rparr>])"

text \<open>\<open>_FLOW_TERMINAL_EVENTS\<close> and \<open>_INVOCATION_TERMINAL_EVENTS\<close>; other statuses are no keys.\<close>

fun flow_terminal_event :: "run_status \<Rightarrow> flow_event_type option" where
  "flow_terminal_event Failed = Some FLOW_FAILED"
| "flow_terminal_event Cancelled = Some FLOW_CANCELLED"
| "flow_terminal_event Interrupted = Some FLOW_INTERRUPTED"
| "flow_terminal_event LimitReached = Some FLOW_LIMIT_REACHED"
| "flow_terminal_event _ = None"

fun invocation_terminal_event :: "run_status \<Rightarrow> flow_event_type option" where
  "invocation_terminal_event Failed = Some AGENT_INVOCATION_FAILED"
| "invocation_terminal_event Cancelled = Some AGENT_INVOCATION_CANCELLED"
| "invocation_terminal_event Interrupted = Some AGENT_INVOCATION_INTERRUPTED"
| "invocation_terminal_event LimitReached = Some AGENT_INVOCATION_LIMIT_REACHED"
| "invocation_terminal_event _ = None"

definition key_or_error :: "'a option \<Rightarrow> exn + 'a" where
  "key_or_error x = (case x of None \<Rightarrow> Inl KeyError | Some y \<Rightarrow> Inr y)"

text \<open>
  \<open>_terminate\<close>: the events of the invocation that was open, if any, and of the Flow. The
  metadata's entries override or extend the event's data.
\<close>

definition svc_terminate_drafts :: "run_status \<Rightarrow> (string, json) dict \<Rightarrow> flow_run_state \<Rightarrow>
    flow_run_state \<Rightarrow> exn + flow_event_draft list" where
  "svc_terminate_drafts status metadata current st =
     rbind (case active_invocation current of None \<Rightarrow> Inr []
       | Some active \<Rightarrow> (case find (\<lambda>i. inv_id i = inv_id active) (fs_invocations st) of
           None \<Rightarrow> Inl (OtherError ''RuntimeError'' ''coroutine raised StopIteration'')
         | Some terminated \<Rightarrow> rbind (key_or_error (invocation_terminal_event status)) (\<lambda>t.
             Inr [\<lparr>dr_type = t, dr_data =
                invocation_data terminated @ [(''revision'', EvInt (fs_revision st))]\<rparr>]))) (\<lambda>first.
     rbind (key_or_error (flow_terminal_event status)) (\<lambda>t.
     Inr (first @ [\<lparr>dr_type = t, dr_data =
       fold (\<lambda>(k, v). dict_set k (EvJson v)) metadata
         [(''revision'', EvInt (fs_revision st)),
          (''invocation_count'', EvInt (int (length (fs_invocations st))))]\<rparr>])))"

definition svc_terminate :: "flow_lease option \<Rightarrow> uuid \<Rightarrow> run_status \<Rightarrow> string \<Rightarrow> (string, json) dict \<Rightarrow>
    flow_run_state repo_prog" where
  "svc_terminate lease run_id status err metadata = svc_transition lease run_id
     (\<lambda>current. pbind utc_now2 (\<lambda>ts. plift (
        if status = Failed then fail ts err current
        else if status = Cancelled then cancel ts err current
        else if status = Interrupted then interrupt ts err current
        else reach_limit ts err current)))
     (svc_terminate_drafts status metadata)"

definition svc_fail :: "flow_lease option \<Rightarrow> uuid \<Rightarrow> string \<Rightarrow> flow_run_state repo_prog" where
  "svc_fail lease run_id err = svc_terminate lease run_id Failed err []"

definition svc_cancel :: "flow_lease option \<Rightarrow> uuid \<Rightarrow> string \<Rightarrow> flow_run_state repo_prog" where
  "svc_cancel lease run_id err = svc_terminate lease run_id Cancelled err []"

definition svc_interrupt :: "flow_lease option \<Rightarrow> uuid \<Rightarrow> string \<Rightarrow> flow_run_state repo_prog" where
  "svc_interrupt lease run_id err = svc_terminate lease run_id Interrupted err []"

definition svc_reach_limit ::
  "flow_lease option \<Rightarrow> uuid \<Rightarrow> string \<Rightarrow> (string, json) dict \<Rightarrow> flow_run_state repo_prog" where
  "svc_reach_limit lease run_id err metadata = svc_terminate lease run_id LimitReached err metadata"

subsection \<open>What a transition does\<close>

lemma same_store_trans [trans]: "same_store a b \<Longrightarrow> same_store b c \<Longrightarrow> same_store a c"
  by (simp add: same_store_def)

text \<open>A computation that only reads the host.\<close>

definition quiet :: "'a repo_prog \<Rightarrow> bool" where
  "quiet m \<longleftrightarrow> (\<forall>r. same_store r (snd (m r)))"

lemma quietD: "quiet m \<Longrightarrow> m r = (res, r') \<Longrightarrow> same_store r r'"
  unfolding quiet_def by (metis snd_conv)

lemma quiet_basic [simp]: "quiet (pret x)" "quiet (praise e)" "quiet (plift res)" "quiet utc_now"
  "quiet uuid4" "quiet (now_or_clock n)" "quiet (repo_get k)"
  by (simp_all add: quiet_def utc_now_def uuid4_def now_or_clock_eq same_store_def)

lemma quiet_bind [intro]:
  assumes "quiet m" and "\<And>x. quiet (f x)"
  shows "quiet (pbind m f)"
proof -
  have "same_store r (snd (pbind m f r))" for r
  proof (cases "m r")
    case (Pair res s)
    from assms(1) Pair have s: "same_store r s" by (rule quietD)
    show ?thesis
    proof (cases res)
      case (Inr x)
      have "same_store s (snd (f x s))" using assms(2) by (simp add: quiet_def)
      with s Pair Inr show ?thesis by (auto simp: pbind_app intro: same_store_trans)
    qed (simp add: pbind_app Pair s)
  qed
  then show ?thesis by (simp add: quiet_def)
qed

lemma quiet_clocks [simp]: "quiet utc_now2" "quiet utc_now3"
  unfolding utc_now2_def utc_now3_def by (intro quiet_bind; simp)+

lemma quiet_clock_lift [simp]: "quiet (pbind utc_now (\<lambda>t. plift (f t)))"
  "quiet (pbind utc_now2 (\<lambda>tt. plift (g tt)))" "quiet (pbind utc_now3 (\<lambda>ts. plift (h ts)))"
  by (intro quiet_bind; simp)+

lemma svc_transition_Inl:
  assumes "svc_transition lease k next_of drafts r = (Inl e, r')" and q: "\<And>cur. quiet (next_of cur)"
  shows "same_store r r'"
proof -
  from assms(1) consider "repo_get k r = (Inl e, r')"
    | cur where "next_of cur r = (Inl e, r')"
    | cur st where "next_of cur r = (Inr st, r')"
    | cur st r1 ev tok where "next_of cur r = (Inr st, r1)" "repo_commit st (fs_revision cur) ev tok r1 = (Inl e, r')"
    by (auto simp: svc_transition_def pbind_Inl_iff repo_get_eq split: option.splits)
  then show ?thesis
  proof cases
    case 1
    then show ?thesis by (simp add: repo_get_eq split: option.splits)
  next
    case (4 cur st r1 ev tok)
    then show ?thesis by (meson q quietD repo_commit_Inl same_store_trans)
  qed (use q quietD in blast)+
qed

lemma svc_transition_Inr:
  assumes "svc_transition lease k next_of drafts r = (Inr st, r')" and q: "\<And>cur. quiet (next_of cur)"
  obtains cur r1 ds tok es where "dict_get (repo_states r) k = Some cur" "next_of cur r = (Inr st, r1)"
    "same_store r r1" "drafts cur st = Inr ds" "execution_token_for lease k = Inr tok"
    "repo_commit st (fs_revision cur) ds tok r1 = (Inr es, r')"
proof -
  from assms(1) obtain cur r1 ds tok es where *: "repo_get k r = (Inr cur, r)" "next_of cur r = (Inr st, r1)"
    "drafts cur st = Inr ds" "execution_token_for lease k = Inr tok"
    "repo_commit st (fs_revision cur) ds tok r1 = (Inr es, r')"
    by (auto simp: svc_transition_def pbind_Inr_iff repo_get_eq split: option.splits)
  moreover from *(1) have "dict_get (repo_states r) k = Some cur"
    by (simp add: repo_get_eq split: option.splits)
  moreover from *(2) q have "same_store r r1" by (blast dest: quietD)
  ultimately show thesis using that by blast
qed

subsection \<open>Replaying the log\<close>

text \<open>
  The status and the number of invocations that a reader of the event log computes. An
  invocation's result makes the Flow run on (or wait, by the \<open>flow.waiting\<close> event that follows).
\<close>

fun replay_status :: "flow_event_type \<Rightarrow> run_status \<Rightarrow> run_status" where
  "replay_status FLOW_CREATED s = Created"
| "replay_status FLOW_STARTED s = Running"
| "replay_status FLOW_RESUMED s = Running"
| "replay_status FLOW_WAITING s = Waiting"
| "replay_status FLOW_COMPLETED s = Completed"
| "replay_status FLOW_FAILED s = Failed"
| "replay_status FLOW_CANCELLED s = Cancelled"
| "replay_status FLOW_INTERRUPTED s = Interrupted"
| "replay_status FLOW_LIMIT_REACHED s = LimitReached"
| "replay_status AGENT_INVOCATION_CANCELLATION_PROPAGATION_FAILED s = s"
| "replay_status _ s = Running"

definition replayed :: "runtime_event list \<Rightarrow> run_status \<times> nat" where
  "replayed es = (fold replay_status (map ev_type es) Created,
     count_list (map ev_type es) AGENT_INVOCATION_STARTED)"

definition summary :: "flow_run_state \<Rightarrow> run_status \<times> nat" where
  "summary st = (fs_status st, length (fs_invocations st))"

text \<open>The drafts of a transition describe the change of the summary.\<close>

definition describes :: "flow_event_draft list \<Rightarrow> flow_run_state \<Rightarrow> flow_run_state \<Rightarrow> bool" where
  "describes ds cur st \<longleftrightarrow> fold replay_status (map dr_type ds) (fs_status cur) = fs_status st \<and>
     length (fs_invocations cur) + count_list (map dr_type ds) AGENT_INVOCATION_STARTED =
     length (fs_invocations st)"

text \<open>The open invocation is always the last one.\<close>

definition active_last :: "flow_run_state \<Rightarrow> bool" where
  "active_last st \<longleftrightarrow> (case fs_active_invocation_id st of None \<Rightarrow> True
     | Some a \<Rightarrow> fs_invocations st \<noteq> [] \<and> inv_id (last (fs_invocations st)) = a)"

lemma last_replace_by: "xs \<noteq> [] \<Longrightarrow> key y = k \<Longrightarrow> key (last (replace_by key k y xs)) = key (last xs)"
  by (simp add: replace_by_def last_map)

lemma flow_step_active_last:
  assumes "flow_step digest st st'" and "active_last st"
  shows "active_last st'"
  using assms(1)
proof (cases rule: flow_step_cases)
  case (Settle r tt)
  from Settle(2) show ?thesis
  proof (rule settle_invocationE)
    fix a a'
    assume a: "active_invocation st = Some a" and s: "settle (fst tt) r a = Inr a'"
      and st': "st' = evolve (snd tt) (st\<lparr>fs_status := (if ar_status r = AWaiting then Waiting else Running),
        fs_invocations := replace_by inv_id (inv_id a) a' (fs_invocations st),
        fs_active_invocation_id := (if ar_status r = AWaiting then Some (inv_id a) else None)\<rparr>)"
    from s have "inv_id a' = inv_id a" by (auto elim!: settleE)
    with a assms(2) active_in [OF a] show ?thesis
      by (auto simp: active_last_def st' last_replace_by)
  qed
next
  case (Resume tt iid)
  then show ?thesis
  proof (rule resume_invocationE)
    fix a
    assume "active_invocation st = Some a" "inv_id a = iid" "st' = evolve (snd tt) (st\<lparr>fs_status := Running,
      fs_invocations := replace_by inv_id iid (a\<lparr>inv_status := Running, inv_updated_at := fst tt\<rparr>) (fs_invocations st)\<rparr>)"
    then show ?thesis using assms(2) active_in [of st a] by (simp add: active_last_def last_replace_by)
  qed
qed (use assms(2) in \<open>auto elim!: startE begin_invocationE completeE terminate_stateE simp: active_last_def split: option.splits\<close>)

lemma start_describes: "start t cur = Inr st \<Longrightarrow> map dr_type ds = [FLOW_STARTED] \<Longrightarrow> describes ds cur st"
  by (auto elim!: startE simp: describes_def)

lemma complete_describes:
  "complete t outp cur = Inr st \<Longrightarrow> map dr_type ds = [FLOW_COMPLETED] \<Longrightarrow> describes ds cur st"
  by (auto elim!: completeE simp: describes_def)

lemma begin_describes:
  "begin_invocation digest ts q d cur = Inr st \<Longrightarrow> map dr_type ds = [AGENT_INVOCATION_STARTED] \<Longrightarrow>
   describes ds cur st"
  by (auto elim!: begin_invocationE simp: describes_def)

lemma settle_describes:
  assumes "settle_invocation tt q cur = Inr st"
    and "map dr_type ds = invocation_result_event (ar_status q) # (if ar_status q = AWaiting then [FLOW_WAITING] else [])"
  shows "describes ds cur st"
  using assms by (cases "ar_status q") (auto elim!: settle_invocationE simp: describes_def)

lemma settle_drafts_types: "settle_drafts q st = Inr ds \<Longrightarrow>
    map dr_type ds = invocation_result_event (ar_status q) # (if ar_status q = AWaiting then [FLOW_WAITING] else [])"
  by (auto simp: settle_drafts_def Let_def split: if_splits)

lemma resume_describes:
  "resume_invocation tt iid cur = Inr st \<Longrightarrow> map dr_type ds = [AGENT_INVOCATION_RESUMED, FLOW_RESUMED] \<Longrightarrow>
   describes ds cur st"
  by (auto elim!: resume_invocationE simp: describes_def)

lemma key_or_error_Inr: "key_or_error x = Inr y \<longleftrightarrow> x = Some y"
  by (simp add: key_or_error_def split: option.split)

lemma flow_terminal_event_replay:
  "flow_terminal_event s = Some t \<Longrightarrow> replay_status t u = s \<and> t \<noteq> AGENT_INVOCATION_STARTED"
  by (induction s rule: flow_terminal_event.induct) auto

lemma invocation_terminal_event_start: "invocation_terminal_event s \<noteq> Some AGENT_INVOCATION_STARTED"
  by (induction s rule: invocation_terminal_event.induct) auto

lemma terminate_describes:
  assumes "terminate_state tt s err cur = Inr st"
    and ds: "svc_terminate_drafts s md cur st = Inr ds"
  shows "describes ds cur st"
proof -
  from assms(1) have st: "fs_status st = s" "length (fs_invocations st) = length (fs_invocations cur)"
    by (auto elim!: terminate_stateE)
  from ds obtain first t data where t: "flow_terminal_event s = Some t"
    and ds': "ds = first @ [\<lparr>dr_type = t, dr_data = data\<rparr>]"
    and first: "(case active_invocation cur of None \<Rightarrow> Inr []
       | Some active \<Rightarrow> (case find (\<lambda>i. inv_id i = inv_id active) (fs_invocations st) of
           None \<Rightarrow> Inl (OtherError ''RuntimeError'' ''coroutine raised StopIteration'')
         | Some terminated \<Rightarrow> rbind (key_or_error (invocation_terminal_event s)) (\<lambda>t.
             Inr [\<lparr>dr_type = t, dr_data =
                invocation_data terminated @ [(''revision'', EvInt (fs_revision st))]\<rparr>]))) = Inr first"
    unfolding svc_terminate_drafts_def rbind_Inr_iff key_or_error_Inr by blast
  from first have pre: "map dr_type first = [] \<or>
      (\<exists>t'. invocation_terminal_event s = Some t' \<and> map dr_type first = [t'])"
    by (auto simp: rbind_Inr_iff key_or_error_Inr split: option.splits)
  have "replay_status t u = s" "t \<noteq> AGENT_INVOCATION_STARTED" for u
    using flow_terminal_event_replay [OF t] by auto
  moreover have "count_list (map dr_type first) AGENT_INVOCATION_STARTED = 0"
    using pre invocation_terminal_event_start by auto
  ultimately show ?thesis using st by (simp add: describes_def ds')
qed

lemma settled_last:
  assumes "settle_invocation tt a cur = Inr st" and "flow_inv cur \<and> active_last cur \<and> X"
  shows "inv_id (last (fs_invocations st)) = ar_invocation_id a"
  using assms(1)
proof (rule settle_invocationE)
  fix i i'
  assume i: "active_invocation cur = Some i" and s: "settle (fst tt) a i = Inr i'"
    and st: "st = evolve (snd tt) (cur\<lparr>fs_status := (if ar_status a = AWaiting then Waiting else Running),
        fs_invocations := replace_by inv_id (inv_id i) i' (fs_invocations cur),
        fs_active_invocation_id := (if ar_status a = AWaiting then Some (inv_id i) else None)\<rparr>)"
  from s have "inv_id i' = inv_id i" "ar_invocation_id a = inv_id i"
    by (auto elim!: settleE simp: matches_result_def)
  with active_in [OF i] assms(2) show ?thesis by (simp add: st active_last_def last_replace_by)
qed

subsection \<open>The service invariant\<close>

text \<open>The identifiers drawn from \<open>uuid4\<close> so far; those of stored invocations are among them.\<close>

definition drawn :: "flow_repo \<Rightarrow> uuid set" where
  "drawn r = uuid_stream r ` {..<uuid_draws r}"

definition state_ok :: "flow_repo \<Rightarrow> uuid \<Rightarrow> flow_run_state \<Rightarrow> bool" where
  "state_ok r k st \<longleftrightarrow> flow_inv st \<and> active_last st \<and> inv_id ` set (fs_invocations st) \<subseteq> drawn r \<and>
     replayed (events_of r k) = summary st"

definition svc_inv :: "flow_repo \<Rightarrow> bool" where
  "svc_inv r \<longleftrightarrow> repo_inv r \<and> (\<forall>k st. dict_get (repo_states r) k = Some st \<longrightarrow> state_ok r k st)"

lemma svc_inv_repo: "svc_inv r \<Longrightarrow> repo_inv r"
  and svc_inv_state: "svc_inv r \<Longrightarrow> dict_get (repo_states r) k = Some st \<Longrightarrow> state_ok r k st"
  and svc_invD: "svc_inv r \<Longrightarrow> dict_get (repo_states r) k = Some st \<Longrightarrow>
    flow_inv st \<and> active_last st \<and> replayed (events_of r k) = summary st"
  by (simp_all add: svc_inv_def state_ok_def)

lemma drawn_mono: "uuid_stream r' = uuid_stream r \<Longrightarrow> uuid_draws r \<le> uuid_draws r' \<Longrightarrow> drawn r \<subseteq> drawn r'"
  by (force simp: drawn_def)

lemma state_ok_mono: "state_ok r k st \<Longrightarrow> drawn r \<subseteq> drawn r' \<Longrightarrow> events_of r' k = events_of r k \<Longrightarrow> state_ok r' k st"
  by (auto simp: state_ok_def)

lemma ids_kept:
  "start t cur = Inr st \<Longrightarrow> map inv_id (fs_invocations st) = map inv_id (fs_invocations cur)"
  "settle_invocation tt a cur = Inr st \<Longrightarrow> map inv_id (fs_invocations st) = map inv_id (fs_invocations cur)"
  "resume_invocation tt iid cur = Inr st \<Longrightarrow> map inv_id (fs_invocations st) = map inv_id (fs_invocations cur)"
  "complete t outp cur = Inr st \<Longrightarrow> map inv_id (fs_invocations st) = map inv_id (fs_invocations cur)"
  "terminate_state tt s err cur = Inr st \<Longrightarrow> map inv_id (fs_invocations st) = map inv_id (fs_invocations cur)"
  by (auto elim!: startE settle_invocationE settleE resume_invocationE completeE terminate_stateE terminateE
      simp: replace_by_keys)

text \<open>The identifiers a transition adds were drawn before.\<close>

definition ids_from :: "flow_repo \<Rightarrow> flow_run_state \<Rightarrow> flow_run_state \<Rightarrow> bool" where
  "ids_from r cur st \<longleftrightarrow> inv_id ` set (fs_invocations st) \<subseteq> inv_id ` set (fs_invocations cur) \<union> drawn r \<and>
     (distinct_ids cur \<longrightarrow> distinct_ids st)"

lemma ids_from_kept: "map inv_id (fs_invocations st) = map inv_id (fs_invocations cur) \<Longrightarrow> ids_from r cur st"
  unfolding ids_from_def distinct_ids_def by (metis Un_upper1 list.set_map)

lemma ids_from_begin:
  "begin_invocation digest ts q d cur = Inr st \<Longrightarrow> rq_invocation_id q \<in> drawn r \<Longrightarrow>
   rq_invocation_id q \<notin> inv_id ` set (fs_invocations cur) \<Longrightarrow> ids_from r cur st"
  by (auto elim!: begin_invocationE simp: ids_from_def distinct_ids_def)

lemma same_store_events: "same_store r r' \<Longrightarrow> events_of r' = events_of r"
  by (simp add: same_store_def events_of_def fun_eq_iff)

lemma svc_inv_same: "svc_inv r \<Longrightarrow> same_store r r' \<Longrightarrow> svc_inv r'"
proof -
  assume inv: "svc_inv r" and same: "same_store r r'"
  have "repo_inv r'" using inv same by (blast intro: repo_change_inv unchanged svc_inv_repo)
  moreover have "drawn r \<subseteq> drawn r'" using same by (intro drawn_mono) (simp_all add: same_store_def)
  then have "state_ok r' k st" if "dict_get (repo_states r) k = Some st" for k st
    using svc_inv_state [OF inv that] same_store_events [OF same] by (auto intro: state_ok_mono)
  ultimately show ?thesis using same by (simp add: svc_inv_def same_store_def)
qed

lemma replayed_append:
  "replayed es = summary cur \<Longrightarrow> map ev_type new = map dr_type ds \<Longrightarrow> describes ds cur st \<Longrightarrow>
   replayed (es @ new) = summary st"
  by (simp add: replayed_def summary_def describes_def)

lemma svc_commit_inv:
  assumes inv: "svc_inv r" and cur: "dict_get (repo_states r) (fs_run_id st) = Some cur"
    and c: "repo_commit st (fs_revision cur) ds tok r = (Inr es, r')"
    and st: "flow_inv st" "active_last st" "ids_from r cur st" and d: "describes ds cur st"
  shows "svc_inv r'"
proof -
  have "repo_inv r'" using inv c by (blast intro: svc_inv_repo repo_step_inv commits)
  moreover have es: "map ev_type es = map dr_type ds" using c by (auto elim: repo_commit_Inr)
  have dr: "drawn r \<subseteq> drawn r'"
    by (rule drawn_mono) (use c in \<open>auto elim!: repo_commit_Inr\<close>)
  have "replayed (events_of r (fs_run_id st) @ es) = summary st"
    using svc_invD [OF inv cur] d es by (blast intro: replayed_append)
  then have "state_ok r' (fs_run_id st) st"
    using repo_commit_writes(2) [OF c] st dr svc_inv_state [OF inv cur]
    by (auto simp: state_ok_def ids_from_def)
  moreover have "state_ok r' k st'" if "k \<noteq> fs_run_id st" "dict_get (repo_states r) k = Some st'" for k st'
    using svc_inv_state [OF inv that(2)] dr that(1) repo_commit_writes(2) [OF c] by (auto intro: state_ok_mono)
  ultimately show ?thesis
    using repo_commit_writes(1) [OF c] unfolding svc_inv_def by (auto split: if_splits)
qed

text \<open>
  What the service's operations do to the aggregates of others: a stored aggregate stays as it is or
  makes one transition, and none disappears.
\<close>

definition svc_evolves :: "(json \<Rightarrow> string) \<Rightarrow> flow_repo \<Rightarrow> flow_repo \<Rightarrow> bool" where
  "svc_evolves digest r r' \<longleftrightarrow> uuid_stream r' = uuid_stream r \<and> uuid_draws r \<le> uuid_draws r' \<and>
     clock_stream r' = clock_stream r \<and>
     (\<forall>k st. dict_get (repo_states r) k = Some st \<longrightarrow>
        (\<exists>st'. dict_get (repo_states r') k = Some st' \<and> (st' = st \<or> flow_step digest st st')))"

lemma svc_evolves_same: "same_store r r' \<Longrightarrow> svc_evolves digest r r'"
  by (simp add: svc_evolves_def same_store_def)

lemma svc_evolves_commit:
  assumes same: "same_store r r1" and c: "repo_commit st n ds tok r1 = (Inr es, r')"
    and s: "flow_step digest cur st" and cur: "dict_get (repo_states r) k = Some cur" and k: "fs_run_id st = k"
  shows "svc_evolves digest r r'"
proof -
  have "uuid_stream r' = uuid_stream r1" "uuid_draws r1 \<le> uuid_draws r'" "clock_stream r' = clock_stream r1"
    using c by (auto elim!: repo_commit_Inr)
  then show ?thesis
    using same repo_commit_writes(1) [OF c] s cur k by (auto simp: svc_evolves_def same_store_def)
qed

lemma svc_evolves_kept:
  "repo_step r r' \<Longrightarrow> repo_inv r \<Longrightarrow> repo_states r' = repo_states r \<Longrightarrow> svc_evolves digest r r'"
  using repo_change_streams [OF repo_step_change, of r r'] by (simp add: svc_evolves_def)

lemma svc_transition_inv:
  assumes inv: "svc_inv r" and run: "svc_transition lease k next_of drafts r = (res, r')"
    and q: "\<And>cur. quiet (next_of cur)"
    and step: "\<And>cur st r1 ds. dict_get (repo_states r) k = Some cur \<Longrightarrow> next_of cur r = (Inr st, r1) \<Longrightarrow>
      drafts cur st = Inr ds \<Longrightarrow> flow_step digest cur st \<and> describes ds cur st \<and> ids_from r cur st"
  shows "svc_inv r' \<and> svc_evolves digest r r'"
proof (cases res)
  case (Inl e)
  with run q have "same_store r r'" by (blast dest: svc_transition_Inl)
  with inv show ?thesis by (blast intro: svc_inv_same svc_evolves_same)
next
  case (Inr st)
  from run [unfolded Inr] q obtain cur r1 ds tok es where
    cur: "dict_get (repo_states r) k = Some cur" and nxt: "next_of cur r = (Inr st, r1)"
    and same: "same_store r r1" and ds: "drafts cur st = Inr ds"
    and c: "repo_commit st (fs_revision cur) ds tok r1 = (Inr es, r')"
    by (rule svc_transition_Inr)
  have s: "flow_step digest cur st" and d: "describes ds cur st" and "ids_from r cur st"
    using step [OF cur nxt ds] by auto
  then have "ids_from r1 cur st"
    using drawn_mono [of r1 r] same by (auto simp: ids_from_def same_store_def)
  have "fs_run_id st = k"
    using repo_inv_state [OF svc_inv_repo [OF inv] cur] flow_step_frame [OF s] by (simp add: same_identity_def)
  moreover have "flow_inv st"
    using svc_invD [OF inv cur] \<open>ids_from r cur st\<close>
    by (auto intro: flow_step_inv [OF s] dest: flow_inv_distinct simp: ids_from_def)
  moreover have "active_last st" using svc_invD [OF inv cur] s by (auto intro: flow_step_active_last)
  moreover note \<open>ids_from r1 cur st\<close>
  moreover have "svc_evolves digest r r'"
    using same c s cur \<open>fs_run_id st = k\<close> by (rule svc_evolves_commit)
  ultimately show ?thesis
    using svc_commit_inv [OF svc_inv_same [OF inv same] _ c] same cur d by (simp add: same_store_def)
qed

text \<open>
  One operation of a client of the service, or an operation on leases, or host readings of other
  code. Requests and results are validated objects, and a request's identifier is new for its run.
\<close>

inductive svc_step :: "(json \<Rightarrow> string) \<Rightarrow> flow_repo \<Rightarrow> flow_repo \<Rightarrow> bool"
  for digest :: "json \<Rightarrow> string" where
  does_create: "svc_create digest d run_id now r = (res, r') \<Longrightarrow> svc_step digest r r'"
| does_start: "svc_start lease k r = (res, r') \<Longrightarrow> svc_step digest r r'"
| does_begin: "valid_request q \<Longrightarrow> (\<And>st. dict_get (repo_states r) k = Some st \<Longrightarrow>
      rq_invocation_id q \<notin> set (map inv_id (fs_invocations st))) \<Longrightarrow>
    rq_invocation_id q \<in> drawn r \<Longrightarrow>
    svc_begin_invocation digest lease k q d r = (res, r') \<Longrightarrow> svc_step digest r r'"
| does_settle: "valid_result a \<Longrightarrow> svc_settle_invocation lease k a r = (res, r') \<Longrightarrow> svc_step digest r r'"
| does_resume: "svc_resume_invocation lease k iid r = (res, r') \<Longrightarrow> svc_step digest r r'"
| does_complete: "svc_complete lease k outp r = (res, r') \<Longrightarrow> svc_step digest r r'"
| does_terminate: "error_status s \<Longrightarrow> svc_terminate lease k s err md r = (res, r') \<Longrightarrow> svc_step digest r r'"
| does_record: "record_cancellation_propagation_failure lease k i n r = (res', r') \<Longrightarrow> svc_step digest r r'"
| does_acquire: "acquire_execution k owner_id ttl now r = (res, r') \<Longrightarrow> svc_step digest r r'"
| does_renew: "renew_execution l ttl now r = (res, r') \<Longrightarrow> svc_step digest r r'"
| does_release: "release_execution l r = (res', r') \<Longrightarrow> svc_step digest r r'"
| does_read: "same_store r r' \<Longrightarrow> svc_step digest r r'"

lemma run_id_or_new_quiet [simp]: "run_id_or_new run_id r \<noteq> (Inl e, r')"
  by (simp add: run_id_or_new_def uuid4_def split: option.split)

lemma run_id_or_new_same: "run_id_or_new run_id (after_read now r) = (Inr k, r') \<Longrightarrow> same_store r r'"
  by (auto simp: run_id_or_new_def uuid4_def same_store_def split: option.splits)

lemma svc_create_cases:
  assumes "svc_create digest d run_id now r = (res, r')"
  obtains (failed) e where "res = Inl e" "same_store r r'"
  | (stored) st k t r1 ds es where "res = Inr st" "same_store r r1" "create_state digest d k t = Inr st"
      "repo_create st ds r1 = (Inr es, r')" "map dr_type ds = [FLOW_CREATED]"
proof (cases res)
  case (Inl e)
  with assms obtain r1 where r1: "same_store r r1" and "r' = r1 \<or> (\<exists>st ds. repo_create st ds r1 = (Inl e, r'))"
    by (auto simp: svc_create_def pbind_Inl_iff now_or_clock_eq run_id_or_new_quiet dest!: run_id_or_new_same)
  then have "same_store r r'" by (auto elim!: repo_createE)
  with Inl failed show thesis by blast
next
  case (Inr st)
  with assms show thesis
    by (auto simp: svc_create_def pbind_Inr_iff now_or_clock_eq dest!: run_id_or_new_same intro!: stored)
qed

lemma svc_create_evolves:
  assumes "svc_create digest d run_id now r = (res, r')"
  shows "svc_evolves digest r r'"
  using assms
proof (cases rule: svc_create_cases)
  case (stored st k t r1 ds es)
  from stored(2,4) show ?thesis by (auto elim!: repo_createE simp: svc_evolves_def same_store_def)
qed (rule svc_evolves_same)

lemma svc_create_inv:
  assumes inv: "svc_inv r" and "svc_create digest d run_id now r = (res, r')"
  shows "svc_inv r'"
  using assms(2)
proof (cases rule: svc_create_cases)
  case failed
  with inv show ?thesis by (blast intro: svc_inv_same)
next
  case (stored st k t r1 ds es)
  have inv1: "svc_inv r1" using inv stored(2) by (rule svc_inv_same)
  have st: "flow_inv st" using stored(3) by (rule create_state_inv)
  have s: "summary st = (Created, 0)" "active_last st"
    using stored(3) by (auto simp: create_state_def summary_def active_last_def)
  from stored(4) have es: "es = materialized r1 (fs_run_id st) 1 ds"
    "repo_states r' = dict_set (fs_run_id st) st (repo_states r1)"
    "repo_events r' = dict_set (fs_run_id st) es (repo_events r1)" by (auto elim!: repo_createE)
  have "repo_inv r'" using inv1 stored(4) by (blast intro: svc_inv_repo repo_step_inv creates)
  moreover have "replayed es = (Created, 0)" using stored(5) by (simp add: es(1) replayed_def)
  moreover have "events_of r' = (events_of r1)(fs_run_id st := es)" by (auto simp: events_of_def es(3))
  moreover have "drawn r1 \<subseteq> drawn r'"
    by (rule drawn_mono) (use stored(4) in \<open>auto elim!: repo_createE\<close>)
  then have "state_ok r' k st'" if "k \<noteq> fs_run_id st" "dict_get (repo_states r1) k = Some st'" for k st'
    using svc_inv_state [OF inv1 that(2)] that(1) calculation(3) by (auto intro: state_ok_mono)
  moreover have "fs_invocations st = []" using stored(3) by (auto simp: create_state_def)
  ultimately show ?thesis using st s
    by (auto simp: svc_inv_def es(2) state_ok_def split: if_splits)
qed

lemma svc_record_evolves:
  assumes "record_cancellation_propagation_failure lease k i n r = (res, r')"
  shows "svc_evolves digest r r'"
proof (cases "same_store r r'")
  case True
  then show ?thesis by (rule svc_evolves_same)
next
  case False
  with assms obtain m tok ds es where "repo_append_events k m ds tok r = (Inr es, r')"
    by (auto simp: record_cancellation_propagation_failure_def pbind_app repo_get_eq
        split: option.splits prod.splits sum.splits dest: repo_append_events_Inl)
  then show ?thesis by (auto elim!: repo_append_events_Inr simp: svc_evolves_def)
qed

lemma svc_record_inv:
  assumes inv: "svc_inv r" and run: "record_cancellation_propagation_failure lease k i n r = (res, r')"
  shows "svc_inv r'"
proof (cases "same_store r r'")
  case True
  with inv show ?thesis by (rule svc_inv_same)
next
  case False
  from run False obtain m tok data es where
    a: "repo_append_events k m
          [\<lparr>dr_type = AGENT_INVOCATION_CANCELLATION_PROPAGATION_FAILED, dr_data = data\<rparr>] tok r = (Inr es, r')"
    by (auto simp: record_cancellation_propagation_failure_def pbind_app repo_get_eq
        split: option.splits prod.splits sum.splits dest: repo_append_events_Inl)
  have "repo_inv r'" using inv a by (blast intro: svc_inv_repo repo_step_inv appends)
  moreover from a have es: "map ev_type es = [AGENT_INVOCATION_CANCELLATION_PROPAGATION_FAILED]"
    "repo_states r' = repo_states r"
    "events_of r' = (events_of r)(k := events_of r k @ es)"
    by (auto elim!: repo_append_events_Inr simp: events_of_def)
  moreover have "replayed (xs @ es) = replayed xs" for xs using es(1) by (simp add: replayed_def)
  moreover have "drawn r \<subseteq> drawn r'"
    by (rule drawn_mono) (use a in \<open>auto elim!: repo_append_events_Inr\<close>)
  ultimately show ?thesis using svc_inv_state [OF inv] by (fastforce simp: svc_inv_def state_ok_def)
qed

lemma svc_lease_inv:
  assumes inv: "svc_inv r" and "repo_step r r'" and "repo_states r' = repo_states r" and "repo_events r' = repo_events r"
  shows "svc_inv r'"
proof -
  have "repo_change r r'" using assms(2) svc_inv_repo [OF inv] by (rule repo_step_change)
  then have "drawn r \<subseteq> drawn r'" by (intro drawn_mono) (simp_all add: repo_change_streams)
  then have "state_ok r' k st" if "dict_get (repo_states r) k = Some st" for k st
    using svc_inv_state [OF inv that] assms(4) by (auto simp: events_of_def intro: state_ok_mono)
  then show ?thesis
    using assms(3) repo_step_inv [OF assms(2) svc_inv_repo [OF inv]] by (simp add: svc_inv_def)
qed

lemma svc_lease_good:
  "svc_inv r \<Longrightarrow> repo_step r r' \<Longrightarrow> repo_states r' = repo_states r \<and> repo_events r' = repo_events r \<Longrightarrow>
   svc_inv r' \<and> svc_evolves digest r r'"
  by (blast intro: svc_lease_inv svc_evolves_kept svc_inv_repo)

lemma lease_ops_keep:
  "acquire_execution k owner_id ttl now r = (res, r') \<Longrightarrow> repo_states r' = repo_states r \<and> repo_events r' = repo_events r"
  "renew_execution l ttl now r = (res, r') \<Longrightarrow> repo_states r' = repo_states r \<and> repo_events r' = repo_events r"
  "release_execution l r = (res', r') \<Longrightarrow> repo_states r' = repo_states r \<and> repo_events r' = repo_events r"
  by (auto simp: acquire_execution_eq renew_execution_eq release_execution_eq Let_def
      split: sum.splits option.splits if_splits)

lemma termination_dispatch: "error_status s \<Longrightarrow>
    (if s = Failed then fail ts err cur else if s = Cancelled then cancel ts err cur
     else if s = Interrupted then interrupt ts err cur else reach_limit ts err cur) = terminate_state ts s err cur"
  by (cases rule: run_status.exhaust [of s]) (auto simp: termination_defs)

lemma termination_step:
  assumes "terminate_state tt s err cur = Inr st" and "error_status s"
  shows "flow_step digest cur st"
  using assms flow_step.intros(6-9) [of tt err cur st digest] unfolding termination_defs
  by (cases rule: run_status.exhaust [of s]) auto

lemma svc_step_good:
  assumes "svc_step digest r r'" and inv: "svc_inv r"
  shows "svc_inv r' \<and> svc_evolves digest r r'"
  using assms(1)
proof cases
  case (does_create d run_id now res)
  then show ?thesis using svc_create_inv [OF inv] svc_create_evolves by blast
next
  case (does_start lease k res)
  then show ?thesis unfolding svc_start_def
    by (rule svc_transition_inv [OF inv, where digest = digest])
      (auto simp: pbind_Inr_iff intro: step_start start_describes ids_from_kept ids_kept)
next
  case (does_begin q k lease d res)
  from does_begin(4) show ?thesis unfolding svc_begin_invocation_def
    by (rule svc_transition_inv [OF inv, where digest = digest])
      (use does_begin(1-3) in \<open>auto simp: pbind_Inr_iff split: option.splits
        intro: step_begin begin_describes ids_from_begin\<close>)
next
  case (does_settle a lease k res)
  from does_settle(2) show ?thesis unfolding svc_settle_invocation_def
    by (rule svc_transition_inv [OF inv, where digest = digest])
      (use does_settle(1) in \<open>auto simp: pbind_Inr_iff intro: step_settle settle_describes ids_from_kept ids_kept
        dest: settle_drafts_types\<close>)
next
  case (does_resume lease k iid res)
  then show ?thesis unfolding svc_resume_invocation_def
    by (rule svc_transition_inv [OF inv, where digest = digest])
      (auto simp: pbind_Inr_iff split: option.splits intro: step_resume resume_describes ids_from_kept ids_kept)
next
  case (does_complete lease k outp res)
  then show ?thesis unfolding svc_complete_def
    by (rule svc_transition_inv [OF inv, where digest = digest])
      (auto simp: pbind_Inr_iff intro: step_complete complete_describes ids_from_kept ids_kept)
next
  case (does_terminate s lease k err md res)
  from does_terminate(2) show ?thesis unfolding svc_terminate_def
    by (rule svc_transition_inv [OF inv, where digest = digest])
      (use does_terminate(1) in \<open>auto simp: pbind_Inr_iff termination_dispatch
        intro: termination_step terminate_describes ids_from_kept ids_kept\<close>)
next
  case (does_record lease k i n res')
  then show ?thesis using svc_record_inv [OF inv] svc_record_evolves by blast
next
  case (does_acquire k owner_id ttl now res)
  with inv show ?thesis using lease_ops_keep(1) acquires svc_lease_good by meson
next
  case (does_renew l ttl now res)
  with inv show ?thesis using lease_ops_keep(2) renews svc_lease_good by meson
next
  case (does_release l res')
  with inv show ?thesis using lease_ops_keep(3) releases svc_lease_good by meson
next
  case does_read
  with inv show ?thesis by (blast intro: svc_inv_same svc_evolves_same)
qed


lemma svc_step_inv: "svc_step digest r r' \<Longrightarrow> svc_inv r \<Longrightarrow> svc_inv r'"
  by (simp add: svc_step_good)

lemma svc_steps_inv: "(svc_step digest)\<^sup>*\<^sup>* r r' \<Longrightarrow> svc_inv r \<Longrightarrow> svc_inv r'"
  by (induction rule: rtranclp_induct) (blast intro: svc_step_inv)+

definition svc_reachable :: "(json \<Rightarrow> string) \<Rightarrow> flow_repo \<Rightarrow> bool" where
  "svc_reachable digest r \<longleftrightarrow> (\<exists>clk ids. (svc_step digest)\<^sup>*\<^sup>* (empty_repo clk ids) r)"

lemma svc_inv_empty: "svc_inv (empty_repo clk ids)"
  by (simp add: svc_inv_def empty_repo_def repo_inv_def)

lemma svc_reachable_inv: "svc_reachable digest r \<Longrightarrow> svc_inv r"
  unfolding svc_reachable_def
  by (blast intro: svc_steps_inv svc_inv_empty)

lemma svc_reachable_step: "svc_reachable digest r \<Longrightarrow> svc_step digest r r' \<Longrightarrow> svc_reachable digest r'"
  unfolding svc_reachable_def by (meson rtranclp.rtrancl_into_rtrancl)

subsection \<open>Transitions that succeed\<close>

lemma entitled_same: "same_store r r1 \<Longrightarrow> entitled r1 k tok t = entitled r k tok t"
  by (simp add: entitled_def same_store_def)

lemma svc_transition_succeeds:
  assumes inv: "repo_inv r" and cur: "dict_get (repo_states r) k = Some cur"
    and nxt: "next_of cur r = (Inr st, r1)" and same: "same_store r r1"
    and ds: "drafts cur st = Inr ds" "ds \<noteq> []" and tok: "execution_token_for lease k = Inr tok"
    and ent: "entitled r k tok (next_time r1)"
    and rep: "validate_flow_replacement cur st (fs_revision cur) = Inr ()" and k: "fs_run_id st = k"
  shows "\<exists>r' es. svc_transition lease k next_of drafts r = (Inr st, r') \<and>
    dict_get (repo_states r') k = Some st \<and> events_of r' k = events_of r k @ es \<and>
    map ev_type es = map dr_type ds"
proof -
  from cur obtain olds where "dict_get (repo_events r) k = Some olds"
    using repo_inv_aligned [OF inv, of k] by auto
  moreover have "validate_execution_token r1 k tok (next_time r1) = Inr ()"
    using ent same by (simp only: token_accepted entitled_same)
  ultimately obtain es r' where c: "repo_commit st (fs_revision cur) ds tok r1 = (Inr es, r')"
    using cur same k ds(2) rep by (simp add: repo_commit_eq same_store_def Let_def)
  from c have "map ev_type es = map dr_type ds" by (auto elim: repo_commit_Inr)
  with c repo_commit_writes [OF c] same_store_events [OF same] k show ?thesis
    by (simp add: svc_transition_def pbind_app repo_get_eq cur nxt ds(1) tok)
qed

lemma terminate_drafts_succeed:
  assumes "terminate_state tt s err cur = Inr st" and s: "error_status s"
  shows "\<exists>pre t data. svc_terminate_drafts s md cur st = Inr (pre @ [\<lparr>dr_type = t, dr_data = data\<rparr>]) \<and>
    flow_terminal_event s = Some t"
proof -
  from s have events: "\<exists>t. flow_terminal_event s = Some t" "\<exists>t. invocation_terminal_event s = Some t"
    by (cases rule: run_status.exhaust [of s]; simp)+
  have "\<exists>i. find (\<lambda>i. inv_id i = inv_id a) (fs_invocations st) = Some i" if a: "active_invocation cur = Some a" for a
    using assms(1)
  proof (rule terminate_stateE)
    fix invs
    assume st: "st = evolve (snd tt) (cur\<lparr>fs_status := s, fs_invocations := invs,
         fs_active_invocation_id := None, fs_error := Some err\<rparr>)"
      and "(active_invocation cur = None \<and> invs = fs_invocations cur) \<or>
       (\<exists>a a'. active_invocation cur = Some a \<and> terminate (fst tt) s err a = Inr a' \<and>
          invs = replace_by inv_id (inv_id a) a' (fs_invocations cur))"
    with a obtain a' where a': "terminate (fst tt) s err a = Inr a'"
      "invs = replace_by inv_id (inv_id a) a' (fs_invocations cur)" by auto
    then have "inv_id a' = inv_id a" by (auto elim!: terminateE)
    moreover have "find (\<lambda>i. inv_id i = inv_id a) (fs_invocations cur) \<noteq> None"
      using active_in [OF a] by (auto simp: find_None_iff simp del: not_None_eq)
    ultimately have "find (\<lambda>i. inv_id i = inv_id a) invs = Some a'"
      unfolding a'(2) by (rule find_replace_by)
    then show ?thesis by (simp add: st)
  qed
  with events show ?thesis
    by (cases "active_invocation cur") (fastforce simp: svc_terminate_drafts_def key_or_error_def)+
qed

subsection \<open>A concrete history\<close>

text \<open>Run 7 of the example definition: created, started, its first invocation begun and waiting.\<close>

definition ex_s1 :: flow_repo where
  "ex_s1 = snd (svc_create ex_digest ex_definition (Some 7) None (empty_repo (\<lambda>n. 1000 + int n) (\<lambda>n. n)))"

definition ex_s2 :: flow_repo where
  "ex_s2 = (snd (svc_start None 7 ex_s1))\<lparr>uuid_draws := 21\<rparr>"

definition ex_s3 :: flow_repo where
  "ex_s3 = snd (svc_begin_invocation ex_digest None 7 (ex_request 20) ex_definition ex_s2)"

definition ex_s4 :: flow_repo where
  "ex_s4 = snd (svc_settle_invocation None 7 (ex_result 20 AWaiting) ex_s3)"

abbreviation ex_steps :: "flow_repo \<Rightarrow> bool" where
  "ex_steps r \<equiv> (svc_step ex_digest)\<^sup>*\<^sup>* (empty_repo (\<lambda>n. 1000 + int n) (\<lambda>n. n)) r"

lemma ex_svc_steps: "ex_steps ex_s1" "ex_steps ex_s2" "ex_steps ex_s3" "ex_steps ex_s4"
proof -
  let ?e = "empty_repo (\<lambda>n. 1000 + int n) (\<lambda>n. n)"
  have "ex_steps ?e" by simp
  moreover have "svc_step ex_digest ?e ex_s1"
    unfolding ex_s1_def by (rule does_create) (rule prod.collapse [symmetric])
  ultimately show s1: "ex_steps ex_s1" by (rule rtranclp.rtrancl_into_rtrancl)
  let ?s = "snd (svc_start None 7 ex_s1)"
  have "svc_step ex_digest ex_s1 ?s" by (rule does_start) (rule prod.collapse [symmetric])
  with s1 have "ex_steps ?s" by (rule rtranclp.rtrancl_into_rtrancl)
  moreover have "uuid_draws ?s \<le> 21" by code_simp
  then have "svc_step ex_digest ?s ex_s2" by (intro does_read) (simp add: same_store_def ex_s2_def)
  ultimately show s2: "ex_steps ex_s2" by (rule rtranclp.rtrancl_into_rtrancl)
  have q: "valid_request (ex_request 20)" "valid_result (ex_result 20 AWaiting)" by code_simp+
  have "(case dict_get (repo_states ex_s2) 7 of None \<Rightarrow> True
      | Some st \<Rightarrow> rq_invocation_id (ex_request 20) \<notin> set (map inv_id (fs_invocations st)))" by code_simp
  moreover have "uuid_stream ex_s2 20 = 20" "rq_invocation_id (ex_request 20) = 20" "20 < uuid_draws ex_s2"
    by code_simp+
  then have "rq_invocation_id (ex_request 20) \<in> drawn ex_s2" unfolding drawn_def by (metis imageI lessThan_iff)
  ultimately have "svc_step ex_digest ex_s2 ex_s3"
    unfolding ex_s3_def by (intro does_begin [OF q(1) _ _ prod.collapse [symmetric]]) simp_all
  with s2 show s3: "ex_steps ex_s3" by (rule rtranclp.rtrancl_into_rtrancl)
  have "svc_step ex_digest ex_s3 ex_s4"
    unfolding ex_s4_def by (rule does_settle [OF q(2)]) (rule prod.collapse [symmetric])
  with s3 show "ex_steps ex_s4" by (rule rtranclp.rtrancl_into_rtrancl)
qed

lemma ex_svc_reachable: "svc_reachable ex_digest ex_s1" "svc_reachable ex_digest ex_s2"
  "svc_reachable ex_digest ex_s3" "svc_reachable ex_digest ex_s4"
  using ex_svc_steps unfolding svc_reachable_def by blast+

definition ex_waits :: "flow_repo \<Rightarrow> bool" where
  "ex_waits r \<longleftrightarrow> (case dict_get (repo_states r) 7 of None \<Rightarrow> False
     | Some st \<Rightarrow> fs_status st = Waiting \<and> length (fs_invocations st) = 1 \<and>
         entitled r 7 None (clock_stream r (clock_reads r + 2)))"

lemma ex_s4_waits:
  obtains st where "dict_get (repo_states ex_s4) 7 = Some st" "fs_status st = Waiting"
    "length (fs_invocations st) = 1" "entitled ex_s4 7 None (clock_stream ex_s4 (clock_reads ex_s4 + 2))"
proof -
  have "ex_waits ex_s4" by code_simp
  with that show thesis by (auto simp: ex_waits_def split: option.splits)
qed

subsection \<open>Properties of the service\<close>

text \<open>
  C6. The event log is a faithful record: in every repository that the service's operations and
  the lease operations can produce, when every request carries an invocation id newly drawn from
  \<open>uuid4\<close> as the strategy's requests do (\<open>begin_invocation\<close> does not check it), each stored aggregate satisfies its validators, and a reader
  of its event log who replays the events computes exactly its status and its number of
  invocations.
\<close>

theorem svc_log_replays:
  assumes "svc_reachable digest r" and "dict_get (repo_states r) k = Some st"
  shows "valid_state st \<and> replayed (events_of r k) = (fs_status st, length (fs_invocations st))"
  using svc_invD [OF svc_reachable_inv [OF assms(1)] assms(2)] by (simp add: flow_inv_def summary_def)

theorem svc_log_replays_witness:
  "\<exists>st. dict_get (repo_states ex_s4) 7 = Some st \<and> replayed (events_of ex_s4 7) = (Waiting, 1)"
proof -
  obtain st where st: "dict_get (repo_states ex_s4) 7 = Some st" "fs_status st = Waiting"
    "length (fs_invocations st) = 1" by (rule ex_s4_waits)
  with svc_log_replays [OF ex_svc_reachable(4) st(1)] show ?thesis by simp
qed

text \<open>A raise leaves everything stored as it was.\<close>

definition unchanged_on_error :: "'a repo_prog \<Rightarrow> flow_repo \<Rightarrow> bool" where
  "unchanged_on_error m r \<longleftrightarrow> (case m r of
     (Inl e, r') \<Rightarrow> repo_states r' = repo_states r \<and> repo_events r' = repo_events r \<and>
        repo_leases r' = repo_leases r
   | (Inr x, r') \<Rightarrow> True)"

lemma unchanged_iff: "unchanged_on_error m r \<longleftrightarrow> (\<forall>e r'. m r = (Inl e, r') \<longrightarrow>
    repo_states r' = repo_states r \<and> repo_events r' = repo_events r \<and> repo_leases r' = repo_leases r)"
  by (simp add: unchanged_on_error_def split: prod.split sum.split)

lemma unchanged_transition [simp]:
  "(\<And>cur. quiet (next_of cur)) \<Longrightarrow> unchanged_on_error (svc_transition lease k next_of drafts) r"
  unfolding unchanged_iff using svc_transition_Inl [of lease k next_of drafts r] same_store_def by blast

lemma unchanged_append: "unchanged_on_error (repo_append_events k m ds tok) r"
  unfolding unchanged_iff using repo_append_events_Inl same_store_def by blast

lemma unchanged_bind:
  assumes "quiet m" and "\<And>x s. unchanged_on_error (f x) s"
  shows "unchanged_on_error (pbind m f) r"
proof (cases "m r")
  case (Pair a s)
  from assms(1) Pair have "same_store r s" by (rule quietD)
  with assms(2) [of "projr a" s] show ?thesis
    by (cases a) (auto simp: unchanged_iff pbind_app Pair same_store_def)
qed

lemma unchanged_then_pret: "unchanged_on_error m r \<Longrightarrow> unchanged_on_error (pbind m (\<lambda>_. pret y)) r"
  by (auto simp: unchanged_iff pbind_Inl_iff)

lemma unchanged_record [simp]: "unchanged_on_error (record_cancellation_propagation_failure lease k i n) r"
  unfolding record_cancellation_propagation_failure_def
  by (intro unchanged_bind unchanged_then_pret unchanged_append; simp)

lemma unchanged_create [simp]: "unchanged_on_error (svc_create digest d run_id now) r"
proof (cases "svc_create digest d run_id now r")
  case (Pair res r')
  then show ?thesis by (cases rule: svc_create_cases) (simp_all add: unchanged_on_error_def Pair same_store_def)
qed

text \<open>
  C7. An operation of the service that raises leaves every aggregate, every event log and every
  lease as it was, whatever the arguments and the repository.
\<close>

theorem svc_errors_change_nothing:
  "unchanged_on_error (svc_create digest d run_id now) r \<and>
   unchanged_on_error (svc_start lease k) r \<and>
   unchanged_on_error (svc_begin_invocation digest lease k q d) r \<and>
   unchanged_on_error (svc_settle_invocation lease k a) r \<and>
   unchanged_on_error (svc_resume_invocation lease k iid) r \<and>
   unchanged_on_error (svc_complete lease k outp) r \<and>
   unchanged_on_error (svc_terminate lease k s err md) r \<and>
   unchanged_on_error (record_cancellation_propagation_failure lease k i n) r"
  by (simp add: svc_start_def svc_begin_invocation_def svc_settle_invocation_def
      svc_resume_invocation_def svc_complete_def svc_terminate_def)

text \<open>
  Settling records the right invocation: when the service settles a result, the first event
  appended names the invocation the result belongs to and the committed revision, and a waiting
  result is followed by the event that the Flow waits.
\<close>

theorem settle_event_names_invocation:
  assumes "svc_reachable digest r" and "svc_settle_invocation lease k a r = (Inr st, r')"
  shows "\<exists>e es. events_of r' k = events_of r k @ e # es \<and>
    ev_type e = invocation_result_event (ar_status a) \<and>
    dict_get (ev_data e) ''invocation_id'' = Some (EvUuid (ar_invocation_id a)) \<and>
    dict_get (ev_data e) ''revision'' = Some (EvInt (fs_revision st)) \<and>
    map ev_type es = (if ar_status a = AWaiting then [FLOW_WAITING] else [])"
proof -
  have inv: "svc_inv r" using assms(1) by (rule svc_reachable_inv)
  from assms(2) obtain cur r1 ds tok es tt where cur: "dict_get (repo_states r) k = Some cur"
    and st: "settle_invocation tt a cur = Inr st" and same: "same_store r r1"
    and ds: "settle_drafts a st = Inr ds" and c: "repo_commit st (fs_revision cur) ds tok r1 = (Inr es, r')"
    unfolding svc_settle_invocation_def by (elim svc_transition_Inr) (auto simp: pbind_Inr_iff)
  have k: "fs_run_id st = k"
    using st repo_inv_state [OF svc_inv_repo [OF inv] cur] by (auto elim!: settle_invocationE)
  have last: "inv_id (last (fs_invocations st)) = ar_invocation_id a"
    using st settled_last [OF st] svc_invD [OF inv cur] by simp
  from ds last obtain d ds' where d: "ds = d # ds'"
    "dict_get (dr_data d) ''invocation_id'' = Some (EvUuid (ar_invocation_id a))"
    "dict_get (dr_data d) ''revision'' = Some (EvInt (fs_revision st))"
    by (auto simp: settle_drafts_def Let_def invocation_data_def split: if_splits)
  from c have "map ev_type es = map dr_type ds" "map ev_data es = map dr_data ds" by (auto elim: repo_commit_Inr)
  then obtain e es' where "es = e # es'" "ev_type e = dr_type d" "ev_data e = dr_data d"
    "map ev_type es' = map dr_type ds'" by (auto simp: d(1) map_eq_Cons_conv)
  with settle_drafts_types [OF ds] repo_commit_writes(2) [OF c] same_store_events [OF same] k d
  show ?thesis by (intro exI [of _ e] exI [of _ es']) auto
qed

theorem settle_event_names_invocation_witness:
  "\<exists>st e es. svc_settle_invocation None 7 (ex_result 20 AWaiting) ex_s3 = (Inr st, ex_s4) \<and>
     events_of ex_s4 7 = events_of ex_s3 7 @ e # es \<and>
     dict_get (ev_data e) ''invocation_id'' = Some (EvUuid 20)"
proof -
  have "\<not> isl (fst (svc_settle_invocation None 7 (ex_result 20 AWaiting) ex_s3))" by code_simp
  then obtain st where s: "svc_settle_invocation None 7 (ex_result 20 AWaiting) ex_s3 = (Inr st, ex_s4)"
    unfolding ex_s4_def by (blast dest: succeeded)
  have "ar_invocation_id (ex_result 20 AWaiting) = 20" by code_simp
  with settle_event_names_invocation [OF ex_svc_reachable(3) s] s show ?thesis by fastforce
qed

text \<open>
  An open Flow can be closed: if a stored run is not in a terminal status and the service is
  entitled to write (its lease's token is accepted at the clock reading of the commit, or the run
  was never leased and the service has no lease), then failing, cancelling, interrupting or
  limiting it with a non-blank error succeeds, stores the terminal status with that error and no
  open invocation, and the last event is the corresponding terminal event.
\<close>

theorem svc_terminate_closes:
  assumes "svc_reachable digest r" and "dict_get (repo_states r) k = Some cur"
    and "\<not> terminal (fs_status cur)" and "error_status s" and "\<not> blank err"
    and "execution_token_for lease k = Inr tok"
    and "entitled r k tok (clock_stream r (clock_reads r + 2))"
  shows "\<exists>st r'. svc_terminate lease k s err md r = (Inr st, r') \<and>
    dict_get (repo_states r') k = Some st \<and> fs_status st = s \<and> fs_error st = Some err \<and>
    active_invocation st = None \<and> flow_terminal_event s = Some (ev_type (last (events_of r' k)))"
proof -
  have inv: "svc_inv r" using assms(1) by (rule svc_reachable_inv)
  note cur = svc_invD [OF inv assms(2)] repo_inv_state [OF svc_inv_repo [OF inv] assms(2)]
  let ?tt = "(clock_stream r (clock_reads r), clock_stream r (Suc (clock_reads r)))"
  let ?r1 = "r\<lparr>clock_reads := Suc (Suc (clock_reads r))\<rparr>"
  from terminate_state_succeeds [of cur s err ?tt] cur assms(3-5) obtain st where
    st: "terminate_state ?tt s err cur = Inr st" "fs_status st = s" "fs_active_invocation_id st = None"
      "fs_error st = Some err" by blast
  from terminate_drafts_succeed [OF st(1) assms(4), of md] obtain pre t data where
    ds: "svc_terminate_drafts s md cur st = Inr (pre @ [\<lparr>dr_type = t, dr_data = data\<rparr>])"
    and t: "flow_terminal_event s = Some t" by blast
  have "flow_step digest cur st" using st(1) assms(4) by (rule termination_step)
  then have "validate_flow_replacement cur st (fs_revision cur) = Inr ()" "fs_run_id st = k"
    using flow_step_frame cur(2) by (auto simp: validate_flow_replacement_Inr same_identity_def)
  note frame = this
  let ?next = "\<lambda>cur. pbind utc_now2 (\<lambda>ts. plift (
        if s = Failed then fail ts err cur else if s = Cancelled then cancel ts err cur
        else if s = Interrupted then interrupt ts err cur else reach_limit ts err cur))"
  have "?next cur r = (Inr st, ?r1)"
    using st(1) assms(4) by (simp add: pbind_app utc_now2_def utc_now_def termination_dispatch)
  moreover have "same_store r ?r1" by (simp add: same_store_def)
  moreover have "entitled r k tok (next_time ?r1)" using assms(7) by simp
  ultimately obtain r' es where run: "svc_terminate lease k s err md r = (Inr st, r')"
    "dict_get (repo_states r') k = Some st" "events_of r' k = events_of r k @ es"
    and "map ev_type es = map dr_type (pre @ [\<lparr>dr_type = t, dr_data = data\<rparr>])"
    using svc_transition_succeeds [where next_of = ?next and drafts = "svc_terminate_drafts s md",
        OF svc_inv_repo [OF inv] assms(2) _ _ ds _ assms(6) _ frame] unfolding svc_terminate_def by blast
  then have "map ev_type es = map dr_type pre @ [t]" by simp
  then have "ev_type (last (events_of r k @ es)) = t"
    by (metis append_is_Nil_conv last_appendR last_map last_snoc list.distinct(1) list.map_disc_iff)
  with run st t show ?thesis by simp
qed

theorem svc_terminate_closes_witness:
  "\<exists>st r'. svc_terminate None 7 Cancelled ''stop'' [] ex_s4 = (Inr st, r') \<and> fs_status st = Cancelled"
proof -
  obtain st where "dict_get (repo_states ex_s4) 7 = Some st" "fs_status st = Waiting"
    "entitled ex_s4 7 None (clock_stream ex_s4 (clock_reads ex_s4 + 2))" by (rule ex_s4_waits)
  moreover have "\<not> terminal Waiting" "error_status Cancelled" "\<not> blank ''stop''"
    "execution_token_for None 7 = Inr None" by (simp, simp, code_simp, code_simp)
  ultimately show ?thesis
    using svc_terminate_closes [OF ex_svc_reachable(4), of 7 st Cancelled "''stop''" None None] by fastforce
qed

end
