(* ===== verification/Runs.thy ===== *)
theory Runs
  imports Flow_Models
begin

text \<open>
  The data of one agent run: messages (\<open>models/message.py\<close>), runs (\<open>models/run.py\<close>), conversations
  and their turns (\<open>models/conversation.py\<close>), the events of a run (\<open>models/event.py\<close>, less the Flow
  events, which the Flow repository models) and the state machine of an execution
  (\<open>runtime/state_machine.py\<close>).
\<close>

subsection \<open>Messages\<close>

datatype message_role = SystemRole | UserRole | AssistantRole | ToolRole

record tool_call =
  tc_id :: string
  tc_name :: string
  tc_arguments :: "(string, json) dict"

definition valid_tool_call :: "tool_call \<Rightarrow> bool" where
  "valid_tool_call c \<longleftrightarrow> tc_id c \<noteq> [] \<and> within_length 128 (tc_name c) \<and>
     list_all (\<lambda>d. ascii_alnum d \<or> d \<in> set ''_.-'') (tc_name c)"

record message =
  mg_role :: message_role
  mg_content :: "string option"
  mg_tool_calls :: "tool_call list"
  mg_tool_call_id :: "string option"

text \<open>\<open>validate_role_fields\<close>.\<close>

definition valid_message :: "message \<Rightarrow> bool" where
  "valid_message m \<longleftrightarrow>
     (if mg_role m = AssistantRole
      then \<not> (mg_content m = None \<and> mg_tool_calls m = []) \<and> mg_tool_call_id m = None
      else mg_tool_calls m = [] \<and> mg_content m \<noteq> None \<and>
        (if mg_role m = ToolRole then mg_tool_call_id m \<noteq> None \<and> mg_tool_call_id m \<noteq> Some []
         else mg_tool_call_id m = None))"

definition system_message :: "string \<Rightarrow> message" where
  "system_message content = \<lparr>mg_role = SystemRole, mg_content = Some content, mg_tool_calls = [], mg_tool_call_id = None\<rparr>"

definition user_message :: "string \<Rightarrow> message" where
  "user_message content = \<lparr>mg_role = UserRole, mg_content = Some content, mg_tool_calls = [], mg_tool_call_id = None\<rparr>"

definition assistant_message :: "string option \<Rightarrow> tool_call list \<Rightarrow> exn + message" where
  "assistant_message content calls = construct valid_message
     \<lparr>mg_role = AssistantRole, mg_content = content, mg_tool_calls = calls, mg_tool_call_id = None\<rparr>"

definition tool_message :: "string \<Rightarrow> string \<Rightarrow> exn + message" where
  "tool_message content call_id = construct valid_message
     \<lparr>mg_role = ToolRole, mg_content = Some content, mg_tool_calls = [], mg_tool_call_id = Some call_id\<rparr>"

lemma plain_messages_valid [simp]: "valid_message (system_message t)" "valid_message (user_message t)"
  by (simp_all add: valid_message_def system_message_def user_message_def)

subsection \<open>Runs, conversations and turns\<close>

record skill_reference =
  sr_name :: string
  sr_version :: string

record run =
  rn_id :: uuid
  rn_profile_id :: string
  rn_conversation_id :: "uuid option"
  rn_turn_sequence :: "int option"
  rn_status :: run_status
  rn_step_count :: int
  rn_tool_call_count :: int
  rn_usage :: token_usage
  rn_skills :: "skill_reference list"
  rn_output :: "string option"
  rn_error :: "string option"
  rn_cancel_requested :: bool
  rn_created_at :: timestamp
  rn_updated_at :: timestamp
  rn_metadata :: jobj
  rn_attachments :: "attachment list"
  rn_artifacts :: "artifact list"

definition valid_run :: "run \<Rightarrow> bool" where
  "valid_run r \<longleftrightarrow> (case rn_turn_sequence r of None \<Rightarrow> True | Some n \<Rightarrow> 1 \<le> n) \<and> 0 \<le> rn_step_count r \<and>
     0 \<le> rn_tool_call_count r \<and> valid_usage (rn_usage r) \<and>
     (rn_conversation_id r = None \<longleftrightarrow> rn_turn_sequence r = None)"

record conversation =
  cv_id :: uuid
  cv_profile_id :: string
  cv_version :: int
  cv_active_run_id :: "uuid option"
  cv_created_at :: timestamp
  cv_updated_at :: timestamp
  cv_metadata :: jobj

record conversation_turn =
  ct_conversation_id :: uuid
  ct_sequence :: int
  ct_run_id :: uuid
  ct_status :: run_status
  ct_user_message :: string
  ct_assistant_message :: "string option"
  ct_created_at :: timestamp
  ct_updated_at :: timestamp

definition valid_turn :: "conversation_turn \<Rightarrow> bool" where
  "valid_turn t \<longleftrightarrow> 1 \<le> ct_sequence t \<and> ct_user_message t \<noteq> []"

subsection \<open>Events of a run\<close>

datatype event_type =
    RUN_CREATED | RUN_STARTED | RUN_RESUMED | SKILL_SELECTED | SKILL_LOADED | MODEL_REQUESTED | MODEL_RESPONDED
  | TOOL_REQUESTED | TOOL_STARTED | TOOL_COMPLETED | TOOL_FAILED | TOOL_WAITING | TOOL_CONFIRMATION_REQUESTED
  | TOOL_CONFIRMATION_DECIDED | INPUT_RECEIVED | PLAN_CREATED | PLAN_REVIEWED | PLAN_UPDATED | STEP_STARTED
  | STEP_RESUMED | STEP_WAITING | STEP_COMPLETED | STEP_FAILED | STEP_CANCELLED | STEP_SKIPPED
  | REACT_ITERATION_STARTED | REACT_ACTION_BATCH_SELECTED | REACT_OBSERVATION_BATCH_RECORDED
  | REACT_ITERATION_COMPLETED | RESOURCE_ACQUIRED | RESOURCE_RELEASED | RESOURCE_FAILED | ATTACHMENT_ADDED
  | ARTIFACT_CREATED | MEMORY_RETRIEVED | MEMORY_FAILED | SUPERVISOR_INTERVENED | RUN_COMPLETED | RUN_FAILED
  | RUN_CANCELLED | RUN_INTERRUPTED | RUN_LIMIT_REACHED | RUN_WAITING

record event =
  en_id :: uuid
  en_run_id :: uuid
  en_sequence :: int
  en_type :: event_type
  en_timestamp :: timestamp
  en_data :: jobj

subsection \<open>The state machine of an execution\<close>

fun allowed_transitions :: "run_status \<Rightarrow> run_status list" where
  "allowed_transitions Created = [Running, Cancelled, Failed, Interrupted]"
| "allowed_transitions Running = [Completed, Failed, Cancelled, Interrupted, LimitReached, Waiting]"
| "allowed_transitions Waiting = [Running, Cancelled, Failed, Interrupted]"
| "allowed_transitions _ = []"

definition is_terminal :: "run_status \<Rightarrow> bool" where
  "is_terminal s \<longleftrightarrow> allowed_transitions s = []"

definition transition_to :: "run_status \<Rightarrow> run_status \<Rightarrow> exn + run_status" where
  "transition_to s target = (if target \<in> set (allowed_transitions s) then Inr target else Inl InvalidStateTransitionError)"

lemma is_terminal_iff: "is_terminal s \<longleftrightarrow> s \<in> {Completed, Failed, Cancelled, Interrupted, LimitReached}"
  by (cases s) (simp_all add: is_terminal_def)

end
