(* ===== verification/Flow_Side_Effects.thy ===== *)
theory Flow_Side_Effects
  imports Flow_Interfaces Runs
begin

text \<open>
  \<open>flows/side_effects.py\<close> and \<open>flows/tool_effects.py\<close>: the ledger of external side effects and the
  recorder that brackets the transport of a governed Tool with ledger entries. A ledger operation
  runs under the ledger's lock and is atomic; the recorder awaits several of them, and other tasks
  run at every await. The tasks' work at the \<open>n\<close>-th await of a recorder call is an argument
  \<open>env n\<close>, any sequence of ledger operations (\<open>interferes\<close>).

  The main results: whatever other tasks do, the retry loop of \<open>_start_or_replay\<close> ends within two
  passes, an unprotected operation is started at most once, an idempotent one is always replayed
  under the same key, and the confirmation of a started operation is never lost.
\<close>

subsection \<open>Evidence\<close>

datatype side_effect_phase = PREPARED | STARTED | CONFIRMED | ABORTED

datatype side_effect_retry_mode = UNSAFE | IDEMPOTENT

record flow_side_effect =
  se_id :: uuid
  se_flow_run_id :: uuid
  se_invocation_id :: uuid
  se_operation_key :: string
  se_operation_name :: string
  se_retry_mode :: side_effect_retry_mode
  se_key_digest :: "string option"
  se_phase :: side_effect_phase
  se_revision :: int
  se_created_at :: timestamp
  se_updated_at :: timestamp

definition valid_side_effect :: "flow_side_effect \<Rightarrow> bool" where
  "valid_side_effect e \<longleftrightarrow>
     within_length 256 (se_operation_key e) \<and> name_pattern ''_.:/-'' (se_operation_key e) \<and>
     within_length 128 (se_operation_name e) \<and> name_pattern ''_.:/-'' (se_operation_name e) \<and>
     opt_all sha256_pattern (se_key_digest e) \<and> 1 \<le> se_revision e \<and>
     \<not> (se_retry_mode e = IDEMPOTENT \<and> se_key_digest e = None) \<and>
     \<not> (se_retry_mode e = UNSAFE \<and> se_key_digest e \<noteq> None)"

definition retry_safe :: "flow_side_effect \<Rightarrow> bool" where
  "retry_safe e \<longleftrightarrow> se_phase e = PREPARED \<or> se_phase e = ABORTED \<or> se_retry_mode e = IDEMPOTENT"

definition has_same_intent :: "flow_side_effect \<Rightarrow> flow_side_effect \<Rightarrow> bool" where
  "has_same_intent a b \<longleftrightarrow> se_flow_run_id a = se_flow_run_id b \<and> se_invocation_id a = se_invocation_id b \<and>
     se_operation_key a = se_operation_key b \<and> se_operation_name a = se_operation_name b \<and>
     se_retry_mode a = se_retry_mode b \<and> se_key_digest a = se_key_digest b"

definition validate_transition :: "side_effect_phase \<Rightarrow> side_effect_phase \<Rightarrow> exn + unit" where
  "validate_transition current target =
     guard (case current of PREPARED \<Rightarrow> target = STARTED \<or> target = ABORTED
       | STARTED \<Rightarrow> target = CONFIRMED | CONFIRMED \<Rightarrow> False | ABORTED \<Rightarrow> target = STARTED)
     InvalidFlowSideEffectTransitionError"

subsection \<open>The ledger\<close>

type_synonym operation = "uuid \<times> uuid \<times> string"

record ledger = host +
  le_effects :: "(uuid, flow_side_effect) dict"
  le_operations :: "(operation, uuid) dict"

type_synonym 'a ledger_prog = "(ledger, exn, 'a) prog"

definition empty_ledger :: "(nat \<Rightarrow> timestamp) \<Rightarrow> (nat \<Rightarrow> uuid) \<Rightarrow> ledger" where
  "empty_ledger clk ids = \<lparr>clock_stream = clk, clock_reads = 0, uuid_stream = ids, uuid_draws = 0,
     le_effects = [], le_operations = []\<rparr>"

definition operation_of :: "flow_side_effect \<Rightarrow> operation" where
  "operation_of e = (se_flow_run_id e, se_invocation_id e, se_operation_key e)"

definition prepare :: "flow_side_effect \<Rightarrow> flow_side_effect ledger_prog" where
  "prepare e =
     (if se_phase e \<noteq> PREPARED \<or> se_revision e \<noteq> 1
      then praise (ValueError ''new side-effect evidence must be prepared at revision 1'')
      else pbind pget (\<lambda>s. case dict_get (le_operations s) (operation_of e) of
        Some existing_id \<Rightarrow> (case dict_get (le_effects s) existing_id of
          None \<Rightarrow> praise KeyError
        | Some existing \<Rightarrow>
            if \<not> has_same_intent existing e then praise FlowSideEffectConflictError else pret existing)
      | None \<Rightarrow>
          pbind (pput (\<lambda>s. s\<lparr>le_effects := dict_set (se_id e) e (le_effects s),
                            le_operations := dict_set (operation_of e) (se_id e) (le_operations s)\<rparr>)) (\<lambda>_.
          pret e)))"

definition ledger_get :: "uuid \<Rightarrow> flow_side_effect ledger_prog" where
  "ledger_get k = pbind pget (\<lambda>s. case dict_get (le_effects s) k of
     None \<Rightarrow> praise FlowSideEffectNotFoundError | Some e \<Rightarrow> pret e)"

definition list_for_invocation :: "uuid \<Rightarrow> flow_side_effect list ledger_prog" where
  "list_for_invocation i = pbind pget (\<lambda>s. pret
     (sort_key (\<lambda>e. (se_created_at e, se_id e))
       (filter (\<lambda>e. se_invocation_id e = i) (dict_values (le_effects s)))))"

definition effect_transition :: "uuid \<Rightarrow> int \<Rightarrow> side_effect_phase \<Rightarrow> flow_side_effect ledger_prog" where
  "effect_transition k expected target = pbind pget (\<lambda>s. case dict_get (le_effects s) k of
     None \<Rightarrow> praise FlowSideEffectNotFoundError
   | Some current \<Rightarrow>
       if se_revision current \<noteq> expected then praise FlowSideEffectRevisionConflictError
       else pbind (plift (validate_transition (se_phase current) target)) (\<lambda>_.
         pbind utc_now (\<lambda>t.
         let replacement = current\<lparr>se_phase := target, se_revision := se_revision current + 1, se_updated_at := t\<rparr> in
         pbind (pput (\<lambda>s. s\<lparr>le_effects := dict_set k replacement (le_effects s)\<rparr>)) (\<lambda>_.
         pret replacement))))"

definition mark_started :: "uuid \<Rightarrow> int \<Rightarrow> flow_side_effect ledger_prog" where
  "mark_started k expected = effect_transition k expected STARTED"

definition confirm_effect :: "uuid \<Rightarrow> int \<Rightarrow> flow_side_effect ledger_prog" where
  "confirm_effect k expected = effect_transition k expected CONFIRMED"

definition abort_effect :: "uuid \<Rightarrow> int \<Rightarrow> flow_side_effect ledger_prog" where
  "abort_effect k expected = effect_transition k expected ABORTED"

subsection \<open>The recorder\<close>

datatype tool_side_effect_mode = ModeUnspecified | ModeReadOnly | ModeUnsafe | ModeIdempotent

text \<open>\<open>ToolContext\<close>, less the managers it hands to Tools.\<close>

record tool_context =
  cx_run_id :: uuid
  cx_flow_run_id :: "uuid option"
  cx_invocation_id :: "uuid option"
  cx_tool_call_id :: "string option"
  cx_idempotency_key :: "string option"
  cx_confirmation :: "tool_confirmation option"

record flow_effect_receipt =
  rc_effect_id :: uuid
  rc_expected_revision :: int
  rc_confirmation_required :: bool

text \<open>A receipt's token is any object; \<open>isinstance\<close> tells the recorder's own from foreign ones.\<close>

datatype receipt_token = FlowReceipt flow_effect_receipt | ForeignReceipt

record tool_receipt =
  tr_token :: receipt_token
  tr_idempotency_key :: "string option"

definition operation_key :: "(string \<Rightarrow> string) \<Rightarrow> string \<Rightarrow> string" where
  "operation_key digest call_id = ''tool:'' @ digest call_id"

definition idempotency_key :: "(string \<Rightarrow> string) \<Rightarrow> uuid \<Rightarrow> uuid \<Rightarrow> string \<Rightarrow> string" where
  "idempotency_key digest f i call_id =
     ''base-agent-v1:'' @ str_uuid f @ '':'' @ str_uuid i @ '':'' @ digest call_id"

text \<open>
  A call of \<open>start\<close> is cut at its awaits, each of which is one ledger call: \<open>prepare\<close>, the
  \<open>mark_started\<close> of a pass of the \<open>while\<close> loop in \<open>_start_or_replay\<close>, and the \<open>get\<close> in its
  \<open>except\<close> clause. \<open>start_pass\<close> performs the awaited call and the code up to the next await.
\<close>

datatype start_point = AtPrepare flow_side_effect | AtMark flow_side_effect | AtGet uuid
  | StartDone "exn + flow_side_effect"

text \<open>The test of the \<open>while\<close> loop and the statements after it.\<close>

definition loop_head :: "flow_side_effect \<Rightarrow> start_point" where
  "loop_head e =
     (if se_phase e = PREPARED \<or> se_phase e = ABORTED then AtMark e
      else if se_retry_mode e = IDEMPOTENT then StartDone (Inr e)
      else StartDone (Inl ToolSideEffectReplayUnsafeError))"

fun start_pass :: "start_point \<Rightarrow> ledger \<Rightarrow> start_point \<times> ledger" where
  "start_pass (AtPrepare e) s = (case prepare e s of
     (Inr stored, s') \<Rightarrow> (loop_head stored, s') | (Inl x, s') \<Rightarrow> (StartDone (Inl x), s'))"
| "start_pass (AtMark e) s = (case mark_started (se_id e) (se_revision e) s of
     (Inr e', s') \<Rightarrow> (StartDone (Inr e'), s')
   | (Inl x, s') \<Rightarrow> (if x = FlowSideEffectRevisionConflictError then AtGet (se_id e) else StartDone (Inl x), s'))"
| "start_pass (AtGet k) s = (case ledger_get k s of
     (Inr e, s') \<Rightarrow> (loop_head e, s') | (Inl x, s') \<Rightarrow> (StartDone (Inl x), s'))"
| "start_pass (StartDone r) s = (StartDone r, s)"

text \<open>
  One call with \<open>env n\<close>, what other tasks do, before its awaited call number \<open>n\<close>. The fuel bounds the
  awaited calls, \<open>None\<close> means that it ran out; \<open>_start_or_replay\<close> makes at most two in a pass of its loop.
\<close>

fun run_start :: "nat \<Rightarrow> (nat \<Rightarrow> ledger \<Rightarrow> ledger) \<Rightarrow> nat \<Rightarrow> start_point \<Rightarrow> ledger \<Rightarrow>
    ((exn + flow_side_effect) \<times> ledger) option" where
  "run_start fuel env n p s = (case p of StartDone r \<Rightarrow> Some (r, s)
     | _ \<Rightarrow> (case fuel of 0 \<Rightarrow> None
        | Suc f \<Rightarrow> (case start_pass p (env n s) of (p', s') \<Rightarrow> run_start f env (Suc n) p' s')))"

declare run_start.simps [simp del]

definition start_or_replay :: "nat \<Rightarrow> (nat \<Rightarrow> ledger \<Rightarrow> ledger) \<Rightarrow> nat \<Rightarrow> flow_side_effect \<Rightarrow> ledger \<Rightarrow>
    ((exn + flow_side_effect) \<times> ledger) option" where
  "start_or_replay fuel env n e s = run_start (2 * fuel) env n (loop_head e) s"

text \<open>\<open>start\<close> up to its first await: the record it prepares and the idempotency key.\<close>

definition recorder_effect :: "(string \<Rightarrow> string) \<Rightarrow> tool_call \<Rightarrow> string \<Rightarrow>
    tool_side_effect_mode \<Rightarrow> tool_context \<Rightarrow> (flow_side_effect \<times> string option) ledger_prog" where
  "recorder_effect digest call tool_name mode context =
     (case (cx_flow_run_id context, cx_invocation_id context) of
        (Some f, Some i) \<Rightarrow>
          if mode \<noteq> ModeUnsafe \<and> mode \<noteq> ModeIdempotent then praise ToolSideEffectRecorderError
          else let key = (if mode = ModeIdempotent then Some (idempotency_key digest f i (tc_id call)) else None) in
            pbind uuid4 (\<lambda>eid. pbind utc_now (\<lambda>t1. pbind utc_now (\<lambda>t2.
            pbind (plift (construct valid_side_effect
              \<lparr>se_id = eid, se_flow_run_id = f, se_invocation_id = i,
               se_operation_key = operation_key digest (tc_id call), se_operation_name = tool_name,
               se_retry_mode = (if mode = ModeIdempotent then IDEMPOTENT else UNSAFE),
               se_key_digest = map_option digest key, se_phase = PREPARED, se_revision = 1,
               se_created_at = t1, se_updated_at = t2\<rparr>)) (\<lambda>e. pret (e, key)))))
      | _ \<Rightarrow> praise ToolSideEffectContextError)"

text \<open>\<open>start\<close> up to the return of \<open>prepare\<close>; \<open>loop_fuel\<close> passes are enough for the loop.\<close>

definition recorder_prepare :: "(string \<Rightarrow> string) \<Rightarrow> (nat \<Rightarrow> ledger \<Rightarrow> ledger) \<Rightarrow> tool_call \<Rightarrow> string \<Rightarrow>
    tool_side_effect_mode \<Rightarrow> tool_context \<Rightarrow> (flow_side_effect \<times> string option) ledger_prog" where
  "recorder_prepare digest env call tool_name mode context =
     pbind (recorder_effect digest call tool_name mode context) (\<lambda>(e, key).
     pbind (pput (env 0)) (\<lambda>_. pbind (prepare e) (\<lambda>stored. pret (stored, key))))"

definition loop_fuel :: nat where
  "loop_fuel = 2"

definition recorder_start :: "(string \<Rightarrow> string) \<Rightarrow> (nat \<Rightarrow> ledger \<Rightarrow> ledger) \<Rightarrow> tool_call \<Rightarrow> string \<Rightarrow>
    tool_side_effect_mode \<Rightarrow> tool_context \<Rightarrow> ledger \<Rightarrow> ((exn + tool_receipt) \<times> ledger) option" where
  "recorder_start digest env call tool_name mode context s =
     (case recorder_prepare digest env call tool_name mode context s of
        (Inl x, s') \<Rightarrow> Some (Inl x, s')
      | (Inr (e, key), s') \<Rightarrow> (case start_or_replay loop_fuel env 1 e s' of
          None \<Rightarrow> None
        | Some (Inl x, s'') \<Rightarrow> Some (Inl x, s'')
        | Some (Inr started, s'') \<Rightarrow> Some (Inr
            \<lparr>tr_token = FlowReceipt \<lparr>rc_effect_id = se_id started, rc_expected_revision = se_revision started,
               rc_confirmation_required = (se_phase started \<noteq> CONFIRMED)\<rparr>,
             tr_idempotency_key = key\<rparr>, s'')))"

definition recorder_confirm :: "(nat \<Rightarrow> ledger \<Rightarrow> ledger) \<Rightarrow> tool_receipt \<Rightarrow> unit ledger_prog" where
  "recorder_confirm env receipt = (case tr_token receipt of
     ForeignReceipt \<Rightarrow> praise ToolSideEffectRecorderError
   | FlowReceipt token \<Rightarrow>
       if \<not> rc_confirmation_required token then pret ()
       else pbind (pput (env 0)) (\<lambda>_.
         ptry (confirm_effect (rc_effect_id token) (rc_expected_revision token)) (\<lambda>res. case res of
           Inr _ \<Rightarrow> pret ()
         | Inl x \<Rightarrow> if x = FlowSideEffectRevisionConflictError
             then pbind (pput (env 1)) (\<lambda>_. pbind (ledger_get (rc_effect_id token)) (\<lambda>current.
               if se_phase current = CONFIRMED then pret () else praise ToolSideEffectRecorderError))
             else praise x)))"

text \<open>\<open>_start_or_replay\<close> as the loop it is written as.\<close>

lemma start_or_replay_eq: "start_or_replay fuel env n e s =
     (if se_phase e = PREPARED \<or> se_phase e = ABORTED
      then (case fuel of 0 \<Rightarrow> None
        | Suc f \<Rightarrow> (case mark_started (se_id e) (se_revision e) (env n s) of
            (Inr e', s') \<Rightarrow> Some (Inr e', s')
          | (Inl x, s') \<Rightarrow>
              if x = FlowSideEffectRevisionConflictError
              then (case ledger_get (se_id e) (env (Suc n) s') of
                  (Inr e', s'') \<Rightarrow> start_or_replay f env (n + 2) e' s''
                | (Inl y, s'') \<Rightarrow> Some (Inl y, s''))
              else Some (Inl x, s')))
      else if se_retry_mode e = IDEMPOTENT then Some (Inr e, s)
      else Some (Inl ToolSideEffectReplayUnsafeError, s))"
proof (cases fuel)
  case (Suc f)
  then show ?thesis
    by (auto simp: start_or_replay_def loop_head_def run_start.simps [of "Suc m" for m] run_start.simps [of 0]
        run_start.simps [of _ _ _ "StartDone r" for r] split: prod.split sum.split)
qed (simp add: start_or_replay_def loop_head_def run_start.simps)

subsection \<open>The life of one record\<close>

text \<open>
  Phases only move forward. \<open>later e e'\<close>: the record \<open>e\<close> may have become \<open>e'\<close>; its intent and
  identity are fixed, and as long as the revision is the same nothing has changed.
\<close>

fun phase_rank :: "side_effect_phase \<Rightarrow> nat" where
  "phase_rank PREPARED = 0"
| "phase_rank ABORTED = 1"
| "phase_rank STARTED = 2"
| "phase_rank CONFIRMED = 3"

definition later :: "flow_side_effect \<Rightarrow> flow_side_effect \<Rightarrow> bool" where
  "later e e' \<longleftrightarrow> se_id e' = se_id e \<and> has_same_intent e e' \<and> se_created_at e' = se_created_at e \<and>
     (e' = e \<or> se_revision e < se_revision e' \<and> phase_rank (se_phase e) < phase_rank (se_phase e'))"

lemma later_refl [simp, intro]: "later e e"
  by (simp add: later_def has_same_intent_def)

lemma later_trans: "later a b \<Longrightarrow> later b c \<Longrightarrow> later a c"
  unfolding later_def has_same_intent_def by force

lemma later_phase:
  assumes "later e e'"
  shows "se_phase e = STARTED \<Longrightarrow> se_phase e' = STARTED \<and> e' = e \<or> se_phase e' = CONFIRMED"
    and "se_phase e = CONFIRMED \<Longrightarrow> e' = e"
  using assms by (cases "se_phase e'"; auto simp: later_def)+

lemma validate_transition_rank: "validate_transition p q = Inr u \<Longrightarrow> phase_rank p < phase_rank q"
  by (cases p) (auto simp: validate_transition_def)

text \<open>
  The contract of \<open>FlowSideEffectLedger\<close>: \<open>look\<close> is the stored record and \<open>move\<close> the guarded
  transition. A transition succeeds only at the expected revision, and along any operation of any
  client a record stays and only moves on.
\<close>

locale effect_ledger =
  fixes look :: "'s \<Rightarrow> uuid \<Rightarrow> flow_side_effect option"
    and move :: "uuid \<Rightarrow> int \<Rightarrow> side_effect_phase \<Rightarrow> 's \<Rightarrow> (exn + flow_side_effect) \<times> 's"
    and step :: "'s \<Rightarrow> 's \<Rightarrow> bool"
  assumes move_ok: "look s k = Some e \<Longrightarrow> se_revision e = n \<Longrightarrow> validate_transition (se_phase e) p = Inr () \<Longrightarrow>
      \<exists>e' s'. move k n p s = (Inr e', s') \<and> look s' k = Some e' \<and> later e e' \<and> se_phase e' = p"
    and move_stale: "look s k = Some e \<Longrightarrow> se_revision e \<noteq> n \<Longrightarrow>
      move k n p s = (Inl FlowSideEffectRevisionConflictError, s)"
    and move_bad: "look s k = Some e \<Longrightarrow> se_revision e = n \<Longrightarrow> validate_transition (se_phase e) p \<noteq> Inr () \<Longrightarrow>
      move k n p s = (Inl InvalidFlowSideEffectTransitionError, s)"
    and move_steps: "move k n p s = (r, s') \<Longrightarrow> step s s'"
    and step_later: "step s s' \<Longrightarrow> look s k = Some e \<Longrightarrow> \<exists>e'. look s' k = Some e' \<and> later e e'"
begin

lemma steps_later: "step\<^sup>*\<^sup>* s s' \<Longrightarrow> look s k = Some e \<Longrightarrow> \<exists>e'. look s' k = Some e' \<and> later e e'"
proof (induction rule: rtranclp_induct)
  case (step y z)
  then obtain a where a: "look y k = Some a" "later e a" by blast
  with step_later [OF step.hyps(2) a(1)] show ?case by (blast intro: later_trans)
qed auto

text \<open>A record can be started once: afterwards no \<open>mark_started\<close> succeeds, whatever revision it names.\<close>

lemma started_once:
  assumes "look s k = Some e" "2 \<le> phase_rank (se_phase e)" "step\<^sup>*\<^sup>* s s'"
  shows "\<exists>x. move k n STARTED s' = (Inl x, s')"
proof -
  obtain e' where e': "look s' k = Some e'" "later e e'" using steps_later assms(1,3) by blast
  then have "2 \<le> phase_rank (se_phase e')" using assms(2) by (auto simp: later_def)
  then have "validate_transition (se_phase e') STARTED \<noteq> Inr ()"
    by (cases "se_phase e'") (auto simp: validate_transition_def)
  then show ?thesis using move_bad [OF e'(1)] move_stale [OF e'(1)] by blast
qed

text \<open>The confirmation of a started record cannot be refused for good: either it succeeds or it is stale
  because the record is confirmed already.\<close>

lemma confirm_started:
  assumes "look s k = Some e" "se_phase e = STARTED" "step\<^sup>*\<^sup>* s s'"
  shows "(\<exists>e' s''. move k (se_revision e) CONFIRMED s' = (Inr e', s'') \<and> look s'' k = Some e' \<and> se_phase e' = CONFIRMED) \<or>
    (\<exists>e'. move k (se_revision e) CONFIRMED s' = (Inl FlowSideEffectRevisionConflictError, s') \<and>
      look s' k = Some e' \<and> se_phase e' = CONFIRMED)"
proof -
  obtain e' where e': "look s' k = Some e'" "later e e'" using steps_later assms(1,3) by blast
  consider "e' = e" | "se_phase e' = CONFIRMED" "se_revision e < se_revision e'"
    using later_phase(1) [OF e'(2) assms(2)] e'(2) assms(2) by (auto simp: later_def)
  then show ?thesis
  proof cases
    case 1
    with move_ok [OF e'(1), of "se_revision e" CONFIRMED] assms(2) show ?thesis
      by (fastforce simp: validate_transition_def)
  next
    case 2
    with move_stale [OF e'(1), of "se_revision e" CONFIRMED] e'(1) show ?thesis by auto
  qed
qed

end

subsection \<open>Operations of all clients\<close>

definition same_ledger :: "ledger \<Rightarrow> ledger \<Rightarrow> bool" where
  "same_ledger s s' \<longleftrightarrow> le_effects s' = le_effects s \<and> le_operations s' = le_operations s \<and>
     uuid_stream s' = uuid_stream s \<and> uuid_draws s \<le> uuid_draws s'"

text \<open>
  A step is one ledger operation, or a reading of the clock or of \<open>uuid4\<close>. The id of a prepared
  record was drawn from \<open>uuid4\<close> and is not in the ledger yet, unless the operation is known.
\<close>

inductive ledger_step :: "ledger \<Rightarrow> ledger \<Rightarrow> bool" where
  ledger_prepare: "valid_side_effect e \<Longrightarrow> \<exists>m < uuid_draws s. se_id e = uuid_stream s m \<Longrightarrow>
     dict_get (le_effects s) (se_id e) = None \<or> dict_get (le_operations s) (operation_of e) \<noteq> None \<Longrightarrow>
     prepare e s = (r, s') \<Longrightarrow> ledger_step s s'"
| ledger_move: "effect_transition k n p s = (r, s') \<Longrightarrow> ledger_step s s'"
| ledger_host: "same_ledger s s' \<Longrightarrow> ledger_step s s'"

text \<open>
  Other tasks perform ledger operations, and do not use the identifier \<open>k\<close> that the recorder call
  itself draws.
\<close>

definition tasks :: "(nat \<Rightarrow> ledger \<Rightarrow> ledger) \<Rightarrow> bool" where
  "tasks env \<longleftrightarrow> (\<forall>n s. ledger_step\<^sup>*\<^sup>* s (env n s))"

definition interferes :: "uuid \<Rightarrow> (nat \<Rightarrow> ledger \<Rightarrow> ledger) \<Rightarrow> bool" where
  "interferes k env \<longleftrightarrow> tasks env \<and>
     (\<forall>n s. dict_get (le_effects s) k = None \<longrightarrow> dict_get (le_effects (env n s)) k = None)"

abbreviation next_uuid :: "ledger \<Rightarrow> uuid" where
  "next_uuid s \<equiv> uuid_stream s (uuid_draws s)"

text \<open>
  The invariant: records are filed under their own id, the operation index and the records agree,
  ids come from \<open>uuid4\<close>, and the revision tells how many transitions led to the phase.
\<close>

definition effect_ok :: "ledger \<Rightarrow> uuid \<Rightarrow> flow_side_effect \<Rightarrow> bool" where
  "effect_ok s k e \<longleftrightarrow> se_id e = k \<and> valid_side_effect e \<and> dict_get (le_operations s) (operation_of e) = Some k \<and>
     (\<exists>m < uuid_draws s. k = uuid_stream s m) \<and>
     (case se_phase e of PREPARED \<Rightarrow> se_revision e = 1 | ABORTED \<Rightarrow> se_revision e = 2
      | STARTED \<Rightarrow> se_revision e \<in> {2, 3} | CONFIRMED \<Rightarrow> se_revision e \<in> {3, 4})"

definition ledger_inv :: "ledger \<Rightarrow> bool" where
  "ledger_inv s \<longleftrightarrow> inj (uuid_stream s) \<and> dict_ok (le_effects s) \<and> dict_ok (le_operations s) \<and>
     dict_all (effect_ok s) (le_effects s) \<and>
     dict_all (\<lambda>opn k. \<exists>e. dict_get (le_effects s) k = Some e \<and> operation_of e = opn) (le_operations s)"

abbreviation recorded :: "ledger \<Rightarrow> uuid \<Rightarrow> flow_side_effect option" where
  "recorded s k \<equiv> dict_get (le_effects s) k"

lemma effect_transition_eq: "effect_transition k n p s = (case recorded s k of
     None \<Rightarrow> (Inl FlowSideEffectNotFoundError, s)
   | Some e \<Rightarrow> if se_revision e \<noteq> n then (Inl FlowSideEffectRevisionConflictError, s)
     else if validate_transition (se_phase e) p \<noteq> Inr () then (Inl InvalidFlowSideEffectTransitionError, s)
     else let e' = e\<lparr>se_phase := p, se_revision := se_revision e + 1, se_updated_at := clock_stream s (clock_reads s)\<rparr> in
       (Inr e', s\<lparr>clock_reads := Suc (clock_reads s), le_effects := dict_set k e' (le_effects s)\<rparr>))"
  by (auto simp: effect_transition_def pbind_app utc_now_def validate_transition_def guard_def Let_def
      split: option.split)

lemma prepare_eq: "prepare e s =
   (if se_phase e \<noteq> PREPARED \<or> se_revision e \<noteq> 1
    then (Inl (ValueError ''new side-effect evidence must be prepared at revision 1''), s)
    else case dict_get (le_operations s) (operation_of e) of
      Some k \<Rightarrow> (case recorded s k of None \<Rightarrow> (Inl KeyError, s)
        | Some x \<Rightarrow> if has_same_intent x e then (Inr x, s) else (Inl FlowSideEffectConflictError, s))
    | None \<Rightarrow> (Inr e, s\<lparr>le_effects := dict_set (se_id e) e (le_effects s),
        le_operations := dict_set (operation_of e) (se_id e) (le_operations s)\<rparr>))"
  by (simp add: prepare_def pbind_app split: option.split)

lemma ledger_get_eq: "ledger_get k s = (case recorded s k of
   None \<Rightarrow> (Inl FlowSideEffectNotFoundError, s) | Some e \<Rightarrow> (Inr e, s))"
  by (simp add: ledger_get_def pbind_app split: option.split)

lemma same_ledger_refl [simp, intro]: "same_ledger s s"
  by (simp add: same_ledger_def)

lemma later_move:
  assumes "validate_transition (se_phase e) p = Inr ()"
  shows "later e (e\<lparr>se_phase := p, se_revision := se_revision e + 1, se_updated_at := t\<rparr>)"
  using validate_transition_rank [OF assms] by (simp add: later_def has_same_intent_def)

lemma ledger_step_streams: "ledger_step s s' \<Longrightarrow> uuid_stream s' = uuid_stream s \<and> uuid_draws s \<le> uuid_draws s'"
  by (cases rule: ledger_step.cases)
    (auto simp: prepare_eq effect_transition_eq same_ledger_def Let_def split: if_splits option.splits)

lemma ledger_step_later:
  assumes "ledger_step s s'" and "recorded s k = Some e"
  shows "\<exists>e'. recorded s' k = Some e' \<and> later e e'"
  using assms(1)
proof cases
  case (ledger_prepare a r)
  then show ?thesis using assms(2) by (auto simp: prepare_eq split: if_splits option.splits)
next
  case (ledger_move k' n p r)
  then show ?thesis using assms(2) later_move
    by (auto simp: effect_transition_eq Let_def split: if_splits option.splits)
next
  case ledger_host
  then show ?thesis using assms(2) by (auto simp: same_ledger_def)
qed

interpretation led: effect_ledger recorded effect_transition ledger_step
proof
  fix s s' :: ledger and k :: uuid and e :: flow_side_effect and n :: int and p r
  show "recorded s k = Some e \<Longrightarrow> se_revision e = n \<Longrightarrow> validate_transition (se_phase e) p = Inr () \<Longrightarrow>
      \<exists>e' s'. effect_transition k n p s = (Inr e', s') \<and> recorded s' k = Some e' \<and> later e e' \<and> se_phase e' = p"
    using later_move [of e p "clock_stream s (clock_reads s)"] by (auto simp: effect_transition_eq Let_def)
  show "recorded s k = Some e \<Longrightarrow> se_revision e \<noteq> n \<Longrightarrow>
      effect_transition k n p s = (Inl FlowSideEffectRevisionConflictError, s)"
    by (simp add: effect_transition_eq)
  show "recorded s k = Some e \<Longrightarrow> se_revision e = n \<Longrightarrow> validate_transition (se_phase e) p \<noteq> Inr () \<Longrightarrow>
      effect_transition k n p s = (Inl InvalidFlowSideEffectTransitionError, s)"
    by (simp add: effect_transition_eq)
  show "effect_transition k n p s = (r, s') \<Longrightarrow> ledger_step s s'" by (rule ledger_move)
  show "ledger_step s s' \<Longrightarrow> recorded s k = Some e \<Longrightarrow> \<exists>e'. recorded s' k = Some e' \<and> later e e'"
    by (rule ledger_step_later)
qed

lemma phase_revision_move:
  assumes "effect_ok s k e" "validate_transition (se_phase e) p = Inr ()"
  shows "effect_ok s k (e\<lparr>se_phase := p, se_revision := se_revision e + 1, se_updated_at := t\<rparr>)"
  using assms
  by (cases "se_phase e")
    (auto simp: effect_ok_def validate_transition_def valid_side_effect_def operation_of_def)

lemma effect_ok_mono:
  assumes "effect_ok s k e" "\<And>opn j. dict_get (le_operations s) opn = Some j \<Longrightarrow> dict_get (le_operations s') opn = Some j"
    "uuid_stream s' = uuid_stream s" "uuid_draws s \<le> uuid_draws s'"
  shows "effect_ok s' k e"
proof -
  obtain m where "m < uuid_draws s" "k = uuid_stream s m" using assms(1) by (auto simp: effect_ok_def)
  then have "\<exists>m < uuid_draws s'. k = uuid_stream s' m" using assms(3,4) by (metis less_le_trans)
  with assms(1,2) show ?thesis by (simp add: effect_ok_def)
qed

lemma ledger_step_inv:
  assumes "ledger_step s s'" and inv: "ledger_inv s"
  shows "ledger_inv s'"
  using assms(1)
proof cases
  case (ledger_prepare e r)
  show ?thesis
  proof (cases "s' = s")
    case False
    with ledger_prepare have fresh: "dict_get (le_operations s) (operation_of e) = None" "recorded s (se_id e) = None"
      and new: "se_phase e = PREPARED" "se_revision e = 1"
      and s': "s' = s\<lparr>le_effects := dict_set (se_id e) e (le_effects s),
        le_operations := dict_set (operation_of e) (se_id e) (le_operations s)\<rparr>"
      by (auto simp: prepare_eq split: if_splits option.splits)
    have "effect_ok s' (se_id e) e" using ledger_prepare(1,2) new by (simp add: effect_ok_def s')
    moreover have "effect_ok s' k a" if "effect_ok s k a" for k a
      by (rule effect_ok_mono [OF that]) (use fresh in \<open>auto simp: s'\<close>)
    ultimately have "dict_all (effect_ok s') (le_effects s')"
      using inv by (simp add: ledger_inv_def dict_all_def s')
    moreover have "dict_all (\<lambda>opn k. \<exists>e. recorded s' k = Some e \<and> operation_of e = opn) (le_operations s')"
      unfolding dict_all_def
    proof (intro allI impI)
      fix opn k
      assume k: "dict_get (le_operations s') opn = Some k"
      show "\<exists>e. recorded s' k = Some e \<and> operation_of e = opn"
      proof (cases "opn = operation_of e")
        case False
        with k have "dict_get (le_operations s) opn = Some k" by (simp add: s')
        with inv obtain a where "recorded s k = Some a" "operation_of a = opn"
          unfolding ledger_inv_def dict_all_def by blast
        with fresh(2) show ?thesis by (cases "k = se_id e") (simp_all add: s')
      qed (use k in \<open>simp add: s'\<close>)
    qed
    ultimately show ?thesis using inv by (simp add: ledger_inv_def s')
  qed (use inv in simp)
next
  case (ledger_move k n p r)
  show ?thesis
  proof (cases "s' = s")
    case False
    with ledger_move obtain e where e: "recorded s k = Some e" "validate_transition (se_phase e) p = Inr ()"
      and s': "s' = s\<lparr>clock_reads := Suc (clock_reads s), le_effects := dict_set k
        (e\<lparr>se_phase := p, se_revision := se_revision e + 1, se_updated_at := clock_stream s (clock_reads s)\<rparr>) (le_effects s)\<rparr>"
      by (auto simp: effect_transition_eq Let_def split: if_splits option.splits)
    have ok: "effect_ok s' j a \<longleftrightarrow> effect_ok s j a" for j a by (simp add: effect_ok_def s')
    have "effect_ok s k e" using inv e(1) by (simp add: ledger_inv_def dict_all_def)
    then have "effect_ok s' k (e\<lparr>se_phase := p, se_revision := se_revision e + 1, se_updated_at := clock_stream s (clock_reads s)\<rparr>)"
      unfolding ok by (rule phase_revision_move [OF _ e(2)])
    moreover have "dict_all (effect_ok s') (le_effects s)" unfolding ok using inv by (simp add: ledger_inv_def)
    ultimately have effs: "dict_all (effect_ok s') (le_effects s')"
      using dict_all_set by (simp add: s')
    have stays: "\<exists>a'. recorded s' j = Some a' \<and> operation_of a' = operation_of a" if "recorded s j = Some a" for j a
      using that e(1) by (cases "j = k") (simp_all add: s' operation_of_def)
    have ops: "dict_all (\<lambda>opn k. \<exists>e. recorded s k = Some e \<and> operation_of e = opn) (le_operations s)"
      using inv unfolding ledger_inv_def by blast
    have "dict_all (\<lambda>opn k. \<exists>e. recorded s' k = Some e \<and> operation_of e = opn) (le_operations s)"
      by (rule dict_all_mono [OF ops]) (use stays in blast)
    then have "dict_all (\<lambda>opn k. \<exists>e. recorded s' k = Some e \<and> operation_of e = opn) (le_operations s')"
      by (simp add: s')
    with effs inv show ?thesis by (simp add: ledger_inv_def) (simp add: s')
  qed (use inv in simp)
next
  case ledger_host
  have "effect_ok s' k a" if "effect_ok s k a" for k a
    by (rule effect_ok_mono [OF that]) (use ledger_host in \<open>auto simp: same_ledger_def\<close>)
  with inv ledger_host show ?thesis by (auto simp: ledger_inv_def dict_all_def same_ledger_def)
qed

lemma ledger_steps_inv: "ledger_step\<^sup>*\<^sup>* s s' \<Longrightarrow> ledger_inv s \<Longrightarrow> ledger_inv s'"
  by (induction rule: rtranclp_induct) (auto intro: ledger_step_inv)

lemma ledger_steps_streams: "ledger_step\<^sup>*\<^sup>* s s' \<Longrightarrow> uuid_stream s' = uuid_stream s \<and> uuid_draws s \<le> uuid_draws s'"
  by (induction rule: rtranclp_induct) (auto dest: ledger_step_streams)

lemma ledger_inv_empty: "inj ids \<Longrightarrow> ledger_inv (empty_ledger clk ids)"
  by (simp add: ledger_inv_def empty_ledger_def)

definition ledger_reachable :: "ledger \<Rightarrow> bool" where
  "ledger_reachable s \<longleftrightarrow> (\<exists>clk ids. inj ids \<and> ledger_step\<^sup>*\<^sup>* (empty_ledger clk ids) s)"

lemma ledger_reachable_inv: "ledger_reachable s \<Longrightarrow> ledger_inv s"
  using ledger_steps_inv ledger_inv_empty by (auto simp: ledger_reachable_def)

lemma ledger_reachable_steps: "ledger_reachable s \<Longrightarrow> ledger_step\<^sup>*\<^sup>* s s' \<Longrightarrow> ledger_reachable s'"
  unfolding ledger_reachable_def by (meson rtranclp_trans)

subsection \<open>The recorder under interference\<close>

lemma tasksD: "tasks env \<Longrightarrow> ledger_step\<^sup>*\<^sup>* s (env n s)"
  by (simp add: tasks_def)

lemma recorded_id: "ledger_inv s \<Longrightarrow> recorded s k = Some e \<Longrightarrow> se_id e = k"
  by (auto simp: ledger_inv_def effect_ok_def dest: dict_allD)

lemma fresh_uuid: "ledger_inv s \<Longrightarrow> recorded s (next_uuid s) = None"
proof (rule ccontr)
  assume inv: "ledger_inv s" and "recorded s (next_uuid s) \<noteq> None"
  then obtain e where "recorded s (next_uuid s) = Some e" by blast
  with inv obtain m where "m < uuid_draws s" "uuid_stream s (uuid_draws s) = uuid_stream s m" "inj (uuid_stream s)"
    unfolding ledger_inv_def by (metis dict_allD effect_ok_def)
  then show False by (metis injD less_irrefl)
qed

text \<open>
  A pass of the loop on the record \<open>e\<close>, which was current when it was read: \<open>mark_started\<close> succeeds, or
  the record has moved on in the meantime.
\<close>

lemma mark_started_current:
  assumes e: "recorded s k = Some e" "se_phase e = PREPARED \<or> se_phase e = ABORTED" and steps: "ledger_step\<^sup>*\<^sup>* s s1"
  shows "(\<exists>e' s2. mark_started k (se_revision e) s1 = (Inr e', s2) \<and> recorded s2 k = Some e' \<and> later e e' \<and>
      se_phase e' = STARTED) \<or>
    (\<exists>a. mark_started k (se_revision e) s1 = (Inl FlowSideEffectRevisionConflictError, s1) \<and> recorded s1 k = Some a \<and>
      later e a \<and> phase_rank (se_phase e) < phase_rank (se_phase a))"
proof -
  obtain a where a: "recorded s1 k = Some a" "later e a" using led.steps_later [OF steps e(1)] by blast
  show ?thesis
  proof (cases "a = e")
    case True
    with a led.move_ok [of s1 k e "se_revision e" STARTED] e(2) show ?thesis
      by (auto simp: mark_started_def validate_transition_def)
  next
    case False
    then show ?thesis using a led.move_stale [OF a(1), of "se_revision e" STARTED]
      by (auto simp: mark_started_def later_def)
  qed
qed

definition replay_outcome :: "flow_side_effect \<Rightarrow> exn + flow_side_effect \<Rightarrow> ledger \<Rightarrow> bool" where
  "replay_outcome e r s \<longleftrightarrow> (\<exists>a. recorded s (se_id e) = Some a \<and> later e a \<and> 2 \<le> phase_rank (se_phase a) \<and>
     (r = Inr a \<or> r = Inl ToolSideEffectReplayUnsafeError \<and> se_retry_mode e = UNSAFE))"

lemma start_or_replay_ends:
  assumes "recorded s (se_id e) = Some e" and "ledger_inv s" and env: "tasks env"
    and "2 \<le> phase_rank (se_phase e) + fuel"
  shows "\<exists>r s'. start_or_replay fuel env n e s = Some (r, s') \<and> ledger_step\<^sup>*\<^sup>* s s' \<and> replay_outcome e r s'"
  using assms(1,2,4)
proof (induction fuel arbitrary: n e s)
  case 0
  then show ?case
    by (cases "se_phase e"; cases "se_retry_mode e") (auto simp: start_or_replay_eq replay_outcome_def)
next
  case (Suc fuel)
  show ?case
  proof (cases "se_phase e = PREPARED \<or> se_phase e = ABORTED")
    case False
    with Suc.prems show ?thesis
      by (cases "se_phase e"; cases "se_retry_mode e") (auto simp: start_or_replay_eq replay_outcome_def)
  next
    case True
    let ?s1 = "env n s"
    have s1: "ledger_step\<^sup>*\<^sup>* s ?s1" using env by (rule tasksD)
    from mark_started_current [OF Suc.prems(1) True s1] show ?thesis
    proof (elim disjE exE conjE)
      fix e' s2
      assume m: "mark_started (se_id e) (se_revision e) ?s1 = (Inr e', s2)" "recorded s2 (se_id e) = Some e'"
        "later e e'" "se_phase e' = STARTED"
      have "ledger_step ?s1 s2" using m(1) unfolding mark_started_def by (rule ledger_move)
      with s1 have "ledger_step\<^sup>*\<^sup>* s s2" by simp
      with m True show ?thesis by (auto simp: start_or_replay_eq replay_outcome_def)
    next
      fix a
      assume m: "mark_started (se_id e) (se_revision e) ?s1 = (Inl FlowSideEffectRevisionConflictError, ?s1)"
        "recorded ?s1 (se_id e) = Some a" "later e a" "phase_rank (se_phase e) < phase_rank (se_phase a)"
      let ?s2 = "env (Suc n) ?s1"
      have s2: "ledger_step\<^sup>*\<^sup>* ?s1 ?s2" using env by (rule tasksD)
      with led.steps_later m(2) obtain b where b: "recorded ?s2 (se_id e) = Some b" "later a b" by blast
      have all: "ledger_step\<^sup>*\<^sup>* s ?s2" using s1 s2 by (rule rtranclp_trans)
      have inv: "ledger_inv ?s2" using ledger_steps_inv all Suc.prems(2) by blast
      have id: "se_id b = se_id e" using recorded_id [OF inv b(1)] .
      have "2 \<le> phase_rank (se_phase b) + fuel" using b(2) m(4) Suc.prems(3) by (auto simp: later_def)
      with Suc.IH [of ?s2 b "n + 2"] b(1) id inv obtain r s3 where
        r: "start_or_replay fuel env (n + 2) b ?s2 = Some (r, s3)" "ledger_step\<^sup>*\<^sup>* ?s2 s3" "replay_outcome b r s3"
        by auto
      have eb: "later e b" using m(3) b(2) by (rule later_trans)
      then have "se_retry_mode b = se_retry_mode e" by (auto simp: later_def has_same_intent_def)
      then have "replay_outcome e r s3"
        using r(3) eb id unfolding replay_outcome_def by (metis later_trans)
      moreover have "start_or_replay (Suc fuel) env n e s = Some (r, s3)"
        using True m(1) b(1) r(1) by (simp add: start_or_replay_eq [of "Suc fuel"] ledger_get_eq)
      ultimately show ?thesis using all r(2) by (meson rtranclp_trans)
    qed
  qed
qed

lemma op_recorded:
  "ledger_inv s \<Longrightarrow> recorded s k = Some a \<Longrightarrow> dict_get (le_operations s) (operation_of a) = Some k"
  unfolding ledger_inv_def using dict_allD effect_ok_def by metis

lemma op_unique:
  "ledger_inv s \<Longrightarrow> recorded s k = Some a \<Longrightarrow> recorded s j = Some b \<Longrightarrow> operation_of a = operation_of b \<Longrightarrow> j = k"
  by (metis op_recorded option.inject)

text \<open>What a recorder call records, and the receipt it hands out.\<close>

definition intends :: "(string \<Rightarrow> string) \<Rightarrow> tool_call \<Rightarrow> string \<Rightarrow> tool_side_effect_mode \<Rightarrow> tool_context \<Rightarrow>
    flow_side_effect \<Rightarrow> bool" where
  "intends digest call tool_name mode cx e \<longleftrightarrow>
     cx_flow_run_id cx = Some (se_flow_run_id e) \<and> cx_invocation_id cx = Some (se_invocation_id e) \<and>
     se_operation_key e = operation_key digest (tc_id call) \<and> se_operation_name e = tool_name \<and>
     (mode = ModeUnsafe \<and> se_retry_mode e = UNSAFE \<and> se_key_digest e = None \<or>
      mode = ModeIdempotent \<and> se_retry_mode e = IDEMPOTENT \<and> se_key_digest e =
        Some (digest (idempotency_key digest (se_flow_run_id e) (se_invocation_id e) (tc_id call))))"

definition receipt_for :: "(string \<Rightarrow> string) \<Rightarrow> tool_call \<Rightarrow> flow_side_effect \<Rightarrow> tool_receipt" where
  "receipt_for digest call e =
     \<lparr>tr_token = FlowReceipt \<lparr>rc_effect_id = se_id e, rc_expected_revision = se_revision e,
        rc_confirmation_required = (se_phase e \<noteq> CONFIRMED)\<rparr>,
      tr_idempotency_key = (if se_retry_mode e = IDEMPOTENT
        then Some (idempotency_key digest (se_flow_run_id e) (se_invocation_id e) (tc_id call)) else None)\<rparr>"

lemma intends_same: "intends digest call t m cx e \<Longrightarrow> has_same_intent e e' \<Longrightarrow> intends digest call t m cx e'"
  by (simp add: intends_def has_same_intent_def)

lemma intends_unique:
  "intends digest call t m cx e \<Longrightarrow> intends digest call t m cx e' \<Longrightarrow> has_same_intent e e'"
  by (auto simp: intends_def has_same_intent_def)

text \<open>The record that a call with complete arguments prepares.\<close>

definition fresh_effect :: "(string \<Rightarrow> string) \<Rightarrow> tool_call \<Rightarrow> string \<Rightarrow> tool_side_effect_mode \<Rightarrow> uuid \<Rightarrow> uuid \<Rightarrow>
    ledger \<Rightarrow> flow_side_effect" where
  "fresh_effect digest call t m f i s =
     \<lparr>se_id = next_uuid s, se_flow_run_id = f, se_invocation_id = i, se_operation_key = operation_key digest (tc_id call),
      se_operation_name = t, se_retry_mode = (if m = ModeIdempotent then IDEMPOTENT else UNSAFE),
      se_key_digest = (if m = ModeIdempotent then Some (digest (idempotency_key digest f i (tc_id call))) else None),
      se_phase = PREPARED, se_revision = 1, se_created_at = clock_stream s (clock_reads s),
      se_updated_at = clock_stream s (Suc (clock_reads s))\<rparr>"

abbreviation after_draws :: "ledger \<Rightarrow> ledger" where
  "after_draws s \<equiv> s\<lparr>uuid_draws := Suc (uuid_draws s), clock_reads := Suc (Suc (clock_reads s))\<rparr>"

lemma recorder_prepare_eq:
  assumes "cx_flow_run_id cx = Some f" "cx_invocation_id cx = Some i" "m = ModeUnsafe \<or> m = ModeIdempotent"
  shows "recorder_prepare digest env call t m cx s =
    (if \<not> valid_side_effect (fresh_effect digest call t m f i s) then (Inl ValidationError, after_draws s)
     else case prepare (fresh_effect digest call t m f i s) (env 0 (after_draws s)) of (Inl x, s') \<Rightarrow> (Inl x, s')
       | (Inr a, s') \<Rightarrow> (Inr (a, if m = ModeIdempotent then Some (idempotency_key digest f i (tc_id call)) else None), s'))"
  using assms
  by (auto simp: recorder_prepare_def recorder_effect_def pbind_app uuid4_def utc_now_def construct_def fresh_effect_def Let_def
      split: prod.split sum.split)

lemma recorder_prepare_refuses:
  assumes "\<not> (\<exists>f i. cx_flow_run_id cx = Some f \<and> cx_invocation_id cx = Some i \<and> (m = ModeUnsafe \<or> m = ModeIdempotent))"
  shows "\<exists>x. recorder_prepare digest env call t m cx s = (Inl x, s)"
  using assms by (auto simp: recorder_prepare_def recorder_effect_def pbind_app split: option.split)

lemma prepare_known:
  assumes "ledger_inv s" "recorded s k = Some a" "operation_of e = operation_of a" "se_phase e = PREPARED" "se_revision e = 1"
  shows "prepare e s = ((if has_same_intent a e then Inr a else Inl FlowSideEffectConflictError), s)"
  using op_recorded [OF assms(1,2)] assms by (simp add: prepare_eq)

lemma steps_after_draws: "ledger_step\<^sup>*\<^sup>* s (after_draws s)"
  by (rule r_into_rtranclp, rule ledger_host) (simp add: same_ledger_def)

lemma fresh_effect_fields [simp]: "se_phase (fresh_effect digest call t m f i s) = PREPARED"
  "se_revision (fresh_effect digest call t m f i s) = 1" "se_id (fresh_effect digest call t m f i s) = next_uuid s"
  "operation_of (fresh_effect digest call t m f i s) = (f, i, operation_key digest (tc_id call))"
  by (simp_all add: fresh_effect_def operation_of_def)

lemma fresh_effect_intends:
  "cx_flow_run_id cx = Some f \<Longrightarrow> cx_invocation_id cx = Some i \<Longrightarrow> m = ModeUnsafe \<or> m = ModeIdempotent \<Longrightarrow>
   intends digest call t m cx (fresh_effect digest call t m f i s)"
  by (auto simp: intends_def fresh_effect_def)

lemma recorder_prepare_ok:
  assumes inv: "ledger_inv s" and env: "interferes (next_uuid s) env"
    and run: "recorder_prepare digest env call t m cx s = (r, s')"
  shows "ledger_step\<^sup>*\<^sup>* s s' \<and> (\<forall>e key. r = Inr (e, key) \<longrightarrow> recorded s' (se_id e) = Some e \<and>
    intends digest call t m cx e \<and> key = tr_idempotency_key (receipt_for digest call e))"
proof (cases "\<exists>f i. cx_flow_run_id cx = Some f \<and> cx_invocation_id cx = Some i \<and> (m = ModeUnsafe \<or> m = ModeIdempotent)")
  case False
  then obtain x where "recorder_prepare digest env call t m cx s = (Inl x, s)"
    using recorder_prepare_refuses [of cx m digest env call t s] by blast
  with run show ?thesis by auto
next
  case True
  then obtain f i where a: "cx_flow_run_id cx = Some f" "cx_invocation_id cx = Some i" "m = ModeUnsafe \<or> m = ModeIdempotent"
    by blast
  let ?e = "fresh_effect digest call t m f i s" and ?s0 = "env 0 (after_draws s)"
  have s0: "ledger_step\<^sup>*\<^sup>* s ?s0"
    using steps_after_draws tasksD env unfolding interferes_def by (meson rtranclp_trans)
  have inv0: "ledger_inv ?s0" using ledger_steps_inv s0 inv by blast
  have draws: "uuid_stream ?s0 = uuid_stream s" "Suc (uuid_draws s) \<le> uuid_draws ?s0"
    using ledger_steps_streams [of "after_draws s" ?s0] env by (auto simp: interferes_def tasks_def)
  have free: "recorded ?s0 (next_uuid s) = None"
    using fresh_uuid [OF inv] env by (simp add: interferes_def)
  show ?thesis
  proof (cases "valid_side_effect ?e")
    case False
    with run a have "r = Inl ValidationError" "s' = after_draws s" by (auto simp: recorder_prepare_eq)
    then show ?thesis by (simp add: steps_after_draws)
  next
    case True
    obtain p s1 where p: "prepare ?e ?s0 = (p, s1)" by fastforce
    have "\<exists>m<uuid_draws ?s0. se_id ?e = uuid_stream ?s0 m"
      using draws by (intro exI [of _ "uuid_draws s"]) simp
    then have "ledger_step ?s0 s1" using ledger_prepare [OF True _ _ p] free by simp
    with s0 have steps: "ledger_step\<^sup>*\<^sup>* s s1" by simp
    have inv1: "ledger_inv s1" using ledger_steps_inv steps inv by blast
    have sent: "s' = s1 \<and> (\<forall>e key. r = Inr (e, key) \<longrightarrow> p = Inr e \<and>
        key = (if m = ModeIdempotent then Some (idempotency_key digest f i (tc_id call)) else None))"
      using run a True p by (cases p) (auto simp: recorder_prepare_eq)
    have stored: "recorded s1 (se_id b) = Some b \<and> has_same_intent ?e b" if "p = Inr b" for b
    proof (cases "dict_get (le_operations ?s0) (operation_of ?e)")
      case None
      with p that show ?thesis by (auto simp: prepare_eq has_same_intent_def)
    next
      case (Some k)
      with p that have b: "recorded ?s0 k = Some b" "s1 = ?s0" "has_same_intent b ?e"
        by (auto simp: prepare_eq split: option.splits if_splits)
      with recorded_id [OF inv0 b(1)] show ?thesis by (simp add: has_same_intent_def)
    qed
    have "intends digest call t m cx b" "(if m = ModeIdempotent then Some (idempotency_key digest f i (tc_id call)) else None) =
        tr_idempotency_key (receipt_for digest call b)" if "p = Inr b" for b
      using intends_same [OF fresh_effect_intends [OF a]] stored [OF that] a
      by (auto simp: receipt_for_def has_same_intent_def fresh_effect_def)
    with sent steps stored show ?thesis by auto
  qed
qed

text \<open>A whole call of \<open>start\<close>: it ends, and a receipt means that the operation is recorded as started.\<close>

definition receipted :: "(string \<Rightarrow> string) \<Rightarrow> tool_call \<Rightarrow> string \<Rightarrow> tool_side_effect_mode \<Rightarrow> tool_context \<Rightarrow>
    tool_receipt \<Rightarrow> ledger \<Rightarrow> bool" where
  "receipted digest call t m cx rc s \<longleftrightarrow> (\<exists>a. recorded s (se_id a) = Some a \<and> 2 \<le> phase_rank (se_phase a) \<and>
     intends digest call t m cx a \<and> rc = receipt_for digest call a)"

lemma recorder_start_ends:
  assumes inv: "ledger_inv s" and env: "interferes (next_uuid s) env"
  shows "\<exists>r s'. recorder_start digest env call t m cx s = Some (r, s') \<and> ledger_step\<^sup>*\<^sup>* s s' \<and>
    (\<forall>rc. r = Inr rc \<longrightarrow> receipted digest call t m cx rc s')"
proof -
  obtain r s1 where p: "recorder_prepare digest env call t m cx s = (r, s1)" by fastforce
  note ok = recorder_prepare_ok [OF inv env p]
  show ?thesis
  proof (cases r)
    case (Inl x)
    with p ok show ?thesis by (simp add: recorder_start_def)
  next
    case (Inr ek)
    then obtain e key where r: "r = Inr (e, key)" by (cases ek) auto
    with ok have e: "recorded s1 (se_id e) = Some e" "intends digest call t m cx e"
      "key = tr_idempotency_key (receipt_for digest call e)" and steps: "ledger_step\<^sup>*\<^sup>* s s1" by auto
    obtain q s2 where q: "start_or_replay loop_fuel env 1 e s1 = Some (q, s2)" "ledger_step\<^sup>*\<^sup>* s1 s2" "replay_outcome e q s2"
      using start_or_replay_ends [OF e(1) ledger_steps_inv [OF steps inv], of env loop_fuel 1] env
      by (auto simp: interferes_def loop_fuel_def)
    have all: "ledger_step\<^sup>*\<^sup>* s s2" using steps q(2) by (rule rtranclp_trans)
    show ?thesis
    proof (cases q)
      case (Inl x)
      with p r q(1) all show ?thesis by (simp add: recorder_start_def)
    next
      case (Inr a)
      with q(3) have a: "recorded s2 (se_id e) = Some a" "later e a" "2 \<le> phase_rank (se_phase a)"
        by (auto simp: replay_outcome_def)
      then have ia: "intends digest call t m cx a" "se_id a = se_id e" "has_same_intent e a"
        using e(2) intends_same by (auto simp: later_def)
      have "key = tr_idempotency_key (receipt_for digest call a)"
        using e(3) ia(3) by (simp add: receipt_for_def has_same_intent_def)
      then have "recorder_start digest env call t m cx s = Some (Inr (receipt_for digest call a), s2)"
        using p r q(1) Inr by (simp add: recorder_start_def receipt_for_def)
      moreover have "receipted digest call t m cx (receipt_for digest call a) s2"
        unfolding receipted_def using a(1,3) ia(1,2) by (intro exI [of _ a]) simp
      ultimately show ?thesis using all by blast
    qed
  qed
qed

subsection \<open>Properties\<close>

text \<open>The examples: call \<open>c1\<close> of invocation 20 of Flow 7, on a ledger whose other client aborts the
  prepared record between the recorder's awaits.\<close>

definition ex_hash :: "string \<Rightarrow> string" where
  "ex_hash v = replicate 64 CHR ''a''"

definition ex_call :: tool_call where
  "ex_call = \<lparr>tc_id = ''c1'', tc_name = ''mail'', tc_arguments = []\<rparr>"

definition ex_context :: tool_context where
  "ex_context = \<lparr>cx_run_id = 1, cx_flow_run_id = Some 7, cx_invocation_id = Some 20, cx_tool_call_id = None,
     cx_idempotency_key = None, cx_confirmation = None\<rparr>"

definition ex_ledger :: ledger where
  "ex_ledger = empty_ledger (\<lambda>n. int n) (\<lambda>n. n)"

definition ex_aborts :: "nat \<Rightarrow> ledger \<Rightarrow> ledger" where
  "ex_aborts n s = snd (abort_effect 0 1 s)"

lemma ex_ledger_reachable: "ledger_reachable ex_ledger"
  by (auto simp: ledger_reachable_def ex_ledger_def inj_def intro!: exI [of _ "\<lambda>n. n"])

lemma ex_aborts_interferes: "interferes k ex_aborts"
  unfolding interferes_def tasks_def
proof (intro conjI allI impI)
  fix n s
  show "ledger_step\<^sup>*\<^sup>* s (ex_aborts n s)"
    unfolding ex_aborts_def abort_effect_def by (rule r_into_rtranclp, rule ledger_move [OF prod.collapse [symmetric]])
  show "recorded s k = None \<Longrightarrow> recorded (ex_aborts n s) k = None"
    by (auto simp: ex_aborts_def abort_effect_def effect_transition_eq Let_def split: option.split)
qed

text \<open>After a receipt for an unsafe call, \<open>start\<close> refuses the same call id.\<close>

lemma unsafe_started_refused:
  assumes s: "ledger_reachable s" and env: "interferes (next_uuid s) env"
    and first: "recorder_start digest env call t ModeUnsafe cx s = Some (Inr rc, s1)"
    and steps: "ledger_step\<^sup>*\<^sup>* s1 s2" and env': "interferes (next_uuid s2) env'"
    and same: "tc_id call' = tc_id call" "cx_flow_run_id cx' = cx_flow_run_id cx" "cx_invocation_id cx' = cx_invocation_id cx"
  shows "\<exists>x s3. recorder_start digest env' call' t' m' cx' s2 = Some (Inl x, s3)"
proof -
  have inv: "ledger_inv s" using s by (rule ledger_reachable_inv)
  obtain a where a: "recorded s1 (se_id a) = Some a" "2 \<le> phase_rank (se_phase a)" "intends digest call t ModeUnsafe cx a"
    and s1: "ledger_step\<^sup>*\<^sup>* s s1"
    using recorder_start_ends [OF inv env, of digest call t ModeUnsafe cx] first by (auto simp: receipted_def)
  have inv2: "ledger_inv s2" using ledger_steps_inv rtranclp_trans [OF s1 steps] inv by blast
  obtain r s3 where r: "recorder_start digest env' call' t' m' cx' s2 = Some (r, s3)" "ledger_step\<^sup>*\<^sup>* s2 s3"
    and rc: "\<And>rc'. r = Inr rc' \<Longrightarrow> receipted digest call' t' m' cx' rc' s3"
    using recorder_start_ends [OF inv2 env'] by blast
  obtain q s4 where p: "recorder_prepare digest env' call' t' m' cx' s2 = (q, s4)" by fastforce
  note ok = recorder_prepare_ok [OF inv2 env' p]
  have inv4: "ledger_inv s4" using ledger_steps_inv ok inv2 by blast
  show ?thesis
  proof (cases q)
    case (Inl x)
    with p show ?thesis by (simp add: recorder_start_def)
  next
    case (Inr ek)
    then obtain e key where q: "q = Inr (e, key)" by (cases ek) auto
    with ok have e: "recorded s4 (se_id e) = Some e" "intends digest call' t' m' cx' e" by auto
    obtain b where b: "recorded s4 (se_id a) = Some b" "later a b"
      using led.steps_later [OF rtranclp_trans [OF steps conjunct1 [OF ok]] a(1)] by blast
    have "operation_of b = operation_of a" "operation_of e = operation_of a"
      using b(2) e(2) a(3) same by (auto simp: operation_of_def later_def has_same_intent_def intends_def)
    then have "se_id e = se_id a" using op_unique [OF inv4 b(1) e(1)] by simp
    with b(1) e(1) have "e = b" by simp
    with b(2) a(2,3) have "2 \<le> phase_rank (se_phase e)" "se_retry_mode e = UNSAFE"
      by (auto simp: later_def has_same_intent_def intends_def)
    then have "start_or_replay loop_fuel env' 1 e s4 = Some (Inl ToolSideEffectReplayUnsafeError, s4)"
      by (cases "se_phase e") (simp_all add: start_or_replay_eq)
    with p q show ?thesis by (simp add: recorder_start_def)
  qed
qed

definition ex_receipt :: "tool_side_effect_mode \<Rightarrow> ((exn + tool_receipt) \<times> ledger) option" where
  "ex_receipt m = recorder_start ex_hash ex_aborts ex_call ''mail'' m ex_context ex_ledger"

lemma ex_receipt_unsafe: "map_option fst (ex_receipt ModeUnsafe) = Some (Inr
   \<lparr>tr_token = FlowReceipt \<lparr>rc_effect_id = 0, rc_expected_revision = 3, rc_confirmation_required = True\<rparr>,
    tr_idempotency_key = None\<rparr>)"
  by code_simp

text \<open>
  \<open>start\<close> always ends, within two passes of its retry loop, whatever other tasks do to the ledger
  between its awaits; it only performs ledger operations, and a receipt it returns names a record
  that is stored as started, at the stored revision, with the intent of the call.
\<close>

theorem recorder_start_returns:
  assumes "ledger_reachable s" and "interferes (next_uuid s) env"
  shows "\<exists>r s'. recorder_start digest env call t m cx s = Some (r, s') \<and> ledger_reachable s' \<and>
    (\<forall>rc. r = Inr rc \<longrightarrow> (\<exists>a. recorded s' (se_id a) = Some a \<and> 2 \<le> phase_rank (se_phase a) \<and>
       intends digest call t m cx a \<and> rc = receipt_for digest call a))"
  using recorder_start_ends [OF ledger_reachable_inv [OF assms(1)] assms(2)] ledger_reachable_steps [OF assms(1)]
  unfolding receipted_def by blast

theorem recorder_start_returns_witness:
  "\<exists>r s'. recorder_start ex_hash ex_aborts ex_call ''mail'' ModeUnsafe ex_context ex_ledger = Some (r, s') \<and>
     ledger_reachable s'"
  using recorder_start_returns [OF ex_ledger_reachable ex_aborts_interferes] by blast

text \<open>
  The confirmation of a started side effect is never lost: after \<open>start\<close> returned a receipt, and
  whatever happened to the ledger since, \<open>confirm\<close> with that receipt succeeds and the record is
  stored as confirmed.
\<close>

theorem confirm_never_lost:
  assumes s: "ledger_reachable s" and env: "interferes (next_uuid s) env"
    and first: "recorder_start digest env call t m cx s = Some (Inr rc, s1)"
    and steps: "ledger_step\<^sup>*\<^sup>* s1 s2" and env': "tasks env'"
  shows "\<exists>s3 e k. recorder_confirm env' rc s2 = (Inr (), s3) \<and> tr_token rc = FlowReceipt k \<and>
    recorded s3 (rc_effect_id k) = Some e \<and> se_phase e = CONFIRMED"
proof -
  obtain a where a: "recorded s1 (se_id a) = Some a" "2 \<le> phase_rank (se_phase a)" "rc = receipt_for digest call a"
    using recorder_start_ends [OF ledger_reachable_inv [OF s] env, of digest call t m cx] first by (auto simp: receipted_def)
  show ?thesis
  proof (cases "se_phase a = CONFIRMED")
    case True
    with led.steps_later [OF steps a(1)] later_phase(2) a(3) show ?thesis
      by (fastforce simp: recorder_confirm_def receipt_for_def)
  next
    case False
    with a(2) have st: "se_phase a = STARTED" by (cases "se_phase a") auto
    let ?s = "env' 0 s2"
    have all: "ledger_step\<^sup>*\<^sup>* s1 ?s" using steps tasksD [OF env'] by (rule rtranclp_trans)
    from led.confirm_started [OF a(1) st all] show ?thesis
    proof (elim disjE exE conjE)
      fix e' s''
      assume "effect_transition (se_id a) (se_revision a) CONFIRMED ?s = (Inr e', s'')" "recorded s'' (se_id a) = Some e'"
        "se_phase e' = CONFIRMED"
      then show ?thesis using a(3) False
        by (simp add: recorder_confirm_def receipt_for_def pbind_app ptry_app confirm_effect_def)
    next
      fix e'
      assume c: "effect_transition (se_id a) (se_revision a) CONFIRMED ?s = (Inl FlowSideEffectRevisionConflictError, ?s)"
        "recorded ?s (se_id a) = Some e'" "se_phase e' = CONFIRMED"
      then have "recorded (env' 1 ?s) (se_id a) = Some e'"
        using led.steps_later [OF tasksD [OF env'] c(2)] later_phase(2) by metis
      with c a(3) False show ?thesis
        by (simp add: recorder_confirm_def receipt_for_def pbind_app ptry_app confirm_effect_def ledger_get_eq)
    qed
  qed
qed

theorem confirm_never_lost_witness:
  "\<exists>rc s1 s3. recorder_start ex_hash ex_aborts ex_call ''mail'' ModeUnsafe ex_context ex_ledger = Some (Inr rc, s1) \<and>
     recorder_confirm ex_aborts rc s1 = (Inr (), s3)"
proof -
  obtain rc s1 where first: "recorder_start ex_hash ex_aborts ex_call ''mail'' ModeUnsafe ex_context ex_ledger = Some (Inr rc, s1)"
    using ex_receipt_unsafe by (auto simp: ex_receipt_def)
  have "tasks ex_aborts" using ex_aborts_interferes by (simp add: interferes_def)
  from confirm_never_lost [OF ex_ledger_reachable ex_aborts_interferes first rtranclp.rtrancl_refl this] first
  show ?thesis by blast
qed

text \<open>
  An idempotent side effect can always be replayed, under one key: after a receipt was returned for
  an idempotent tool call, a later \<open>start\<close> for the same call never raises, and its receipt names the
  same record and carries the same idempotency key, whatever happened to the ledger since.
\<close>

theorem idempotent_effect_replays:
  assumes s: "ledger_reachable s" and env: "interferes (next_uuid s) env"
    and first: "recorder_start digest env call t ModeIdempotent cx s = Some (Inr rc, s1)"
    and steps: "ledger_step\<^sup>*\<^sup>* s1 s2" and env': "interferes (next_uuid s2) env'"
  shows "\<exists>rc' s3 k k'. recorder_start digest env' call t ModeIdempotent cx s2 = Some (Inr rc', s3) \<and>
    tr_idempotency_key rc' = tr_idempotency_key rc \<and> tr_idempotency_key rc \<noteq> None \<and>
    tr_token rc = FlowReceipt k \<and> tr_token rc' = FlowReceipt k' \<and> rc_effect_id k' = rc_effect_id k"
proof -
  let ?m = ModeIdempotent
  have inv: "ledger_inv s" using s by (rule ledger_reachable_inv)
  obtain a where a: "recorded s1 (se_id a) = Some a" "2 \<le> phase_rank (se_phase a)" "intends digest call t ?m cx a"
    "rc = receipt_for digest call a" and s1: "ledger_step\<^sup>*\<^sup>* s s1"
    using recorder_start_ends [OF inv env, of digest call t ?m cx] first by (auto simp: receipted_def)
  have inv2: "ledger_inv s2" using ledger_steps_inv rtranclp_trans [OF s1 steps] inv by blast
  obtain f i where fi: "cx_flow_run_id cx = Some f" "cx_invocation_id cx = Some i" "se_flow_run_id a = f" "se_invocation_id a = i"
    using a(3) by (auto simp: intends_def)
  let ?e = "fresh_effect digest call t ?m f i s2" and ?s0 = "env' 0 (after_draws s2)"
  have s0: "ledger_step\<^sup>*\<^sup>* s2 ?s0"
    using steps_after_draws tasksD env' unfolding interferes_def by (meson rtranclp_trans)
  have inv0: "ledger_inv ?s0" using ledger_steps_inv s0 inv2 by blast
  obtain b where b: "recorded ?s0 (se_id a) = Some b" "later a b"
    using led.steps_later [OF rtranclp_trans [OF steps s0] a(1)] by blast
  have same: "has_same_intent ?e b"
    using intends_unique [OF fresh_effect_intends [OF fi(1,2)] intends_same [OF a(3)]] b(2) by (simp add: later_def)
  have "valid_side_effect b" using inv0 b(1) unfolding ledger_inv_def by (metis dict_allD effect_ok_def)
  then have valid: "valid_side_effect ?e" using same by (simp add: valid_side_effect_def has_same_intent_def)
  have "operation_of ?e = operation_of b" "has_same_intent b ?e"
    using same by (auto simp: operation_of_def has_same_intent_def)
  then have prep: "prepare ?e ?s0 = (Inr b, ?s0)" using prepare_known [OF inv0 b(1), of ?e] by simp
  have rb: "2 \<le> phase_rank (se_phase b)" "se_retry_mode b = IDEMPOTENT" "se_id b = se_id a" "has_same_intent a b"
    using b(2) a(2,3) by (auto simp: later_def has_same_intent_def intends_def)
  then have "start_or_replay loop_fuel env' 1 b ?s0 = Some (Inr b, ?s0)"
    by (cases "se_phase b") (simp_all add: start_or_replay_eq)
  then have "recorder_start digest env' call t ?m cx s2 = Some (Inr (receipt_for digest call b), ?s0)"
    using prep valid fi rb(2,4)
    by (simp add: recorder_start_def recorder_prepare_eq receipt_for_def has_same_intent_def)
  moreover have "tr_idempotency_key (receipt_for digest call b) = tr_idempotency_key rc" "tr_idempotency_key rc \<noteq> None"
    using rb(2,4) a(4) by (auto simp: receipt_for_def has_same_intent_def)
  ultimately show ?thesis using a(4) rb(3) by (auto simp: receipt_for_def)
qed

lemma ex_receipt_idempotent: "(case ex_receipt ModeIdempotent of Some (Inr rc, s1) \<Rightarrow> True | _ \<Rightarrow> False)"
  by code_simp

theorem idempotent_effect_replays_witness:
  "\<exists>rc s1 rc' s3. recorder_start ex_hash ex_aborts ex_call ''mail'' ModeIdempotent ex_context ex_ledger = Some (Inr rc, s1) \<and>
     recorder_start ex_hash ex_aborts ex_call ''mail'' ModeIdempotent ex_context s1 = Some (Inr rc', s3) \<and>
     tr_idempotency_key rc' = tr_idempotency_key rc"
proof -
  obtain rc s1 where first: "recorder_start ex_hash ex_aborts ex_call ''mail'' ModeIdempotent ex_context ex_ledger = Some (Inr rc, s1)"
    using ex_receipt_idempotent by (auto simp: ex_receipt_def split: option.splits prod.splits sum.splits)
  from idempotent_effect_replays [OF ex_ledger_reachable ex_aborts_interferes first rtranclp.rtrancl_refl
      ex_aborts_interferes] first
  show ?thesis by blast
qed

end
