(* ===== verification/Flow_Work.thy ===== *)
theory Flow_Work
  imports Flow_Interfaces
begin

text \<open>
  \<open>flows/work.py\<close>: the in-memory source of durable Flow work. Commands are enqueued idempotently,
  workers claim items under a fenced delivery (a token and an expiry), settle them by completing,
  blocking or retrying, and operators review blocked items. Every operation runs under the source's
  lock and is one atomic state transformer; \<open>work_step\<close> is one operation of any client. An item is filed
  under the id of its command, which \<open>enqueue\<close> does not check: it replaces an item of the same id.
\<close>

declare map_of_eq_Some_iff [simp del] Some_eq_map_of_iff [simp del]

subsection \<open>Data\<close>

datatype work_kind = EXECUTE | RESUME | CANCEL | RECOVER

datatype work_status = WPending | WClaimed | WCompleted | WBlocked | WDiscarded

datatype review_decision = APPROVE_RETRY | REJECT

record work_command =
  wc_id :: uuid
  wc_run_id :: uuid
  wc_kind :: work_kind
  wc_idempotency_key :: string
  wc_data :: jobj
  wc_created_at :: timestamp

definition valid_command :: "work_command \<Rightarrow> bool" where
  "valid_command c \<longleftrightarrow> within_length 256 (wc_idempotency_key c)"

definition command_same_intent :: "work_command \<Rightarrow> work_command \<Rightarrow> bool" where
  "command_same_intent a b \<longleftrightarrow> wc_run_id a = wc_run_id b \<and> wc_kind a = wc_kind b \<and> jobj_eq (wc_data a) (wc_data b)"

record work_item =
  wi_command :: work_command
  wi_status :: work_status
  wi_attempt :: int
  wi_available_at :: timestamp
  wi_owner_id :: "string option"
  wi_delivery_token :: "uuid option"
  wi_last_delivery_token :: "uuid option"
  wi_claimed_at :: "timestamp option"
  wi_lease_expires_at :: "timestamp option"
  wi_last_error_type :: "string option"
  wi_blocked_reason :: "string option"
  wi_updated_at :: timestamp

abbreviation wi_id :: "work_item \<Rightarrow> uuid" where
  "wi_id i \<equiv> wc_id (wi_command i)"

definition valid_work_item :: "work_item \<Rightarrow> bool" where
  "valid_work_item i \<longleftrightarrow> 0 \<le> wi_attempt i \<and> opt_all (within_length 256) (wi_owner_id i) \<and>
     opt_all (within_length 256) (wi_last_error_type i) \<and> opt_all (within_length 256) (wi_blocked_reason i) \<and>
     (if wi_status i = WClaimed
      then wi_owner_id i \<noteq> None \<and> wi_delivery_token i \<noteq> None \<and> wi_claimed_at i \<noteq> None \<and>
        wi_lease_expires_at i \<noteq> None \<and> 1 \<le> wi_attempt i
      else wi_owner_id i = None \<and> wi_delivery_token i = None \<and> wi_claimed_at i = None \<and>
        wi_lease_expires_at i = None) \<and>
     (wi_status i = WBlocked \<longleftrightarrow> wi_blocked_reason i \<noteq> None)"

record work_review =
  wr_id :: uuid
  wr_work_id :: uuid
  wr_decision :: review_decision
  wr_reviewer_id :: string
  wr_reason_code :: string
  wr_idempotency_key :: string
  wr_delay_seconds :: seconds
  wr_created_at :: timestamp

definition valid_review :: "work_review \<Rightarrow> bool" where
  "valid_review v \<longleftrightarrow> within_length 256 (wr_reviewer_id v) \<and> within_length 256 (wr_reason_code v) \<and>
     within_length 256 (wr_idempotency_key v) \<and> 0 \<le> wr_delay_seconds v \<and>
     \<not> (wr_decision v = REJECT \<and> wr_delay_seconds v \<noteq> 0)"

definition review_same_intent :: "work_review \<Rightarrow> work_review \<Rightarrow> bool" where
  "review_same_intent a b \<longleftrightarrow> wr_work_id a = wr_work_id b \<and> wr_decision a = wr_decision b \<and>
     wr_reviewer_id a = wr_reviewer_id b \<and> wr_reason_code a = wr_reason_code b \<and>
     wr_delay_seconds a = wr_delay_seconds b"

subsection \<open>The source\<close>

record work_source = host +
  ws_items :: "(uuid, work_item) dict"
  ws_idempotency :: "(string, uuid) dict"
  ws_reviews :: "(uuid, work_review list) dict"
  ws_review_idempotency :: "(string, work_review) dict"

type_synonym 'a work_prog = "(work_source, exn, 'a) prog"

definition empty_source :: "(nat \<Rightarrow> timestamp) \<Rightarrow> (nat \<Rightarrow> uuid) \<Rightarrow> work_source" where
  "empty_source clk ids = \<lparr>clock_stream = clk, clock_reads = 0, uuid_stream = ids, uuid_draws = 0,
     ws_items = [], ws_idempotency = [], ws_reviews = [], ws_review_idempotency = []\<rparr>"

text \<open>\<open>_copy_item\<close>, and the lookups of the operations that raise \<open>FlowWorkNotFoundError\<close>.\<close>

definition copy_item :: "uuid \<Rightarrow> work_item work_prog" where
  "copy_item k = pbind pget (\<lambda>s. case dict_get (ws_items s) k of
     None \<Rightarrow> praise FlowWorkNotFoundError | Some i \<Rightarrow> pret i)"

definition put_item :: "uuid \<Rightarrow> work_item \<Rightarrow> work_item work_prog" where
  "put_item k i = pbind (pput (\<lambda>s. s\<lparr>ws_items := dict_set k i (ws_items s)\<rparr>)) (\<lambda>_. pret i)"

definition work_enqueue :: "work_command \<Rightarrow> work_item work_prog" where
  "work_enqueue c = pbind pget (\<lambda>s. case dict_get (ws_idempotency s) (wc_idempotency_key c) of
     Some existing_id \<Rightarrow> (case dict_get (ws_items s) existing_id of
       None \<Rightarrow> praise KeyError
     | Some existing \<Rightarrow>
         if \<not> command_same_intent (wi_command existing) c then praise FlowWorkIdempotencyConflictError
         else pret existing)
   | None \<Rightarrow> pbind utc_now (\<lambda>now.
       pbind (plift (construct valid_work_item
         \<lparr>wi_command = c, wi_status = WPending, wi_attempt = 0, wi_available_at = now, wi_owner_id = None,
          wi_delivery_token = None, wi_last_delivery_token = None, wi_claimed_at = None,
          wi_lease_expires_at = None, wi_last_error_type = None, wi_blocked_reason = None,
          wi_updated_at = now\<rparr>)) (\<lambda>item.
       pbind (put_item (wi_id item) item) (\<lambda>_.
       pbind (pput (\<lambda>s. s\<lparr>ws_idempotency := dict_set (wc_idempotency_key c) (wi_id item) (ws_idempotency s)\<rparr>)) (\<lambda>_.
       pret item)))))"

definition work_get :: "uuid \<Rightarrow> work_item work_prog" where
  "work_get k = copy_item k"

definition validate_list_limit :: "int \<Rightarrow> exn + unit" where
  "validate_list_limit limit =
     guard (1 \<le> limit \<and> limit \<le> 1000) (ValueError ''Flow work list limit must be between 1 and 1000'')"

definition list_blocked :: "int \<Rightarrow> work_item list work_prog" where
  "list_blocked limit = pbind (plift (validate_list_limit limit)) (\<lambda>_. pbind pget (\<lambda>s.
     pret (take (nat limit) (sort_key (\<lambda>i. (wi_updated_at i, wi_id i))
       (filter (\<lambda>i. wi_status i = WBlocked) (dict_values (ws_items s)))))))"

definition validate_review_intent :: "work_review \<Rightarrow> work_review \<Rightarrow> exn + unit" where
  "validate_review_intent existing requested =
     guard (review_same_intent existing requested) FlowWorkReviewConflictError"

definition apply_review :: "work_item \<Rightarrow> work_review \<Rightarrow> timestamp \<Rightarrow> work_item" where
  "apply_review current v now = (if wr_decision v = APPROVE_RETRY
     then current\<lparr>wi_status := WPending, wi_available_at := now + timedelta (wr_delay_seconds v),
       wi_blocked_reason := None, wi_last_error_type := None, wi_updated_at := now\<rparr>
     else current\<lparr>wi_status := WDiscarded, wi_blocked_reason := None, wi_updated_at := now\<rparr>)"

text \<open>\<open>self._reviews.setdefault(k, []).append(v)\<close>.\<close>

definition append_review :: "uuid \<Rightarrow> work_review \<Rightarrow> (uuid, work_review list) dict \<Rightarrow> (uuid, work_review list) dict" where
  "append_review k v d = dict_set k ((case dict_get d k of None \<Rightarrow> [] | Some vs \<Rightarrow> vs) @ [v]) d"

definition work_review_op :: "work_review \<Rightarrow> (work_review \<times> work_item) work_prog" where
  "work_review_op v = pbind pget (\<lambda>s. case dict_get (ws_review_idempotency s) (wr_idempotency_key v) of
     Some existing \<Rightarrow> pbind (plift (validate_review_intent existing v)) (\<lambda>_.
       pbind (copy_item (wr_work_id existing)) (\<lambda>item. pret (existing, item)))
   | None \<Rightarrow> pbind (copy_item (wr_work_id v)) (\<lambda>current.
       if wi_status current \<noteq> WBlocked then praise FlowWorkReviewStateError
       else pbind utc_now (\<lambda>t.
         let replacement = apply_review current v t; persisted = v\<lparr>wr_created_at := t\<rparr> in
         pbind (put_item (wi_id current) replacement) (\<lambda>_.
         pbind (pput (\<lambda>s. s\<lparr>ws_reviews := append_review (wi_id current) persisted (ws_reviews s),
           ws_review_idempotency := dict_set (wr_idempotency_key v) persisted (ws_review_idempotency s)\<rparr>)) (\<lambda>_.
         pret (persisted, replacement))))))"

definition list_reviews :: "uuid \<Rightarrow> work_review list work_prog" where
  "list_reviews k = pbind pget (\<lambda>s. if dict_get (ws_items s) k = None then praise FlowWorkNotFoundError
     else pret (case dict_get (ws_reviews s) k of None \<Rightarrow> [] | Some vs \<Rightarrow> vs))"

definition validate_delivery_arguments :: "string \<Rightarrow> seconds \<Rightarrow> exn + unit" where
  "validate_delivery_arguments owner ttl =
     (if blank owner then Inl (ValueError ''Flow work owner_id must not be blank'')
      else if 256 < length owner then Inl (ValueError ''Flow work owner_id must not exceed 256 characters'')
      else if ttl \<le> 0 then Inl (ValueError ''Flow work ttl_seconds must be greater than zero'')
      else Inr ())"

definition claimable :: "timestamp \<Rightarrow> work_item \<Rightarrow> bool" where
  "claimable now i \<longleftrightarrow> wi_status i = WPending \<and> wi_available_at i \<le> now \<or>
     wi_status i = WClaimed \<and> (case wi_lease_expires_at i of None \<Rightarrow> False | Some e \<Rightarrow> e \<le> now)"

definition claim_order :: "work_item \<Rightarrow> timestamp \<times> timestamp \<times> uuid" where
  "claim_order i = (wi_available_at i, wc_created_at (wi_command i), wi_id i)"

text \<open>\<open>min(xs, key=f)\<close>: the first of the smallest elements.\<close>

fun min_by :: "('a \<Rightarrow> 'k::linorder) \<Rightarrow> 'a list \<Rightarrow> 'a option" where
  "min_by f [] = None"
| "min_by f (x # xs) = (case min_by f xs of None \<Rightarrow> Some x | Some y \<Rightarrow> Some (if f y < f x then y else x))"

definition work_claim :: "string \<Rightarrow> seconds \<Rightarrow> timestamp option \<Rightarrow> work_item option work_prog" where
  "work_claim owner ttl now =
     pbind (plift (validate_delivery_arguments owner ttl)) (\<lambda>_.
     pbind (now_or_clock now) (\<lambda>claimed_at. pbind pget (\<lambda>s.
     case min_by claim_order (filter (claimable claimed_at) (dict_values (ws_items s))) of
       None \<Rightarrow> pret None
     | Some current \<Rightarrow> pbind uuid4 (\<lambda>token.
         let claimed = current\<lparr>wi_status := WClaimed, wi_attempt := wi_attempt current + 1,
               wi_owner_id := Some owner, wi_delivery_token := Some token, wi_claimed_at := Some claimed_at,
               wi_lease_expires_at := Some (claimed_at + timedelta ttl), wi_updated_at := claimed_at\<rparr> in
         pbind (put_item (wi_id current) claimed) (\<lambda>_. pret (Some claimed))))))"

definition delivery_lost :: "work_item \<Rightarrow> uuid \<Rightarrow> timestamp \<Rightarrow> bool" where
  "delivery_lost i token now \<longleftrightarrow> wi_status i \<noteq> WClaimed \<or> wi_delivery_token i \<noteq> Some token \<or>
     (case wi_lease_expires_at i of None \<Rightarrow> True | Some e \<Rightarrow> e \<le> now)"

definition require_delivery :: "uuid \<Rightarrow> uuid \<Rightarrow> timestamp \<Rightarrow> work_status \<Rightarrow> work_item work_prog" where
  "require_delivery k token now idempotent_status = pbind (copy_item k) (\<lambda>current.
     if wi_status current = idempotent_status \<and> wi_last_delivery_token current = Some token then pret current
     else if delivery_lost current token now then praise FlowWorkDeliveryLostError
     else pret current)"

definition require_active_delivery :: "uuid \<Rightarrow> uuid \<Rightarrow> timestamp \<Rightarrow> work_item work_prog" where
  "require_active_delivery k token now = pbind (copy_item k) (\<lambda>current.
     if delivery_lost current token now then praise FlowWorkDeliveryLostError else pret current)"

definition work_renew :: "uuid \<Rightarrow> uuid \<Rightarrow> seconds \<Rightarrow> timestamp option \<Rightarrow> work_item work_prog" where
  "work_renew k token ttl now =
     (if ttl \<le> 0 then praise (ValueError ''Flow work ttl_seconds must be greater than zero'')
      else pbind (now_or_clock now) (\<lambda>t. pbind (require_active_delivery k token t) (\<lambda>current.
        put_item k (current\<lparr>wi_lease_expires_at := Some (t + timedelta ttl), wi_updated_at := t\<rparr>))))"

text \<open>The fields that every settlement of a delivery resets.\<close>

definition released :: "work_item \<Rightarrow> timestamp \<Rightarrow> work_item" where
  "released current t = current\<lparr>wi_owner_id := None, wi_last_delivery_token := wi_delivery_token current,
     wi_delivery_token := None, wi_claimed_at := None, wi_lease_expires_at := None, wi_updated_at := t\<rparr>"

definition work_complete :: "uuid \<Rightarrow> uuid \<Rightarrow> timestamp option \<Rightarrow> work_item work_prog" where
  "work_complete k token now = pbind (now_or_clock now) (\<lambda>t.
     pbind (require_delivery k token t WCompleted) (\<lambda>current.
     if wi_status current = WCompleted then pret current
     else put_item k ((released current t)\<lparr>wi_status := WCompleted\<rparr>)))"

definition validate_reason_code :: "string \<Rightarrow> exn + unit" where
  "validate_reason_code reason = guard (\<not> blank reason \<and> length reason \<le> 256)
     (ValueError ''Flow work blocked reason_code must be 1 to 256 characters'')"

definition work_block :: "uuid \<Rightarrow> uuid \<Rightarrow> string \<Rightarrow> timestamp option \<Rightarrow> work_item work_prog" where
  "work_block k token reason now = pbind (plift (validate_reason_code reason)) (\<lambda>_.
     pbind (now_or_clock now) (\<lambda>t. pbind (require_delivery k token t WBlocked) (\<lambda>current.
     if wi_status current = WBlocked then pret current
     else put_item k ((released current t)\<lparr>wi_status := WBlocked, wi_blocked_reason := Some reason\<rparr>))))"

definition work_retry :: "uuid \<Rightarrow> uuid \<Rightarrow> seconds \<Rightarrow> string option \<Rightarrow> timestamp option \<Rightarrow> work_item work_prog" where
  "work_retry k token delay error_type now =
     (if delay < 0 then praise (ValueError ''Flow work retry delay_seconds must not be negative'')
      else if (case error_type of None \<Rightarrow> False | Some e \<Rightarrow> blank e \<or> 256 < length e)
      then praise (ValueError ''Flow work retry error_type must be 1 to 256 characters'')
      else pbind (now_or_clock now) (\<lambda>t. pbind (require_delivery k token t WPending) (\<lambda>current.
        if wi_status current = WPending then pret current
        else put_item k ((released current t)\<lparr>wi_status := WPending,
          wi_available_at := t + timedelta delay, wi_last_error_type := error_type\<rparr>))))"

subsection \<open>What the operations do\<close>

text \<open>The time an operation works at, and the source after its clock reading.\<close>

definition time_of :: "timestamp option \<Rightarrow> work_source \<Rightarrow> timestamp" where
  "time_of now s = (case now of Some t \<Rightarrow> t | None \<Rightarrow> clock_stream s (clock_reads s))"

definition timed :: "timestamp option \<Rightarrow> work_source \<Rightarrow> work_source" where
  "timed now s = (case now of Some t \<Rightarrow> s | None \<Rightarrow> s\<lparr>clock_reads := Suc (clock_reads s)\<rparr>)"

lemma now_or_clock_work: "now_or_clock now s = (Inr (time_of now s), timed now s)"
  by (cases now) (simp_all add: now_or_clock_def time_of_def timed_def utc_now_def)

lemma timed_fields [simp]: "ws_items (timed now s) = ws_items s" "ws_idempotency (timed now s) = ws_idempotency s"
  "ws_reviews (timed now s) = ws_reviews s" "ws_review_idempotency (timed now s) = ws_review_idempotency s"
  "uuid_stream (timed now s) = uuid_stream s" "uuid_draws (timed now s) = uuid_draws s"
  by (cases now; simp add: timed_def)+

abbreviation item_at :: "work_source \<Rightarrow> uuid \<Rightarrow> work_item option" where
  "item_at s k \<equiv> dict_get (ws_items s) k"

definition reviews_of :: "work_source \<Rightarrow> uuid \<Rightarrow> work_review list" where
  "reviews_of s k = (case dict_get (ws_reviews s) k of None \<Rightarrow> [] | Some vs \<Rightarrow> vs)"

lemma copy_item_eq: "copy_item k s = (case item_at s k of None \<Rightarrow> (Inl FlowWorkNotFoundError, s) | Some i \<Rightarrow> (Inr i, s))"
  by (simp add: copy_item_def pbind_app split: option.split)

lemma put_item_eq [simp]: "put_item k i s = (Inr i, s\<lparr>ws_items := dict_set k i (ws_items s)\<rparr>)"
  by (simp add: put_item_def pbind_app)

lemma require_delivery_eq: "require_delivery k tok t st s = (case item_at s k of
     None \<Rightarrow> (Inl FlowWorkNotFoundError, s)
   | Some i \<Rightarrow> if wi_status i = st \<and> wi_last_delivery_token i = Some tok then (Inr i, s)
     else if delivery_lost i tok t then (Inl FlowWorkDeliveryLostError, s) else (Inr i, s))"
  by (simp add: require_delivery_def pbind_app copy_item_eq split: option.split)

lemma require_active_delivery_eq: "require_active_delivery k tok t s = (case item_at s k of
     None \<Rightarrow> (Inl FlowWorkNotFoundError, s)
   | Some i \<Rightarrow> if delivery_lost i tok t then (Inl FlowWorkDeliveryLostError, s) else (Inr i, s))"
  by (simp add: require_active_delivery_def pbind_app copy_item_eq split: option.split)

lemmas delivery_eqs = now_or_clock_work copy_item_eq require_delivery_eq require_active_delivery_eq pbind_app

text \<open>The ways in which a stored item changes; the source is the one before the operation.\<close>

definition claimed_item :: "work_item \<Rightarrow> string \<Rightarrow> uuid \<Rightarrow> timestamp \<Rightarrow> seconds \<Rightarrow> work_item" where
  "claimed_item i owner tok t ttl = i\<lparr>wi_status := WClaimed, wi_attempt := wi_attempt i + 1, wi_owner_id := Some owner,
     wi_delivery_token := Some tok, wi_claimed_at := Some t, wi_lease_expires_at := Some (t + timedelta ttl), wi_updated_at := t\<rparr>"

inductive item_change :: "work_source \<Rightarrow> work_item \<Rightarrow> work_item \<Rightarrow> bool" for s where
  change_claim: "claimable t i \<Longrightarrow> within_length 256 owner \<Longrightarrow>
     item_change s i (claimed_item i owner (uuid_stream s (uuid_draws s)) t ttl)"
| change_renew: "\<not> delivery_lost i tok t \<Longrightarrow> item_change s i (i\<lparr>wi_lease_expires_at := Some e, wi_updated_at := t\<rparr>)"
| change_complete: "\<not> delivery_lost i tok t \<Longrightarrow> item_change s i ((released i t)\<lparr>wi_status := WCompleted\<rparr>)"
| change_block: "\<not> delivery_lost i tok t \<Longrightarrow> within_length 256 reason \<Longrightarrow>
     item_change s i ((released i t)\<lparr>wi_status := WBlocked, wi_blocked_reason := Some reason\<rparr>)"
| change_retry: "\<not> delivery_lost i tok t \<Longrightarrow> opt_all (within_length 256) err \<Longrightarrow>
     item_change s i ((released i t)\<lparr>wi_status := WPending, wi_available_at := a, wi_last_error_type := err\<rparr>)"

definition only_host :: "work_source \<Rightarrow> work_source \<Rightarrow> bool" where
  "only_host s s' \<longleftrightarrow> ws_items s' = ws_items s \<and> ws_idempotency s' = ws_idempotency s \<and> ws_reviews s' = ws_reviews s \<and>
     ws_review_idempotency s' = ws_review_idempotency s \<and> uuid_stream s' = uuid_stream s \<and> uuid_draws s \<le> uuid_draws s'"

lemma only_host_simps [simp]: "only_host s s" "only_host s (timed now s)"
  by (simp_all add: only_host_def)

text \<open>A delivery operation writes nothing, or it changes one stored item.\<close>

definition delivers :: "work_source \<Rightarrow> work_source \<Rightarrow> bool" where
  "delivers s s' \<longleftrightarrow> (\<exists>k i i' d. item_at s k = Some i \<and> item_change s i i' \<and> uuid_draws s \<le> uuid_draws d \<and>
     (\<forall>tok. wi_delivery_token i' = Some tok \<longrightarrow> wi_delivery_token i = Some tok \<or> uuid_draws s < uuid_draws d) \<and>
     only_host s d \<and> s' = d\<lparr>ws_items := dict_set k i' (ws_items s)\<rparr>)"

lemma deliversI:
  assumes "item_at s k = Some i" "item_change s i i'" "only_host s d" "wi_delivery_token i' \<in> {None, wi_delivery_token i}"
    and "s' = d\<lparr>ws_items := dict_set k i' (ws_items s)\<rparr>"
  shows "delivers s s'"
  using assms unfolding delivers_def by (intro exI [of _ k] exI [of _ i] exI [of _ i'] exI [of _ d]) (auto simp: only_host_def)

lemma not_blank_within: "\<not> blank x \<Longrightarrow> length x \<le> 256 \<Longrightarrow> within_length 256 x"
  by (cases x) (auto simp: within_length_def)

lemma released_token [simp]: "wi_delivery_token (released i t) = None"
  by (simp add: released_def)

lemma work_renew_does: "work_renew k tok ttl now s = (r, s') \<Longrightarrow> only_host s s' \<or> delivers s s'"
  by (auto simp: work_renew_def delivery_eqs split: if_splits option.splits
      intro!: deliversI [OF _ change_renew, of s k _ tok "time_of now s" "timed now s"])

lemma work_complete_does: "work_complete k tok now s = (r, s') \<Longrightarrow> only_host s s' \<or> delivers s s'"
  by (auto simp: work_complete_def delivery_eqs split: if_splits option.splits
      intro!: deliversI [OF _ change_complete, of s k _ tok "time_of now s" "timed now s"])

lemma work_block_does: "work_block k tok reason now s = (r, s') \<Longrightarrow> only_host s s' \<or> delivers s s'"
  by (auto simp: work_block_def delivery_eqs validate_reason_code_def guard_def not_blank_within
      split: if_splits option.splits
      intro!: deliversI [OF _ change_block, of s k _ tok "time_of now s" _ "timed now s"])

lemma work_retry_does: "work_retry k tok delay err now s = (r, s') \<Longrightarrow> only_host s s' \<or> delivers s s'"
  by (auto simp: work_retry_def delivery_eqs opt_all_def not_blank_within split: if_splits option.splits
      intro!: deliversI [OF _ change_retry [where err = err and tok = tok and t = "time_of now s"], where k = k and d = "timed now s"])

lemma min_by_None [simp]: "min_by f xs = None \<longleftrightarrow> xs = []"
  by (cases xs) (auto split: option.splits)

lemma min_by_Some: "min_by f xs = Some x \<Longrightarrow> x \<in> set xs \<and> (\<forall>y \<in> set xs. f x \<le> f y)"
proof (induction xs arbitrary: x)
  case (Cons a xs)
  then show ?case by (cases "min_by f xs") (fastforce split: if_splits)+
qed simp

lemma validate_delivery_Inr: "validate_delivery_arguments owner ttl = Inr u \<longleftrightarrow>
   \<not> blank owner \<and> length owner \<le> 256 \<and> 0 < ttl"
  by (auto simp: validate_delivery_arguments_def)

lemma work_claim_eq: "work_claim owner ttl now s = (case validate_delivery_arguments owner ttl of
     Inl e \<Rightarrow> (Inl e, s)
   | Inr _ \<Rightarrow> (case min_by claim_order (filter (claimable (time_of now s)) (dict_values (ws_items s))) of
       None \<Rightarrow> (Inr None, timed now s)
     | Some i \<Rightarrow> (let c = claimed_item i owner (uuid_stream s (uuid_draws s)) (time_of now s) ttl in
         (Inr (Some c), (timed now s)\<lparr>uuid_draws := Suc (uuid_draws s), ws_items := dict_set (wi_id i) c (ws_items s)\<rparr>))))"
  by (simp add: work_claim_def pbind_app now_or_clock_work uuid4_def claimed_item_def Let_def split: sum.split option.split)

definition fresh_item :: "work_command \<Rightarrow> timestamp \<Rightarrow> work_item" where
  "fresh_item c t = \<lparr>wi_command = c, wi_status = WPending, wi_attempt = 0, wi_available_at = t, wi_owner_id = None,
     wi_delivery_token = None, wi_last_delivery_token = None, wi_claimed_at = None, wi_lease_expires_at = None,
     wi_last_error_type = None, wi_blocked_reason = None, wi_updated_at = t\<rparr>"

lemma fresh_item_valid [simp]: "valid_work_item (fresh_item c t)"
  by (simp add: valid_work_item_def fresh_item_def)

lemma work_enqueue_eq: "work_enqueue c s = (case dict_get (ws_idempotency s) (wc_idempotency_key c) of
     Some k \<Rightarrow> (case item_at s k of None \<Rightarrow> (Inl KeyError, s)
       | Some i \<Rightarrow> if command_same_intent (wi_command i) c then (Inr i, s) else (Inl FlowWorkIdempotencyConflictError, s))
   | None \<Rightarrow> (let i = fresh_item c (time_of None s) in
       (Inr i, (timed None s)\<lparr>ws_items := dict_set (wc_id c) i (ws_items s),
         ws_idempotency := dict_set (wc_idempotency_key c) (wc_id c) (ws_idempotency s)\<rparr>)))"
  using fresh_item_valid [of c "time_of None s"]
  by (simp add: work_enqueue_def pbind_app utc_now_def construct_def fresh_item_def time_of_def timed_def Let_def
      split: option.split)

lemma work_review_eq: "work_review_op v s = (case dict_get (ws_review_idempotency s) (wr_idempotency_key v) of
     Some v0 \<Rightarrow> if \<not> review_same_intent v0 v then (Inl FlowWorkReviewConflictError, s)
       else (case item_at s (wr_work_id v0) of None \<Rightarrow> (Inl FlowWorkNotFoundError, s) | Some i \<Rightarrow> (Inr (v0, i), s))
   | None \<Rightarrow> (case item_at s (wr_work_id v) of None \<Rightarrow> (Inl FlowWorkNotFoundError, s)
     | Some i \<Rightarrow> if wi_status i \<noteq> WBlocked then (Inl FlowWorkReviewStateError, s)
       else (let t = time_of None s; i' = apply_review i v t; v' = v\<lparr>wr_created_at := t\<rparr> in
         (Inr (v', i'), (timed None s)\<lparr>ws_items := dict_set (wi_id i) i' (ws_items s),
            ws_reviews := append_review (wi_id i) v' (ws_reviews s),
            ws_review_idempotency := dict_set (wr_idempotency_key v) v' (ws_review_idempotency s)\<rparr>))))"
  by (simp add: work_review_op_def pbind_app copy_item_eq utc_now_def time_of_def timed_def Let_def
      validate_review_intent_def guard_def split: option.split)

subsection \<open>Operations of all clients\<close>

text \<open>
  One operation of a client, or a reading of the clock or of \<open>uuid4\<close>. A command carries any id,
  also the id of a stored item: \<open>enqueue\<close> checks its idempotency key only.
\<close>

inductive work_step :: "work_source \<Rightarrow> work_source \<Rightarrow> bool" where
  step_enqueue: "valid_command c \<Longrightarrow> work_enqueue c s = (r, s') \<Longrightarrow> work_step s s'"
| step_review: "valid_review v \<Longrightarrow> work_review_op v s = (r, s') \<Longrightarrow> work_step s s'"
| step_claim: "work_claim owner ttl now s = (r, s') \<Longrightarrow> work_step s s'"
| step_renew: "work_renew k tok ttl now s = (r, s') \<Longrightarrow> work_step s s'"
| step_complete: "work_complete k tok now s = (r, s') \<Longrightarrow> work_step s s'"
| step_block: "work_block k tok reason now s = (r, s') \<Longrightarrow> work_step s s'"
| step_retry: "work_retry k tok delay err now s = (r, s') \<Longrightarrow> work_step s s'"
| step_host: "only_host s s' \<Longrightarrow> work_step s s'"

definition drawn_token :: "work_source \<Rightarrow> uuid \<Rightarrow> bool" where
  "drawn_token s tok \<longleftrightarrow> (\<exists>m < uuid_draws s. tok = uuid_stream s m)"

text \<open>An item is filed under its command's id, satisfies its validators, is indexed by its idempotency key,
  and its tokens were drawn from \<open>uuid4\<close>, the current one after the last one.\<close>

definition item_ok :: "work_source \<Rightarrow> uuid \<Rightarrow> work_item \<Rightarrow> bool" where
  "item_ok s k i \<longleftrightarrow> wi_id i = k \<and> valid_work_item i \<and>
     dict_get (ws_idempotency s) (wc_idempotency_key (wi_command i)) = Some k \<and>
     opt_all (drawn_token s) (wi_delivery_token i) \<and> opt_all (drawn_token s) (wi_last_delivery_token i) \<and>
     (wi_delivery_token i \<noteq> None \<longrightarrow> wi_delivery_token i \<noteq> wi_last_delivery_token i)"

definition work_inv :: "work_source \<Rightarrow> bool" where
  "work_inv s \<longleftrightarrow> inj (uuid_stream s) \<and> dict_ok (ws_items s) \<and> dict_all (item_ok s) (ws_items s) \<and>
     dict_all (\<lambda>key k. item_at s k \<noteq> None) (ws_idempotency s) \<and>
     dict_all (\<lambda>key v. wr_idempotency_key v = key \<and> v \<in> set (reviews_of s (wr_work_id v)) \<and>
       item_at s (wr_work_id v) \<noteq> None) (ws_review_idempotency s)"

text \<open>What a step does, given the invariant.\<close>

definition enqueues :: "work_source \<Rightarrow> work_source \<Rightarrow> bool" where
  "enqueues s s' \<longleftrightarrow> (\<exists>c t d. valid_command c \<and>
     dict_get (ws_idempotency s) (wc_idempotency_key c) = None \<and> only_host s d \<and>
     s' = d\<lparr>ws_items := dict_set (wc_id c) (fresh_item c t) (ws_items s),
       ws_idempotency := dict_set (wc_idempotency_key c) (wc_id c) (ws_idempotency s)\<rparr>)"

definition reviews :: "work_source \<Rightarrow> work_source \<Rightarrow> bool" where
  "reviews s s' \<longleftrightarrow> (\<exists>v t i d. valid_review v \<and> item_at s (wr_work_id v) = Some i \<and> wi_status i = WBlocked \<and>
     dict_get (ws_review_idempotency s) (wr_idempotency_key v) = None \<and> only_host s d \<and>
     s' = d\<lparr>ws_items := dict_set (wr_work_id v) (apply_review i v t) (ws_items s),
       ws_reviews := append_review (wr_work_id v) (v\<lparr>wr_created_at := t\<rparr>) (ws_reviews s),
       ws_review_idempotency := dict_set (wr_idempotency_key v) (v\<lparr>wr_created_at := t\<rparr>) (ws_review_idempotency s)\<rparr>)"

lemma item_okD: "work_inv s \<Longrightarrow> item_at s k = Some i \<Longrightarrow> item_ok s k i"
  unfolding work_inv_def by (blast dest: dict_allD)

lemma claim_delivers:
  assumes inv: "work_inv s" and run: "work_claim owner ttl now s = (r, s')"
  shows "only_host s s' \<or> delivers s s'"
proof (cases "\<exists>c. r = Inr (Some c)")
  case False
  with run show ?thesis by (auto simp: work_claim_eq Let_def split: sum.splits option.splits)
next
  case True
  with run obtain i where args: "\<not> blank owner" "length owner \<le> 256"
    and i: "min_by claim_order (filter (claimable (time_of now s)) (dict_values (ws_items s))) = Some i"
    and s': "s' = (timed now s)\<lparr>uuid_draws := Suc (uuid_draws s),
      ws_items := dict_set (wi_id i) (claimed_item i owner (uuid_stream s (uuid_draws s)) (time_of now s) ttl) (ws_items s)\<rparr>"
    by (auto simp: work_claim_eq Let_def validate_delivery_Inr split: sum.splits option.splits)
  from min_by_Some [OF i] have c: "claimable (time_of now s) i" "i \<in> set (dict_values (ws_items s))" by auto
  then obtain k where k: "item_at s k = Some i" using dict_values_get inv by (metis work_inv_def)
  with item_okD [OF inv] have "wi_id i = k" by (simp add: item_ok_def)
  then show ?thesis
    unfolding delivers_def using k change_claim [OF c(1) not_blank_within [OF args]] s'
    by (intro disjI2 exI [of _ k] exI [of _ i] exI conjI [OF k] conjI [OF change_claim [OF c(1) not_blank_within [OF args], of s ttl]]
        exI [of _ "(timed now s)\<lparr>uuid_draws := Suc (uuid_draws s)\<rparr>"]) (auto simp: only_host_def)
qed

lemma work_step_cases:
  assumes "work_step s s'" and inv: "work_inv s"
  shows "only_host s s' \<or> enqueues s s' \<or> reviews s s' \<or> delivers s s'"
  using assms(1)
proof cases
  case (step_enqueue c r)
  show ?thesis
  proof (cases "s' = s")
    case False
    with step_enqueue have c: "dict_get (ws_idempotency s) (wc_idempotency_key c) = None"
      by (auto simp: work_enqueue_eq split: option.splits if_splits)
    with step_enqueue have "enqueues s s'"
      unfolding enqueues_def by (intro exI [of _ c] exI [of _ "time_of None s"] exI [of _ "timed None s"])
        (simp add: work_enqueue_eq Let_def)
    then show ?thesis by blast
  qed simp
next
  case (step_review v r)
  show ?thesis
  proof (cases "s' = s")
    case False
    with step_review obtain i where i: "dict_get (ws_review_idempotency s) (wr_idempotency_key v) = None"
      "item_at s (wr_work_id v) = Some i" "wi_status i = WBlocked"
      by (auto simp: work_review_eq split: option.splits if_splits)
    then have "wi_id i = wr_work_id v" using item_okD [OF inv] by (simp add: item_ok_def)
    with step_review i have "reviews s s'"
      unfolding reviews_def by (intro exI [of _ v] exI [of _ "time_of None s"] exI [of _ i] exI [of _ "timed None s"])
        (simp add: work_review_eq Let_def)
    then show ?thesis by blast
  qed simp
next
  case step_claim
  from claim_delivers [OF inv this] show ?thesis by blast
next
  case step_renew
  from work_renew_does [OF this] show ?thesis by blast
next
  case step_complete
  from work_complete_does [OF this] show ?thesis by blast
next
  case step_block
  from work_block_does [OF this] show ?thesis by blast
next
  case step_retry
  from work_retry_does [OF this] show ?thesis by blast
qed simp

subsection \<open>The invariant\<close>

lemma token_drawn_mono: "only_host s s' \<Longrightarrow> drawn_token s tok \<Longrightarrow> drawn_token s' tok"
  unfolding drawn_token_def only_host_def by (metis less_le_trans)

lemma fresh_token: "inj (uuid_stream s) \<Longrightarrow> drawn_token s tok \<Longrightarrow> tok \<noteq> uuid_stream s (uuid_draws s)"
  by (auto simp: drawn_token_def dest: injD)

lemma opt_all_mono: "opt_all P x \<Longrightarrow> (\<And>y. P y \<Longrightarrow> Q y) \<Longrightarrow> opt_all Q x"
  by (cases x) auto

lemma drawn_opt: "only_host s d \<Longrightarrow> opt_all (drawn_token s) x \<Longrightarrow> opt_all (drawn_token d) x"
  using token_drawn_mono by (auto elim: opt_all_mono)

lemma drawn_update [simp]: "drawn_token (s\<lparr>ws_items := x\<rparr>) = drawn_token s"
  "drawn_token (s\<lparr>ws_idempotency := y\<rparr>) = drawn_token s" "drawn_token (s\<lparr>ws_reviews := z\<rparr>) = drawn_token s"
  "drawn_token (s\<lparr>ws_review_idempotency := w\<rparr>) = drawn_token s"
  by (simp_all add: drawn_token_def fun_eq_iff)

lemma item_ok_mono:
  assumes "item_ok s k i" and "uuid_stream s' = uuid_stream s" "uuid_draws s \<le> uuid_draws s'"
    and "\<And>key j. dict_get (ws_idempotency s) key = Some j \<Longrightarrow> dict_get (ws_idempotency s') key = Some j"
  shows "item_ok s' k i"
proof -
  have "drawn_token s' tok" if "drawn_token s tok" for tok
    using that assms(2,3) unfolding drawn_token_def by (metis less_le_trans)
  with assms(1,4) show ?thesis by (auto simp: item_ok_def elim: opt_all_mono)
qed

lemma item_change_command: "item_change s i i' \<Longrightarrow> wi_command i' = wi_command i"
  by (induction rule: item_change.induct) (simp_all add: claimed_item_def released_def)

lemma item_change_valid: "item_change s i i' \<Longrightarrow> valid_work_item i \<Longrightarrow> valid_work_item i'"
  by (cases rule: item_change.cases)
    (auto simp: valid_work_item_def claimed_item_def released_def delivery_lost_def claimable_def split: if_splits)

lemma item_change_tokens:
  assumes "item_change s i i'"
  shows "(wi_delivery_token i' = None \<and> wi_last_delivery_token i' = wi_delivery_token i) \<or>
    (wi_last_delivery_token i' = wi_last_delivery_token i \<and>
     (wi_delivery_token i' = wi_delivery_token i \<or> wi_delivery_token i' = Some (uuid_stream s (uuid_draws s))))"
  using assms by cases (simp_all add: claimed_item_def released_def)

lemma item_change_ok:
  assumes ok: "item_ok s k i" and ch: "item_change s i i'" and inj: "inj (uuid_stream s)" and d: "only_host s d"
    and tok: "\<And>tok. wi_delivery_token i' = Some tok \<Longrightarrow> wi_delivery_token i = Some tok \<or> uuid_draws s < uuid_draws d"
  shows "item_ok d k i'"
proof -
  let ?new = "uuid_stream s (uuid_draws s)"
  have last: "opt_all (drawn_token d) (wi_last_delivery_token i')"
    using item_change_tokens [OF ch] ok drawn_opt [OF d] by (elim disjE conjE) (simp_all add: item_ok_def)
  have "wi_last_delivery_token i \<noteq> Some ?new" "wi_delivery_token i \<noteq> Some ?new"
    using ok fresh_token [OF inj] by (auto simp: item_ok_def opt_all_def split: option.splits)
  then have ne: "wi_delivery_token i' \<noteq> None \<longrightarrow> wi_delivery_token i' \<noteq> wi_last_delivery_token i'"
    using item_change_tokens [OF ch] ok by (auto simp: item_ok_def)
  have "drawn_token d t" if t: "wi_delivery_token i' = Some t" for t
  proof (cases "wi_delivery_token i = Some t")
    case True
    with ok token_drawn_mono [OF d] show ?thesis by (simp add: item_ok_def)
  next
    case False
    with tok [OF t] item_change_tokens [OF ch] t have "t = ?new" "uuid_draws s < uuid_draws d" by auto
    with d show ?thesis unfolding drawn_token_def only_host_def by (intro exI [of _ "uuid_draws s"]) simp
  qed
  then have "opt_all (drawn_token d) (wi_delivery_token i')" by (cases "wi_delivery_token i'") auto
  with last ne ok item_change_valid [OF ch] item_change_command [OF ch] d show ?thesis
    by (simp add: item_ok_def only_host_def)
qed

lemma apply_review_ok:
  assumes "item_ok s k i" "wi_status i = WBlocked"
  shows "item_ok s k (apply_review i v t)"
  using assms by (auto simp: item_ok_def apply_review_def valid_work_item_def)

lemma work_inv_parts:
  assumes "inj (uuid_stream s)" "dict_ok (ws_items s)" "dict_all (item_ok s) (ws_items s)"
    "dict_all (\<lambda>key k. item_at s k \<noteq> None) (ws_idempotency s)"
    "dict_all (\<lambda>key v. wr_idempotency_key v = key \<and> v \<in> set (reviews_of s (wr_work_id v)) \<and>
       item_at s (wr_work_id v) \<noteq> None) (ws_review_idempotency s)"
  shows "work_inv s"
  using assms by (simp add: work_inv_def)

text \<open>Filing an item under \<open>k\<close>.\<close>

lemma work_inv_replace:
  assumes inv: "work_inv s" and d: "only_host s d" and ok: "item_ok d k i'"
  shows "work_inv (d\<lparr>ws_items := dict_set k i' (ws_items s)\<rparr>)"
proof (rule work_inv_parts)
  let ?s = "d\<lparr>ws_items := dict_set k i' (ws_items s)\<rparr>"
  have eqs: "ws_idempotency d = ws_idempotency s" "ws_reviews d = ws_reviews s" "uuid_stream d = uuid_stream s"
    "ws_review_idempotency d = ws_review_idempotency s" "uuid_draws s \<le> uuid_draws d" using d by (simp_all add: only_host_def)
  show "inj (uuid_stream ?s)" "dict_ok (ws_items ?s)" using inv eqs by (simp_all add: work_inv_def)
  have same: "item_ok ?s j x \<longleftrightarrow> item_ok d j x" for j x by (simp add: item_ok_def)
  have "item_ok d j x" if "item_ok s j x" for j x by (rule item_ok_mono [OF that]) (use eqs in auto)
  then have "dict_all (item_ok d) (ws_items s)" using inv unfolding work_inv_def by (auto intro: dict_all_mono)
  from dict_all_set [OF this, OF ok] show "dict_all (item_ok ?s) (ws_items ?s)"
    by (simp add: same dict_all_def)
  have "dict_all (\<lambda>key j. item_at s j \<noteq> None) (ws_idempotency s)"
    using inv unfolding work_inv_def by blast
  then have "dict_all (\<lambda>key j. item_at ?s j \<noteq> None) (ws_idempotency s)"
    by (rule dict_all_mono) simp
  then show "dict_all (\<lambda>key j. item_at ?s j \<noteq> None) (ws_idempotency ?s)"
    by (simp add: eqs)
  have "dict_all (\<lambda>key v. wr_idempotency_key v = key \<and> v \<in> set (reviews_of s (wr_work_id v)) \<and>
       item_at s (wr_work_id v) \<noteq> None) (ws_review_idempotency s)" using inv unfolding work_inv_def by blast
  then have "dict_all (\<lambda>key v. wr_idempotency_key v = key \<and> v \<in> set (reviews_of ?s (wr_work_id v)) \<and>
       item_at ?s (wr_work_id v) \<noteq> None) (ws_review_idempotency s)"
    by (rule dict_all_mono) (simp add: reviews_of_def eqs)
  then show "dict_all (\<lambda>key v. wr_idempotency_key v = key \<and> v \<in> set (reviews_of ?s (wr_work_id v)) \<and>
       item_at ?s (wr_work_id v) \<noteq> None) (ws_review_idempotency ?s)"
    by (simp add: eqs)
qed

lemma work_inv_host: "work_inv s \<Longrightarrow> only_host s s' \<Longrightarrow> work_inv s'"
proof (rule work_inv_parts)
  assume inv: "work_inv s" and d: "only_host s s'"
  have eqs: "ws_items s' = ws_items s" "ws_idempotency s' = ws_idempotency s" "ws_reviews s' = ws_reviews s"
    "uuid_stream s' = uuid_stream s" "ws_review_idempotency s' = ws_review_idempotency s" "uuid_draws s \<le> uuid_draws s'"
    using d by (simp_all add: only_host_def)
  have "item_ok s' j x" if "item_ok s j x" for j x by (rule item_ok_mono [OF that]) (use eqs in auto)
  then show "dict_all (item_ok s') (ws_items s')"
    using inv unfolding work_inv_def eqs by (auto intro: dict_all_mono)
qed (simp_all add: work_inv_def only_host_def reviews_of_def)

lemma work_inv_enqueue:
  assumes inv: "work_inv s" and e: "enqueues s s'"
  shows "work_inv s'"
proof -
  obtain c t d where c: "dict_get (ws_idempotency s) (wc_idempotency_key c) = None"
    and d: "only_host s d" and s': "s' = d\<lparr>ws_items := dict_set (wc_id c) (fresh_item c t) (ws_items s),
       ws_idempotency := dict_set (wc_idempotency_key c) (wc_id c) (ws_idempotency s)\<rparr>"
    using e unfolding enqueues_def by blast
  have eqs: "ws_reviews s' = ws_reviews s" "uuid_stream s' = uuid_stream s" "uuid_draws s \<le> uuid_draws s'"
    "ws_review_idempotency s' = ws_review_idempotency s" using d by (simp_all add: only_host_def s')
  show ?thesis
  proof (rule work_inv_parts)
    show "inj (uuid_stream s')" "dict_ok (ws_items s')" using inv eqs by (simp_all add: work_inv_def s')
    have "item_ok s' j x" if "item_ok s j x" for j x
      by (rule item_ok_mono [OF that]) (use eqs c in \<open>auto simp: s'\<close>)
    then have "dict_all (item_ok s') (ws_items s)" using inv unfolding work_inv_def by (auto intro: dict_all_mono)
    moreover have "item_ok s' (wc_id c) (fresh_item c t)" by (simp add: item_ok_def s') (simp add: fresh_item_def)
    ultimately show "dict_all (item_ok s') (ws_items s')" using dict_all_set by (simp add: s')
    have "dict_all (\<lambda>key j. item_at s j \<noteq> None) (ws_idempotency s)"
      using inv unfolding work_inv_def by blast
    then have "dict_all (\<lambda>key j. item_at s' j \<noteq> None) (ws_idempotency s)"
      by (rule dict_all_mono) (simp add: s')
    moreover have "item_at s' (wc_id c) = Some (fresh_item c t)" by (simp add: s')
    ultimately show "dict_all (\<lambda>key j. item_at s' j \<noteq> None) (ws_idempotency s')"
      using dict_all_set by (simp add: s' dict_all_def)
    have "dict_all (\<lambda>key v. wr_idempotency_key v = key \<and> v \<in> set (reviews_of s (wr_work_id v)) \<and>
       item_at s (wr_work_id v) \<noteq> None) (ws_review_idempotency s)" using inv unfolding work_inv_def by blast
    then show "dict_all (\<lambda>key v. wr_idempotency_key v = key \<and> v \<in> set (reviews_of s' (wr_work_id v)) \<and>
       item_at s' (wr_work_id v) \<noteq> None) (ws_review_idempotency s')"
      unfolding eqs by (rule dict_all_mono) (simp add: reviews_of_def eqs, simp add: s')
  qed
qed

lemma reviews_append: "reviews_of (s\<lparr>ws_reviews := append_review k v (ws_reviews r)\<rparr>) j =
   (if j = k then reviews_of r k @ [v] else reviews_of r j)"
  by (simp add: reviews_of_def append_review_def)

lemma work_inv_review:
  assumes inv: "work_inv s" and e: "reviews s s'"
  shows "work_inv s'"
proof -
  obtain v t i d where v: "item_at s (wr_work_id v) = Some i" "wi_status i = WBlocked" and d: "only_host s d"
    and s': "s' = d\<lparr>ws_items := dict_set (wr_work_id v) (apply_review i v t) (ws_items s),
       ws_reviews := append_review (wr_work_id v) (v\<lparr>wr_created_at := t\<rparr>) (ws_reviews s),
       ws_review_idempotency := dict_set (wr_idempotency_key v) (v\<lparr>wr_created_at := t\<rparr>) (ws_review_idempotency s)\<rparr>"
    using e unfolding reviews_def by blast
  let ?k = "wr_work_id v" and ?v = "v\<lparr>wr_created_at := t\<rparr>"
  let ?m = "d\<lparr>ws_items := dict_set ?k (apply_review i v t) (ws_items s)\<rparr>"
  have "item_ok d ?k i"
    by (rule item_ok_mono [OF item_okD [OF inv v(1)]]) (use d in \<open>auto simp: only_host_def\<close>)
  then have m: "work_inv ?m"
    using work_inv_replace [OF inv d apply_review_ok [OF _ v(2)]] by blast
  have rv: "reviews_of s' j = (if j = ?k then reviews_of s ?k @ [?v] else reviews_of s j)" for j
    by (simp add: reviews_of_def append_review_def s')
  have ok: "item_ok s' = item_ok ?m" by (intro ext) (simp add: item_ok_def s')
  have items: "ws_items s' = ws_items ?m" "ws_idempotency s' = ws_idempotency ?m" "uuid_stream s' = uuid_stream ?m"
    by (simp_all add: s')
  show ?thesis
  proof (rule work_inv_parts)
    show "inj (uuid_stream s')" "dict_ok (ws_items s')" "dict_all (item_ok s') (ws_items s')"
      "dict_all (\<lambda>key j. item_at s' j \<noteq> None) (ws_idempotency s')"
      using m unfolding work_inv_def items ok by blast+
    have "dict_all (\<lambda>key v. wr_idempotency_key v = key \<and> v \<in> set (reviews_of s (wr_work_id v)) \<and>
       item_at s (wr_work_id v) \<noteq> None) (ws_review_idempotency s)" using inv unfolding work_inv_def by blast
    then have "dict_all (\<lambda>key w. wr_idempotency_key w = key \<and> w \<in> set (reviews_of s' (wr_work_id w)) \<and>
       item_at s' (wr_work_id w) \<noteq> None) (ws_review_idempotency s)"
      by (rule dict_all_mono) (auto simp: rv, auto simp: s')
    from dict_all_set [OF this, where k = "wr_idempotency_key v" and v = ?v]
    show "dict_all (\<lambda>key w. wr_idempotency_key w = key \<and> w \<in> set (reviews_of s' (wr_work_id w)) \<and>
       item_at s' (wr_work_id w) \<noteq> None) (ws_review_idempotency s')"
      using rv [of ?k] by (simp add: s')
  qed
qed

lemma work_step_inv: "work_step s s' \<Longrightarrow> work_inv s \<Longrightarrow> work_inv s'"
proof -
  assume st: "work_step s s'" and inv: "work_inv s"
  from work_step_cases [OF st inv] show ?thesis
  proof (elim disjE)
    assume "delivers s s'"
    then obtain k i i' d where k: "item_at s k = Some i" "item_change s i i'" "only_host s d"
      "\<And>tok. wi_delivery_token i' = Some tok \<Longrightarrow> wi_delivery_token i = Some tok \<or> uuid_draws s < uuid_draws d"
      "s' = d\<lparr>ws_items := dict_set k i' (ws_items s)\<rparr>" unfolding delivers_def by blast
    have "item_ok d k i'" using item_change_ok [OF item_okD [OF inv k(1)] k(2) _ k(3,4)] inv by (simp add: work_inv_def)
    with work_inv_replace [OF inv k(3)] k(5) show ?thesis by simp
  qed (use inv work_inv_host work_inv_enqueue work_inv_review in blast)+
qed

lemma work_steps_inv: "work_step\<^sup>*\<^sup>* s s' \<Longrightarrow> work_inv s \<Longrightarrow> work_inv s'"
  by (induction rule: rtranclp_induct) (auto intro: work_step_inv)

definition work_reachable :: "work_source \<Rightarrow> bool" where
  "work_reachable s \<longleftrightarrow> (\<exists>clk ids. inj ids \<and> work_step\<^sup>*\<^sup>* (empty_source clk ids) s)"

lemma work_inv_empty: "inj ids \<Longrightarrow> work_inv (empty_source clk ids)"
  by (simp add: work_inv_def empty_source_def)

lemma work_reachable_inv: "work_reachable s \<Longrightarrow> work_inv s"
  using work_steps_inv work_inv_empty by (auto simp: work_reachable_def)

lemma work_reachable_steps: "work_reachable s \<Longrightarrow> work_step\<^sup>*\<^sup>* s s' \<Longrightarrow> work_reachable s'"
  unfolding work_reachable_def by (meson rtranclp_trans)

subsection \<open>Fenced deliveries\<close>

text \<open>
  The contract of \<open>FlowWorkSource\<close> that a worker relies on. \<open>bears\<close> says that a token is the item's
  current or last delivery token. Only a bearer can settle a delivery, and no operation gives an
  item back to a token that was issued before and that it does not bear.
\<close>

definition bears :: "uuid \<Rightarrow> work_item \<Rightarrow> bool" where
  "bears tok i \<longleftrightarrow> wi_delivery_token i = Some tok \<or> wi_last_delivery_token i = Some tok"

locale fenced_delivery =
  fixes look :: "'s \<Rightarrow> uuid \<Rightarrow> work_item option"
    and spent :: "uuid \<Rightarrow> 's \<Rightarrow> bool"
    and settlement :: "uuid \<Rightarrow> uuid \<Rightarrow> ('s \<Rightarrow> (exn + work_item) \<times> 's) \<Rightarrow> bool"
    and step :: "'s \<Rightarrow> 's \<Rightarrow> bool"
  assumes settlement_needs: "settlement k tok opn \<Longrightarrow> opn s = (Inr x, s') \<Longrightarrow> \<exists>i. look s k = Some i \<and> bears tok i"
    and spent_step: "step s s' \<Longrightarrow> spent tok s \<Longrightarrow> spent tok s'"
    and bears_step: "step s s' \<Longrightarrow> spent tok s \<Longrightarrow> look s' k = Some i' \<Longrightarrow> bears tok i' \<Longrightarrow>
      \<exists>i. look s k = Some i \<and> bears tok i"
begin

lemma bears_steps: "step\<^sup>*\<^sup>* s s' \<Longrightarrow> spent tok s \<Longrightarrow> look s' k = Some i' \<Longrightarrow> bears tok i' \<Longrightarrow>
   \<exists>i. look s k = Some i \<and> bears tok i"
proof (induction arbitrary: i' rule: rtranclp_induct)
  case (step y z)
  have "spent tok y" using step.hyps(1) step.prems(1) by (induction rule: rtranclp_induct) (auto intro: spent_step)
  with bears_step [OF step.hyps(2)] step.prems obtain a where "look y k = Some a" "bears tok a" by blast
  with step.IH [OF step.prems(1)] show ?case by blast
qed blast

lemma lost_for_good:
  assumes "settlement k tok opn" "step\<^sup>*\<^sup>* s s'" "spent tok s" "\<And>i. look s k = Some i \<Longrightarrow> \<not> bears tok i"
  shows "\<exists>e s''. opn s' = (Inl e, s'')"
proof (cases "opn s'")
  case (Pair r s'')
  show ?thesis
  proof (cases r)
    case (Inr x)
    with Pair settlement_needs [OF assms(1)] obtain i where "look s' k = Some i" "bears tok i" by blast
    with bears_steps [OF assms(2,3)] assms(4) show ?thesis by blast
  qed (use Pair in blast)
qed

end

definition settlement :: "uuid \<Rightarrow> uuid \<Rightarrow> work_item work_prog \<Rightarrow> bool" where
  "settlement k tok opn \<longleftrightarrow> (\<exists>now. opn = work_complete k tok now) \<or> (\<exists>reason now. opn = work_block k tok reason now) \<or>
     (\<exists>delay err now. opn = work_retry k tok delay err now) \<or> (\<exists>ttl now. opn = work_renew k tok ttl now)"

definition good_step :: "work_source \<Rightarrow> work_source \<Rightarrow> bool" where
  "good_step s s' \<longleftrightarrow> work_inv s \<and> work_step s s'"

lemma good_steps: "work_step\<^sup>*\<^sup>* s s' \<Longrightarrow> work_inv s \<Longrightarrow> good_step\<^sup>*\<^sup>* s s'"
proof (induction rule: rtranclp_induct)
  case (step y z)
  then have "good_step y z" using work_steps_inv by (simp add: good_step_def)
  with step show ?case by simp
qed simp

lemma settlement_bears: "settlement k tok opn \<Longrightarrow> opn s = (Inr x, s') \<Longrightarrow> \<exists>i. item_at s k = Some i \<and> bears tok i"
  by (auto simp: settlement_def work_complete_def work_block_def work_retry_def work_renew_def delivery_eqs
      bears_def delivery_lost_def split: if_splits option.splits sum.splits)

lemma work_step_streams: "work_step s s' \<Longrightarrow> work_inv s \<Longrightarrow> uuid_stream s' = uuid_stream s \<and> uuid_draws s \<le> uuid_draws s'"
  by (drule (1) work_step_cases) (auto simp: only_host_def enqueues_def reviews_def delivers_def)

lemma change_bears:
  assumes "item_change s i i'" "inj (uuid_stream s)" "drawn_token s tok" "bears tok i'"
  shows "bears tok i"
  using item_change_tokens [OF assms(1)] fresh_token [OF assms(2,3)] assms(4) by (auto simp: bears_def)

lemma good_step_bears:
  assumes st: "good_step s s'" and tok: "drawn_token s tok" and k: "item_at s' k = Some i'" "bears tok i'"
  shows "\<exists>i. item_at s k = Some i \<and> bears tok i"
proof -
  have inv: "work_inv s" and "work_step s s'" using st by (auto simp: good_step_def)
  from work_step_cases [OF this(2,1)] show ?thesis
  proof (elim disjE)
    assume "enqueues s s'"
    then show ?thesis using k by (auto simp: enqueues_def bears_def fresh_item_def split: if_splits)
  next
    assume "reviews s s'"
    then show ?thesis using k by (auto simp: reviews_def bears_def apply_review_def split: if_splits)
  next
    assume "delivers s s'"
    then obtain j i i2 where "item_at s j = Some i" "item_change s i i2" "item_at s' k = (if k = j then Some i2 else item_at s k)"
      by (auto simp: delivers_def)
    with k change_bears [OF _ _ tok, of i i2] inv show ?thesis by (auto simp: work_inv_def split: if_splits)
  qed (use k in \<open>auto simp: only_host_def\<close>)
qed

interpretation wq: fenced_delivery item_at "\<lambda>tok s. drawn_token s tok" settlement good_step
proof
  fix k tok opn s s' x i'
  show "settlement k tok opn \<Longrightarrow> opn s = (Inr x, s') \<Longrightarrow> \<exists>i. item_at s k = Some i \<and> bears tok i"
    by (rule settlement_bears)
  show "good_step s s' \<Longrightarrow> drawn_token s tok \<Longrightarrow> drawn_token s' tok"
    using work_step_streams by (auto simp: good_step_def drawn_token_def) (metis less_le_trans)
  show "good_step s s' \<Longrightarrow> drawn_token s tok \<Longrightarrow> item_at s' k = Some i' \<Longrightarrow> bears tok i' \<Longrightarrow>
      \<exists>i. item_at s k = Some i \<and> bears tok i" by (rule good_step_bears)
qed

lemma settlement_failed: "settlement k tok opn \<Longrightarrow> opn s = (Inl e, s') \<Longrightarrow> ws_items s' = ws_items s"
  by (auto simp: settlement_def work_complete_def work_block_def work_retry_def work_renew_def delivery_eqs
      split: if_splits option.splits sum.splits)

lemma claim_takes:
  assumes inv: "work_inv s" and run: "work_claim owner ttl now s = (Inr (Some c), s')"
  shows "\<exists>i. item_at s (wi_id c) = Some i \<and> claimable (time_of now s) i \<and> 0 < ttl \<and>
    c = claimed_item i owner (uuid_stream s (uuid_draws s)) (time_of now s) ttl \<and>
    ws_items s' = dict_set (wi_id c) c (ws_items s) \<and> drawn_token s' (uuid_stream s (uuid_draws s)) \<and>
    (\<forall>k j. item_at s k = Some j \<longrightarrow> claimable (time_of now s) j \<longrightarrow> claim_order i \<le> claim_order j)"
proof -
  obtain i where i: "min_by claim_order (filter (claimable (time_of now s)) (dict_values (ws_items s))) = Some i"
    and c: "c = claimed_item i owner (uuid_stream s (uuid_draws s)) (time_of now s) ttl" "0 < ttl"
    and s': "s' = (timed now s)\<lparr>uuid_draws := Suc (uuid_draws s), ws_items := dict_set (wi_id i) c (ws_items s)\<rparr>"
    using run by (auto simp: work_claim_eq Let_def validate_delivery_Inr split: sum.splits option.splits)
  from min_by_Some [OF i] have m: "claimable (time_of now s) i" "i \<in> set (dict_values (ws_items s))"
    "\<forall>y\<in>set (dict_values (ws_items s)). claimable (time_of now s) y \<longrightarrow> claim_order i \<le> claim_order y" by auto
  then obtain k where k: "item_at s k = Some i" using dict_values_get inv by (metis work_inv_def)
  with item_okD [OF inv] have "wi_id i = k" by (simp add: item_ok_def)
  moreover have "wi_id c = wi_id i" by (simp add: c claimed_item_def)
  moreover have "drawn_token s' (uuid_stream s (uuid_draws s))"
    unfolding drawn_token_def s' by (intro exI [of _ "uuid_draws s"]) simp
  moreover have "\<forall>k j. item_at s k = Some j \<longrightarrow> claimable (time_of now s) j \<longrightarrow> claim_order i \<le> claim_order j"
    using m(3) dict_get_in_values by metis
  ultimately show ?thesis using k m(1) c s' by simp
qed

subsection \<open>The course of one item\<close>

lemma item_change_from: "item_change s i i' \<Longrightarrow> wi_status i = WPending \<or> wi_status i = WClaimed"
  by (induction rule: item_change.induct) (auto simp: claimable_def delivery_lost_def)

definition reviewed :: "uuid \<Rightarrow> work_item \<Rightarrow> work_item \<Rightarrow> work_source \<Rightarrow> work_source \<Rightarrow> bool" where
  "reviewed k i i' s s' \<longleftrightarrow> wi_status i = WBlocked \<and> (\<exists>v t. valid_review v \<and> wr_work_id v = k \<and>
     i' = apply_review i v t \<and> reviews_of s' k = reviews_of s k @ [v\<lparr>wr_created_at := t\<rparr>])"

text \<open>
  The id of a stored item enqueued again: a command with this id was accepted under an idempotency
  key that the source did not know.
\<close>

definition reenqueued :: "uuid \<Rightarrow> work_source \<Rightarrow> work_source \<Rightarrow> bool" where
  "reenqueued k s s' \<longleftrightarrow> (\<exists>key. dict_get (ws_idempotency s) key = None \<and> dict_get (ws_idempotency s') key = Some k)"

lemma work_step_item:
  assumes st: "work_step s s'" and inv: "work_inv s" and i: "item_at s k = Some i"
  shows "\<exists>i'. item_at s' k = Some i' \<and> (reviewed k i i' s s' \<or> reenqueued k s s' \<or>
    reviews_of s' k = reviews_of s k \<and> (i' = i \<or> item_change s i i'))"
  using work_step_cases [OF st inv]
proof (elim disjE)
  assume "only_host s s'"
  then show ?thesis using i by (simp add: only_host_def reviews_of_def)
next
  assume "enqueues s s'"
  then show ?thesis using i by (auto simp: enqueues_def reenqueued_def only_host_def reviews_of_def)
next
  assume "delivers s s'"
  then show ?thesis using i by (auto simp: delivers_def only_host_def reviews_of_def)
next
  assume "reviews s s'"
  then obtain v t j d where v: "valid_review v" "item_at s (wr_work_id v) = Some j" "wi_status j = WBlocked"
    and s': "s' = d\<lparr>ws_items := dict_set (wr_work_id v) (apply_review j v t) (ws_items s),
       ws_reviews := append_review (wr_work_id v) (v\<lparr>wr_created_at := t\<rparr>) (ws_reviews s),
       ws_review_idempotency := dict_set (wr_idempotency_key v) (v\<lparr>wr_created_at := t\<rparr>) (ws_review_idempotency s)\<rparr>"
    unfolding reviews_def by blast
  have rv: "reviews_of s' x = (if x = wr_work_id v then reviews_of s x @ [v\<lparr>wr_created_at := t\<rparr>] else reviews_of s x)" for x
    by (simp add: reviews_of_def append_review_def s')
  show ?thesis
  proof (cases "k = wr_work_id v")
    case True
    with v i rv [of k] have "reviewed k i (apply_review j v t) s s'" by (auto simp: reviewed_def)
    with True show ?thesis by (simp add: s')
  next
    case False
    with i rv [of k] show ?thesis by (simp add: s')
  qed
qed

text \<open>The index of idempotency keys only grows.\<close>

lemma work_step_index:
  "work_step s s' \<Longrightarrow> work_inv s \<Longrightarrow> dict_get (ws_idempotency s) key = Some k \<Longrightarrow>
   dict_get (ws_idempotency s') key = Some k"
  by (drule (1) work_step_cases) (auto simp: only_host_def enqueues_def reviews_def delivers_def)

lemma work_steps_index:
  assumes "work_step\<^sup>*\<^sup>* s s'" and "work_inv s" and "dict_get (ws_idempotency s) key = Some k"
  shows "dict_get (ws_idempotency s') key = Some k"
  using assms(1)
proof (induction rule: rtranclp_induct)
  case (step y z)
  then show ?case using work_step_index work_steps_inv [OF _ assms(2)] by blast
qed (rule assms(3))

lemma reenqueued_steps:
  assumes "work_inv s" and "work_step\<^sup>*\<^sup>* s y" and "work_step y z"
    and "reenqueued k s y \<or> reenqueued k y z"
  shows "reenqueued k s z"
  using assms(4)
proof
  have inv: "work_inv y" using work_steps_inv [OF assms(2,1)] .
  assume "reenqueued k s y"
  then show ?thesis unfolding reenqueued_def using work_step_index [OF assms(3) inv] by blast
next
  assume "reenqueued k y z"
  then obtain key where key: "dict_get (ws_idempotency y) key = None" "dict_get (ws_idempotency z) key = Some k"
    unfolding reenqueued_def by blast
  have "dict_get (ws_idempotency s) key = None"
    using work_steps_index [OF assms(2,1), of key] key(1) by (cases "dict_get (ws_idempotency s) key") auto
  with key(2) show ?thesis unfolding reenqueued_def by blast
qed

lemma settled_or_reenqueued:
  assumes "work_step\<^sup>*\<^sup>* s s'" and inv: "work_inv s" and i: "item_at s k = Some i"
    and st: "wi_status i \<in> {WCompleted, WDiscarded}"
  shows "item_at s' k = Some i \<or> reenqueued k s s'"
  using assms(1)
proof (induction rule: rtranclp_induct)
  case (step y z)
  show ?case
  proof (cases "reenqueued k s y")
    case True
    with reenqueued_steps [OF inv step.hyps] show ?thesis by blast
  next
    case False
    with step.IH have y: "item_at y k = Some i" by blast
    from work_step_item [OF step.hyps(2) work_steps_inv [OF step.hyps(1) inv] y] st item_change_from
      reenqueued_steps [OF inv step.hyps]
    show ?thesis by (fastforce simp: reviewed_def)
  qed
qed (use i in blast)

lemma enqueue_overwrites:
  assumes "dict_get (ws_idempotency s) (wc_idempotency_key c) = None"
  shows "\<exists>s'. work_enqueue c s = (Inr (fresh_item c (time_of None s)), s') \<and>
    item_at s' (wc_id c) = Some (fresh_item c (time_of None s))"
  using assms by (simp add: work_enqueue_eq Let_def)

subsection \<open>Properties\<close>

text \<open>The examples: one command, claimed by a worker whose delivery expires and by another one after that.\<close>

definition ex_command :: work_command where
  "ex_command = \<lparr>wc_id = 500, wc_run_id = 7, wc_kind = EXECUTE, wc_idempotency_key = ''run-7'', wc_data = [],
     wc_created_at = 0\<rparr>"

definition ex_w0 :: work_source where
  "ex_w0 = empty_source (\<lambda>n. int n) (\<lambda>n. n)"

definition ex_w1 :: work_source where
  "ex_w1 = snd (work_enqueue ex_command ex_w0)"

definition ex_w2 :: work_source where
  "ex_w2 = snd (work_claim ''w1'' 1 (Some 10) ex_w1)"

definition ex_w3 :: work_source where
  "ex_w3 = snd (work_claim ''w2'' 1 (Some 2000000) ex_w2)"

lemma ex_w_steps: "work_step ex_w0 ex_w1" "work_step ex_w1 ex_w2" "work_step ex_w2 ex_w3"
proof -
  have "valid_command ex_command" by code_simp
  then show "work_step ex_w0 ex_w1" unfolding ex_w1_def by (rule step_enqueue [OF _ prod.collapse [symmetric]])
  show "work_step ex_w1 ex_w2" unfolding ex_w2_def by (rule step_claim [OF prod.collapse [symmetric]])
  show "work_step ex_w2 ex_w3" unfolding ex_w3_def by (rule step_claim [OF prod.collapse [symmetric]])
qed

lemma ex_w_reachable: "work_reachable ex_w0" "work_reachable ex_w1" "work_reachable ex_w2" "work_reachable ex_w3"
proof -
  show "work_reachable ex_w0" by (auto simp: work_reachable_def ex_w0_def inj_def intro!: exI [of _ "\<lambda>n. n"])
  then show "work_reachable ex_w1" using work_reachable_steps ex_w_steps(1) by blast
  then show "work_reachable ex_w2" using work_reachable_steps ex_w_steps(2) by blast
  then show "work_reachable ex_w3" using work_reachable_steps ex_w_steps(3) by blast
qed

lemma ex_w2_item: "\<exists>i. item_at ex_w2 500 = Some i \<and> wi_delivery_token i = Some 0 \<and> wi_status i = WClaimed"
  and ex_w3_claim: "\<exists>c. work_claim ''w2'' 1 (Some 2000000) ex_w2 = (Inr (Some c), ex_w3) \<and> wi_id c = 500"
proof -
  have "(case item_at ex_w2 500 of None \<Rightarrow> False | Some i \<Rightarrow> wi_delivery_token i = Some 0 \<and> wi_status i = WClaimed)"
    by code_simp
  then show "\<exists>i. item_at ex_w2 500 = Some i \<and> wi_delivery_token i = Some 0 \<and> wi_status i = WClaimed"
    by (auto split: option.splits)
  have "(case fst (work_claim ''w2'' 1 (Some 2000000) ex_w2) of Inr (Some c) \<Rightarrow> wi_id c = 500 | _ \<Rightarrow> False)" by code_simp
  then show "\<exists>c. work_claim ''w2'' 1 (Some 2000000) ex_w2 = (Inr (Some c), ex_w3) \<and> wi_id c = 500"
    unfolding ex_w3_def by (cases "work_claim ''w2'' 1 (Some 2000000) ex_w2") (auto split: sum.splits option.splits)
qed

text \<open>
  C12. In every reachable work source each stored item satisfies the validators of \<open>FlowWorkItem\<close> (which
  \<open>model_copy\<close> does not run), is filed under its command's id and is found under its idempotency key;
  no two items share an idempotency key.
\<close>

theorem work_items_valid:
  assumes "work_reachable s" and "item_at s k = Some i"
  shows "valid_work_item i \<and> wi_id i = k \<and>
    (\<forall>j i'. item_at s j = Some i' \<longrightarrow> wc_idempotency_key (wi_command i') = wc_idempotency_key (wi_command i) \<longrightarrow> j = k)"
proof -
  note ok = item_okD [OF work_reachable_inv [OF assms(1)]]
  have "j = k" if "item_at s j = Some i'" "wc_idempotency_key (wi_command i') = wc_idempotency_key (wi_command i)" for j i'
    using ok [OF that(1)] ok [OF assms(2)] that(2) by (simp add: item_ok_def)
  with ok [OF assms(2)] show ?thesis by (auto simp: item_ok_def)
qed

theorem work_items_valid_witness: "\<exists>i. item_at ex_w2 500 = Some i \<and> valid_work_item i"
  using ex_w2_item work_items_valid [OF ex_w_reachable(3), of 500] by blast

text \<open>
  C13. \<open>claim\<close> hands out work fairly and exclusively: with valid arguments it returns nothing exactly when
  no stored item is due (pending and available, or claimed with an expired lease); otherwise it
  returns the due item that comes first by availability, creation and id, now claimed by the caller
  under a token never issued before, and it changes no other item.
\<close>

theorem work_claim_exact:
  assumes s: "work_reachable s" and args: "\<not> blank owner" "length owner \<le> 256" "0 < ttl"
  shows "((\<forall>k i. item_at s k = Some i \<longrightarrow> \<not> claimable (time_of now s) i) \<and> work_claim owner ttl now s = (Inr None, timed now s)) \<or>
    (\<exists>i c s'. item_at s (wi_id i) = Some i \<and> claimable (time_of now s) i \<and>
      (\<forall>k j. item_at s k = Some j \<longrightarrow> claimable (time_of now s) j \<longrightarrow> claim_order i \<le> claim_order j) \<and>
      work_claim owner ttl now s = (Inr (Some c), s') \<and>
      c = claimed_item i owner (uuid_stream s (uuid_draws s)) (time_of now s) ttl \<and>
      \<not> drawn_token s (uuid_stream s (uuid_draws s)) \<and>
      (\<forall>k. item_at s' k = (if k = wi_id i then Some c else item_at s k)))"
proof (cases "min_by claim_order (filter (claimable (time_of now s)) (dict_values (ws_items s)))")
  case None
  then have "\<not> claimable (time_of now s) i" if "item_at s k = Some i" for k i
    using dict_get_in_values [OF that] by (auto simp: filter_empty_conv)
  with None args show ?thesis by (auto simp: work_claim_eq validate_delivery_arguments_def)
next
  case (Some i)
  note inv = work_reachable_inv [OF s]
  from Some args obtain c s' where run: "work_claim owner ttl now s = (Inr (Some c), s')"
    by (auto simp: work_claim_eq validate_delivery_arguments_def Let_def)
  from claim_takes [OF inv run] obtain j where j: "item_at s (wi_id c) = Some j" "claimable (time_of now s) j"
    "c = claimed_item j owner (uuid_stream s (uuid_draws s)) (time_of now s) ttl"
    "ws_items s' = dict_set (wi_id c) c (ws_items s)"
    "\<forall>k i. item_at s k = Some i \<longrightarrow> claimable (time_of now s) i \<longrightarrow> claim_order j \<le> claim_order i" by blast
  have id: "wi_id c = wi_id j" unfolding j(3) claimed_item_def by simp
  have "\<not> drawn_token s (uuid_stream s (uuid_draws s))" using inv fresh_token by (auto simp: work_inv_def)
  with run j id show ?thesis by (intro disjI2 exI [of _ j] exI [of _ c] exI [of _ s']) simp
qed

theorem work_claim_exact_witness:
  "\<exists>i c s'. item_at ex_w2 500 = Some i \<and> claimable 2000000 i \<and> work_claim ''w2'' 1 (Some 2000000) ex_w2 = (Inr (Some c), s')"
proof -
  obtain c where c: "work_claim ''w2'' 1 (Some 2000000) ex_w2 = (Inr (Some c), ex_w3)" "wi_id c = 500"
    using ex_w3_claim by blast
  have "\<not> blank ''w2''" "length ''w2'' \<le> 256" by code_simp+
  from work_claim_exact [OF ex_w_reachable(3) this, of 1 "Some 2000000"] c show ?thesis
    by (auto simp: time_of_def claimed_item_def)
qed

text \<open>
  C14. A lost delivery is lost for good: once another claim has taken an item away from the holder of a
  token, every renewal, completion, block or retry with the old token raises and changes no item,
  whatever operations come in between.
\<close>

theorem superseded_delivery_lost:
  assumes s: "work_reachable s" and i: "item_at s k = Some i" "wi_delivery_token i = Some tok"
    and claim: "work_claim owner ttl now s = (Inr (Some c), s1)" "wi_id c = k"
    and steps: "work_step\<^sup>*\<^sup>* s1 s2" and opn: "settlement k tok opn"
  shows "\<exists>e s3. opn s2 = (Inl e, s3) \<and> ws_items s3 = ws_items s2"
proof -
  note inv = work_reachable_inv [OF s]
  have ok: "item_ok s k i" using item_okD [OF inv i(1)] .
  then have tok: "drawn_token s tok" "wi_last_delivery_token i \<noteq> Some tok" using i(2) by (auto simp: item_ok_def)
  have inv1: "work_inv s1" using work_step_inv [OF step_claim [OF claim(1)] inv] .
  have drawn: "drawn_token s1 tok"
    using wq.spent_step [of s s1 tok] inv step_claim [OF claim(1)] tok(1) by (auto simp: good_step_def)
  from claim_takes [OF inv claim(1)] i(1) claim(2)
  have "item_at s1 k = Some c" "c = claimed_item i owner (uuid_stream s (uuid_draws s)) (time_of now s) ttl" by auto
  then have "\<not> bears tok j" if "item_at s1 k = Some j" for j
    using that tok fresh_token [of s tok] inv by (auto simp: bears_def claimed_item_def work_inv_def)
  from wq.lost_for_good [OF opn good_steps [OF steps inv1] drawn this] settlement_failed [OF opn]
  show ?thesis by blast
qed

theorem superseded_delivery_lost_witness:
  "\<exists>e s3. work_complete 500 0 (Some 2000001) ex_w3 = (Inl e, s3) \<and> ws_items s3 = ws_items ex_w3"
proof -
  obtain i where i: "item_at ex_w2 500 = Some i" "wi_delivery_token i = Some 0" using ex_w2_item by blast
  obtain c where c: "work_claim ''w2'' 1 (Some 2000000) ex_w2 = (Inr (Some c), ex_w3)" "wi_id c = 500"
    using ex_w3_claim by blast
  have "settlement 500 0 (work_complete 500 0 (Some 2000001))" unfolding settlement_def by blast
  from superseded_delivery_lost [OF ex_w_reachable(3) i c rtranclp.rtrancl_refl this] show ?thesis .
qed

text \<open>
  C15. Settled work stays settled unless its id is enqueued again. Whatever operations the clients
  perform, a completed or discarded item stays exactly as it is, or since then a command with its id
  was accepted under an idempotency key that was new to the source. A blocked item changes in one
  operation only by such an acceptance or by an operator's review, which is then on record: the review
  log of the item has grown and the new item is the review's verdict. And \<open>enqueue\<close> does not check the
  id: a command with a new idempotency key replaces the stored item by a fresh pending one,
  whatever its status.
\<close>

theorem settled_work_final:
  assumes s: "work_reachable s" and i: "item_at s k = Some i"
  shows "(wi_status i \<in> {WCompleted, WDiscarded} \<longrightarrow> work_step\<^sup>*\<^sup>* s s' \<longrightarrow>
      item_at s' k = Some i \<or> reenqueued k s s') \<and>
    (wi_status i = WBlocked \<longrightarrow> work_step s s' \<longrightarrow> item_at s' k = Some i \<or> reenqueued k s s' \<or>
      (\<exists>v t. item_at s' k = Some (apply_review i v t) \<and> valid_review v \<and> wr_work_id v = k \<and>
        reviews_of s' k = reviews_of s k @ [v\<lparr>wr_created_at := t\<rparr>])) \<and>
    (wc_id c = k \<longrightarrow> dict_get (ws_idempotency s) (wc_idempotency_key c) = None \<longrightarrow>
      (\<exists>s2. work_enqueue c s = (Inr (fresh_item c (time_of None s)), s2) \<and>
        item_at s2 k = Some (fresh_item c (time_of None s))))"
proof (intro conjI impI)
  note inv = work_reachable_inv [OF s]
  show "item_at s' k = Some i \<or> reenqueued k s s'"
    if "wi_status i \<in> {WCompleted, WDiscarded}" and "work_step\<^sup>*\<^sup>* s s'"
    using settled_or_reenqueued [OF that(2) inv i that(1)] .
  show "item_at s' k = Some i \<or> reenqueued k s s' \<or>
      (\<exists>v t. item_at s' k = Some (apply_review i v t) \<and> valid_review v \<and> wr_work_id v = k \<and>
        reviews_of s' k = reviews_of s k @ [v\<lparr>wr_created_at := t\<rparr>])"
    if "wi_status i = WBlocked" and "work_step s s'"
    using work_step_item [OF that(2) inv i] that(1) item_change_from by (fastforce simp: reviewed_def)
  show "\<exists>s2. work_enqueue c s = (Inr (fresh_item c (time_of None s)), s2) \<and>
        item_at s2 k = Some (fresh_item c (time_of None s))"
    if "wc_id c = k" and "dict_get (ws_idempotency s) (wc_idempotency_key c) = None"
    using enqueue_overwrites [OF that(2)] that(1) by simp
qed

definition ex_w4 :: work_source where
  "ex_w4 = snd (work_complete 500 1 (Some 2000001) ex_w3)"

lemma ex_w4_item: "work_step ex_w3 ex_w4" "\<exists>i. item_at ex_w4 500 = Some i \<and> wi_status i = WCompleted"
proof -
  show "work_step ex_w3 ex_w4" unfolding ex_w4_def by (rule step_complete [OF prod.collapse [symmetric]])
  have "(case item_at ex_w4 500 of None \<Rightarrow> False | Some i \<Rightarrow> wi_status i = WCompleted)" by code_simp
  then show "\<exists>i. item_at ex_w4 500 = Some i \<and> wi_status i = WCompleted" by (auto split: option.splits)
qed

theorem settled_work_final_witness:
  "\<exists>i s2. item_at ex_w4 500 = Some i \<and> wi_status i = WCompleted \<and>
     item_at (snd (work_complete 500 1 (Some 9) ex_w4)) 500 = Some i \<and>
     work_enqueue (ex_command\<lparr>wc_idempotency_key := ''again''\<rparr>) ex_w4 =
       (Inr (fresh_item (ex_command\<lparr>wc_idempotency_key := ''again''\<rparr>) (time_of None ex_w4)), s2) \<and>
     item_at s2 500 = Some (fresh_item (ex_command\<lparr>wc_idempotency_key := ''again''\<rparr>) (time_of None ex_w4))"
proof -
  let ?c = "ex_command\<lparr>wc_idempotency_key := ''again''\<rparr>" and ?s = "snd (work_complete 500 1 (Some 9) ex_w4)"
  obtain i where i: "item_at ex_w4 500 = Some i" "wi_status i = WCompleted" using ex_w4_item(2) by blast
  have "work_step ex_w4 ?s" by (rule step_complete [OF prod.collapse [symmetric]])
  then have st: "work_step\<^sup>*\<^sup>* ex_w4 ?s" by (rule r_into_rtranclp)
  have r: "work_reachable ex_w4" using work_reachable_steps [OF ex_w_reachable(4)] ex_w4_item(1) by blast
  have c: "wc_id ?c = 500" "dict_get (ws_idempotency ex_w4) (wc_idempotency_key ?c) = None"
    "ws_idempotency ?s = ws_idempotency ex_w4" by code_simp+
  have "\<not> reenqueued 500 ex_w4 ?s" unfolding reenqueued_def c(3) by auto
  then show ?thesis
    using settled_work_final [OF r i(1), of ?s ?c] i st c(1,2) by blast
qed

text \<open>
  Enqueueing is idempotent: after a command was accepted under a new idempotency key, and whatever
  happened since, another command with the same key never adds an item and changes nothing; it
  returns the item now stored under the accepted id when that item asks for the same work, and
  raises a conflict when it does not.
\<close>

theorem work_enqueue_idempotent:
  assumes s: "work_reachable s" and c: "valid_command c" "dict_get (ws_idempotency s) (wc_idempotency_key c) = None"
    and first: "work_enqueue c s = (Inr i, s1)" and steps: "work_step\<^sup>*\<^sup>* s1 s2"
    and key: "wc_idempotency_key c' = wc_idempotency_key c"
  shows "\<exists>i2. item_at s2 (wc_id c) = Some i2 \<and>
    work_enqueue c' s2 = (if command_same_intent (wi_command i2) c' then Inr i2 else Inl FlowWorkIdempotencyConflictError, s2)"
proof -
  have inv1: "work_inv s1" using work_step_inv [OF step_enqueue [OF c(1) first] work_reachable_inv [OF s]] .
  have "dict_get (ws_idempotency s1) (wc_idempotency_key c) = Some (wc_id c)"
    using first c(2) by (auto simp: work_enqueue_eq Let_def)
  then have k: "dict_get (ws_idempotency s2) (wc_idempotency_key c') = Some (wc_id c)"
    unfolding key by (rule work_steps_index [OF steps inv1])
  then have "item_at s2 (wc_id c) \<noteq> None"
    using work_steps_inv [OF steps inv1] unfolding work_inv_def by (blast dest: dict_allD)
  with k show ?thesis by (auto simp: work_enqueue_eq)
qed

theorem work_enqueue_idempotent_witness:
  "\<exists>i2. item_at ex_w3 500 = Some i2 \<and> work_enqueue (ex_command\<lparr>wc_id := 501\<rparr>) ex_w3 = (Inr i2, ex_w3)"
proof -
  have c: "valid_command ex_command" "dict_get (ws_idempotency ex_w0) (wc_idempotency_key ex_command) = None"
    "(case fst (work_enqueue ex_command ex_w0) of Inr i \<Rightarrow> True | Inl _ \<Rightarrow> False)"
    "(case item_at ex_w3 500 of None \<Rightarrow> False | Some i \<Rightarrow> command_same_intent (wi_command i) (ex_command\<lparr>wc_id := 501\<rparr>))"
    "wc_id ex_command = 500" by code_simp+
  then obtain i where i: "work_enqueue ex_command ex_w0 = (Inr i, ex_w1)"
    unfolding ex_w1_def by (cases "work_enqueue ex_command ex_w0") (auto split: sum.splits)
  have "work_step\<^sup>*\<^sup>* ex_w1 ex_w3" using ex_w_steps(2,3) by (meson converse_rtranclp_into_rtranclp r_into_rtranclp)
  from work_enqueue_idempotent [OF ex_w_reachable(1) c(1,2) i this, of "ex_command\<lparr>wc_id := 501\<rparr>"] c(4,5)
  show ?thesis by auto
qed

end
