(* ===== verification/Flow_Recovery.thy ===== *)
theory Flow_Recovery
  imports Flow_Service Flow_Side_Effects Flow_Work
begin

text \<open>
  \<open>flows/recovery.py\<close>: the registry of Flow definitions, the conservative recovery policy and the
  handler that gates claimed work through them. The handler runs on the repository and the ledger
  together. Validating a JSON payload as a \<open>ToolConfirmation\<close> is pydantic's work and a parameter;
  the dispatcher is application code and a parameter.
\<close>

subsection \<open>Definition registry\<close>

type_synonym registry = "(string \<times> string, flow_definition) dict"

fun register_all :: "(json \<Rightarrow> string) \<Rightarrow> registry \<Rightarrow> flow_definition list \<Rightarrow> exn + registry" where
  "register_all digest reg [] = Inr reg"
| "register_all digest reg (d # ds) = (let key = (fd_id d, fd_version d) in
     if (case dict_get reg key of None \<Rightarrow> False | Some e \<Rightarrow> flow_fingerprint digest e \<noteq> flow_fingerprint digest d)
     then Inl FlowDefinitionConflictError
     else register_all digest (dict_set key d reg) ds)"

definition registry_of :: "(json \<Rightarrow> string) \<Rightarrow> flow_definition list \<Rightarrow> exn + registry" where
  "registry_of digest ds = register_all digest [] ds"

definition registry_resolve :: "registry \<Rightarrow> string \<Rightarrow> string \<Rightarrow> exn + flow_definition" where
  "registry_resolve reg did ver = (case dict_get reg (did, ver) of
     None \<Rightarrow> Inl FlowDefinitionNotFoundError | Some d \<Rightarrow> Inr d)"

subsection \<open>Decisions\<close>

datatype recovery_action = DoStart | DoAdvance | DoResume | DoFinalize | DoCancel | DoNoop | DoManualReview

datatype recovery_reason =
    CREATED_SAFE_TO_START | IDLE_SAFE_TO_ADVANCE | SETTLED_FAILURE_SAFE_TO_FINALIZE | WAITING_INPUT_AVAILABLE
  | WAITING_CONFIRMATION_AVAILABLE | CANCELLATION_REQUESTED | TERMINAL_ALREADY_SETTLED
  | ACTIVE_INVOCATION_UNCERTAIN | ACTIVE_SIDE_EFFECT_RETRY_UNSAFE | WAITING_INPUT_REQUIRED | RESUME_STATE_MISMATCH
  | UNSUPPORTED_STATE | DEFINITION_NOT_FOUND | DEFINITION_FINGERPRINT_MISMATCH

fun reason_value :: "recovery_reason \<Rightarrow> string" where
  "reason_value CREATED_SAFE_TO_START = ''created_safe_to_start''"
| "reason_value IDLE_SAFE_TO_ADVANCE = ''idle_safe_to_advance''"
| "reason_value SETTLED_FAILURE_SAFE_TO_FINALIZE = ''settled_failure_safe_to_finalize''"
| "reason_value WAITING_INPUT_AVAILABLE = ''waiting_input_available''"
| "reason_value WAITING_CONFIRMATION_AVAILABLE = ''waiting_confirmation_available''"
| "reason_value CANCELLATION_REQUESTED = ''cancellation_requested''"
| "reason_value TERMINAL_ALREADY_SETTLED = ''terminal_already_settled''"
| "reason_value ACTIVE_INVOCATION_UNCERTAIN = ''active_invocation_uncertain''"
| "reason_value ACTIVE_SIDE_EFFECT_RETRY_UNSAFE = ''active_side_effect_retry_unsafe''"
| "reason_value WAITING_INPUT_REQUIRED = ''waiting_input_required''"
| "reason_value RESUME_STATE_MISMATCH = ''resume_state_mismatch''"
| "reason_value UNSUPPORTED_STATE = ''unsupported_state''"
| "reason_value DEFINITION_NOT_FOUND = ''definition_not_found''"
| "reason_value DEFINITION_FINGERPRINT_MISMATCH = ''definition_fingerprint_mismatch''"

record recovery_decision =
  rd_action :: recovery_action
  rd_reason :: recovery_reason

abbreviation decided :: "recovery_action \<Rightarrow> recovery_reason \<Rightarrow> recovery_decision" where
  "decided a r \<equiv> \<lparr>rd_action = a, rd_reason = r\<rparr>"

text \<open>\<open>_confirmation_from_command\<close>; \<open>parse\<close> is \<open>ToolConfirmation.model_validate\<close>, \<open>None\<close> its \<open>ValueError\<close>.\<close>

definition confirmation_from_command :: "(jobj \<Rightarrow> tool_confirmation option) \<Rightarrow> work_command \<Rightarrow> tool_confirmation option" where
  "confirmation_from_command parse c = (case dict_get (wc_data c) ''confirmation'' of
     Some (JObj payload) \<Rightarrow> parse payload | _ \<Rightarrow> None)"

definition has_user_input :: "work_command \<Rightarrow> bool" where
  "has_user_input c \<longleftrightarrow> (case dict_get (wc_data c) ''user_input'' of Some (JStr s) \<Rightarrow> \<not> blank s | _ \<Rightarrow> False)"

definition decide :: "(jobj \<Rightarrow> tool_confirmation option) \<Rightarrow> work_command \<Rightarrow> flow_run_state \<Rightarrow> flow_side_effect list \<Rightarrow>
    exn + recovery_decision" where
  "decide parse c st side_effects =
     (if wc_run_id c \<noteq> fs_run_id st then Inl (ValueError ''Flow work command targets another Flow Run'')
      else if terminal (fs_status st) then Inr (decided DoNoop TERMINAL_ALREADY_SETTLED)
      else if wc_kind c = CANCEL then Inr (decided DoCancel CANCELLATION_REQUESTED)
      else if wc_kind c = RESUME then
        (let has_confirmation = (confirmation_from_command parse c \<noteq> None) in
         if fs_status st = Waiting \<and> has_user_input c \<noteq> has_confirmation
         then Inr (decided DoResume (if has_confirmation then WAITING_CONFIRMATION_AVAILABLE else WAITING_INPUT_AVAILABLE))
         else Inr (decided DoManualReview (if fs_status st = Waiting then WAITING_INPUT_REQUIRED else RESUME_STATE_MISMATCH)))
      else if wc_kind c \<noteq> EXECUTE \<and> wc_kind c \<noteq> RECOVER then Inr (decided DoManualReview UNSUPPORTED_STATE)
      else if fs_status st = Created then Inr (decided DoStart CREATED_SAFE_TO_START)
      else if fs_status st = Waiting then Inr (decided DoManualReview WAITING_INPUT_REQUIRED)
      else if fs_status st = Running then
        (if active_invocation st \<noteq> None
         then Inr (decided DoManualReview (if side_effects \<noteq> [] \<and> list_ex (\<lambda>e. \<not> retry_safe e) side_effects
           then ACTIVE_SIDE_EFFECT_RETRY_UNSAFE else ACTIVE_INVOCATION_UNCERTAIN))
         else if fs_invocations st = [] \<or> inv_status (last (fs_invocations st)) = Completed
         then Inr (decided DoAdvance IDLE_SAFE_TO_ADVANCE)
         else Inr (decided DoFinalize SETTLED_FAILURE_SAFE_TO_FINALIZE))
      else Inr (decided DoManualReview UNSUPPORTED_STATE))"

subsection \<open>The handler\<close>

record recovery_context =
  rx_item :: work_item
  rx_definition :: flow_definition
  rx_state :: flow_run_state
  rx_decision :: recovery_decision
  rx_lease :: flow_lease
  rx_side_effects :: "flow_side_effect list"

type_synonym backend = "flow_repo \<times> ledger"
type_synonym 'a backend_prog = "(backend, exn, 'a) prog"

definition in_repo :: "'a repo_prog \<Rightarrow> 'a backend_prog" where
  "in_repo m = (\<lambda>(r, l). case m r of (x, r') \<Rightarrow> (x, (r', l)))"

definition in_ledger :: "'a ledger_prog \<Rightarrow> 'a backend_prog" where
  "in_ledger m = (\<lambda>(r, l). case m l of (x, l') \<Rightarrow> (x, (r, l')))"

definition validate_resolved_definition :: "(json \<Rightarrow> string) \<Rightarrow> flow_definition \<Rightarrow> flow_run_state \<Rightarrow> exn + unit" where
  "validate_resolved_definition digest d st =
     guard (fd_id d = fs_definition_id st \<and> fd_version d = fs_definition_version st \<and>
        flow_fingerprint digest d = fs_definition_fingerprint st) FlowDefinitionMismatchError"

text \<open>The composition of a handler: \<open>rh_evidence\<close> tells whether a side-effect reader is configured.\<close>

record recovery_handler =
  rh_digest :: "json \<Rightarrow> string"
  rh_registry :: registry
  rh_parse :: "jobj \<Rightarrow> tool_confirmation option"
  rh_evidence :: bool
  rh_dispatcher :: "recovery_context \<Rightarrow> unit backend_prog"

definition handle_work :: "recovery_handler \<Rightarrow> work_item \<Rightarrow> flow_lease \<Rightarrow> unit backend_prog" where
  "handle_work h item lease =
     pbind (in_repo (repo_get (wc_run_id (wi_command item)))) (\<lambda>st.
     pbind (plift (case registry_resolve (rh_registry h) (fs_definition_id st) (fs_definition_version st) of
         Inl e \<Rightarrow> Inl (if e = FlowDefinitionNotFoundError
           then FlowWorkBlockedError (reason_value DEFINITION_NOT_FOUND) else e)
       | Inr d \<Rightarrow> Inr d)) (\<lambda>d.
     pbind (plift (case validate_resolved_definition (rh_digest h) d st of
         Inl e \<Rightarrow> Inl (if e = FlowDefinitionMismatchError
           then FlowWorkBlockedError (reason_value DEFINITION_FINGERPRINT_MISMATCH) else e)
       | Inr u \<Rightarrow> Inr u)) (\<lambda>_.
     pbind (case active_invocation st of
         Some a \<Rightarrow> if rh_evidence h then in_ledger (list_for_invocation (inv_id a)) else pret []
       | None \<Rightarrow> pret []) (\<lambda>side_effects.
     pbind (plift (decide (rh_parse h) (wi_command item) st side_effects)) (\<lambda>decision.
     if rd_action decision = DoManualReview then praise (FlowWorkBlockedError (reason_value (rd_reason decision)))
     else if rd_action decision = DoNoop then pret ()
     else rh_dispatcher h \<lparr>rx_item = item, rx_definition = d, rx_state = st, rx_decision = decision,
       rx_lease = lease, rx_side_effects = side_effects\<rparr>)))))"

subsection \<open>What the handler does\<close>

definition evidence_for :: "recovery_handler \<Rightarrow> flow_run_state \<Rightarrow> ledger \<Rightarrow> flow_side_effect list" where
  "evidence_for h st l = (case active_invocation st of None \<Rightarrow> []
     | Some a \<Rightarrow> if rh_evidence h then sort_key (\<lambda>e. (se_created_at e, se_id e))
         (filter (\<lambda>e. se_invocation_id e = inv_id a) (dict_values (le_effects l))) else [])"

lemma decide_kinds: "decide parse c st effs \<noteq> Inl FlowDefinitionNotFoundError"
  by (simp add: decide_def Let_def)

lemma handle_work_eq: "handle_work h item lease (r, l) =
   (case dict_get (repo_states r) (wc_run_id (wi_command item)) of None \<Rightarrow> (Inl FlowRunNotFoundError, (r, l))
    | Some st \<Rightarrow> (case dict_get (rh_registry h) (fs_definition_id st, fs_definition_version st) of
        None \<Rightarrow> (Inl (FlowWorkBlockedError (reason_value DEFINITION_NOT_FOUND)), (r, l))
      | Some d \<Rightarrow> if \<not> same_definition (rh_digest h) st d
          then (Inl (FlowWorkBlockedError (reason_value DEFINITION_FINGERPRINT_MISMATCH)), (r, l))
          else (case decide (rh_parse h) (wi_command item) st (evidence_for h st l) of
            Inl e \<Rightarrow> (Inl e, (r, l))
          | Inr dec \<Rightarrow> if rd_action dec = DoManualReview then (Inl (FlowWorkBlockedError (reason_value (rd_reason dec))), (r, l))
              else if rd_action dec = DoNoop then (Inr (), (r, l))
              else rh_dispatcher h \<lparr>rx_item = item, rx_definition = d, rx_state = st, rx_decision = dec,
                rx_lease = lease, rx_side_effects = evidence_for h st l\<rparr> (r, l))))"
proof (cases "dict_get (repo_states r) (wc_run_id (wi_command item))")
  case None
  then show ?thesis by (simp add: handle_work_def pbind_app in_repo_def repo_get_eq)
next
  case (Some st)
  have ev: "(case active_invocation st of Some a \<Rightarrow> if rh_evidence h then in_ledger (list_for_invocation (inv_id a)) else pret []
       | None \<Rightarrow> pret []) (r, l) = (Inr (evidence_for h st l), (r, l))"
    by (simp add: evidence_for_def in_ledger_def list_for_invocation_def pbind_app split: option.split)
  show ?thesis
  proof (cases "dict_get (rh_registry h) (fs_definition_id st, fs_definition_version st)")
    case None
    with Some show ?thesis by (simp add: handle_work_def pbind_app in_repo_def repo_get_eq registry_resolve_def)
  next
    case d: (Some d)
    have v: "validate_resolved_definition (rh_digest h) d st =
        (if same_definition (rh_digest h) st d then Inr () else Inl FlowDefinitionMismatchError)"
      by (simp add: validate_resolved_definition_def same_definition_def guard_def)
    show ?thesis
      using Some d ev v
      by (cases "decide (rh_parse h) (wi_command item) st (evidence_for h st l)")
        (simp_all add: handle_work_def pbind_app in_repo_def repo_get_eq registry_resolve_def)
  qed
qed

text \<open>Between invocations no agent is at work.\<close>

lemma idle_no_running:
  assumes inv: "flow_inv st" and idle: "active_invocation st = None \<or> fs_status st = Waiting"
    and i: "i \<in> set (fs_invocations st)"
  shows "inv_status i \<noteq> Running"
proof (cases "fs_active_invocation_id st = Some (inv_id i)")
  case False
  with inv i show ?thesis by (auto simp: flow_inv_def list_all_iff terminal_statuses_def)
next
  case True
  from inv have v: "valid_state st" "distinct (map inv_id (fs_invocations st))" by (auto simp: flow_inv_def valid_state_def)
  with True obtain a where a: "active_invocation st = Some a" by (auto simp: valid_state_def)
  with active_in [OF a] True v(2) i have "a = i" by (auto simp: distinct_map inj_on_def)
  with a idle v(1) show ?thesis by (simp add: valid_state_def)
qed

lemma decide_idle:
  assumes inv: "flow_inv st" and d: "decide parse c st effs = Inr dec" "rd_action dec \<noteq> DoManualReview"
    "rd_action dec \<noteq> DoNoop" "rd_action dec \<noteq> DoCancel"
  shows "active_invocation st = None \<or> fs_status st = Waiting"
proof (cases "fs_status st = Created")
  case True
  with inv have "fs_invocations st = []" by (auto simp: flow_inv_def valid_state_def)
  then show ?thesis by (simp add: active_invocation_def split: option.split)
next
  case False
  with d show ?thesis by (auto simp: decide_def Let_def split: if_splits)
qed

lemma decide_open: "decide parse c st effs = Inr dec \<Longrightarrow> rd_action dec \<noteq> DoNoop \<Longrightarrow> \<not> terminal (fs_status st)"
  by (auto simp: decide_def Let_def split: if_splits)

subsection \<open>The registry\<close>

abbreviation def_key :: "flow_definition \<Rightarrow> string \<times> string" where
  "def_key d \<equiv> (fd_id d, fd_version d)"

definition consistent :: "(json \<Rightarrow> string) \<Rightarrow> flow_definition list \<Rightarrow> bool" where
  "consistent digest ds \<longleftrightarrow> (\<forall>d \<in> set ds. \<forall>e \<in> set ds. def_key d = def_key e \<longrightarrow>
     flow_fingerprint digest d = flow_fingerprint digest e)"

text \<open>A registry that serves the definitions \<open>ds\<close>.\<close>

definition serves :: "(json \<Rightarrow> string) \<Rightarrow> registry \<Rightarrow> flow_definition list \<Rightarrow> bool" where
  "serves digest reg ds \<longleftrightarrow> (\<forall>key d. dict_get reg key = Some d \<longrightarrow> d \<in> set ds \<and> def_key d = key) \<and>
     (\<forall>d \<in> set ds. \<exists>e. dict_get reg (def_key d) = Some e \<and> flow_fingerprint digest e = flow_fingerprint digest d)"

lemma servesD:
  "serves digest reg ds \<Longrightarrow> dict_get reg key = Some d \<Longrightarrow> d \<in> set ds \<and> def_key d = key"
  "serves digest reg ds \<Longrightarrow> d \<in> set ds \<Longrightarrow>
   \<exists>e. dict_get reg (def_key d) = Some e \<and> flow_fingerprint digest e = flow_fingerprint digest d"
  by (cases key, simp add: serves_def) (simp add: serves_def)

lemma consistentD: "consistent digest ds \<Longrightarrow> d \<in> set ds \<Longrightarrow> e \<in> set ds \<Longrightarrow> def_key d = def_key e \<Longrightarrow>
   flow_fingerprint digest d = flow_fingerprint digest e"
  unfolding consistent_def by blast

lemma consistent_snoc:
  assumes s: "serves digest reg ds" and c: "consistent digest ds"
  shows "consistent digest (ds @ [d]) \<longleftrightarrow>
    (case dict_get reg (def_key d) of None \<Rightarrow> True | Some e \<Rightarrow> flow_fingerprint digest e = flow_fingerprint digest d)"
proof (cases "dict_get reg (def_key d)")
  case None
  then have new: "def_key e \<noteq> def_key d" if "e \<in> set ds" for e using servesD(2) [OF s that] by auto
  have "consistent digest (ds @ [d])"
    unfolding consistent_def
  proof (intro ballI impI)
    fix x y
    assume xy: "x \<in> set (ds @ [d])" "y \<in> set (ds @ [d])" "def_key x = def_key y"
    show "flow_fingerprint digest x = flow_fingerprint digest y"
    proof (cases "x = d \<or> y = d")
      case True
      with xy new [of x] new [of y] have "x = y" by auto
      then show ?thesis by simp
    next
      case False
      with xy have "x \<in> set ds" "y \<in> set ds" by auto
      with consistentD [OF c] xy(3) show ?thesis by blast
    qed
  qed
  with None show ?thesis by simp
next
  case (Some a)
  from servesD(1) [OF s Some] have a: "a \<in> set ds" "def_key a = def_key d" by auto
  let ?fp = "flow_fingerprint digest"
  have "consistent digest (ds @ [d])" if fp: "?fp a = ?fp d"
    unfolding consistent_def
  proof (intro ballI impI)
    fix x y
    assume xy: "x \<in> set (ds @ [d])" "y \<in> set (ds @ [d])" "def_key x = def_key y"
    have one: "?fp z = ?fp a" if "z \<in> set (ds @ [d])" "def_key z = def_key d" for z
    proof (cases "z \<in> set ds")
      case True
      with consistentD [OF c, of z a] a that(2) show ?thesis by simp
    next
      case False
      with that(1) fp show ?thesis by simp
    qed
    show "?fp x = ?fp y"
    proof (cases "def_key x = def_key d")
      case True
      with xy one [of x] one [of y] show ?thesis by simp
    next
      case False
      then have "x \<in> set ds" "y \<in> set ds" using xy by auto
      with consistentD [OF c] xy(3) show ?thesis by blast
    qed
  qed
  moreover have "?fp a = ?fp d" if "consistent digest (ds @ [d])" using consistentD [OF that, of a d] a by simp
  ultimately show ?thesis using Some by (simp only: option.case) blast
qed

lemma serves_snoc:
  assumes s: "serves digest reg ds" and c: "consistent digest (ds @ [d])"
  shows "serves digest (dict_set (def_key d) d reg) (ds @ [d])"
  unfolding serves_def
proof (intro conjI allI impI ballI)
  fix key e
  assume e: "dict_get (dict_set (def_key d) d reg) key = Some e"
  then have "key = def_key d \<and> e = d \<or> dict_get reg key = Some e" by (simp split: if_splits)
  then show "e \<in> set (ds @ [d])" "def_key e = key" using servesD(1) [OF s, of key e] by auto
next
  fix e
  assume e: "e \<in> set (ds @ [d])"
  show "\<exists>x. dict_get (dict_set (def_key d) d reg) (def_key e) = Some x \<and> flow_fingerprint digest x = flow_fingerprint digest e"
  proof (cases "def_key e = def_key d")
    case True
    with consistentD [OF c, of d e] e show ?thesis by simp
  next
    case False
    with e servesD(2) [OF s] show ?thesis by auto
  qed
qed

lemma consistent_prefix: "consistent digest (ds @ es) \<Longrightarrow> consistent digest ds"
  by (auto simp: consistent_def)

lemma register_all_serves:
  assumes "serves digest reg done" "consistent digest done"
  shows "(case register_all digest reg ds of
      Inr reg' \<Rightarrow> consistent digest (done @ ds) \<and> serves digest reg' (done @ ds)
    | Inl e \<Rightarrow> e = FlowDefinitionConflictError \<and> \<not> consistent digest (done @ ds))"
  using assms
proof (induction ds arbitrary: reg "done")
  case (Cons d ds)
  note next_def = consistent_snoc [OF Cons.prems, of d]
  show ?case
  proof (cases "consistent digest (done @ [d])")
    case True
    have "register_all digest reg (d # ds) = register_all digest (dict_set (def_key d) d reg) ds"
      using next_def True by (simp add: Let_def split: option.splits)
    with Cons.IH [OF serves_snoc [OF Cons.prems(1) True] True] show ?thesis by (simp only: append.simps append_assoc)
  next
    case False
    then have "\<not> consistent digest (done @ d # ds)" using consistent_prefix [of digest "done @ [d]" ds] by auto
    with False next_def show ?thesis by (auto simp: Let_def split: option.splits)
  qed
qed simp

subsection \<open>Properties\<close>

definition ex_handler :: recovery_handler where
  "ex_handler = \<lparr>rh_digest = ex_digest, rh_registry = [((fd_id ex_definition, fd_version ex_definition), ex_definition)],
     rh_parse = (\<lambda>_. None), rh_evidence = True, rh_dispatcher = (\<lambda>x. pret ())\<rparr>"

definition ex_item :: "work_kind \<Rightarrow> work_item" where
  "ex_item kind = fresh_item (ex_command\<lparr>wc_kind := kind\<rparr>) 0"

definition ex_backend_lease :: flow_lease where
  "ex_backend_lease = \<lparr>ls_run_id = 7, ls_token = 90, ls_owner_id = ''w1'', ls_attempt = 1, ls_acquired_at = 0,
     ls_heartbeat_at = 0, ls_expires_at = 100\<rparr>"

text \<open>
  C16. Recovery acts only where no agent can be at work. On every reachable repository the handler either
  stops without touching repository or ledger (raising, or returning for a terminal Flow), or it
  calls the dispatcher exactly once with the stored aggregate of the command's run and the
  registered definition with the stored fingerprint; the Flow is then open, and unless the command
  cancels it none of its invocations is running.
\<close>

theorem recovery_dispatch_safe:
  assumes r: "svc_reachable digest r"
  shows "(\<exists>res. handle_work h item lease (r, l) = (res, (r, l)) \<and>
      (res = Inr () \<longrightarrow> (\<exists>st. dict_get (repo_states r) (wc_run_id (wi_command item)) = Some st \<and> terminal (fs_status st)))) \<or>
    (\<exists>st d dec. dict_get (repo_states r) (wc_run_id (wi_command item)) = Some st \<and> same_definition (rh_digest h) st d \<and>
      handle_work h item lease (r, l) = rh_dispatcher h \<lparr>rx_item = item, rx_definition = d, rx_state = st, rx_decision = dec,
        rx_lease = lease, rx_side_effects = evidence_for h st l\<rparr> (r, l) \<and>
      \<not> terminal (fs_status st) \<and>
      (rd_action dec \<noteq> DoCancel \<longrightarrow> (\<forall>i \<in> set (fs_invocations st). inv_status i \<noteq> Running)))"
proof (cases "dict_get (repo_states r) (wc_run_id (wi_command item))")
  case None
  then show ?thesis by (simp add: handle_work_eq)
next
  case (Some st)
  have inv: "flow_inv st" using svc_invD [OF svc_reachable_inv [OF r] Some] by blast
  show ?thesis
  proof (cases "\<exists>d dec. dict_get (rh_registry h) (fs_definition_id st, fs_definition_version st) = Some d \<and>
      same_definition (rh_digest h) st d \<and> decide (rh_parse h) (wi_command item) st (evidence_for h st l) = Inr dec \<and>
      rd_action dec \<noteq> DoManualReview \<and> rd_action dec \<noteq> DoNoop")
    case True
    then obtain d dec where d: "dict_get (rh_registry h) (fs_definition_id st, fs_definition_version st) = Some d"
      "same_definition (rh_digest h) st d" and dec: "decide (rh_parse h) (wi_command item) st (evidence_for h st l) = Inr dec"
      "rd_action dec \<noteq> DoManualReview" "rd_action dec \<noteq> DoNoop" by blast
    have "\<forall>i \<in> set (fs_invocations st). inv_status i \<noteq> Running" if "rd_action dec \<noteq> DoCancel"
      using idle_no_running [OF inv decide_idle [OF inv dec that]] by blast
    with Some d dec decide_open [OF dec(1,3)] show ?thesis
      by (intro disjI2 exI [of _ st] exI [of _ d] exI [of _ dec]) (simp add: handle_work_eq)
  next
    case False
    have "terminal (fs_status st)" if "decide (rh_parse h) (wi_command item) st (evidence_for h st l) = Inr dec"
      "rd_action dec = DoNoop" for dec
      using that by (auto simp: decide_def Let_def split: if_splits)
    with Some False show ?thesis
      by (intro disjI1) (auto simp: handle_work_eq split: option.splits sum.splits)
  qed
qed

theorem recovery_dispatch_safe_witness:
  "\<exists>res s. handle_work ex_handler (ex_item EXECUTE) ex_backend_lease (ex_s4, ex_ledger) = (res, s) \<and> (fst s = ex_s4)"
  using recovery_dispatch_safe [OF ex_svc_reachable(4), of ex_handler "ex_item EXECUTE" ex_backend_lease ex_ledger]
  by (auto simp: ex_handler_def)

text \<open>
  Round trip of the definition registry: when a list of definitions is accepted, every definition of
  the list is resolved by its own id and version to a definition of the list with the same id,
  version and fingerprint; and a list is refused exactly when two of its definitions agree on id and
  version and differ in their fingerprints.
\<close>

theorem registry_round_trip:
  "(case registry_of digest ds of
      Inl e \<Rightarrow> e = FlowDefinitionConflictError \<and>
        (\<exists>d \<in> set ds. \<exists>d' \<in> set ds. def_key d = def_key d' \<and> flow_fingerprint digest d \<noteq> flow_fingerprint digest d')
    | Inr reg \<Rightarrow> (\<forall>d \<in> set ds. \<exists>d' \<in> set ds. registry_resolve reg (fd_id d) (fd_version d) = Inr d' \<and>
        def_key d' = def_key d \<and> flow_fingerprint digest d' = flow_fingerprint digest d))"
proof -
  have "serves digest [] []" "consistent digest []" by (simp_all add: serves_def consistent_def)
  from register_all_serves [OF this, of ds] show ?thesis
  proof (cases "registry_of digest ds")
    case (Inr reg)
    with register_all_serves [OF \<open>serves digest [] []\<close> \<open>consistent digest []\<close>, of ds] have sv: "serves digest reg ds"
      by (simp add: registry_of_def)
    have "\<exists>d' \<in> set ds. registry_resolve reg (fd_id d) (fd_version d) = Inr d' \<and> def_key d' = def_key d \<and>
        flow_fingerprint digest d' = flow_fingerprint digest d" if "d \<in> set ds" for d
      using sv that unfolding serves_def registry_resolve_def by (metis option.simps(5))
    with Inr show ?thesis by simp
  qed (auto simp: registry_of_def consistent_def)
qed

theorem registry_round_trip_witness:
  "\<exists>reg d. registry_of ex_digest [ex_definition] = Inr reg \<and>
     registry_resolve reg (fd_id ex_definition) (fd_version ex_definition) = Inr d"
proof -
  obtain reg where reg: "registry_of ex_digest [ex_definition] = Inr reg" by (simp add: registry_of_def)
  with registry_round_trip [of "[ex_definition]" ex_digest] show ?thesis by auto
qed

end
