(* ===== verification/Flow_Worker.thy ===== *)
theory Flow_Worker
  imports Flow_Recovery
begin

text \<open>
  \<open>flows/worker.py\<close>: the execution runner, which owns and heartbeats the lease of one Flow while a
  handler works, and the polling worker, which claims, supervises and settles one work item at a time.

  The coroutines share one event loop. A schedule is a list of turns, each the uninterrupted run of one
  task up to its next await: \<open>Slice\<close> for the execution coroutine or its handler, \<open>Beat\<close> and
  \<open>DeliveryBeat\<close> for the two heartbeats after their sleep, \<open>Wake\<close> and \<open>SupervisorWake\<close> for the two
  tasks that wait for the first completion, \<open>Other\<close> for anything else on the loop. A finished task and
  a failing heartbeat can thus both be done before the waiting task runs, as with \<open>asyncio.wait\<close>.
  The end of a schedule is the cancellation of the worker's task.
\<close>

subsection \<open>State\<close>

type_synonym world = "backend \<times> work_source"
type_synonym 'a world_prog = "(world, exn, 'a) prog"

definition in_backend :: "'a backend_prog \<Rightarrow> 'a world_prog" where
  "in_backend m = (\<lambda>(b, s). case m b of (x, b') \<Rightarrow> (x, (b', s)))"

definition in_work :: "'a work_prog \<Rightarrow> 'a world_prog" where
  "in_work m = (\<lambda>(b, s). case m s of (x, s') \<Rightarrow> (x, (b, s')))"

datatype turn = Slice | Beat | Wake | DeliveryBeat | SupervisorWake | Other "world \<Rightarrow> world"

text \<open>
  A handler runs in slices; the \<open>n\<close>-th slice either goes on or ends with a result. \<open>hn_cancel\<close> is what
  it still does when it is cancelled after \<open>n\<close> slices.
\<close>

datatype progress = Working | Ended "exn + unit"

record work_handler =
  hn_slice :: "work_item \<Rightarrow> flow_lease \<Rightarrow> nat \<Rightarrow> backend \<Rightarrow> progress \<times> backend"
  hn_cancel :: "work_item \<Rightarrow> flow_lease \<Rightarrow> nat \<Rightarrow> backend \<Rightarrow> backend"

text \<open>A handler that does its work in one slice, such as \<open>handle_work\<close>.\<close>

definition atomic_handler :: "(work_item \<Rightarrow> flow_lease \<Rightarrow> unit backend_prog) \<Rightarrow> work_handler" where
  "atomic_handler m = \<lparr>hn_slice = (\<lambda>i l n b. case m i l b of (r, b') \<Rightarrow> (Ended r, b')), hn_cancel = (\<lambda>i l n b. b)\<rparr>"

subsection \<open>The execution runner\<close>

record runner =
  ru_owner :: string
  ru_ttl :: seconds
  ru_interval :: seconds

definition make_runner :: "string \<Rightarrow> seconds \<Rightarrow> seconds \<Rightarrow> exn + runner" where
  "make_runner owner ttl interval =
     (if blank owner then Inl (ValueError ''Flow worker owner_id must not be blank'')
      else if 256 < length owner then Inl (ValueError ''Flow worker owner_id must not exceed 256 characters'')
      else if ttl \<le> 0 then Inl (ValueError ''Flow worker ttl_seconds must be greater than zero'')
      else if interval \<le> 0 then Inl (ValueError ''Flow worker heartbeat_interval must be greater than zero'')
      else if ttl \<le> interval then Inl (ValueError ''Flow worker heartbeat_interval must be less than ttl_seconds'')
      else Inr \<lparr>ru_owner = owner, ru_ttl = ttl, ru_interval = interval\<rparr>)"

text \<open>
  Where \<open>execute\<close> stands: acquiring the lease, in \<open>_run_owned\<close> with the handler at its \<open>n\<close>-th slice
  (the lease acquired and the last renewal of it), in \<open>_run_owned\<close> with the handler done and the
  waiting task not yet resumed, releasing the lease in the \<open>finally\<close> block, or done.
\<close>

datatype phase =
    Acquiring
  | Owned nat flow_lease flow_lease
  | OpDone nat flow_lease flow_lease "exn + unit"
  | Releasing flow_lease "exn + unit"
  | Finished "exn + unit"

definition heartbeat :: "runner \<Rightarrow> flow_lease \<Rightarrow> flow_lease world_prog" where
  "heartbeat ru current = in_backend (in_repo (renew_execution current (ru_ttl ru) None))"

text \<open>The \<open>finally\<close> block of \<open>execute\<close>: a lost lease is reported only when nothing else failed.\<close>

definition release_after :: "flow_lease \<Rightarrow> exn + unit \<Rightarrow> world \<Rightarrow> (exn + unit) \<times> world" where
  "release_after lease res w = (case in_backend (in_repo (release_execution lease)) w of
     (Inr _, w') \<Rightarrow> (res, w')
   | (Inl e, w') \<Rightarrow> (if e = FlowLeaseLostError \<and> res \<noteq> Inr () then res else Inl e, w'))"

definition cancel_handler :: "work_handler \<Rightarrow> work_item \<Rightarrow> flow_lease \<Rightarrow> nat \<Rightarrow> world \<Rightarrow> world" where
  "cancel_handler hn item lease n w = (case w of (b, s) \<Rightarrow> (hn_cancel hn item lease n b, s))"

fun exec_turn :: "runner \<Rightarrow> work_handler \<Rightarrow> work_item \<Rightarrow> turn \<Rightarrow> phase \<Rightarrow> world \<Rightarrow> phase \<times> world" where
  "exec_turn ru hn item Slice Acquiring w =
     (case in_backend (in_repo (acquire_execution (wc_run_id (wi_command item)) (ru_owner ru) (ru_ttl ru) None)) w of
        (Inl e, w') \<Rightarrow> (Finished (Inl e), w')
      | (Inr lease, w') \<Rightarrow> (Owned 0 lease lease, w'))"
| "exec_turn ru hn item Slice (Owned n lease current) (b, s) =
     (case hn_slice hn item lease n b of
        (Working, b') \<Rightarrow> (Owned (Suc n) lease current, (b', s))
      | (Ended res, b') \<Rightarrow> (OpDone n lease current res, (b', s)))"
| "exec_turn ru hn item Slice (Releasing lease res) w =
     (case release_after lease res w of (res', w') \<Rightarrow> (Finished res', w'))"
| "exec_turn ru hn item Beat (Owned n lease current) w =
     (case heartbeat ru current w of
        (Inl e, w') \<Rightarrow> (Releasing lease (Inl e), cancel_handler hn item lease n w')
      | (Inr renewed, w') \<Rightarrow> (Owned n lease renewed, w'))"
| "exec_turn ru hn item Beat (OpDone n lease current res) w =
     (case heartbeat ru current w of
        (Inl e, w') \<Rightarrow> (Releasing lease (Inl e), w')
      | (Inr renewed, w') \<Rightarrow> (OpDone n lease renewed res, w'))"
| "exec_turn ru hn item Wake (OpDone n lease current res) w = (Releasing lease res, w)"
| "exec_turn ru hn item (Other f) ph w = (ph, f w)"
| "exec_turn ru hn item t ph w = (ph, w)"

text \<open>Cancelling the coroutine: what its handlers and \<open>finally\<close> blocks still do.\<close>

fun cancel_execution :: "work_handler \<Rightarrow> work_item \<Rightarrow> phase \<Rightarrow> world \<Rightarrow> world" where
  "cancel_execution hn item (Owned n lease current) w =
     snd (release_after lease (Inl CancelledError) (cancel_handler hn item lease n w))"
| "cancel_execution hn item (OpDone n lease current res) w = snd (release_after lease (Inl CancelledError) w)"
| "cancel_execution hn item ph w = w"

text \<open>\<open>FlowExecutionRunner.execute\<close> alone, until it is done or the schedule ends.\<close>

fun execute :: "runner \<Rightarrow> work_handler \<Rightarrow> work_item \<Rightarrow> turn list \<Rightarrow> phase \<Rightarrow> world \<Rightarrow> (exn + unit) \<times> world" where
  "execute ru hn item ts (Finished res) w = (res, w)"
| "execute ru hn item [] ph w = (Inl CancelledError, cancel_execution hn item ph w)"
| "execute ru hn item (t # ts) ph w = (case exec_turn ru hn item t ph w of (ph', w') \<Rightarrow> execute ru hn item ts ph' w')"

subsection \<open>The polling worker\<close>

record worker =
  wk_runner :: runner
  wk_owner :: string
  wk_delivery_ttl :: seconds
  wk_delivery_interval :: seconds
  wk_retry_delay :: seconds
  wk_poll_interval :: seconds

definition make_worker :: "runner \<Rightarrow> string \<Rightarrow> seconds \<Rightarrow> seconds \<Rightarrow> seconds \<Rightarrow> seconds \<Rightarrow> exn + worker" where
  "make_worker ru owner ttl interval delay poll =
     (if blank owner then Inl (ValueError ''Flow polling worker owner_id must not be blank'')
      else if 256 < length owner then Inl (ValueError ''Flow polling worker owner_id must not exceed 256 characters'')
      else if ttl \<le> 0 then Inl (ValueError ''Flow polling worker delivery_ttl_seconds must be greater than zero'')
      else if interval \<le> 0
      then Inl (ValueError ''Flow polling worker delivery_heartbeat_interval must be greater than zero'')
      else if ttl \<le> interval
      then Inl (ValueError ''Flow polling worker delivery_heartbeat_interval must be less than delivery_ttl_seconds'')
      else if delay < 0 then Inl (ValueError ''Flow polling worker retry_delay_seconds must not be negative'')
      else if poll \<le> 0 then Inl (ValueError ''Flow polling worker poll_interval must be greater than zero'')
      else Inr \<lparr>wk_runner = ru, wk_owner = owner, wk_delivery_ttl = ttl, wk_delivery_interval = interval,
        wk_retry_delay = delay, wk_poll_interval = poll\<rparr>)"

text \<open>
  \<open>_run_with_delivery_heartbeat\<close>: \<open>item\<close> is the claimed item and \<open>held\<close> its last renewal. The
  supervisor takes the outcome of \<open>execute\<close> unless the delivery heartbeat has failed before.
\<close>

fun supervise :: "worker \<Rightarrow> work_handler \<Rightarrow> work_item \<Rightarrow> turn list \<Rightarrow> work_item \<Rightarrow> phase \<Rightarrow> world \<Rightarrow> (exn + unit) \<times> world" where
  "supervise wk hn item [] held ph w = (Inl CancelledError, cancel_execution hn item ph w)"
| "supervise wk hn item (SupervisorWake # ts) held (Finished res) w = (res, w)"
| "supervise wk hn item (DeliveryBeat # ts) held ph w =
     (case wi_delivery_token held of
        None \<Rightarrow> (Inl AssertionError, cancel_execution hn item ph w)
      | Some tok \<Rightarrow> (case in_work (work_renew (wi_id held) tok (wk_delivery_ttl wk) None) w of
          (Inl e, w') \<Rightarrow> (Inl e, cancel_execution hn item ph w')
        | (Inr renewed, w') \<Rightarrow> supervise wk hn item ts renewed ph w'))"
| "supervise wk hn item (t # ts) held ph w =
     (case exec_turn (wk_runner wk) hn item t ph w of (ph', w') \<Rightarrow> supervise wk hn item ts held ph' w')"

definition retry_after_failure :: "worker \<Rightarrow> work_item \<Rightarrow> string \<Rightarrow> bool \<Rightarrow> unit world_prog" where
  "retry_after_failure wk item error_type preserve_cancellation = (case wi_delivery_token item of
     None \<Rightarrow> praise AssertionError
   | Some tok \<Rightarrow> ptry (in_work (work_retry (wi_id item) tok (wk_retry_delay wk) (Some error_type) None)) (\<lambda>r. case r of
       Inr _ \<Rightarrow> pret ()
     | Inl e \<Rightarrow> if e = FlowWorkDeliveryLostError \<or> preserve_cancellation then pret () else praise e))"

definition run_once :: "worker \<Rightarrow> work_handler \<Rightarrow> turn list \<Rightarrow> bool world_prog" where
  "run_once wk hn ts = pbind (in_work (work_claim (wk_owner wk) (wk_delivery_ttl wk) None)) (\<lambda>claimed. case claimed of
     None \<Rightarrow> pret False
   | Some item \<Rightarrow> (case wi_delivery_token item of None \<Rightarrow> praise AssertionError | Some tok \<Rightarrow>
       ptry (supervise wk hn item ts item Acquiring) (\<lambda>res. case res of
         Inl (FlowWorkBlockedError reason) \<Rightarrow>
           pbind (in_work (work_block (wi_id item) tok reason None)) (\<lambda>_. pret True)
       | Inl CancelledError \<Rightarrow> pbind (retry_after_failure wk item ''CancelledError'' True) (\<lambda>_. praise CancelledError)
       | Inl e \<Rightarrow> pbind (retry_after_failure wk item (exn_name e) False) (\<lambda>_. praise e)
       | Inr _ \<Rightarrow> pbind (in_work (work_complete (wi_id item) tok None)) (\<lambda>_. pret True))))"

text \<open>
  \<open>run_forever\<close> for as many polls as the script has: each gives the value of the stop flag at the head of
  the loop, the schedule of \<open>run_once\<close> and what happens during \<open>_wait_for_work_or_stop\<close>. The result
  tells whether the loop ended because of the stop flag.
\<close>

fun run_forever :: "worker \<Rightarrow> work_handler \<Rightarrow> (bool \<times> turn list \<times> (world \<Rightarrow> world)) list \<Rightarrow> bool world_prog" where
  "run_forever wk hn [] = pret False"
| "run_forever wk hn ((stop, ts, idle) # polls) = (if stop then pret True
     else ptry (run_once wk hn ts) (\<lambda>r. case r of
       Inl e \<Rightarrow> if e = CancelledError then praise e else run_forever wk hn polls
     | Inr True \<Rightarrow> run_forever wk hn polls
     | Inr False \<Rightarrow> pbind (pput idle) (\<lambda>_. run_forever wk hn polls)))"

subsection \<open>The lease of an execution\<close>

abbreviation lease_in :: "world \<Rightarrow> uuid \<Rightarrow> (flow_lease \<times> bool) option" where
  "lease_in w k \<equiv> dict_get (repo_leases (fst (fst w))) k"

definition given_up :: "flow_lease \<Rightarrow> world \<Rightarrow> bool" where
  "given_up l w \<longleftrightarrow> (\<forall>cur act. lease_in w (ls_run_id l) = Some (cur, act) \<longrightarrow> \<not> (act \<and> ls_token cur = ls_token l))"

definition kept :: "flow_lease \<Rightarrow> world \<Rightarrow> bool" where
  "kept l w \<longleftrightarrow> (\<exists>cur. lease_in w (ls_run_id l) = Some (cur, False) \<and> ls_token cur = ls_token l)"

lemma release_after_gives_up:
  assumes "release_after l res w = (res', w')"
  shows "given_up l w' \<and> (res' = Inr () \<longrightarrow> res = Inr () \<and> kept l w')"
proof -
  obtain r led s where w: "w = ((r, led), s)" by (metis surj_pair)
  show ?thesis
    using assms unfolding w
    by (auto simp: release_after_def in_backend_def in_repo_def release_execution_eq given_up_def kept_def
        split: option.splits prod.splits if_splits)
qed

text \<open>While the lease is held, each phase names it.\<close>

fun concerns :: "flow_lease \<Rightarrow> phase \<Rightarrow> world \<Rightarrow> bool" where
  "concerns l (Owned n lease current) w = (lease = l)"
| "concerns l (OpDone n lease current res) w = (lease = l)"
| "concerns l (Releasing lease res) w = (lease = l)"
| "concerns l (Finished res) w = (given_up l w \<and> (res = Inr () \<longrightarrow> kept l w))"
| "concerns l Acquiring w = False"

lemma concerns_world: "concerns l ph w \<Longrightarrow> (\<And>res. ph \<noteq> Finished res) \<Longrightarrow> concerns l ph w'"
  by (cases ph) auto

lemma exec_turn_concerns:
  assumes "concerns l ph w" and "exec_turn ru hn item t ph w = (ph', w')" and "\<And>res. ph \<noteq> Finished res"
  shows "concerns l ph' w'"
  using assms
  by (induction ru hn item t ph w rule: exec_turn.induct)
    (auto split: prod.splits sum.splits progress.splits dest: release_after_gives_up intro: concerns_world)

lemma cancel_concerns:
  assumes "concerns l ph w" "\<And>res. ph \<noteq> Finished res" "\<And>l res. ph \<noteq> Releasing l res"
  shows "given_up l (cancel_execution hn item ph w)"
  using assms release_after_gives_up [OF prod.collapse [symmetric]]
  by (cases ph) auto

lemma execute_gives_up:
  assumes "concerns l ph w" and "execute ru hn item (ts @ [Slice]) ph w = (res, w')"
  shows "given_up l w' \<and> (res = Inr () \<longrightarrow> kept l w')"
  using assms
proof (induction ts arbitrary: ph w)
  case Nil
  obtain ph1 w1 where t: "exec_turn ru hn item Slice ph w = (ph1, w1)"
    by (cases "exec_turn ru hn item Slice ph w")
  show ?case
  proof (cases "\<exists>r. ph = Finished r")
    case False
    from exec_turn_concerns [OF Nil.prems(1) t] False have c: "concerns l ph1 w1" by blast
    have "execute ru hn item [] ph1 w1 = (res, w')" using Nil.prems(2) t False by (cases ph) auto
    moreover have "ph1 \<noteq> Releasing l' r" for l' r
      using t Nil.prems(1) False by (cases ph; cases w) (auto split: prod.splits progress.splits)
    ultimately show ?thesis using c cancel_concerns [OF c] by (cases ph1) auto
  qed (use Nil.prems in auto)
next
  case (Cons t ts)
  obtain ph1 w1 where t: "exec_turn ru hn item t ph w = (ph1, w1)"
    by (cases "exec_turn ru hn item t ph w")
  show ?case
  proof (cases "\<exists>r. ph = Finished r")
    case False
    have "execute ru hn item (ts @ [Slice]) ph1 w1 = (res, w')" using Cons.prems(2) t False by (cases ph) auto
    with Cons.IH exec_turn_concerns [OF Cons.prems(1) t] False show ?thesis by blast
  qed (use Cons.prems in auto)
qed

subsection \<open>Work for a closed Flow\<close>

definition claimed_in :: "work_source \<Rightarrow> uuid \<Rightarrow> bool" where
  "claimed_in s k \<longleftrightarrow> (\<exists>i. item_at s k = Some i \<and> wi_id i = k \<and> wi_status i = WClaimed)"

lemma renew_claimed:
  assumes "claimed_in s k" and "work_renew k tok ttl now s = (res, s')"
  shows "claimed_in s' k" and "res = Inr i \<Longrightarrow> wi_id i = k \<and> wi_delivery_token i = Some tok"
    and "res \<noteq> Inl (FlowWorkBlockedError x)"
  using assms by (auto simp: claimed_in_def work_renew_def delivery_eqs delivery_lost_def split: if_splits)

lemma retry_open:
  assumes "claimed_in s k" and "work_retry k tok delay err now s = (res, s')"
  shows "\<exists>i. item_at s' k = Some i \<and> wi_status i \<in> {WPending, WClaimed}"
  using assms by (auto simp: claimed_in_def work_retry_def delivery_eqs split: if_splits option.splits)

lemma acquire_terminal:
  assumes "dict_get (repo_states r) k = Some st" "terminal (fs_status st)" "validate_lease_arguments owner ttl = Inr ()"
  shows "acquire_execution k owner ttl None r = (Inl FlowLeaseUnavailableError, after_read None r)"
  using assms by (simp add: acquire_execution_eq)

lemma make_runner_lease:
  assumes "make_runner owner ttl interval = Inr ru"
  shows "validate_lease_arguments (ru_owner ru) (ru_ttl ru) = Inr ()"
proof -
  have "ru = \<lparr>ru_owner = owner, ru_ttl = ttl, ru_interval = interval\<rparr>" "\<not> blank owner" "length owner \<le> 256" "0 < ttl"
    using assms by (auto simp: make_runner_def split: if_splits)
  then show ?thesis by (simp add: validate_lease_arguments_def)
qed

fun external :: "turn \<Rightarrow> bool" where
  "external (Other f) = True"
| "external t = False"

lemma supervise_terminal:
  assumes "list_all (\<lambda>t. \<not> external t) ts" and "ph = Acquiring \<or> ph = Finished (Inl FlowLeaseUnavailableError)"
    and run: "dict_get (repo_states r) (wc_run_id (wi_command item)) = Some st" "terminal (fs_status st)"
    and args: "validate_lease_arguments (ru_owner (wk_runner wk)) (ru_ttl (wk_runner wk)) = Inr ()"
    and held: "wi_id held = k" "wi_delivery_token held = Some tok" and s: "claimed_in s k"
  shows "\<exists>e r' s'. supervise wk hn item ts held ph ((r, l), s) = (Inl e, ((r', l), s')) \<and>
    (\<forall>x. e \<noteq> FlowWorkBlockedError x) \<and> repo_states r' = repo_states r \<and> claimed_in s' k"
  using assms(1,2) held s run(1)
proof (induction ts arbitrary: ph held s r)
  case Nil
  then show ?case by auto
next
  case (Cons t ts)
  have rest: "list_all (\<lambda>t. \<not> external t) ts" using Cons.prems(1) by simp
  show ?case
  proof (cases t)
    case DeliveryBeat
    obtain res s1 where res: "work_renew k tok (wk_delivery_ttl wk) None s = (res, s1)"
      by (cases "work_renew k tok (wk_delivery_ttl wk) None s")
    note ren = renew_claimed [OF Cons.prems(5) res]
    show ?thesis
    proof (cases res)
      case (Inl e)
      with ren res Cons.prems(2,3,4) DeliveryBeat show ?thesis by (auto simp: in_work_def)
    next
      case (Inr i)
      with ren(2) have i: "wi_id i = k" "wi_delivery_token i = Some tok" by auto
      from Cons.IH [OF rest Cons.prems(2) i ren(1) Cons.prems(6)] Inr res Cons.prems(3,4) DeliveryBeat
      show ?thesis by (simp add: in_work_def)
    qed
  next
    case Slice
    let ?r = "after_read None r"
    have acq: "acquire_execution (wc_run_id (wi_command item)) (ru_owner (wk_runner wk)) (ru_ttl (wk_runner wk)) None r =
        (Inl FlowLeaseUnavailableError, ?r)" using Cons.prems(6) run(2) args by (rule acquire_terminal)
    have same: "repo_states ?r = repo_states r" by (simp add: after_read_def)
    from Cons.IH [OF rest disjI2 [OF refl] Cons.prems(3-5), of ?r] Cons.IH [OF rest Cons.prems(2-6)]
      Cons.prems(2,6) Slice acq same
    show ?thesis by (auto simp: in_backend_def in_repo_def)
  next
    case SupervisorWake
    then show ?thesis using Cons.prems Cons.IH [OF rest Cons.prems(2-6)] by auto
  next
    case Beat
    then show ?thesis using Cons.IH [OF rest Cons.prems(2-6)] Cons.prems(2) by auto
  next
    case Wake
    then show ?thesis using Cons.IH [OF rest Cons.prems(2-6)] Cons.prems(2) by auto
  next
    case Other
    then show ?thesis using Cons.prems(1) by simp
  qed
qed

lemma retry_after_failure_open:
  assumes "claimed_in s k" "wi_id item = k" "wi_delivery_token item = Some tok"
    and "retry_after_failure wk item name p (b, s) = (res, (b', s'))"
  shows "b' = b \<and> (\<exists>i. item_at s' k = Some i \<and> wi_status i \<in> {WPending, WClaimed})"
proof -
  obtain q s1 where q: "work_retry k tok (wk_retry_delay wk) (Some name) None s = (q, s1)"
    by (cases "work_retry k tok (wk_retry_delay wk) (Some name) None s")
  from retry_open [OF assms(1) q] show ?thesis
    using assms(2-4) q by (auto simp: retry_after_failure_def in_work_def ptry_app split: sum.splits if_splits)
qed

subsection \<open>Properties\<close>

definition ex_runner :: runner where
  "ex_runner = \<lparr>ru_owner = ''w1'', ru_ttl = 30, ru_interval = 10\<rparr>"

definition ex_worker :: worker where
  "ex_worker = \<lparr>wk_runner = ex_runner, wk_owner = ''w1'', wk_delivery_ttl = 60, wk_delivery_interval = 20,
     wk_retry_delay = 1, wk_poll_interval = 1 / 4\<rparr>"

definition ex_closed :: flow_repo where
  "ex_closed = (empty_repo (\<lambda>n. int n) (\<lambda>n. n))\<lparr>repo_states := [(7, ex_completed)]\<rparr>"

text \<open>
  C19. Work for a Flow that is already terminal is never settled: whatever the handler is and whatever the
  schedule of the worker's own tasks, \<open>run_once\<close> raises, the Flow is unchanged, and the claimed item
  is neither completed nor blocked but pending again (or claimed until its delivery expires), so
  that it is delivered again and again. The recovery policy's answer for this case, to complete the
  item without action, is never reached, because the worker cannot acquire the lease of a terminal
  Flow.
\<close>

theorem terminal_run_work_never_settles:
  assumes s: "work_reachable s" and ru: "make_runner owner ttl interval = Inr (wk_runner wk)"
    and claim: "work_claim (wk_owner wk) (wk_delivery_ttl wk) None s = (Inr (Some item), s1)"
    and run: "dict_get (repo_states r) (wc_run_id (wi_command item)) = Some st" "terminal (fs_status st)"
    and ts: "list_all (\<lambda>t. \<not> external t) ts"
  shows "\<exists>e r' s' i. run_once wk hn ts ((r, l), s) = (Inl e, ((r', l), s')) \<and> repo_states r' = repo_states r \<and>
    item_at s' (wi_id item) = Some i \<and> wi_status i \<in> {WPending, WClaimed}"
proof -
  let ?k = "wi_id item"
  from claim_takes [OF work_reachable_inv [OF s] claim] obtain i0 where
    item: "item = claimed_item i0 (wk_owner wk) (uuid_stream s (uuid_draws s)) (time_of None s) (wk_delivery_ttl wk)"
    "ws_items s1 = dict_set ?k item (ws_items s)" by blast
  let ?tok = "uuid_stream s (uuid_draws s)"
  have tok: "wi_delivery_token item = Some ?tok" and c: "claimed_in s1 ?k"
    using item(2) by (auto simp: claimed_in_def item(1) claimed_item_def)
  have "validate_lease_arguments (ru_owner (wk_runner wk)) (ru_ttl (wk_runner wk)) = Inr ()"
    using make_runner_lease [OF ru] .
  from supervise_terminal [OF ts disjI1 [OF refl] run this refl tok c, of hn l] obtain e r' s' where
    sup: "supervise wk hn item ts item Acquiring ((r, l), s1) = (Inl e, ((r', l), s'))" "\<And>x. e \<noteq> FlowWorkBlockedError x"
      "repo_states r' = repo_states r" "claimed_in s' ?k" by blast
  let ?name = "if e = CancelledError then ''CancelledError'' else exn_name e"
  obtain res b s2 where retry: "retry_after_failure wk item ?name (e = CancelledError) ((r', l), s') = (res, (b, s2))"
    by (metis surj_pair)
  from retry_after_failure_open [OF sup(4) refl tok retry]
  have b: "b = (r', l)" "\<exists>i. item_at s2 ?k = Some i \<and> wi_status i \<in> {WPending, WClaimed}" by auto
  have "\<exists>e'. run_once wk hn ts ((r, l), s) = (Inl e', ((r', l), s2))"
    using claim tok sup(1,2) retry b(1)
    by (cases e; cases res) (simp_all add: run_once_def pbind_app ptry_app in_work_def)
  with b sup(3) show ?thesis by blast
qed

theorem terminal_run_work_never_settles_witness:
  "\<exists>e r' s' i. run_once ex_worker (atomic_handler (handle_work ex_handler)) [Slice, SupervisorWake] ((ex_closed, ex_ledger), ex_w1) =
      (Inl e, ((r', ex_ledger), s')) \<and> item_at s' 500 = Some i \<and> wi_status i \<in> {WPending, WClaimed}"
proof -
  have "(case fst (work_claim (wk_owner ex_worker) (wk_delivery_ttl ex_worker) None ex_w1) of
      Inr (Some item) \<Rightarrow> wi_id item = 500 \<and> wc_run_id (wi_command item) = 7 | _ \<Rightarrow> False)" by code_simp
  then obtain item s1 where item: "work_claim (wk_owner ex_worker) (wk_delivery_ttl ex_worker) None ex_w1 = (Inr (Some item), s1)"
    "wi_id item = 500" "wc_run_id (wi_command item) = 7"
    by (cases "work_claim (wk_owner ex_worker) (wk_delivery_ttl ex_worker) None ex_w1") (auto split: sum.splits option.splits)
  have ru: "make_runner ''w1'' 30 10 = Inr (wk_runner ex_worker)" by code_simp
  have run: "dict_get (repo_states ex_closed) (wc_run_id (wi_command item)) = Some ex_completed"
    using item(3) by (simp add: ex_closed_def)
  have t: "terminal (fs_status ex_completed)" by code_simp
  have ts: "list_all (\<lambda>t. \<not> external t) [Slice, SupervisorWake]" by simp
  from terminal_run_work_never_settles [OF ex_w_reachable(2) ru item(1) run t ts,
      of "atomic_handler (handle_work ex_handler)" ex_ledger] item(2)
  show ?thesis by metis
qed

text \<open>
  C18. An execution gives its lease up. From the moment \<open>execute\<close> has acquired a lease, and for every handler,
  every interleaving of heartbeats and other tasks, failure and cancellation, once the coroutine has
  had its last turn the lease is no longer active under its token; and \<open>execute\<close> returns normally
  only when nobody else has acquired the run in the meantime.
\<close>

theorem execute_gives_up_lease:
  assumes "acquire_execution (wc_run_id (wi_command item)) (ru_owner ru) (ru_ttl ru) None r = (Inr lease, r1)"
    and "execute ru hn item (Slice # ts @ [Slice]) Acquiring ((r, l), s) = (res, ((r', l'), s'))"
  shows "(\<forall>cur act. dict_get (repo_leases r') (ls_run_id lease) = Some (cur, act) \<longrightarrow>
      \<not> (act \<and> ls_token cur = ls_token lease)) \<and>
    (res = Inr () \<longrightarrow> (\<exists>cur. dict_get (repo_leases r') (ls_run_id lease) = Some (cur, False) \<and>
      ls_token cur = ls_token lease))"
proof -
  have "execute ru hn item (ts @ [Slice]) (Owned 0 lease lease) ((r1, l), s) = (res, ((r', l'), s'))"
    using assms by (simp add: in_backend_def in_repo_def)
  from execute_gives_up [OF _ this, of lease] show ?thesis by (simp add: given_up_def kept_def)
qed

definition ex_open :: flow_repo where
  "ex_open = (empty_repo (\<lambda>n. int n) (\<lambda>n. n))\<lparr>repo_states := [(7, ex_created)]\<rparr>"

theorem execute_gives_up_lease_witness:
  "\<exists>lease r1 res r' l' s'.
    acquire_execution (wc_run_id (wi_command (ex_item EXECUTE))) (ru_owner ex_runner) (ru_ttl ex_runner) None ex_open = (Inr lease, r1) \<and>
    execute ex_runner (atomic_handler (\<lambda>i l. pret ())) (ex_item EXECUTE) (Slice # [Slice, Wake] @ [Slice]) Acquiring
      ((ex_open, ex_ledger), ex_w0) = (res, ((r', l'), s')) \<and>
    (\<forall>cur act. dict_get (repo_leases r') (ls_run_id lease) = Some (cur, act) \<longrightarrow> \<not> (act \<and> ls_token cur = ls_token lease))"
proof -
  let ?acq = "acquire_execution (wc_run_id (wi_command (ex_item EXECUTE))) (ru_owner ex_runner) (ru_ttl ex_runner) None ex_open"
  have "\<not> isl (fst ?acq)" by code_simp
  then obtain lease r1 where a: "?acq = (Inr lease, r1)" by (metis succeeded)
  obtain res r' l' s' where e: "execute ex_runner (atomic_handler (\<lambda>i l. pret ())) (ex_item EXECUTE) (Slice # [Slice, Wake] @ [Slice]) Acquiring
      ((ex_open, ex_ledger), ex_w0) = (res, ((r', l'), s'))" by (metis surj_pair)
  from execute_gives_up_lease [OF a e] a e show ?thesis by blast
qed

end
