(* ===== verification/Stores.thy ===== *)
theory Stores
  imports Runs "HOL-Library.Sublist"
begin

text \<open>
  \<open>stores/in_memory.py\<close>: the stores of conversations, runs, run events, checkpoints and binary content.
  Every operation runs under the store's lock and is one atomic step. A \<open>defaultdict\<close> is a dictionary
  whose missing keys read as the empty list. \<open>hashlib.sha256\<close> is a parameter.
\<close>

subsection \<open>Conversations\<close>

record conversation_store = host +
  cs_conversations :: "(uuid, conversation) dict"
  cs_turns :: "(uuid, conversation_turn list) dict"

type_synonym 'a conversation_prog = "(conversation_store, exn, 'a) prog"

definition turns_of :: "uuid \<Rightarrow> conversation_store \<Rightarrow> conversation_turn list" where
  "turns_of k s = (case dict_get (cs_turns s) k of None \<Rightarrow> [] | Some ts \<Rightarrow> ts)"

definition create_conversation :: "conversation \<Rightarrow> unit conversation_prog" where
  "create_conversation c s = (if dict_get (cs_conversations s) (cv_id c) \<noteq> None then (Inl ConversationAlreadyExistsError, s)
     else (Inr (), s\<lparr>cs_conversations := dict_set (cv_id c) c (cs_conversations s)\<rparr>))"

definition get_conversation :: "uuid \<Rightarrow> conversation conversation_prog" where
  "get_conversation k s = (case dict_get (cs_conversations s) k of
     None \<Rightarrow> (Inl ConversationNotFoundError, s) | Some c \<Rightarrow> (Inr c, s))"

text \<open>\<open>_messages_locked\<close>.\<close>

fun messages_of :: "conversation_turn list \<Rightarrow> message list" where
  "messages_of [] = []"
| "messages_of (t # ts) = (if ct_status t \<noteq> Completed then messages_of ts
     else user_message (ct_user_message t) #
       \<lparr>mg_role = AssistantRole, mg_content = Some (case ct_assistant_message t of None \<Rightarrow> [] | Some m \<Rightarrow> m),
        mg_tool_calls = [], mg_tool_call_id = None\<rparr> # messages_of ts)"

definition begin_turn :: "uuid \<Rightarrow> uuid \<Rightarrow> string \<Rightarrow> string \<Rightarrow> (conversation_turn \<times> message list) conversation_prog" where
  "begin_turn k run_id profile_id prompt =
     (if blank prompt then praise (ValueError ''user_message must not be empty'')
      else pbind (get_conversation k) (\<lambda>c.
        if cv_profile_id c \<noteq> profile_id then praise ConversationProfileMismatchError
        else if cv_active_run_id c \<noteq> None then praise ConversationBusyError
        else pbind pget (\<lambda>s. let history = messages_of (turns_of k s) in
          pbind utc_now (\<lambda>t1. pbind utc_now (\<lambda>t2.
          pbind (plift (construct valid_turn \<lparr>ct_conversation_id = k, ct_sequence = cv_version c + 1, ct_run_id = run_id,
            ct_status = Running, ct_user_message = prompt, ct_assistant_message = None, ct_created_at = t1,
            ct_updated_at = t2\<rparr>)) (\<lambda>turn.
          pbind (pput (\<lambda>s. s\<lparr>cs_turns := dict_set k (turns_of k s @ [turn]) (cs_turns s)\<rparr>)) (\<lambda>_.
          pbind utc_now (\<lambda>t3.
          pbind (pput (\<lambda>s. s\<lparr>cs_conversations := dict_set k (c\<lparr>cv_version := ct_sequence turn,
            cv_active_run_id := Some run_id, cv_updated_at := t3\<rparr>) (cs_conversations s)\<rparr>)) (\<lambda>_.
          pret (turn, history))))))))))"

text \<open>\<open>next((index for index, turn in enumerate(turns) if turn.run_id == run_id), None)\<close>.\<close>

fun turn_index :: "uuid \<Rightarrow> conversation_turn list \<Rightarrow> nat option" where
  "turn_index run_id [] = None"
| "turn_index run_id (t # ts) = (if ct_run_id t = run_id then Some 0 else map_option Suc (turn_index run_id ts))"

definition finish_turn :: "uuid \<Rightarrow> uuid \<Rightarrow> run_status \<Rightarrow> string option \<Rightarrow> conversation_turn conversation_prog" where
  "finish_turn k run_id status reply =
     (if status \<in> {Created, Running} then praise (ValueError ''Conversation Turn cannot finish in an active Run state'')
      else pbind (get_conversation k) (\<lambda>c. pbind pget (\<lambda>s.
        let turns = turns_of k s in
        case turn_index run_id turns of None \<Rightarrow> praise ConversationTurnNotFoundError
        | Some i \<Rightarrow>
            if cv_active_run_id c \<noteq> Some run_id then praise ConversationBusyError
            else pbind utc_now (\<lambda>t1.
              let updated = (turns ! i)\<lparr>ct_status := status,
                ct_assistant_message := (if status = Completed \<and> reply = None then Some [] else reply), ct_updated_at := t1\<rparr> in
              pbind (pput (\<lambda>s. s\<lparr>cs_turns := dict_set k (turns[i := updated]) (cs_turns s)\<rparr>)) (\<lambda>_.
              if status \<noteq> Waiting
              then pbind utc_now (\<lambda>t2.
                pbind (pput (\<lambda>s. s\<lparr>cs_conversations := dict_set k (c\<lparr>cv_active_run_id := None, cv_updated_at := t2\<rparr>)
                  (cs_conversations s)\<rparr>)) (\<lambda>_. pret updated))
              else pret updated)))))"

definition list_turns :: "uuid \<Rightarrow> conversation_turn list conversation_prog" where
  "list_turns k = pbind (get_conversation k) (\<lambda>_. pbind pget (\<lambda>s. pret (turns_of k s)))"

definition conversation_messages :: "uuid \<Rightarrow> message list conversation_prog" where
  "conversation_messages k = pbind (get_conversation k) (\<lambda>_. pbind pget (\<lambda>s. pret (messages_of (turns_of k s))))"

subsection \<open>Binary content\<close>

type_synonym bytes = "nat list"

record content_store = host +
  as_attachments :: "(uuid, attachment) dict"
  as_artifacts :: "(uuid, artifact) dict"
  as_content :: "(uuid, bytes) dict"

type_synonym 'a content_prog = "(content_store, exn, 'a) prog"

definition valid_attachment :: "attachment \<Rightarrow> bool" where
  "valid_attachment a \<longleftrightarrow> within_length 255 (att_name a) \<and> within_length 255 (att_media_type a) \<and>
     0 \<le> att_size_bytes a \<and> sha256_pattern (att_checksum a)"

definition valid_artifact :: "artifact \<Rightarrow> bool" where
  "valid_artifact a \<longleftrightarrow> within_length 255 (art_name a) \<and> within_length 255 (art_media_type a) \<and>
     0 \<le> art_size_bytes a \<and> sha256_pattern (art_checksum a)"

definition add_attachment :: "(bytes \<Rightarrow> string) \<Rightarrow> string \<Rightarrow> string \<Rightarrow> bytes \<Rightarrow> jobj \<Rightarrow> attachment content_prog" where
  "add_attachment sha256 name media payload metadata =
     pbind uuid4 (\<lambda>aid. pbind utc_now (\<lambda>t.
     pbind (plift (construct valid_attachment \<lparr>att_id = aid, att_name = name, att_media_type = media,
       att_size_bytes = int (length payload), att_checksum = sha256 payload, att_created_at = t,
       att_metadata = metadata\<rparr>)) (\<lambda>a.
     pbind (pput (\<lambda>s. s\<lparr>as_attachments := dict_set (att_id a) a (as_attachments s),
       as_content := dict_set (att_id a) payload (as_content s)\<rparr>)) (\<lambda>_. pret a))))"

definition get_attachment :: "uuid \<Rightarrow> attachment content_prog" where
  "get_attachment k s = (case dict_get (as_attachments s) k of None \<Rightarrow> (Inl AttachmentNotFoundError, s) | Some a \<Rightarrow> (Inr a, s))"

definition create_artifact :: "(bytes \<Rightarrow> string) \<Rightarrow> uuid \<Rightarrow> string \<Rightarrow> string \<Rightarrow> bytes \<Rightarrow> jobj \<Rightarrow> artifact content_prog" where
  "create_artifact sha256 run_id name media payload metadata =
     pbind uuid4 (\<lambda>aid. pbind utc_now (\<lambda>t.
     pbind (plift (construct valid_artifact \<lparr>art_id = aid, art_run_id = run_id, art_name = name, art_media_type = media,
       art_size_bytes = int (length payload), art_checksum = sha256 payload, art_created_at = t,
       art_metadata = metadata\<rparr>)) (\<lambda>a.
     pbind (pput (\<lambda>s. s\<lparr>as_artifacts := dict_set (art_id a) a (as_artifacts s),
       as_content := dict_set (art_id a) payload (as_content s)\<rparr>)) (\<lambda>_. pret a))))"

definition get_artifact :: "uuid \<Rightarrow> artifact content_prog" where
  "get_artifact k s = (case dict_get (as_artifacts s) k of None \<Rightarrow> (Inl ArtifactNotFoundError, s) | Some a \<Rightarrow> (Inr a, s))"

definition read_content :: "uuid \<Rightarrow> bytes content_prog" where
  "read_content k s = (case dict_get (as_content s) k of None \<Rightarrow> (Inl ArtifactNotFoundError, s) | Some b \<Rightarrow> (Inr b, s))"

definition list_artifacts :: "uuid \<Rightarrow> artifact list content_prog" where
  "list_artifacts run_id s = (Inr (filter (\<lambda>a. art_run_id a = run_id) (dict_values (as_artifacts s))), s)"

subsection \<open>Checkpoints\<close>

text \<open>The store only reads the run id of a checkpoint; \<open>'c\<close> is the type of checkpoints.\<close>

type_synonym 'c checkpoint_store = "(uuid, 'c) dict"

definition save_checkpoint :: "('c \<Rightarrow> uuid) \<Rightarrow> 'c \<Rightarrow> ('c checkpoint_store, exn, unit) prog" where
  "save_checkpoint run_of c s = (Inr (), dict_set (run_of c) c s)"

definition load_checkpoint :: "uuid \<Rightarrow> ('c checkpoint_store, exn, 'c) prog" where
  "load_checkpoint k s = (case dict_get s k of None \<Rightarrow> (Inl CheckpointNotFoundError, s) | Some c \<Rightarrow> (Inr c, s))"

definition claim_checkpoint :: "uuid \<Rightarrow> ('c checkpoint_store, exn, 'c) prog" where
  "claim_checkpoint k s = (case dict_get s k of None \<Rightarrow> (Inl CheckpointNotFoundError, s) | Some c \<Rightarrow> (Inr c, dict_pop k s))"

definition delete_checkpoint :: "uuid \<Rightarrow> ('c checkpoint_store, exn, unit) prog" where
  "delete_checkpoint k s = (Inr (), dict_pop k s)"

subsection \<open>Runs\<close>

record run_store = host +
  rs_runs :: "(uuid, run) dict"

type_synonym 'a run_prog = "(run_store, exn, 'a) prog"

definition create_run :: "run \<Rightarrow> unit run_prog" where
  "create_run r s = (if dict_get (rs_runs s) (rn_id r) \<noteq> None then (Inl RunAlreadyExistsError, s)
     else (Inr (), s\<lparr>rs_runs := dict_set (rn_id r) r (rs_runs s)\<rparr>))"

definition get_run :: "uuid \<Rightarrow> run run_prog" where
  "get_run k s = (case dict_get (rs_runs s) k of None \<Rightarrow> (Inl RunNotFoundError, s) | Some r \<Rightarrow> (Inr r, s))"

definition save_run :: "run \<Rightarrow> unit run_prog" where
  "save_run r s = (case dict_get (rs_runs s) (rn_id r) of None \<Rightarrow> (Inl RunNotFoundError, s)
     | Some current \<Rightarrow> (Inr (), s\<lparr>rs_runs := dict_set (rn_id r)
         (if rn_cancel_requested current \<and> \<not> rn_cancel_requested r then r\<lparr>rn_cancel_requested := True\<rparr> else r)
         (rs_runs s)\<rparr>))"

definition request_cancel :: "uuid \<Rightarrow> run run_prog" where
  "request_cancel k = pbind (get_run k) (\<lambda>r.
     if rn_status r \<notin> {Created, Running, Waiting} then praise RunNotCancellableError
     else pbind utc_now (\<lambda>t. let updated = r\<lparr>rn_cancel_requested := True, rn_updated_at := t\<rparr> in
       pbind (pput (\<lambda>s. s\<lparr>rs_runs := dict_set k updated (rs_runs s)\<rparr>)) (\<lambda>_. pret updated)))"

definition is_cancel_requested :: "uuid \<Rightarrow> bool run_prog" where
  "is_cancel_requested k = pbind (get_run k) (\<lambda>r. pret (rn_cancel_requested r))"

subsection \<open>Events of runs\<close>

record event_store = host +
  es_events :: "(uuid, event list) dict"

type_synonym 'a event_prog = "(event_store, exn, 'a) prog"

definition log_of :: "uuid \<Rightarrow> event_store \<Rightarrow> event list" where
  "log_of k s = (case dict_get (es_events s) k of None \<Rightarrow> [] | Some l \<Rightarrow> l)"

definition emit :: "uuid \<Rightarrow> event_type \<Rightarrow> jobj \<Rightarrow> event event_prog" where
  "emit k t data = pbind pget (\<lambda>s. pbind uuid4 (\<lambda>i. pbind utc_now (\<lambda>now.
     let e = \<lparr>en_id = i, en_run_id = k, en_sequence = int (length (log_of k s)) + 1, en_type = t, en_timestamp = now,
       en_data = data\<rparr> in
     pbind (pput (\<lambda>s. s\<lparr>es_events := dict_set k (log_of k s @ [e]) (es_events s)\<rparr>)) (\<lambda>_. pret e))))"

definition list_events :: "uuid \<Rightarrow> event list event_prog" where
  "list_events k s = (Inr (log_of k s), s)"

definition permanent_terminal_types :: "event_type list" where
  "permanent_terminal_types = [RUN_COMPLETED, RUN_FAILED, RUN_CANCELLED, RUN_INTERRUPTED, RUN_LIMIT_REACHED]"

definition terminal_types :: "event_type list" where
  "terminal_types = permanent_terminal_types @ [RUN_WAITING]"

text \<open>
  \<open>subscribe\<close> for the list of logs it finds when it holds the lock: the first one, and one more after
  every batch and every wake-up. The result is what it has yielded when the list is exhausted, and
  whether the iteration has ended.
\<close>

fun deliver :: "event list \<Rightarrow> int \<Rightarrow> event list \<times> int \<times> bool" where
  "deliver [] next_sequence = ([], next_sequence, False)"
| "deliver (e # es) next_sequence = (if en_type e \<in> set terminal_types then ([e], en_sequence e + 1, True)
     else (case deliver es (en_sequence e + 1) of (sent, n, stop) \<Rightarrow> (e # sent, n, stop)))"

fun subscribe_from :: "int \<Rightarrow> event list list \<Rightarrow> event list \<times> bool" where
  "subscribe_from next_sequence [] = ([], False)"
| "subscribe_from next_sequence (es # logs) =
     (if int (length es) < next_sequence
      then (if list_ex (\<lambda>e. en_type e \<in> set permanent_terminal_types) es then ([], True)
            else subscribe_from next_sequence logs)
      else (case deliver (drop (nat (next_sequence - 1)) es) next_sequence of (sent, n, stop) \<Rightarrow>
        if stop then (sent, True)
        else (case subscribe_from n logs of (rest, ended) \<Rightarrow> (sent @ rest, ended))))"

definition subscribe :: "int \<Rightarrow> event list list \<Rightarrow> exn + event list \<times> bool" where
  "subscribe after_sequence logs = (if after_sequence < 0 then Inl (ValueError ''after_sequence must be non-negative'')
     else Inr (subscribe_from (after_sequence + 1) logs))"

subsection \<open>Conversations: one open turn at a time\<close>

definition closed_turn :: "conversation_turn \<Rightarrow> bool" where
  "closed_turn t \<longleftrightarrow> ct_status t \<notin> {Created, Running, Waiting}"

definition numbered :: "conversation \<Rightarrow> conversation_turn list \<Rightarrow> bool" where
  "numbered c ts \<longleftrightarrow> cv_version c = int (length ts) \<and> contiguous ct_sequence ts \<and> list_all valid_turn ts"

definition one_open :: "conversation \<Rightarrow> conversation_turn list \<Rightarrow> bool" where
  "one_open c ts \<longleftrightarrow> (case cv_active_run_id c of None \<Rightarrow> list_all closed_turn ts
      | Some r \<Rightarrow> ts \<noteq> [] \<and> list_all closed_turn (butlast ts) \<and> ct_run_id (last ts) = r \<and>
          ct_status (last ts) \<in> {Running, Waiting})"

text \<open>The numbering holds whatever run ids are used; the rest as long as no run id is used twice.\<close>

definition turns_ok :: "conversation \<Rightarrow> conversation_turn list \<Rightarrow> bool" where
  "turns_ok c ts \<longleftrightarrow> numbered c ts \<and> (distinct (map ct_run_id ts) \<longrightarrow> one_open c ts)"

definition entry_ok :: "uuid \<Rightarrow> conversation option \<Rightarrow> conversation_turn list \<Rightarrow> bool" where
  "entry_ok k entry ts \<longleftrightarrow> (case entry of None \<Rightarrow> ts = [] | Some c \<Rightarrow> cv_id c = k \<and> turns_ok c ts)"

definition conversations_ok :: "conversation_store \<Rightarrow> bool" where
  "conversations_ok s \<longleftrightarrow> (\<forall>k. entry_ok k (dict_get (cs_conversations s) k) (turns_of k s))"

text \<open>
  Any sequence of operations, with any run ids; a conversation is created as \<open>create_conversation\<close> of
  the agent creates it, with the model's defaults \<open>version = 0\<close> and no active run. Operations that raise
  are steps too.
\<close>

inductive conversation_step :: "conversation_store \<Rightarrow> conversation_store \<Rightarrow> bool" where
  cs_create: "create_conversation c s = (r, s') \<Longrightarrow> cv_version c = 0 \<Longrightarrow> cv_active_run_id c = None \<Longrightarrow> conversation_step s s'"
| cs_begin: "begin_turn k run_id p m s = (r', s') \<Longrightarrow> conversation_step s s'"
| cs_finish: "finish_turn k run_id st reply s = (r'', s') \<Longrightarrow> conversation_step s s'"

definition empty_conversations :: "(nat \<Rightarrow> timestamp) \<Rightarrow> (nat \<Rightarrow> uuid) \<Rightarrow> conversation_store" where
  "empty_conversations clk ids = \<lparr>clock_stream = clk, clock_reads = 0, uuid_stream = ids, uuid_draws = 0,
     cs_conversations = [], cs_turns = []\<rparr>"

definition conversations_reachable :: "conversation_store \<Rightarrow> bool" where
  "conversations_reachable s \<longleftrightarrow> (\<exists>clk ids. conversation_step\<^sup>*\<^sup>* (empty_conversations clk ids) s)"

lemma turns_of_host [simp]: "turns_of k (s\<lparr>clock_reads := n\<rparr>) = turns_of k s"
  "turns_of k (s\<lparr>cs_conversations := cs\<rparr>) = turns_of k s"
  "turns_of k (s\<lparr>cs_turns := dict_set k' ts (cs_turns s')\<rparr>) = (if k = k' then ts else turns_of k s')"
  by (simp_all add: turns_of_def)

definition new_turn :: "uuid \<Rightarrow> uuid \<Rightarrow> string \<Rightarrow> conversation \<Rightarrow> conversation_store \<Rightarrow> conversation_turn" where
  "new_turn k run_id prompt c s = \<lparr>ct_conversation_id = k, ct_sequence = cv_version c + 1, ct_run_id = run_id,
     ct_status = Running, ct_user_message = prompt, ct_assistant_message = None,
     ct_created_at = clock_stream s (clock_reads s), ct_updated_at = clock_stream s (Suc (clock_reads s))\<rparr>"

lemma begin_turn_eq: "begin_turn k run_id profile prompt s =
   (if blank prompt then (Inl (ValueError ''user_message must not be empty''), s)
    else case dict_get (cs_conversations s) k of None \<Rightarrow> (Inl ConversationNotFoundError, s)
    | Some c \<Rightarrow>
        if cv_profile_id c \<noteq> profile then (Inl ConversationProfileMismatchError, s)
        else if cv_active_run_id c \<noteq> None then (Inl ConversationBusyError, s)
        else let t = new_turn k run_id prompt c s; n = clock_reads s in
          if valid_turn t
          then (Inr (t, messages_of (turns_of k s)), s\<lparr>clock_reads := n + 3,
             cs_conversations := dict_set k (c\<lparr>cv_version := cv_version c + 1, cv_active_run_id := Some run_id,
               cv_updated_at := clock_stream s (n + 2)\<rparr>) (cs_conversations s),
             cs_turns := dict_set k (turns_of k s @ [t]) (cs_turns s)\<rparr>)
          else (Inl ValidationError, s\<lparr>clock_reads := n + 2\<rparr>))"
  by (simp add: begin_turn_def pbind_app get_conversation_def utc_now_def construct_def new_turn_def Let_def
      turns_of_def eval_nat_numeral split: option.split)

definition finished_turn :: "conversation_turn \<Rightarrow> run_status \<Rightarrow> string option \<Rightarrow> timestamp \<Rightarrow> conversation_turn" where
  "finished_turn t status reply now = t\<lparr>ct_status := status,
     ct_assistant_message := (if status = Completed \<and> reply = None then Some [] else reply), ct_updated_at := now\<rparr>"

lemma finish_turn_eq: "finish_turn k run_id status reply s =
   (if status \<in> {Created, Running} then (Inl (ValueError ''Conversation Turn cannot finish in an active Run state''), s)
    else case dict_get (cs_conversations s) k of None \<Rightarrow> (Inl ConversationNotFoundError, s)
    | Some c \<Rightarrow> (case turn_index run_id (turns_of k s) of None \<Rightarrow> (Inl ConversationTurnNotFoundError, s)
      | Some i \<Rightarrow>
          if cv_active_run_id c \<noteq> Some run_id then (Inl ConversationBusyError, s)
          else let n = clock_reads s; t = finished_turn (turns_of k s ! i) status reply (clock_stream s n) in
            if status \<noteq> Waiting
            then (Inr t, s\<lparr>clock_reads := n + 2,
              cs_conversations := dict_set k (c\<lparr>cv_active_run_id := None, cv_updated_at := clock_stream s (n + 1)\<rparr>)
                (cs_conversations s), cs_turns := dict_set k ((turns_of k s)[i := t]) (cs_turns s)\<rparr>)
            else (Inr t, s\<lparr>clock_reads := n + 1, cs_turns := dict_set k ((turns_of k s)[i := t]) (cs_turns s)\<rparr>)))"
  by (simp add: finish_turn_def pbind_app get_conversation_def utc_now_def finished_turn_def Let_def split: option.split)

lemma turn_index_Some:
  "turn_index r ts = Some i \<Longrightarrow> i < length ts \<and> ct_run_id (ts ! i) = r \<and> (\<forall>j < i. ct_run_id (ts ! j) \<noteq> r)"
proof (induction ts arbitrary: i)
  case (Cons a ts)
  show ?case
  proof (cases "ct_run_id a = r")
    case False
    with Cons.prems obtain z where "turn_index r ts = Some z" "i = Suc z" by auto
    with Cons.IH False show ?thesis by (simp add: All_less_Suc2)
  qed (use Cons.prems in auto)
qed simp

lemma turn_index_None: "turn_index r ts = None \<longleftrightarrow> r \<notin> ct_run_id ` set ts"
  by (induction ts) auto

text \<open>The turn of the active run is the last one.\<close>

lemma active_is_last:
  assumes ok: "one_open c ts" and d: "distinct (map ct_run_id ts)" and a: "cv_active_run_id c = Some r"
  shows "turn_index r ts = Some (length ts - 1)" and "ts \<noteq> []"
proof -
  from ok a have ts: "ts \<noteq> []" "ct_run_id (last ts) = r" by (auto simp: one_open_def)
  then show "ts \<noteq> []" by simp
  obtain i where i: "turn_index r ts = Some i"
    using ts(1,2) turn_index_None [of r ts] by (cases "turn_index r ts") auto
  from turn_index_Some [OF this] have "i < length ts" "ct_run_id (ts ! i) = ct_run_id (ts ! (length ts - 1))"
    using ts by (auto simp: last_conv_nth)
  then have "i = length ts - 1"
    using ts(1) nth_eq_iff_index_eq [OF d, of i "length ts - 1"] by auto
  with i show "turn_index r ts = Some (length ts - 1)" by simp
qed

lemma turns_ok_begin:
  assumes "turns_ok c ts" "cv_active_run_id c = None" "valid_turn t"
    "ct_sequence t = cv_version c + 1" "ct_run_id t = r" "ct_status t = Running"
  shows "turns_ok (c\<lparr>cv_version := cv_version c + 1, cv_active_run_id := Some r, cv_updated_at := now\<rparr>) (ts @ [t])"
  using assms by (auto simp: turns_ok_def numbered_def one_open_def contiguous_snoc)

text \<open>Finishing the turn at any index keeps the numbering and the run ids.\<close>

lemma finished_turn_keeps [simp]:
  "ct_sequence (finished_turn t status reply now) = ct_sequence t" "ct_run_id (finished_turn t status reply now) = ct_run_id t"
  "valid_turn (finished_turn t status reply now) = valid_turn t" "ct_status (finished_turn t status reply now) = status"
  by (simp_all add: finished_turn_def valid_turn_def)

lemma map_update_same: "i < length xs \<Longrightarrow> f y = f (xs ! i) \<Longrightarrow> map f (xs[i := y]) = map f xs"
  by (simp add: map_update list_update_same_conv)

lemma numbered_finish:
  "numbered c ts \<Longrightarrow> i < length ts \<Longrightarrow> numbered c (ts[i := finished_turn (ts ! i) status reply now])"
  by (auto simp: numbered_def contiguous_def map_update_same list_all_length nth_list_update)

lemma numbered_active [simp]: "numbered (c\<lparr>cv_active_run_id := a, cv_updated_at := now\<rparr>) ts = numbered c ts"
  by (simp add: numbered_def)

lemma one_open_finish:
  assumes ok: "one_open c ts" and a: "cv_active_run_id c = Some r" and st: "status \<notin> {Created, Running}" and ne: "ts \<noteq> []"
  shows "status = Waiting \<Longrightarrow> one_open c (ts[length ts - 1 := finished_turn (last ts) status reply now])"
    and "status \<noteq> Waiting \<Longrightarrow>
      one_open (c\<lparr>cv_active_run_id := None, cv_updated_at := now'\<rparr>) (ts[length ts - 1 := finished_turn (last ts) status reply now])"
proof -
  obtain us t where ts: "ts = us @ [t]" using ne by (cases ts rule: rev_cases) auto
  show "status = Waiting \<Longrightarrow> one_open c (ts[length ts - 1 := finished_turn (last ts) status reply now])"
    using ok a by (auto simp: ts one_open_def)
  show "status \<noteq> Waiting \<Longrightarrow>
      one_open (c\<lparr>cv_active_run_id := None, cv_updated_at := now'\<rparr>) (ts[length ts - 1 := finished_turn (last ts) status reply now])"
    using ok a st by (auto simp: ts one_open_def closed_turn_def)
qed

lemma turns_ok_finish:
  assumes ok: "turns_ok c ts" and a: "cv_active_run_id c = Some r" and st: "status \<notin> {Created, Running}"
    and i: "turn_index r ts = Some i"
  shows "status = Waiting \<Longrightarrow> turns_ok c (ts[i := finished_turn (ts ! i) status reply now])"
    and "status \<noteq> Waiting \<Longrightarrow>
      turns_ok (c\<lparr>cv_active_run_id := None, cv_updated_at := now'\<rparr>) (ts[i := finished_turn (ts ! i) status reply now])"
proof -
  let ?us = "ts[i := finished_turn (ts ! i) status reply now]"
  have il: "i < length ts" using turn_index_Some [OF i] by blast
  have ids: "map ct_run_id ?us = map ct_run_id ts" using il by (rule map_update_same) simp
  have num: "numbered c ?us" using ok numbered_finish [OF _ il] by (simp add: turns_ok_def)
  have at_end: "ts \<noteq> [] \<and> one_open c ts \<and> ?us = ts[length ts - 1 := finished_turn (last ts) status reply now]"
    if d: "distinct (map ct_run_id ts)"
  proof -
    have "one_open c ts" using ok d by (simp add: turns_ok_def)
    with active_is_last [OF this d a] i show ?thesis by (auto simp: last_conv_nth)
  qed
  show "status = Waiting \<Longrightarrow> turns_ok c ?us"
    unfolding turns_ok_def ids using num at_end one_open_finish(1) [OF _ a st] by metis
  show "status \<noteq> Waiting \<Longrightarrow> turns_ok (c\<lparr>cv_active_run_id := None, cv_updated_at := now'\<rparr>) ?us"
    unfolding turns_ok_def ids using num at_end one_open_finish(2) [OF _ a st] by (metis numbered_active)
qed

lemma open_turn_last:
  assumes ok: "one_open c ts" and i: "i < length ts" "\<not> closed_turn (ts ! i)"
  shows "Suc i = length ts \<and> cv_active_run_id c = Some (ct_run_id (ts ! i))"
proof (cases "cv_active_run_id c")
  case None
  with ok i show ?thesis by (simp add: one_open_def list_all_length)
next
  case (Some r)
  with ok have o: "list_all closed_turn (butlast ts)" "ct_run_id (last ts) = r" by (auto simp: one_open_def)
  with i have "\<not> i < length ts - 1" by (auto simp: list_all_length nth_butlast)
  with i(1) have "i = length ts - 1" by simp
  moreover have "ts \<noteq> []" using i(1) by auto
  ultimately show ?thesis using Some o(2) by (simp add: last_conv_nth)
qed

lemma conversations_okD: "conversations_ok s \<Longrightarrow> dict_get (cs_conversations s) k = Some c \<Longrightarrow> cv_id c = k \<and> turns_ok c (turns_of k s)"
  using spec [of "\<lambda>k. entry_ok k (dict_get (cs_conversations s) k) (turns_of k s)" k]
  by (simp add: conversations_ok_def entry_ok_def)

text \<open>A change of one conversation.\<close>

lemma conversations_ok_change:
  assumes ok: "conversations_ok s" and e: "cv_id c = k" "turns_ok c ts"
    and s': "\<And>k'. dict_get (cs_conversations s') k' = (if k' = k then Some c else dict_get (cs_conversations s) k')"
      "\<And>k'. turns_of k' s' = (if k' = k then ts else turns_of k' s)"
  shows "conversations_ok s'"
  unfolding conversations_ok_def
proof
  fix k'
  show "entry_ok k' (dict_get (cs_conversations s') k') (turns_of k' s')"
    using ok e s' by (cases "k' = k") (simp_all add: conversations_ok_def entry_ok_def [of k])
qed

lemma conversations_ok_host [simp]: "conversations_ok (s\<lparr>clock_reads := n\<rparr>) = conversations_ok s"
  by (simp add: conversations_ok_def)

lemma create_conversation_ok:
  assumes ok: "conversations_ok s" and c: "create_conversation c s = (r, s')" "cv_version c = 0" "cv_active_run_id c = None"
  shows "conversations_ok s'"
proof (cases "dict_get (cs_conversations s) (cv_id c)")
  case None
  then have "turns_of (cv_id c) s = []"
    using ok spec [of "\<lambda>k. entry_ok k (dict_get (cs_conversations s) k) (turns_of k s)" "cv_id c"]
    by (simp add: conversations_ok_def entry_ok_def)
  moreover have "s' = s\<lparr>cs_conversations := dict_set (cv_id c) c (cs_conversations s)\<rparr>"
    using c(1) None by (simp add: create_conversation_def)
  ultimately show ?thesis
    using c(2,3) by (intro conversations_ok_change [OF ok, of c "cv_id c" "[]"])
      (auto simp: turns_ok_def numbered_def one_open_def)
qed (use ok c(1) in \<open>simp add: create_conversation_def\<close>)

lemma begin_turn_ok:
  assumes ok: "conversations_ok s" and b: "begin_turn k run_id p m s = (r, s')"
  shows "conversations_ok s'"
proof (cases r)
  case (Inl e)
  with b ok show ?thesis by (auto simp: begin_turn_eq Let_def split: if_splits option.splits)
next
  case (Inr x)
  with b obtain c where c: "dict_get (cs_conversations s) k = Some c" "cv_active_run_id c = None"
    and v: "valid_turn (new_turn k run_id m c s)"
    and s': "s' = s\<lparr>clock_reads := clock_reads s + 3, cs_conversations := dict_set k (c\<lparr>cv_version := cv_version c + 1,
        cv_active_run_id := Some run_id, cv_updated_at := clock_stream s (clock_reads s + 2)\<rparr>) (cs_conversations s),
      cs_turns := dict_set k (turns_of k s @ [new_turn k run_id m c s]) (cs_turns s)\<rparr>"
    by (auto simp: begin_turn_eq Let_def split: if_splits option.splits)
  note t = conversations_okD [OF ok c(1)]
  show ?thesis
    by (rule conversations_ok_change [where k = k, OF ok _ turns_ok_begin [OF conjunct2 [OF t] c(2) v,
            where r = run_id and now = "clock_stream s (clock_reads s + 2)"]])
      (use t in \<open>simp_all add: s' new_turn_def\<close>)
qed

lemma finish_turn_ok:
  assumes ok: "conversations_ok s" and f: "finish_turn k run_id st reply s = (r, s')"
  shows "conversations_ok s'"
proof (cases r)
  case (Inl e)
  with f ok show ?thesis by (auto simp: finish_turn_eq Let_def split: if_splits option.splits)
next
  case (Inr x)
  with f obtain c i where st: "st \<notin> {Created, Running}" and c: "dict_get (cs_conversations s) k = Some c"
    and a: "cv_active_run_id c = Some run_id" and i: "turn_index run_id (turns_of k s) = Some i"
    by (auto simp: finish_turn_eq Let_def split: if_splits option.splits)
  note t = conversations_okD [OF ok c]
  let ?t = "finished_turn (turns_of k s ! i) st reply (clock_stream s (clock_reads s))"
  let ?ts = "(turns_of k s)[i := ?t]"
  note fin1 = turns_ok_finish(1) [OF conjunct2 [OF t] a st i, of reply "clock_stream s (clock_reads s)"]
  note fin2 = turns_ok_finish(2) [OF conjunct2 [OF t] a st i, of "clock_stream s (clock_reads s + 1)" reply
      "clock_stream s (clock_reads s)"]
  show ?thesis
  proof (cases "st = Waiting")
    case w: True
    have s': "s' = s\<lparr>clock_reads := clock_reads s + 1, cs_turns := dict_set k ?ts (cs_turns s)\<rparr>"
      using f c a w i st by (simp add: finish_turn_eq Let_def)
    show ?thesis
      by (rule conversations_ok_change [where k = k, OF ok _ fin1 [OF w]]) (use t c in \<open>simp_all add: s'\<close>)
  next
    case w: False
    have s': "s' = s\<lparr>clock_reads := clock_reads s + 2,
        cs_conversations := dict_set k (c\<lparr>cv_active_run_id := None, cv_updated_at := clock_stream s (clock_reads s + 1)\<rparr>)
          (cs_conversations s), cs_turns := dict_set k ?ts (cs_turns s)\<rparr>"
      using f c a w i st by (simp add: finish_turn_eq Let_def)
    show ?thesis
      by (rule conversations_ok_change [where k = k, OF ok _ fin2 [OF w]]) (use t in \<open>simp_all add: s'\<close>)
  qed
qed

text \<open>The run ids of a conversation change only by beginning a turn, which appends the run's id.\<close>

lemma conversation_step_ids:
  assumes "conversation_step s s'"
  shows "map ct_run_id (turns_of k s') = map ct_run_id (turns_of k s) \<or>
    (\<exists>run_id p m r. begin_turn k run_id p m s = (r, s') \<and>
       map ct_run_id (turns_of k s') = map ct_run_id (turns_of k s) @ [run_id])"
  using assms
proof cases
  case (cs_create c r)
  then show ?thesis by (auto simp: create_conversation_def split: if_splits)
next
  case (cs_begin k' run_id p m r')
  then have "map ct_run_id (turns_of k s') = map ct_run_id (turns_of k s) \<or>
      k' = k \<and> map ct_run_id (turns_of k s') = map ct_run_id (turns_of k s) @ [run_id]"
    by (auto simp: begin_turn_eq Let_def new_turn_def split: if_splits option.splits)
  with cs_begin show ?thesis by blast
next
  case (cs_finish k' run_id st reply r'')
  then show ?thesis
    by (auto simp: finish_turn_eq Let_def map_update_same dest: turn_index_Some split: if_splits option.splits)
qed

lemma conversation_step_ok: "conversations_ok s \<Longrightarrow> conversation_step s s' \<Longrightarrow> conversations_ok s'"
  by (erule conversation_step.cases) (auto intro: create_conversation_ok begin_turn_ok finish_turn_ok)

interpretation conv: stable_property conversation_step conversations_ok
  by unfold_locales (rule conversation_step_ok)

lemma conversations_reachable_ok: "conversations_reachable s \<Longrightarrow> conversations_ok s"
proof -
  assume "conversations_reachable s"
  then obtain clk ids where steps: "conversation_step\<^sup>*\<^sup>* (empty_conversations clk ids) s"
    by (auto simp: conversations_reachable_def)
  have "conversations_ok (empty_conversations clk ids)"
    by (simp add: empty_conversations_def conversations_ok_def entry_ok_def turns_of_def)
  with conv.steps_stable [OF steps] show ?thesis .
qed

subsection \<open>Runs: cancellation is never lost\<close>

inductive run_step :: "run_store \<Rightarrow> run_store \<Rightarrow> bool" where
  rs_create: "create_run r s = (x, s') \<Longrightarrow> run_step s s'"
| rs_save: "save_run r s = (x, s') \<Longrightarrow> run_step s s'"
| rs_cancel: "request_cancel k s = (y, s') \<Longrightarrow> run_step s s'"

definition cancelled :: "uuid \<Rightarrow> run_store \<Rightarrow> bool" where
  "cancelled k s \<longleftrightarrow> (\<exists>r. dict_get (rs_runs s) k = Some r \<and> rn_cancel_requested r)"

lemma request_cancel_eq: "request_cancel k s = (case dict_get (rs_runs s) k of None \<Rightarrow> (Inl RunNotFoundError, s)
   | Some r \<Rightarrow> if rn_status r \<notin> {Created, Running, Waiting} then (Inl RunNotCancellableError, s)
       else let u = r\<lparr>rn_cancel_requested := True, rn_updated_at := clock_stream s (clock_reads s)\<rparr> in
         (Inr u, s\<lparr>clock_reads := Suc (clock_reads s), rs_runs := dict_set k u (rs_runs s)\<rparr>))"
  by (simp add: request_cancel_def pbind_app get_run_def utc_now_def Let_def split: option.split)

lemma run_step_cancelled: "cancelled k s \<Longrightarrow> run_step s s' \<Longrightarrow> cancelled k s'"
  by (erule run_step.cases)
    (auto simp: cancelled_def create_run_def save_run_def request_cancel_eq Let_def split: option.splits if_splits)

interpretation cancel_flag: stable_property run_step "cancelled k" for k
  by unfold_locales (rule run_step_cancelled)

subsection \<open>Checkpoints: one claim\<close>

text \<open>Operations of a checkpoint store other than saving a checkpoint of run \<open>k\<close>.\<close>

inductive checkpoint_step :: "('c \<Rightarrow> uuid) \<Rightarrow> uuid \<Rightarrow> 'c checkpoint_store \<Rightarrow> 'c checkpoint_store \<Rightarrow> bool"
  for run_of :: "'c \<Rightarrow> uuid" and k :: uuid where
  cp_save: "save_checkpoint run_of c s = (x, s') \<Longrightarrow> run_of c \<noteq> k \<Longrightarrow> checkpoint_step run_of k s s'"
| cp_load: "load_checkpoint j s = (y, s') \<Longrightarrow> checkpoint_step run_of k s s'"
| cp_claim: "claim_checkpoint j s = (y, s') \<Longrightarrow> checkpoint_step run_of k s s'"
| cp_delete: "delete_checkpoint j s = (x, s') \<Longrightarrow> checkpoint_step run_of k s s'"

interpretation no_checkpoint: stable_property "checkpoint_step run_of k" "\<lambda>s. dict_get s k = None" for run_of k
proof unfold_locales
  fix s s'
  assume "dict_get s k = None" and "checkpoint_step run_of k s s'"
  then show "dict_get s' k = None"
    by (auto elim!: checkpoint_step.cases simp: save_checkpoint_def load_checkpoint_def claim_checkpoint_def
        delete_checkpoint_def dict_get_pop split: option.splits)
qed

subsection \<open>Content is kept\<close>

inductive content_step :: "(bytes \<Rightarrow> string) \<Rightarrow> content_store \<Rightarrow> content_store \<Rightarrow> bool" for sha256 :: "bytes \<Rightarrow> string" where
  as_add: "add_attachment sha256 name media payload md s = (x, s') \<Longrightarrow> content_step sha256 s s'"
| as_create: "create_artifact sha256 r name media payload md s = (y, s') \<Longrightarrow> content_step sha256 s s'"

definition id_drawn :: "uuid \<Rightarrow> 'a host_scheme \<Rightarrow> bool" where
  "id_drawn k s \<longleftrightarrow> (\<exists>n < uuid_draws s. k = uuid_stream s n)"

definition content_ok :: "content_store \<Rightarrow> bool" where
  "content_ok s \<longleftrightarrow> inj (uuid_stream s) \<and> dict_all (\<lambda>k _. id_drawn k s) (as_content s) \<and> dict_all (\<lambda>k _. id_drawn k s) (as_artifacts s)"

definition empty_content :: "(nat \<Rightarrow> timestamp) \<Rightarrow> (nat \<Rightarrow> uuid) \<Rightarrow> content_store" where
  "empty_content clk ids = \<lparr>clock_stream = clk, clock_reads = 0, uuid_stream = ids, uuid_draws = 0,
     as_attachments = [], as_artifacts = [], as_content = []\<rparr>"

definition content_reachable :: "(bytes \<Rightarrow> string) \<Rightarrow> content_store \<Rightarrow> bool" where
  "content_reachable sha256 s \<longleftrightarrow> (\<exists>clk ids. inj ids \<and> (content_step sha256)\<^sup>*\<^sup>* (empty_content clk ids) s)"

abbreviation next_id :: "'a host_scheme \<Rightarrow> uuid" where
  "next_id s \<equiv> uuid_stream s (uuid_draws s)"

text \<open>What one operation writes: at most one entry, under the identifier id_drawn for it.\<close>

definition writes_fresh :: "content_store \<Rightarrow> content_store \<Rightarrow> bool" where
  "writes_fresh s s' \<longleftrightarrow> uuid_stream s' = uuid_stream s \<and> uuid_draws s' = Suc (uuid_draws s) \<and>
     (\<forall>k. k \<noteq> next_id s \<longrightarrow> dict_get (as_content s') k = dict_get (as_content s) k \<and>
       dict_get (as_artifacts s') k = dict_get (as_artifacts s) k)"

lemma create_artifact_eq: "create_artifact sha256 r name media payload md s =
   (let a = \<lparr>art_id = next_id s, art_run_id = r, art_name = name, art_media_type = media, art_size_bytes = int (length payload),
      art_checksum = sha256 payload, art_created_at = clock_stream s (clock_reads s), art_metadata = md\<rparr>;
      h = s\<lparr>clock_reads := Suc (clock_reads s), uuid_draws := Suc (uuid_draws s)\<rparr> in
    if valid_artifact a
    then (Inr a, h\<lparr>as_artifacts := dict_set (next_id s) a (as_artifacts s), as_content := dict_set (next_id s) payload (as_content s)\<rparr>)
    else (Inl ValidationError, h))"
  by (simp add: create_artifact_def pbind_app uuid4_def utc_now_def construct_def Let_def)

lemma content_step_fresh: "content_step sha256 s s' \<Longrightarrow> writes_fresh s s'"
  by (erule content_step.cases)
    (auto simp: writes_fresh_def create_artifact_eq add_attachment_def pbind_app uuid4_def utc_now_def construct_def Let_def
      split: if_splits)

lemma fresh_not_drawn: "inj (uuid_stream s) \<Longrightarrow> \<not> id_drawn (next_id s) s"
  by (auto simp: id_drawn_def inj_eq)

lemma writes_fresh_ok:
  assumes ok: "content_ok s" and w: "writes_fresh s s'"
  shows "content_ok s'"
proof -
  have d: "id_drawn k s' \<longleftrightarrow> id_drawn k s \<or> k = next_id s" for k
    using w by (auto simp: id_drawn_def writes_fresh_def less_Suc_eq)
  have "id_drawn k s'" if "dict_get (as_content s') k = Some v" for k v
    using that ok w unfolding d by (cases "k = next_id s") (auto simp: content_ok_def writes_fresh_def dest: dict_allD)
  moreover have "id_drawn k s'" if "dict_get (as_artifacts s') k = Some v" for k v
    using that ok w unfolding d by (cases "k = next_id s") (auto simp: content_ok_def writes_fresh_def dest: dict_allD)
  moreover have "inj (uuid_stream s')" using ok w by (simp add: content_ok_def writes_fresh_def)
  ultimately show ?thesis by (simp add: content_ok_def dict_all_def)
qed

interpretation content: stable_property "content_step sha256" content_ok for sha256
  by unfold_locales (rule writes_fresh_ok [OF _ content_step_fresh])

definition holds_artifact :: "artifact \<Rightarrow> bytes \<Rightarrow> content_store \<Rightarrow> bool" where
  "holds_artifact a payload s \<longleftrightarrow> content_ok s \<and> dict_get (as_artifacts s) (art_id a) = Some a \<and>
     dict_get (as_content s) (art_id a) = Some payload"

lemma holds_artifact_step:
  assumes h: "holds_artifact a payload s" and w: "content_step sha256 s s'"
  shows "holds_artifact a payload s'"
proof -
  have "id_drawn (art_id a) s" using h by (auto simp: holds_artifact_def content_ok_def dest: dict_allD)
  with fresh_not_drawn [of s] h have "art_id a \<noteq> next_id s" by (auto simp: holds_artifact_def content_ok_def)
  with h content_step_fresh [OF w] writes_fresh_ok [OF _ content_step_fresh [OF w]] show ?thesis
    by (simp add: holds_artifact_def writes_fresh_def)
qed

interpretation held: stable_property "content_step sha256" "holds_artifact a payload" for sha256 a payload
  by unfold_locales (rule holds_artifact_step)

lemma content_reachable_ok: "content_reachable sha256 s \<Longrightarrow> content_ok s"
proof -
  assume "content_reachable sha256 s"
  then obtain clk ids where i: "inj ids" "(content_step sha256)\<^sup>*\<^sup>* (empty_content clk ids) s"
    by (auto simp: content_reachable_def)
  have "content_ok (empty_content clk ids)" using i(1) by (simp add: content_ok_def empty_content_def)
  with content.steps_stable [OF i(2)] show ?thesis .
qed

subsection \<open>Events: subscriptions\<close>

inductive event_step :: "event_store \<Rightarrow> event_store \<Rightarrow> bool" where
  es_emit: "emit k t data s = (x, s') \<Longrightarrow> event_step s s'"

definition empty_events :: "(nat \<Rightarrow> timestamp) \<Rightarrow> (nat \<Rightarrow> uuid) \<Rightarrow> event_store" where
  "empty_events clk ids = \<lparr>clock_stream = clk, clock_reads = 0, uuid_stream = ids, uuid_draws = 0, es_events = []\<rparr>"

definition events_reachable :: "event_store \<Rightarrow> bool" where
  "events_reachable s \<longleftrightarrow> (\<exists>clk ids. event_step\<^sup>*\<^sup>* (empty_events clk ids) s)"

lemma emit_log: "emit k t data s = (x, s') \<Longrightarrow> \<exists>e. x = Inr e \<and> en_sequence e = int (length (log_of k s)) + 1 \<and> en_type e = t \<and>
   (\<forall>j. log_of j s' = (if j = k then log_of k s @ [e] else log_of j s))"
  by (auto simp: emit_def pbind_app uuid4_def utc_now_def log_of_def Let_def)

lemma event_step_prefix: "event_step s s' \<Longrightarrow> prefix (log_of k s) (log_of k s')"
  by (auto elim!: event_step.cases dest!: emit_log)

lemma event_steps_prefix: "event_step\<^sup>*\<^sup>* s s' \<Longrightarrow> prefix (log_of k s) (log_of k s')"
  by (induction rule: rtranclp_induct) (auto intro: prefix_order.trans event_step_prefix)

definition logs_contiguous :: "event_store \<Rightarrow> bool" where
  "logs_contiguous s \<longleftrightarrow> (\<forall>k. contiguous en_sequence (log_of k s))"

interpretation event_logs: stable_property event_step logs_contiguous
proof unfold_locales
  fix s s'
  assume c: "logs_contiguous s" and "event_step s s'"
  from this(2) obtain k t data x where "emit k t data s = (x, s')" by cases
  from emit_log [OF this] c show "logs_contiguous s'" by (auto simp: logs_contiguous_def contiguous_snoc)
qed

lemma events_reachable_contiguous: "events_reachable s \<Longrightarrow> logs_contiguous s"
proof -
  assume "events_reachable s"
  then obtain clk ids where i: "event_step\<^sup>*\<^sup>* (empty_events clk ids) s" by (auto simp: events_reachable_def)
  have "logs_contiguous (empty_events clk ids)" by (simp add: logs_contiguous_def empty_events_def log_of_def)
  with event_logs.steps_stable [OF i] show ?thesis .
qed

abbreviation is_end :: "event \<Rightarrow> bool" where
  "is_end e \<equiv> en_type e \<in> set terminal_types"

fun upto_end :: "event list \<Rightarrow> event list" where
  "upto_end [] = []"
| "upto_end (e # es) = (if is_end e then [e] else e # upto_end es)"

lemma upto_end_open: "\<not> list_ex is_end es \<Longrightarrow> upto_end (es @ fs) = es @ upto_end fs"
  by (induction es) auto

lemma upto_end_closed: "list_ex is_end es \<Longrightarrow> upto_end (es @ fs) = upto_end es"
  by (induction es) auto

lemma upto_end_Nil_iff [simp]: "upto_end es = [] \<longleftrightarrow> es = []"
  by (cases es) auto

lemma deliver_eq: "deliver es n = (upto_end es, (if es = [] then n else en_sequence (last (upto_end es)) + 1), list_ex is_end es)"
  by (induction es arbitrary: n) (auto split: prod.split)

lemma upto_end_id: "\<not> list_ex is_end es \<Longrightarrow> upto_end es = es"
  by (induction es) auto

text \<open>One pass of the loop over a contiguous log.\<close>

lemma subscribe_pass:
  assumes "contiguous en_sequence es"
  shows "subscribe_from (int a + 1) (es # logs) =
    (if length es \<le> a
     then (if list_ex (\<lambda>e. en_type e \<in> set permanent_terminal_types) es then ([], True) else subscribe_from (int a + 1) logs)
     else if list_ex is_end (drop a es) then (upto_end (drop a es), True)
     else (case subscribe_from (int (length es) + 1) logs of (rest, ended) \<Rightarrow> (drop a es @ rest, ended)))"
proof -
  have "en_sequence (last (drop a es)) + 1 = int (length es) + 1" if "a < length es"
    using that contiguous_nth [OF assms, of "length es - 1"] by (simp add: last_conv_nth)
  then show ?thesis by (auto simp: deliver_eq upto_end_id)
qed

definition chain :: "event list list \<Rightarrow> bool" where
  "chain logs \<longleftrightarrow> sorted_wrt prefix logs \<and> (\<forall>es \<in> set logs. contiguous en_sequence es)"

lemma permanent_ends: "list_ex (\<lambda>e. en_type e \<in> set permanent_terminal_types) es \<Longrightarrow> list_ex is_end es"
  by (auto simp: list_ex_iff terminal_types_def)

lemma subscribe_from_spec:
  assumes "chain logs" "logs \<noteq> []" "subscribe_from (int a + 1) logs = (out, ended)"
  shows "\<exists>es \<in> set logs. out = upto_end (drop a es) \<and> (ended \<longrightarrow> list_ex is_end es) \<and>
    (\<not> ended \<longrightarrow> es = last logs \<and> \<not> list_ex is_end (drop a es))"
  using assms
proof (induction logs arbitrary: a out)
  case (Cons es logs)
  have c: "contiguous en_sequence es" "chain logs" and pre: "\<And>fs. fs \<in> set logs \<Longrightarrow> prefix es fs"
    using Cons.prems(1) by (auto simp: chain_def)
  note pass = Cons.prems(3) [unfolded subscribe_pass [OF c(1)]]
  consider (seen) "length es \<le> a" "list_ex (\<lambda>e. en_type e \<in> set permanent_terminal_types) es"
    | (wait) "length es \<le> a" "\<not> list_ex (\<lambda>e. en_type e \<in> set permanent_terminal_types) es"
    | (stop) "a < length es" "list_ex is_end (drop a es)" | (more) "a < length es" "\<not> list_ex is_end (drop a es)" by fastforce
  then show ?case
  proof cases
    case seen
    with pass permanent_ends show ?thesis by auto
  next
    case wait
    show ?thesis
    proof (cases "logs = []")
      case False
      from wait pass have "subscribe_from (int a + 1) logs = (out, ended)" by simp
      from Cons.IH [OF c(2) False this] False show ?thesis by auto
    qed (use wait pass in auto)
  next
    case stop
    moreover have "list_ex is_end es" using stop by (auto simp: list_ex_iff dest: in_set_dropD)
    ultimately show ?thesis using pass by auto
  next
    case more
    obtain rest where rest: "subscribe_from (int (length es) + 1) logs = (rest, ended)" "out = drop a es @ rest"
      using pass more by (auto split: prod.splits)
    show ?thesis
    proof (cases "logs = []")
      case True
      with rest more show ?thesis by (auto simp: upto_end_id)
    next
      case False
      from Cons.IH [OF c(2) False rest(1)] obtain fs where fs: "fs \<in> set logs" "rest = upto_end (drop (length es) fs)"
        "ended \<longrightarrow> list_ex is_end fs" "\<not> ended \<longrightarrow> fs = last logs \<and> \<not> list_ex is_end (drop (length es) fs)" by blast
      obtain gs where gs: "fs = es @ gs" using pre [OF fs(1)] by (auto simp: prefix_def)
      have "out = upto_end (drop a fs)" using rest(2) fs(2) more upto_end_open [OF more(2)] by (simp add: gs)
      moreover have "drop a fs = drop a es @ gs" "drop (length es) fs = gs" using more(1) by (simp_all add: gs)
      then have "list_ex is_end (drop a fs) \<longleftrightarrow> list_ex is_end (drop (length es) fs)" using more(2) by simp
      ultimately show ?thesis using fs False by (intro bexI [of _ fs]) auto
    qed
  qed
qed simp

lemma subscribe_from_ends:
  assumes "chain (logs @ [es, es])" "list_ex (\<lambda>e. en_type e \<in> set permanent_terminal_types) es"
  shows "snd (subscribe_from (int a + 1) (logs @ [es, es]))"
  using assms
proof (induction logs arbitrary: a)
  case Nil
  then have c: "contiguous en_sequence es" by (simp add: chain_def)
  from Nil(2) subscribe_pass [OF c, of a "[es]"] subscribe_pass [OF c, of "length es" "[]"] show ?case by simp
next
  case (Cons fs logs)
  have c: "contiguous en_sequence fs" "chain (logs @ [es, es])" using Cons.prems(1) by (auto simp: chain_def)
  have IH: "snd (subscribe_from (int b + 1) (logs @ [es, es]))" for b using Cons.IH [OF c(2) Cons.prems(2)] .
  show ?case using IH [of a] IH [of "length fs"] by (auto simp: subscribe_pass [OF c(1)] simp del: subscribe_from.simps split: prod.split)
qed

subsection \<open>Properties\<close>

text \<open>The examples: one conversation, one run, one artifact.\<close>

definition ex_conversation :: conversation where
  "ex_conversation = \<lparr>cv_id = 1, cv_profile_id = ''p'', cv_version = 0, cv_active_run_id = None, cv_created_at = 0,
     cv_updated_at = 0, cv_metadata = []\<rparr>"

definition ex_c1 :: conversation_store where
  "ex_c1 = snd (create_conversation ex_conversation (empty_conversations (\<lambda>n. int n) (\<lambda>n. n)))"

definition ex_c2 :: conversation_store where
  "ex_c2 = snd (begin_turn 1 9 ''p'' ''hello'' ex_c1)"

definition ex_c3 :: conversation_store where
  "ex_c3 = snd (finish_turn 1 9 Completed (Some ''hi'') ex_c2)"

lemma ex_c_reachable: "conversations_reachable ex_c1" "conversations_reachable ex_c2" "conversations_reachable ex_c3"
proof -
  have 1: "conversation_step (empty_conversations (\<lambda>n. int n) (\<lambda>n. n)) ex_c1"
    unfolding ex_c1_def by (rule cs_create [OF prod.collapse [symmetric]]) (simp_all add: ex_conversation_def)
  have 2: "conversation_step ex_c1 ex_c2" unfolding ex_c2_def by (rule cs_begin [OF prod.collapse [symmetric]])
  have 3: "conversation_step ex_c2 ex_c3" unfolding ex_c3_def by (rule cs_finish [OF prod.collapse [symmetric]])
  from 1 have r1: "conversation_step\<^sup>*\<^sup>* (empty_conversations (\<lambda>n. int n) (\<lambda>n. n)) ex_c1" by (rule r_into_rtranclp)
  from r1 2 have r2: "conversation_step\<^sup>*\<^sup>* (empty_conversations (\<lambda>n. int n) (\<lambda>n. n)) ex_c2" by (rule rtranclp.rtrancl_into_rtrancl)
  from r2 3 have r3: "conversation_step\<^sup>*\<^sup>* (empty_conversations (\<lambda>n. int n) (\<lambda>n. n)) ex_c3" by (rule rtranclp.rtrancl_into_rtrancl)
  from r1 r2 r3 show "conversations_reachable ex_c1" "conversations_reachable ex_c2" "conversations_reachable ex_c3"
    unfolding conversations_reachable_def by blast+
qed

text \<open>
  C20. Over every sequence of operations, with any run ids, on conversations created with the model's
  defaults (version 0, no active run): the turns of a conversation are numbered
  without gaps, the version counts them, and a turn can be begun exactly when no run is active. As
  long as the conversation's turns belong to different runs it has at most one open turn: an open
  turn is the last one and belongs to the active run, the turn of the active run is the last one and
  is running or waiting, and no run is active exactly when all turns are closed. The only operation
  that makes two turns share a run is \<open>begin_turn\<close> with a run id the conversation has already seen,
  which the store accepts.
\<close>

theorem conversation_single_open_turn:
  assumes r: "conversations_reachable s" and c: "dict_get (cs_conversations s) k = Some c"
  shows "cv_version c = int (length (turns_of k s)) \<and> contiguous ct_sequence (turns_of k s) \<and>
    (\<forall>run_id prompt. \<not> blank prompt \<longrightarrow>
       ((\<exists>t h s'. begin_turn k run_id (cv_profile_id c) prompt s = (Inr (t, h), s')) \<longleftrightarrow> cv_active_run_id c = None)) \<and>
    (distinct (map ct_run_id (turns_of k s)) \<longrightarrow>
      (\<forall>i < length (turns_of k s). ct_status (turns_of k s ! i) \<in> {Created, Running, Waiting} \<longrightarrow>
         Suc i = length (turns_of k s) \<and> cv_active_run_id c = Some (ct_run_id (turns_of k s ! i))) \<and>
      (\<forall>a. cv_active_run_id c = Some a \<longrightarrow> turns_of k s \<noteq> [] \<and> ct_run_id (last (turns_of k s)) = a \<and>
         ct_status (last (turns_of k s)) \<in> {Running, Waiting}) \<and>
      (cv_active_run_id c = None \<longleftrightarrow> list_all (\<lambda>t. ct_status t \<notin> {Created, Running, Waiting}) (turns_of k s))) \<and>
    (\<forall>s'. conversation_step s s' \<and> distinct (map ct_run_id (turns_of k s)) \<and> \<not> distinct (map ct_run_id (turns_of k s')) \<longrightarrow>
      (\<exists>run_id p m r. begin_turn k run_id p m s = (r, s') \<and> run_id \<in> ct_run_id ` set (turns_of k s)))"
proof -
  have ok: "turns_ok c (turns_of k s)" using conversations_okD [OF conversations_reachable_ok [OF r] c] by blast
  let ?ts = "turns_of k s"
  have num: "cv_version c = int (length ?ts)" "contiguous ct_sequence ?ts" using ok by (simp_all add: turns_ok_def numbered_def)
  have "Suc i = length ?ts \<and> cv_active_run_id c = Some (ct_run_id (?ts ! i))"
    if d: "distinct (map ct_run_id ?ts)" and i: "i < length ?ts" "\<not> closed_turn (?ts ! i)" for i
    using ok d i by (intro open_turn_last) (auto simp: turns_ok_def)
  moreover have "(\<exists>t h s'. begin_turn k run_id (cv_profile_id c) prompt s = (Inr (t, h), s')) \<longleftrightarrow> cv_active_run_id c = None"
    if "\<not> blank prompt" for run_id prompt
    using num c that by (auto simp: begin_turn_eq Let_def new_turn_def valid_turn_def)
  moreover have "(\<forall>a. cv_active_run_id c = Some a \<longrightarrow> ?ts \<noteq> [] \<and> ct_run_id (last ?ts) = a \<and> ct_status (last ?ts) \<in> {Running, Waiting}) \<and>
      (cv_active_run_id c = None \<longleftrightarrow> list_all closed_turn ?ts)" if "distinct (map ct_run_id ?ts)"
    using ok that by (auto simp: turns_ok_def one_open_def closed_turn_def list_all_iff split: option.splits)
  moreover have "\<exists>run_id p m r. begin_turn k run_id p m s = (r, s') \<and> run_id \<in> ct_run_id ` set ?ts"
    if "conversation_step s s'" "distinct (map ct_run_id ?ts)" "\<not> distinct (map ct_run_id (turns_of k s'))" for s'
    using conversation_step_ids [OF that(1), of k] that(2,3) by fastforce
  ultimately show ?thesis using num by (auto simp: closed_turn_def [abs_def])
qed

theorem conversation_single_open_turn_witness:
  "\<exists>c. dict_get (cs_conversations ex_c3) 1 = Some c \<and> cv_version c = 1 \<and>
     (\<exists>t h s'. begin_turn 1 10 ''p'' ''again'' ex_c3 = (Inr (t, h), s'))"
proof -
  have "(case dict_get (cs_conversations ex_c3) 1 of None \<Rightarrow> False | Some c \<Rightarrow> cv_profile_id c = ''p'')" by code_simp
  then obtain c where c: "dict_get (cs_conversations ex_c3) 1 = Some c" "cv_profile_id c = ''p''"
    by (auto split: option.splits)
  have t: "length (turns_of 1 ex_c3) = 1" "list_all (\<lambda>t. ct_status t \<notin> {Created, Running, Waiting}) (turns_of 1 ex_c3)"
    "\<not> blank ''again''" "distinct (map ct_run_id (turns_of 1 ex_c3))" by code_simp+
  note all = conversation_single_open_turn [OF ex_c_reachable(3) c(1)]
  from all have v: "cv_version c = int (length (turns_of 1 ex_c3))" by blast
  from all t(2-4) have "\<exists>t h s'. begin_turn 1 10 (cv_profile_id c) ''again'' ex_c3 = (Inr (t, h), s')" by blast
  with v c t(1) show ?thesis by simp
qed

text \<open>
  Reusing a run id rewrites history. When a conversation is idle and has an earlier turn of a run
  (the first one of that run), beginning another turn under the same run id succeeds, and reporting its failure marks
  the earlier turn as failed and deletes its answer, while the new turn stays running although the
  conversation is idle again.
\<close>

theorem reused_run_rewrites_turn:
  assumes r: "conversations_reachable s" and c: "dict_get (cs_conversations s) k = Some c" "cv_active_run_id c = None"
    and t: "turn_index run_id (turns_of k s) = Some i" and p: "\<not> blank prompt"
  shows "\<exists>t h s1 u s2. begin_turn k run_id (cv_profile_id c) prompt s = (Inr (t, h), s1) \<and>
    finish_turn k run_id Failed None s1 = (Inr u, s2) \<and>
    ct_status (turns_of k s2 ! i) = Failed \<and> ct_assistant_message (turns_of k s2 ! i) = None \<and>
    ct_status (last (turns_of k s2)) = Running \<and> length (turns_of k s2) = Suc (length (turns_of k s)) \<and>
    (\<exists>c'. dict_get (cs_conversations s2) k = Some c' \<and> cv_active_run_id c' = None)"
proof -
  have ok: "turns_ok c (turns_of k s)" using conversations_okD [OF conversations_reachable_ok [OF r] c(1)] by blast
  let ?ts = "turns_of k s" and ?t = "new_turn k run_id prompt c s"
  have v: "valid_turn ?t" using ok p by (auto simp: new_turn_def valid_turn_def turns_ok_def numbered_def)
  obtain s1 where b: "begin_turn k run_id (cv_profile_id c) prompt s = (Inr (?t, messages_of ?ts), s1)"
    and s1: "turns_of k s1 = ?ts @ [?t]" "\<exists>c1. dict_get (cs_conversations s1) k = Some c1 \<and> cv_active_run_id c1 = Some run_id"
    using c p v by (simp add: begin_turn_eq Let_def)
  have "turn_index run_id (us @ vs) = Some n" if "turn_index run_id us = Some n" for us vs n
    using that by (induction us arbitrary: n) auto
  with t s1(1) have index: "turn_index run_id (turns_of k s1) = Some i" by simp
  then obtain u s2 where "finish_turn k run_id Failed None s1 = (Inr u, s2)"
    "turns_of k s2 = (?ts @ [?t])[i := finished_turn ((?ts @ [?t]) ! i) Failed None (clock_stream s1 (clock_reads s1))]"
    "\<exists>c'. dict_get (cs_conversations s2) k = Some c' \<and> cv_active_run_id c' = None"
    using s1 by (auto simp: finish_turn_eq Let_def)
  with b turn_index_Some [OF t] show ?thesis by (auto simp: finished_turn_def list_update_append nth_append new_turn_def)
qed

theorem reused_run_rewrites_turn_witness:
  "\<exists>t h s1 u s2. begin_turn 1 9 ''p'' ''again'' ex_c3 = (Inr (t, h), s1) \<and> finish_turn 1 9 Failed None s1 = (Inr u, s2) \<and>
     ct_status (turns_of 1 s2 ! 0) = Failed"
proof -
  have "(case dict_get (cs_conversations ex_c3) 1 of None \<Rightarrow> False
    | Some c \<Rightarrow> cv_profile_id c = ''p'' \<and> cv_active_run_id c = None)" by code_simp
  then obtain c where c: "dict_get (cs_conversations ex_c3) 1 = Some c" "cv_active_run_id c = None" "cv_profile_id c = ''p''"
    by (auto split: option.splits)
  have t: "turn_index 9 (turns_of 1 ex_c3) = Some 0" "\<not> blank ''again''" by code_simp+
  from reused_run_rewrites_turn [OF ex_c_reachable(3) c(1,2) t] c(3) show ?thesis by auto
qed

text \<open>
  C21. An accepted cancellation is never lost: after \<open>request_cancel\<close> returned, whatever runs are
  created, saved (also from snapshots read before the request) or cancelled afterwards, the run
  reports that its cancellation is requested.
\<close>

theorem cancel_request_sticks:
  assumes c: "request_cancel k s = (Inr r, s1)" and steps: "run_step\<^sup>*\<^sup>* s1 s2"
  shows "is_cancel_requested k s2 = (Inr True, s2)"
proof -
  have "cancelled k s1" using c by (auto simp: request_cancel_eq cancelled_def Let_def split: option.splits if_splits)
  from cancel_flag.steps_stable [OF steps this] show ?thesis
    by (auto simp: cancelled_def is_cancel_requested_def pbind_app get_run_def)
qed

definition ex_run :: run where
  "ex_run = \<lparr>rn_id = 3, rn_profile_id = ''p'', rn_conversation_id = None, rn_turn_sequence = None, rn_status = Running,
     rn_step_count = 0, rn_tool_call_count = 0, rn_usage = \<lparr>input_tokens = 0, output_tokens = 0, total_tokens = 0\<rparr>,
     rn_skills = [], rn_output = None, rn_error = None, rn_cancel_requested = False, rn_created_at = 0, rn_updated_at = 0,
     rn_metadata = [], rn_attachments = [], rn_artifacts = []\<rparr>"

definition ex_runs :: run_store where
  "ex_runs = snd (create_run ex_run \<lparr>clock_stream = (\<lambda>n. int n), clock_reads = 0, uuid_stream = (\<lambda>n. n), uuid_draws = 0, rs_runs = []\<rparr>)"

theorem cancel_request_sticks_witness:
  "fst (is_cancel_requested 3 (snd (save_run ex_run (snd (request_cancel 3 ex_runs))))) = Inr True"
proof -
  have "\<not> isl (fst (request_cancel 3 ex_runs))" by code_simp
  from succeeded [OF this] obtain r s1 where c: "request_cancel 3 ex_runs = (Inr r, s1)" by blast
  have "run_step\<^sup>*\<^sup>* s1 (snd (save_run ex_run s1))" by (rule r_into_rtranclp, rule rs_save [OF prod.collapse [symmetric]])
  from cancel_request_sticks [OF c this] c show ?thesis by simp
qed

text \<open>
  A checkpoint is claimed once: after a claim returned the checkpoint of a run, every further claim
  for that run raises until another checkpoint of the run is saved, whatever else happens to the
  store.
\<close>

theorem checkpoint_claimed_once:
  assumes c: "claim_checkpoint k s = (Inr c, s1)" and steps: "(checkpoint_step run_of k)\<^sup>*\<^sup>* s1 s2"
  shows "dict_get s k = Some c \<and> claim_checkpoint k s2 = (Inl CheckpointNotFoundError, s2)"
proof -
  have "dict_get s k = Some c" "dict_get s1 k = None"
    using c by (auto simp: claim_checkpoint_def dict_get_pop split: option.splits)
  with no_checkpoint.steps_stable [OF steps] show ?thesis by (simp add: claim_checkpoint_def)
qed

theorem checkpoint_claimed_once_witness:
  "claim_checkpoint 3 [(3, 3 :: nat)] = (Inr 3, []) \<and> claim_checkpoint 3 ([] :: nat checkpoint_store) = (Inl CheckpointNotFoundError, [])"
proof -
  have c: "claim_checkpoint 3 [(3, 3 :: nat)] = (Inr 3, [])" by (simp add: claim_checkpoint_def)
  from checkpoint_claimed_once [OF c, of "\<lambda>c. c" "[]"] c show ?thesis by simp
qed

text \<open>
  Round trip of artifacts: what \<open>create_artifact\<close> stored is read back unchanged, after any number of
  further uploads, under the returned record, whose size and checksum are those of the content, and
  the record is listed under its run.
\<close>

theorem artifact_round_trip:
  assumes s: "content_reachable sha256 s" and a: "create_artifact sha256 run_id name media payload md s = (Inr a, s1)"
    and steps: "(content_step sha256)\<^sup>*\<^sup>* s1 s2"
  shows "read_content (art_id a) s2 = (Inr payload, s2) \<and> get_artifact (art_id a) s2 = (Inr a, s2) \<and>
    art_size_bytes a = int (length payload) \<and> art_checksum a = sha256 payload \<and>
    a \<in> set (projr (fst (list_artifacts run_id s2)))"
proof -
  have ok1: "content_ok s1" using writes_fresh_ok [OF content_reachable_ok [OF s] content_step_fresh [OF as_create [OF a]]] .
  have f: "art_run_id a = run_id" "art_size_bytes a = int (length payload)" "art_checksum a = sha256 payload"
    and "holds_artifact a payload s1"
    using a ok1 by (auto simp: create_artifact_eq Let_def holds_artifact_def split: if_splits)
  from held.steps_stable [OF steps this(4)] have h: "dict_get (as_artifacts s2) (art_id a) = Some a"
    "dict_get (as_content s2) (art_id a) = Some payload" by (auto simp: holds_artifact_def)
  with f dict_get_in_values [OF h(1)] show ?thesis by (simp add: read_content_def get_artifact_def list_artifacts_def)
qed

definition ex_sha :: "bytes \<Rightarrow> string" where
  "ex_sha b = replicate 64 CHR ''0''"

theorem artifact_round_trip_witness:
  "\<exists>a s1. create_artifact ex_sha 3 ''a.txt'' ''text/plain'' [104, 105] [] (empty_content (\<lambda>n. int n) (\<lambda>n. n)) = (Inr a, s1) \<and>
     read_content (art_id a) s1 = (Inr [104, 105], s1)"
proof -
  let ?e = "empty_content (\<lambda>n. int n) (\<lambda>n. n)"
  have r: "content_reachable ex_sha ?e" unfolding content_reachable_def
    by (intro exI [of _ "\<lambda>n. int n"] exI [of _ "\<lambda>n. n"] conjI rtranclp.rtrancl_refl) simp
  have "\<not> isl (fst (create_artifact ex_sha 3 ''a.txt'' ''text/plain'' [104, 105] [] ?e))" by code_simp
  from succeeded [OF this] obtain a s1 where
    a: "create_artifact ex_sha 3 ''a.txt'' ''text/plain'' [104, 105] [] ?e = (Inr a, s1)" by blast
  from artifact_round_trip [OF r a rtranclp.rtrancl_refl] a show ?thesis by blast
qed

text \<open>
  C22. A subscription loses, repeats and reorders nothing. Let it look at the log at any moments \<open>ss\<close> of
  the life of the store. What it has delivered are the events after the given sequence number of a
  log it has seen, in order, up to the first event that ends a run or makes it wait. As long as it has
  not ended, this log is the latest it has seen; it ends only when its log has such an event, and it
  does end once it has seen twice a log with an event that ends the run for good.
\<close>

theorem subscription_exact:
  assumes r: "events_reachable (hd ss)" and ss: "sorted_wrt event_step\<^sup>*\<^sup>* ss" "ss \<noteq> []" and a: "0 \<le> a"
    and out: "subscribe a (map (log_of k) ss) = Inr (out, ended)"
  shows "(\<exists>s \<in> set ss. out = upto_end (drop (nat a) (log_of k s)) \<and>
      (ended \<longrightarrow> list_ex is_end (log_of k s)) \<and> (\<not> ended \<longrightarrow> log_of k s = log_of k (last ss))) \<and>
    (length ss \<ge> 2 \<longrightarrow> last (butlast ss) = last ss \<longrightarrow>
      list_ex (\<lambda>e. en_type e \<in> set permanent_terminal_types) (log_of k (last ss)) \<longrightarrow> ended)"
proof -
  let ?logs = "map (log_of k) ss"
  have reach: "events_reachable s" if "s \<in> set ss" for s
  proof -
    have "s = hd ss \<or> event_step\<^sup>*\<^sup>* (hd ss) s" using ss that by (cases ss) auto
    with r show ?thesis unfolding events_reachable_def by (metis rtranclp_trans)
  qed
  have ch: "chain ?logs"
    unfolding chain_def
  proof
    show "sorted_wrt prefix ?logs"
      unfolding sorted_wrt_map by (rule sorted_wrt_mono_rel [OF _ ss(1)]) (rule event_steps_prefix)
    show "\<forall>es \<in> set ?logs. contiguous en_sequence es"
      using events_reachable_contiguous [OF reach] by (auto simp: logs_contiguous_def)
  qed
  have run: "subscribe_from (int (nat a) + 1) ?logs = (out, ended)" using out a by (simp add: subscribe_def)
  from subscribe_from_spec [OF ch _ run] ss(2) obtain es where
    es: "es \<in> set ?logs" "out = upto_end (drop (nat a) es)" "ended \<longrightarrow> list_ex is_end es" "\<not> ended \<longrightarrow> es = last ?logs" by auto
  then obtain s where s: "s \<in> set ss" "es = log_of k s" by auto
  have "ended" if two: "length ss \<ge> 2" "last (butlast ss) = last ss"
    "list_ex (\<lambda>e. en_type e \<in> set permanent_terminal_types) (log_of k (last ss))"
  proof -
    have "butlast ss \<noteq> []" using two(1) by (cases ss rule: rev_cases) auto
    then have "ss = butlast (butlast ss) @ [last ss, last ss]" using two(2) ss(2)
      by (metis append_butlast_last_id append.assoc append_Cons append_Nil)
    then have l: "?logs = map (log_of k) (butlast (butlast ss)) @ [log_of k (last ss), log_of k (last ss)]"
      by (metis list.simps(8) list.simps(9) map_append)
    from subscribe_from_ends [of "map (log_of k) (butlast (butlast ss))" "log_of k (last ss)" "nat a"] ch two(3) run
    show ?thesis unfolding l by simp
  qed
  with es s ss(2) show ?thesis by (auto simp: last_map)
qed

definition ex_e1 :: event_store where
  "ex_e1 = snd (emit 3 RUN_STARTED [] (empty_events (\<lambda>n. int n) (\<lambda>n. n)))"

definition ex_e2 :: event_store where
  "ex_e2 = snd (emit 3 RUN_COMPLETED [] ex_e1)"

theorem subscription_exact_witness:
  "\<exists>out. subscribe 0 (map (log_of 3) [ex_e1, ex_e2]) = Inr (out, True) \<and> map en_type out = [RUN_STARTED, RUN_COMPLETED] \<and>
     (\<exists>s \<in> {ex_e1, ex_e2}. out = upto_end (log_of 3 s))"
proof -
  have 1: "event_step (empty_events (\<lambda>n. int n) (\<lambda>n. n)) ex_e1" "event_step ex_e1 ex_e2"
    unfolding ex_e1_def ex_e2_def by (rule es_emit [OF prod.collapse [symmetric]])+
  then have r: "events_reachable (hd [ex_e1, ex_e2])" unfolding events_reachable_def by auto
  have "(case subscribe 0 (map (log_of 3) [ex_e1, ex_e2]) of Inl e \<Rightarrow> False
    | Inr (out, ended) \<Rightarrow> ended \<and> map en_type out = [RUN_STARTED, RUN_COMPLETED])" by code_simp
  then obtain out where out: "subscribe 0 (map (log_of 3) [ex_e1, ex_e2]) = Inr (out, True)"
    "map en_type out = [RUN_STARTED, RUN_COMPLETED]" by (auto split: sum.splits)
  have "sorted_wrt event_step\<^sup>*\<^sup>* [ex_e1, ex_e2]" using 1 by auto
  from subscription_exact [OF r this _ _ out(1)] out show ?thesis by auto
qed

end
