(* ===== verification/Flow_Starts.thy ===== *)
theory Flow_Starts
  imports Flow_Side_Effects
begin

text \<open>
  Overlapping calls of \<open>FlowToolSideEffectRecorder.start\<close> (\<open>flows/tool_effects.py\<close>) on one ledger. The
  state is the list of calls made so far, each at one of its awaits, and the ledger they share; a step is
  the beginning of a call, one awaited ledger call of one of them, or a ledger operation of other code.
  The calls are cut at their awaits by \<open>start_pass\<close>, the function that \<open>recorder_start\<close> runs.
\<close>

subsection \<open>Tasks\<close>

record start_task =
  sk_call :: tool_call
  sk_tool_name :: string
  sk_mode :: tool_side_effect_mode
  sk_context :: tool_context
  sk_key :: "string option"
  sk_point :: start_point

text \<open>The code of \<open>start\<close> up to its first await; it may raise there.\<close>

definition begin_start :: "(string \<Rightarrow> string) \<Rightarrow> tool_call \<Rightarrow> string \<Rightarrow> tool_side_effect_mode \<Rightarrow> tool_context \<Rightarrow>
    ledger \<Rightarrow> start_task \<times> ledger" where
  "begin_start digest call t m cx s = (case recorder_effect digest call t m cx s of
     (Inl x, s') \<Rightarrow> (\<lparr>sk_call = call, sk_tool_name = t, sk_mode = m, sk_context = cx, sk_key = None,
        sk_point = StartDone (Inl x)\<rparr>, s')
   | (Inr (e, key), s') \<Rightarrow> (\<lparr>sk_call = call, sk_tool_name = t, sk_mode = m, sk_context = cx, sk_key = key,
        sk_point = AtPrepare e\<rparr>, s'))"

definition pass_task :: "nat \<Rightarrow> start_task list \<Rightarrow> ledger \<Rightarrow> start_task list \<times> ledger" where
  "pass_task i ts s = (case start_pass (sk_point (ts ! i)) s of (p, s') \<Rightarrow> (ts[i := (ts ! i)\<lparr>sk_point := p\<rparr>], s'))"

text \<open>What \<open>start\<close> returns to its caller.\<close>

definition task_result :: "start_task \<Rightarrow> (exn + tool_receipt) option" where
  "task_result t = (case sk_point t of
     StartDone (Inl x) \<Rightarrow> Some (Inl x)
   | StartDone (Inr e) \<Rightarrow> Some (Inr
       \<lparr>tr_token = FlowReceipt \<lparr>rc_effect_id = se_id e, rc_expected_revision = se_revision e,
          rc_confirmation_required = (se_phase e \<noteq> CONFIRMED)\<rparr>,
        tr_idempotency_key = sk_key t\<rparr>)
   | _ \<Rightarrow> None)"

text \<open>
  The interleaving. Other code performs any ledger operation; it does not use the identifiers the calls
  have drawn from \<open>uuid4\<close> and not filed yet.
\<close>

inductive starts_step :: "(string \<Rightarrow> string) \<Rightarrow> start_task list \<times> ledger \<Rightarrow> start_task list \<times> ledger \<Rightarrow> bool"
  for digest :: "string \<Rightarrow> string" where
  task_begins: "begin_start digest call t m cx s = (task, s') \<Longrightarrow> starts_step digest (ts, s) (ts @ [task], s')"
| task_passes: "i < length ts \<Longrightarrow> starts_step digest (ts, s) (pass_task i ts s)"
| others_step: "ledger_step s s' \<Longrightarrow>
    (\<And>task e. task \<in> set ts \<Longrightarrow> sk_point task = AtPrepare e \<Longrightarrow> recorded s (se_id e) = None \<Longrightarrow>
       recorded s' (se_id e) = None) \<Longrightarrow> starts_step digest (ts, s) (ts, s')"

subsection \<open>The invariant\<close>


definition pending :: "ledger \<Rightarrow> flow_side_effect \<Rightarrow> bool" where
  "pending s e \<longleftrightarrow> valid_side_effect e \<and> (\<exists>m < uuid_draws s. se_id e = uuid_stream s m) \<and> recorded s (se_id e) = None \<and>
     se_phase e = PREPARED \<and> se_revision e = 1"











subsection \<open>One awaited call\<close>






subsection \<open>All interleavings\<close>



lemma recorder_effect_returns:
  assumes inv: "ledger_inv s" and run: "recorder_effect digest call t m cx s = (r, s')"
  shows "same_ledger s s'" and "r = Inr (e, key) \<Longrightarrow> pending s' e \<and> intends digest call t m cx e \<and> se_id e = next_uuid s"
proof -
  show "same_ledger s s'"
    using run by (auto simp: recorder_effect_def pbind_app uuid4_def utc_now_def construct_def same_ledger_def Let_def
        split: option.splits if_splits)
  assume r: "r = Inr (e, key)"
  with run obtain f i where a: "cx_flow_run_id cx = Some f" "cx_invocation_id cx = Some i" "m = ModeUnsafe \<or> m = ModeIdempotent"
    by (auto simp: recorder_effect_def split: option.splits if_splits)
  have e: "e = fresh_effect digest call t m f i s" "valid_side_effect e" "s' = after_draws s"
    using run r a by (auto simp: recorder_effect_def pbind_app uuid4_def utc_now_def construct_def fresh_effect_def Let_def
        split: if_splits)
  then show "pending s' e \<and> intends digest call t m cx e \<and> se_id e = next_uuid s"
    using fresh_effect_intends [OF a] fresh_uuid [OF inv] by (auto simp: pending_def)
qed






subsection \<open>A call of \<open>start\<close> is a task\<close>

text \<open>
  \<open>recorder_start\<close>, the whole call with its environment, is the run of one task between the steps of
  others, and returns what that task returns.
\<close>

lemma others_steps:
  assumes "ledger_step\<^sup>*\<^sup>* s s'"
    and "\<And>task e. task \<in> set ts \<Longrightarrow> sk_point task = AtPrepare e \<Longrightarrow> recorded s (se_id e) = None \<Longrightarrow> recorded s' (se_id e) = None"
  shows "(starts_step digest)\<^sup>*\<^sup>* (ts, s) (ts, s')"
  using assms
proof (induction rule: rtranclp_induct)
  case (step y z)
  have mid: "recorded y k = None" if "recorded z k = None" for k
    using led.step_later [OF step.hyps(2), of k] that by (cases "recorded y k") auto
  have "(starts_step digest)\<^sup>*\<^sup>* (ts, s) (ts, y)" by (rule step.IH) (use step.prems mid in blast)
  moreover have "starts_step digest (ts, y) (ts, z)"
  proof (rule others_step [OF step.hyps(2)])
    fix task e
    assume a: "task \<in> set ts" "sk_point task = AtPrepare e" "recorded y (se_id e) = None"
    have "recorded s (se_id e) = None"
      using led.steps_later [OF step.hyps(1), of "se_id e"] a(3) by (cases "recorded s (se_id e)") auto
    with step.prems a show "recorded z (se_id e) = None" by blast
  qed
  ultimately show ?case by (rule rtranclp.rtrancl_into_rtrancl)
qed simp

definition leaves_pending :: "start_task list \<Rightarrow> (nat \<Rightarrow> ledger \<Rightarrow> ledger) \<Rightarrow> bool" where
  "leaves_pending ts env \<longleftrightarrow> tasks env \<and> (\<forall>task \<in> set ts. \<forall>e. sk_point task = AtPrepare e \<longrightarrow> interferes (se_id e) env)"

lemma env_steps: "leaves_pending ts env \<Longrightarrow> (starts_step digest)\<^sup>*\<^sup>* (ts, s) (ts, env n s)"
  by (rule others_steps) (auto simp: leaves_pending_def interferes_def tasks_def)

lemma run_start_is_task:
  assumes "run_start f env n (sk_point task) s = Some (r, s')" and "leaves_pending (ts @ [task]) env"
  shows "(starts_step digest)\<^sup>*\<^sup>* (ts @ [task], s) (ts @ [task\<lparr>sk_point := StartDone r\<rparr>], s')"
  using assms
proof (induction f arbitrary: n task s)
  case (Suc f)
  show ?case
  proof (cases "\<exists>x. sk_point task = StartDone x")
    case True
    with Suc.prems(1) have "sk_point task = StartDone r" "s' = s" by (auto simp: run_start.simps)
    then show ?thesis by (cases task) simp
  next
    case False
    obtain p' s1 where p: "start_pass (sk_point task) (env n s) = (p', s1)" by fastforce
    let ?t = "task\<lparr>sk_point := p'\<rparr>"
    have rest: "run_start f env (Suc n) (sk_point ?t) s1 = Some (r, s')"
      using Suc.prems(1) False p by (cases "sk_point task") (simp_all add: run_start.simps [of "Suc f"])
    have "p' \<noteq> AtPrepare e" for e
      using p False by (cases "sk_point task") (auto simp: loop_head_def split: prod.splits sum.splits if_splits)
    then have "leaves_pending (ts @ [?t]) env" using Suc.prems(2) by (auto simp: leaves_pending_def)
    from Suc.IH [OF rest this]
    have fin: "(starts_step digest)\<^sup>*\<^sup>* (ts @ [?t], s1) (ts @ [task\<lparr>sk_point := StartDone r\<rparr>], s')" by simp
    have "starts_step digest (ts @ [task], env n s) (ts @ [?t], s1)"
      using task_passes [of "length ts" "ts @ [task]" digest "env n s"] p by (simp add: pass_task_def)
    with env_steps [OF Suc.prems(2)] have "(starts_step digest)\<^sup>*\<^sup>* (ts @ [task], s) (ts @ [?t], s1)"
      by (rule rtranclp.rtrancl_into_rtrancl)
    with fin show ?thesis by (rule rtranclp_trans [rotated])
  qed
next
  case 0
  then show ?case by (cases task) (auto simp: run_start.simps split: start_point.splits)
qed

lemma recorder_start_run: "recorder_start digest env call t m cx s =
   (case recorder_effect digest call t m cx s of (Inl x, s') \<Rightarrow> Some (Inl x, s')
    | (Inr (e, key), s') \<Rightarrow> (case run_start (Suc (2 * loop_fuel)) env 0 (AtPrepare e) s' of None \<Rightarrow> None
      | Some (Inl x, s'') \<Rightarrow> Some (Inl x, s'')
      | Some (Inr started, s'') \<Rightarrow> Some (Inr
          \<lparr>tr_token = FlowReceipt \<lparr>rc_effect_id = se_id started, rc_expected_revision = se_revision started,
             rc_confirmation_required = (se_phase started \<noteq> CONFIRMED)\<rparr>, tr_idempotency_key = key\<rparr>, s'')))"
  by (simp add: recorder_start_def recorder_prepare_def pbind_app start_or_replay_def
      run_start.simps [of "Suc n" for n] run_start.simps [of _ _ _ "StartDone r" for r] split: prod.split sum.split)

lemma recorder_start_is_task:
  assumes run: "recorder_start digest env call t m cx s = Some (r, s')"
    and env: "interferes (next_uuid s) env" "leaves_pending ts env" and inv: "ledger_inv s"
  shows "\<exists>task. (starts_step digest)\<^sup>*\<^sup>* (ts, s) (ts @ [task], s') \<and> task_result task = Some r \<and>
    sk_call task = call \<and> sk_tool_name task = t \<and> sk_mode task = m \<and> sk_context task = cx"
proof -
  obtain q s1 where q: "recorder_effect digest call t m cx s = (q, s1)" by fastforce
  let ?task = "fst (begin_start digest call t m cx s)"
  have b: "starts_step digest (ts, s) (ts @ [?task], s1)"
    by (rule task_begins [of digest call t m cx]) (use q in \<open>auto simp: begin_start_def split: sum.splits\<close>)
  show ?thesis
  proof (cases q)
    case (Inl x)
    with run q b show ?thesis
      by (intro exI [of _ ?task]) (auto simp: recorder_start_run begin_start_def task_result_def)
  next
    case (Inr ek)
    then obtain e key where ek: "q = Inr (e, key)" by (cases ek) auto
    have id: "se_id e = next_uuid s" using recorder_effect_returns(2) [OF inv q ek] by blast
    have task: "?task = \<lparr>sk_call = call, sk_tool_name = t, sk_mode = m, sk_context = cx, sk_key = key, sk_point = AtPrepare e\<rparr>"
      using q ek by (simp add: begin_start_def)
    obtain x where x: "run_start (Suc (2 * loop_fuel)) env 0 (sk_point ?task) s1 = Some (x, s')"
      "r = (case x of Inl y \<Rightarrow> Inl y | Inr started \<Rightarrow> Inr
          \<lparr>tr_token = FlowReceipt \<lparr>rc_effect_id = se_id started, rc_expected_revision = se_revision started,
             rc_confirmation_required = (se_phase started \<noteq> CONFIRMED)\<rparr>, tr_idempotency_key = key\<rparr>)"
      using run q ek task by (auto simp: recorder_start_run split: option.splits sum.splits)
    have "leaves_pending (ts @ [?task]) env" using env id task by (auto simp: leaves_pending_def)
    from run_start_is_task [OF x(1) this]
    have "(starts_step digest)\<^sup>*\<^sup>* (ts @ [?task], s1) (ts @ [?task\<lparr>sk_point := StartDone x\<rparr>], s')" .
    with b have "(starts_step digest)\<^sup>*\<^sup>* (ts, s) (ts @ [?task\<lparr>sk_point := StartDone x\<rparr>], s')"
      by (rule converse_rtranclp_into_rtranclp)
    then show ?thesis
      by (rule exI [of _ "?task\<lparr>sk_point := StartDone x\<rparr>", OF conjI])
        (use x(2) task in \<open>simp add: task_result_def split: sum.split\<close>)
  qed
qed

subsection \<open>Properties\<close>











end
