(* ===== verification/Flow_Budget.thy ===== *)
theory Flow_Budget
  imports Flow_Lifecycle
begin

text \<open>
  \<open>flows/budget.py\<close>: measuring what a Flow Run has consumed and deciding, before and after an
  agent transport, whether a limit of its budget is reached. Python's \<open>:g\<close> formatting of the
  violation's message is written out, since the message becomes the Flow's error.
\<close>

subsection \<open>Formatting with six significant digits\<close>

function dec_up :: "rat \<Rightarrow> int" where
  "dec_up x = (if 10 \<le> x then dec_up (x / 10) + 1 else 0)"
  by pat_completeness auto
termination
proof (relation "measure (\<lambda>x. nat \<lfloor>x\<rfloor>)", simp)
  fix x :: rat
  assume "10 \<le> x"
  then have "x / 10 \<le> x - 1" and "10 \<le> \<lfloor>x\<rfloor>" by (simp_all add: le_floor_iff)
  moreover from this(1) have "\<lfloor>x / 10\<rfloor> \<le> \<lfloor>x - 1\<rfloor>" by (rule floor_mono)
  ultimately have "\<lfloor>x / 10\<rfloor> < \<lfloor>x\<rfloor> \<and> 0 < \<lfloor>x\<rfloor>" by linarith
  then show "(x / 10, x) \<in> measure (\<lambda>x. nat \<lfloor>x\<rfloor>)" by auto
qed

function dec_down :: "rat \<Rightarrow> int" where
  "dec_down x = (if 0 < x \<and> x < 1 then dec_down (x * 10) - 1 else 0)"
  by pat_completeness auto
termination
proof (relation "measure (\<lambda>x. nat \<lfloor>1 / x\<rfloor>)", simp)
  fix x :: rat
  assume x: "0 < x \<and> x < 1"
  then have one: "1 \<le> 1 / x" by (simp add: field_simps)
  have "1 / (x * 10) < 1 / x" using x by (simp add: field_simps)
  have "\<lfloor>1 / (x * 10)\<rfloor> < \<lfloor>1 / x\<rfloor>"
  proof (cases "10 / 9 \<le> 1 / x")
    case True
    then have "1 / (x * 10) \<le> 1 / x - 1" using x by (simp add: field_simps)
    then have "\<lfloor>1 / (x * 10)\<rfloor> \<le> \<lfloor>1 / x - 1\<rfloor>" by (rule floor_mono)
    then show ?thesis by simp
  next
    case False
    then have "1 / (x * 10) < 1" using x by (simp add: field_simps)
    then have "\<lfloor>1 / (x * 10)\<rfloor> < 1" by (simp add: floor_less_iff)
    moreover have "1 \<le> \<lfloor>1 / x\<rfloor>" using one by (simp add: le_floor_iff)
    ultimately show ?thesis by linarith
  qed
  moreover have "1 \<le> \<lfloor>1 / x\<rfloor>" using one by (simp add: le_floor_iff)
  ultimately show "(x * 10, x) \<in> measure (\<lambda>x. nat \<lfloor>1 / x\<rfloor>)" by auto
qed

declare dec_up.simps [simp del] dec_down.simps [simp del]

definition strip_zeros :: "string \<Rightarrow> string" where
  "strip_zeros s = rev (dropWhile (\<lambda>c. c = CHR ''0'') (rev s))"

definition with_fraction :: "string \<Rightarrow> string \<Rightarrow> string" where
  "with_fraction whole rest = (let f = strip_zeros rest in if f = [] then whole else whole @ ''.'' @ f)"

definition scale10 :: "rat \<Rightarrow> int \<Rightarrow> rat" where
  "scale10 x k = (if 0 \<le> k then x * 10 ^ nat k else x / 10 ^ nat (- k))"

text \<open>\<open>f"{x:g}"\<close> for a non-negative \<open>x\<close>.\<close>

definition format_g :: "rat \<Rightarrow> string" where
  "format_g x = (if x = 0 then ''0'' else
     let e0 = (if 1 \<le> x then dec_up x else dec_down x);
         m0 = round_half_even (scale10 x (5 - e0));
         e = (if m0 = 1000000 then e0 + 1 else e0);
         ds = nat_digits (nat (if m0 = 1000000 then 100000 else m0))
     in if - 4 \<le> e \<and> e < 6
        then (if 0 \<le> e then with_fraction (take (nat e + 1) ds) (drop (nat e + 1) ds)
              else with_fraction ''0'' (replicate (nat (- e - 1)) CHR ''0'' @ ds))
        else with_fraction (take 1 ds) (drop 1 ds) @ ''e'' @ (if e < 0 then ''-'' else ''+'') @
             (if \<bar>e\<bar> < 10 then ''0'' else []) @ nat_digits (nat \<bar>e\<bar>))"

subsection \<open>Consumption and violations\<close>

datatype budget_kind =
    Invocations | InputTokens | OutputTokens | TotalTokens | ModelCalls | ToolCalls | TimeoutSeconds

fun budget_kind_value :: "budget_kind \<Rightarrow> string" where
  "budget_kind_value Invocations = ''invocations''"
| "budget_kind_value InputTokens = ''input_tokens''"
| "budget_kind_value OutputTokens = ''output_tokens''"
| "budget_kind_value TotalTokens = ''total_tokens''"
| "budget_kind_value ModelCalls = ''model_calls''"
| "budget_kind_value ToolCalls = ''tool_calls''"
| "budget_kind_value TimeoutSeconds = ''timeout_seconds''"

record flow_consumption =
  fc_invocations :: int
  fc_input_tokens :: int
  fc_output_tokens :: int
  fc_total_tokens :: int
  fc_model_calls :: int
  fc_tool_calls :: int
  fc_elapsed_seconds :: seconds

record budget_exceeded =
  be_kind :: budget_kind
  be_limit :: rat
  be_actual :: rat

definition valid_consumption :: "flow_consumption \<Rightarrow> bool" where
  "valid_consumption c \<longleftrightarrow> 0 \<le> fc_invocations c \<and> 0 \<le> fc_input_tokens c \<and>
     0 \<le> fc_output_tokens c \<and> 0 \<le> fc_total_tokens c \<and> 0 \<le> fc_model_calls c \<and>
     0 \<le> fc_tool_calls c \<and> 0 \<le> fc_elapsed_seconds c"

definition violation_message :: "budget_exceeded \<Rightarrow> string" where
  "violation_message v = ''Flow budget '' @ [CHR 0x27] @ budget_kind_value (be_kind v) @ [CHR 0x27] @
     '' reached: limit='' @ format_g (be_limit v) @ '', actual='' @ format_g (be_actual v)"

definition consumption :: "flow_run_state \<Rightarrow> timestamp \<Rightarrow> exn + flow_consumption" where
  "consumption st now = construct valid_consumption
     \<lparr>fc_invocations = int (length (fs_invocations st)),
      fc_input_tokens = input_tokens (state_usage st),
      fc_output_tokens = output_tokens (state_usage st),
      fc_total_tokens = total_tokens (state_usage st),
      fc_model_calls = model_call_count st,
      fc_tool_calls = tool_call_count st,
      fc_elapsed_seconds = max 0 (total_seconds (now - fs_created_at st))\<rparr>"

text \<open>\<open>_timeout_violation\<close>.\<close>

definition timeout_violation :: "flow_run_state \<Rightarrow> flow_consumption \<Rightarrow> exn + budget_exceeded" where
  "timeout_violation st c = (case timeout_seconds (fs_budget st) of None \<Rightarrow> Inl AssertionError
     | Some x \<Rightarrow> Inr \<lparr>be_kind = TimeoutSeconds, be_limit = x, be_actual = fc_elapsed_seconds c\<rparr>)"

text \<open>The table and the loop of \<open>_cumulative_violation\<close>.\<close>

definition configured_limits ::
  "flow_run_state \<Rightarrow> flow_consumption \<Rightarrow> (budget_kind \<times> int option \<times> int) list" where
  "configured_limits st c =
     [(InputTokens, max_input_tokens (fs_budget st), fc_input_tokens c),
      (OutputTokens, max_output_tokens (fs_budget st), fc_output_tokens c),
      (TotalTokens, max_total_tokens (fs_budget st), fc_total_tokens c),
      (ModelCalls, max_model_calls (fs_budget st), fc_model_calls c),
      (ToolCalls, max_tool_calls (fs_budget st), fc_tool_calls c)]"

fun first_violation :: "bool \<Rightarrow> (budget_kind \<times> int option \<times> int) list \<Rightarrow> budget_exceeded option" where
  "first_violation inclusive [] = None"
| "first_violation inclusive ((kind, None, actual) # rest) = first_violation inclusive rest"
| "first_violation inclusive ((kind, Some limit, actual) # rest) =
     (if (if inclusive then limit \<le> actual else limit < actual)
      then Some \<lparr>be_kind = kind, be_limit = of_int limit, be_actual = of_int actual\<rparr>
      else first_violation inclusive rest)"

definition cumulative_violation ::
  "bool \<Rightarrow> flow_run_state \<Rightarrow> flow_consumption \<Rightarrow> budget_exceeded option" where
  "cumulative_violation inclusive st c = first_violation inclusive (configured_limits st c)"

definition past_deadline :: "flow_run_state \<Rightarrow> timestamp \<Rightarrow> bool" where
  "past_deadline st now \<longleftrightarrow> (case fs_deadline_at st of None \<Rightarrow> False | Some dl \<Rightarrow> dl \<le> now)"

definition before_transport ::
  "flow_run_state \<Rightarrow> timestamp \<Rightarrow> bool \<Rightarrow> exn + budget_exceeded option" where
  "before_transport st now new_invocation = rbind (consumption st now) (\<lambda>c.
     if past_deadline st now then rbind (timeout_violation st c) (\<lambda>v. Inr (Some v))
     else if new_invocation \<and> max_invocations (fs_budget st) \<le> fc_invocations c
     then Inr (Some \<lparr>be_kind = Invocations, be_limit = of_int (max_invocations (fs_budget st)),
            be_actual = of_int (fc_invocations c)\<rparr>)
     else Inr (cumulative_violation True st c))"

definition after_transport :: "flow_run_state \<Rightarrow> timestamp \<Rightarrow> exn + budget_exceeded option" where
  "after_transport st now = rbind (consumption st now) (\<lambda>c.
     if past_deadline st now then rbind (timeout_violation st c) (\<lambda>v. Inr (Some v))
     else Inr (cumulative_violation False st c))"

definition remaining_seconds :: "flow_run_state \<Rightarrow> timestamp \<Rightarrow> seconds option" where
  "remaining_seconds st now = (case fs_deadline_at st of None \<Rightarrow> None
     | Some dl \<Rightarrow> Some (max 0 (total_seconds (dl - now))))"

subsection \<open>Lemmas\<close>

lemma violation_message_not_blank [simp]: "\<not> blank (violation_message v)"
  by (simp add: violation_message_def blank_def py_space_def)

lemma first_violation_None:
  "first_violation inclusive xs = None \<longleftrightarrow>
   list_all (\<lambda>(k, l, a). opt_all (\<lambda>n. if inclusive then a < n else a \<le> n) l) xs"
  by (induction inclusive xs rule: first_violation.induct) auto

lemma first_violation_Some:
  "first_violation inclusive xs = Some v \<Longrightarrow>
   \<exists>n a. (be_kind v, Some n, a) \<in> set xs \<and> be_limit v = of_int n \<and> be_actual v = of_int a \<and>
     (if inclusive then n \<le> a else n < a)"
  by (induction inclusive xs rule: first_violation.induct) (auto split: if_splits)

lemma state_usage_nonneg:
  assumes "flow_inv st"
  shows "0 \<le> input_tokens (state_usage st)" "0 \<le> output_tokens (state_usage st)"
    "0 \<le> total_tokens (state_usage st)"
proof -
  have "valid_usage (inv_usage i)" if "i \<in> set (fs_invocations st)" for i
    using assms that
    by (auto simp: flow_inv_def list_all_iff sound_invocation_def inv_usage_def valid_result_def
        split: option.splits)
  then show "0 \<le> input_tokens (state_usage st)" "0 \<le> output_tokens (state_usage st)"
    "0 \<le> total_tokens (state_usage st)"
    by (auto simp: state_usage_sums valid_usage_def intro!: sum_list_nonneg add_nonneg_nonneg)
qed

lemma past_deadline_timeout:
  "valid_state st \<Longrightarrow> past_deadline st now \<Longrightarrow> timeout_seconds (fs_budget st) \<noteq> None"
  by (auto simp: valid_state_def past_deadline_def split: option.splits)

text \<open>The measured counters, for an aggregate whose reported call counts are not negative.\<close>

lemma consumption_ok:
  assumes "flow_inv st" and "0 \<le> model_call_count st" and "0 \<le> tool_call_count st"
  obtains c where "consumption st now = Inr c"
    "fc_invocations c = int (length (fs_invocations st))"
    "fc_input_tokens c = input_tokens (state_usage st)"
    "fc_output_tokens c = output_tokens (state_usage st)"
    "fc_total_tokens c = total_tokens (state_usage st)"
    "fc_model_calls c = model_call_count st" "fc_tool_calls c = tool_call_count st"
  using assms state_usage_nonneg [OF assms(1)]
  by (simp add: consumption_def construct_def valid_consumption_def)

definition limits_ok :: "(int \<Rightarrow> int \<Rightarrow> bool) \<Rightarrow> flow_run_state \<Rightarrow> bool" where
  "limits_ok fits st \<longleftrightarrow>
     opt_all (fits (input_tokens (state_usage st))) (max_input_tokens (fs_budget st)) \<and>
     opt_all (fits (output_tokens (state_usage st))) (max_output_tokens (fs_budget st)) \<and>
     opt_all (fits (total_tokens (state_usage st))) (max_total_tokens (fs_budget st)) \<and>
     opt_all (fits (model_call_count st)) (max_model_calls (fs_budget st)) \<and>
     opt_all (fits (tool_call_count st)) (max_tool_calls (fs_budget st))"

lemma before_transport_None:
  assumes "flow_inv st" and "0 \<le> model_call_count st" and "0 \<le> tool_call_count st"
  shows "before_transport st now new = Inr None \<longleftrightarrow> \<not> past_deadline st now \<and>
    (new \<longrightarrow> int (length (fs_invocations st)) < max_invocations (fs_budget st)) \<and>
    limits_ok (<) st"
  by (rule consumption_ok [OF assms, of now])
    (auto simp: before_transport_def rbind_Inr_iff cumulative_violation_def first_violation_None
      configured_limits_def limits_ok_def)

lemma after_transport_None:
  assumes "flow_inv st" and "0 \<le> model_call_count st" and "0 \<le> tool_call_count st"
  shows "after_transport st now = Inr None \<longleftrightarrow> \<not> past_deadline st now \<and> limits_ok (\<le>) st"
  by (rule consumption_ok [OF assms, of now])
    (auto simp: after_transport_def rbind_Inr_iff cumulative_violation_def first_violation_None
      configured_limits_def limits_ok_def)

lemma transport_checks_total:
  assumes "flow_inv st" and "0 \<le> model_call_count st" and "0 \<le> tool_call_count st"
  shows "\<exists>v. before_transport st now new = Inr v" "\<exists>v. after_transport st now = Inr v"
proof -
  obtain c where c: "consumption st now = Inr c" by (rule consumption_ok [OF assms])
  moreover have "past_deadline st now \<Longrightarrow> \<exists>v. timeout_violation st c = Inr v"
    using assms(1) past_deadline_timeout [of st now]
    by (auto simp: flow_inv_def timeout_violation_def)
  ultimately show "\<exists>v. before_transport st now new = Inr v" "\<exists>v. after_transport st now = Inr v"
    by (auto simp: before_transport_def after_transport_def)
qed

subsection \<open>Properties\<close>

text \<open>
  C2. The budget gate is exact. On a sound aggregate the check before a transport never raises,
  and it lets the transport through exactly when the deadline has not passed, a new invocation
  still fits the invocation limit, and every configured token and call limit is strictly above
  what is consumed; the check after a transport allows a limit to be met exactly.
\<close>

theorem budget_gate_exact:
  assumes "flow_inv st" and "0 \<le> model_call_count st" and "0 \<le> tool_call_count st"
  shows "(\<exists>v. before_transport st now new = Inr v) \<and> (\<exists>v. after_transport st now = Inr v) \<and>
    (before_transport st now new = Inr None \<longleftrightarrow> \<not> past_deadline st now \<and>
      (new \<longrightarrow> int (length (fs_invocations st)) < max_invocations (fs_budget st)) \<and>
      limits_ok (<) st) \<and>
    (after_transport st now = Inr None \<longleftrightarrow> \<not> past_deadline st now \<and> limits_ok (\<le>) st)"
  using transport_checks_total [OF assms] before_transport_None [OF assms] after_transport_None [OF assms]
  by blast

theorem budget_gate_exact_witness:
  "before_transport ex_settled 2000 True = Inr None \<and>
   before_transport (ex_settled\<lparr>fs_budget := default_budget\<lparr>max_total_tokens := Some 7\<rparr>\<rparr>) 2000 True \<noteq> Inr None"
proof -
  let ?st = "ex_settled\<lparr>fs_budget := default_budget\<lparr>max_total_tokens := Some 7\<rparr>\<rparr>"
  have i: "flow_inv ex_settled" "flow_inv ?st" by code_simp+
  have c: "0 \<le> model_call_count ex_settled" "0 \<le> tool_call_count ex_settled"
    "0 \<le> model_call_count ?st" "0 \<le> tool_call_count ?st" by code_simp+
  have p: "\<not> past_deadline ex_settled 2000" "limits_ok (<) ex_settled" "\<not> limits_ok (<) ?st"
    "int (length (fs_invocations ex_settled)) < max_invocations (fs_budget ex_settled)" by code_simp+
  show ?thesis
    using budget_gate_exact [OF i(1) c(1,2), of 2000 True] budget_gate_exact [OF i(2) c(3,4), of 2000 True] p
    by blast
qed

text \<open>
  The violation returned names a limit that is really configured and really reached, with
  the limit and the measured value, and its message is never blank, so it is accepted as the
  Flow's error.
\<close>

theorem budget_violation_sound:
  assumes "before_transport st now new = Inr (Some v)" and "be_kind v \<notin> {TimeoutSeconds, Invocations}"
  shows "(\<exists>c n a. consumption st now = Inr c \<and> (be_kind v, Some n, a) \<in> set (configured_limits st c) \<and>
    be_limit v = of_int n \<and> be_actual v = of_int a \<and> n \<le> a) \<and> \<not> blank (violation_message v)"
  using assms
  by (auto simp: before_transport_def rbind_Inr_iff timeout_violation_def cumulative_violation_def
      dest!: first_violation_Some split: if_splits option.splits)

theorem budget_violation_sound_witness:
  "\<exists>v. before_transport (ex_settled\<lparr>fs_budget := default_budget\<lparr>max_total_tokens := Some 7\<rparr>\<rparr>) 2000 True
     = Inr (Some v) \<and> \<not> blank (violation_message v)"
proof -
  let ?st = "ex_settled\<lparr>fs_budget := default_budget\<lparr>max_total_tokens := Some 7\<rparr>\<rparr>"
  let ?v = "\<lparr>be_kind = TotalTokens, be_limit = 7, be_actual = 7\<rparr>"
  have "before_transport ?st 2000 True = Inr (Some ?v)" "be_kind ?v \<notin> {TimeoutSeconds, Invocations}"
    by code_simp+
  with budget_violation_sound [of ?st 2000 True ?v] show ?thesis by blast
qed

end
