(* ===== verification/Tools.thy ===== *)
theory Tools
  imports Flow_Starts Flow_Budget
begin

text \<open>
  \<open>tools/registry.py\<close>, \<open>tools/effects.py\<close>, \<open>tools/executor.py\<close> and \<open>tools/results.py\<close>: the registry of an
  agent's tools, the confirmation policy, and the executor that gates one tool call by permissions,
  validated arguments, confirmation and side-effect evidence before its transport runs.

  A tool is application code: the optional protocols it implements are optional fields, and its
  transport is a function on the outside world \<open>'w\<close>, the only one that changes it. Hashing a call,
  \<open>uuid5\<close>, the text of an exception and the length of a JSON number with a fraction are parameters.
\<close>

subsection \<open>Tools and the registry\<close>

record tool_definition =
  td_name :: string
  td_description :: string
  td_input_schema :: jobj

definition valid_tool_definition :: "tool_definition \<Rightarrow> bool" where
  "valid_tool_definition d \<longleftrightarrow> within_length 128 (td_name d) \<and>
     list_all (\<lambda>c. ascii_alnum c \<or> c \<in> set ''_.-'') (td_name d) \<and> td_description d \<noteq> [] \<and>
     dict_get (td_input_schema d) ''type'' = Some (JStr ''object'')"

record wait_for_input =
  wf_prompt :: string
  wf_metadata :: jobj

text \<open>What an awaited transport returns: a request for input, a value \<open>to_jsonable_python\<close> renders, or one it
  refuses with an exception.\<close>

datatype tool_value = AsksInput wait_for_input | Returned json | NotSerializable exn

datatype tool_confirmation_mode = ConfirmNone | ConfirmRequired

record 'w tool =
  tl_definition :: tool_definition
  tl_permissions :: "string set"
  tl_timeout :: seconds
  tl_validate :: "(jobj \<Rightarrow> exn + jobj) option"
  tl_mode :: "tool_side_effect_mode option"
  tl_confirmation :: "tool_confirmation_mode option"
  tl_invoke :: "jobj \<Rightarrow> ('w, exn, tool_value) prog"
  tl_invoke_with_context :: "(jobj \<Rightarrow> tool_context \<Rightarrow> ('w, exn, tool_value) prog) option"

type_synonym 'w tool_registry = "(string, 'w tool) dict"

definition registry_add :: "'w tool \<Rightarrow> 'w tool_registry \<Rightarrow> exn + 'w tool_registry" where
  "registry_add t reg = (let name = td_name (tl_definition t) in
     if dict_get reg name \<noteq> None then Inl DuplicateToolError else Inr (dict_set name t reg))"

fun make_registry :: "'w tool list \<Rightarrow> 'w tool_registry \<Rightarrow> exn + 'w tool_registry" where
  "make_registry [] reg = Inr reg"
| "make_registry (t # ts) reg = rbind (registry_add t reg) (make_registry ts)"

fun require_tools :: "'w tool_registry \<Rightarrow> string list \<Rightarrow> exn + 'w tool list" where
  "require_tools reg [] = Inr []"
| "require_tools reg (n # ns) = (case dict_get reg n of None \<Rightarrow> Inl ToolNotFoundError
     | Some t \<Rightarrow> rbind (require_tools reg ns) (\<lambda>ts. Inr (t # ts)))"

definition tool_definitions :: "'w tool_registry \<Rightarrow> string list \<Rightarrow> exn + tool_definition list" where
  "tool_definitions reg ns = rbind (require_tools reg ns) (\<lambda>ts. Inr (map tl_definition ts))"

subsection \<open>Confirmation requests\<close>

record confirmation_request =
  cr_id :: uuid
  cr_tool_call_id :: string
  cr_tool_name :: string
  cr_mode :: tool_side_effect_mode
  cr_prompt :: string

definition valid_confirmation_request :: "confirmation_request \<Rightarrow> bool" where
  "valid_confirmation_request r \<longleftrightarrow> cr_tool_call_id r \<noteq> [] \<and> within_length 128 (cr_tool_name r) \<and> within_length 1000 (cr_prompt r)"

type_synonym confirmation_policy = "tool_call \<Rightarrow> string \<Rightarrow> tool_side_effect_mode \<Rightarrow> tool_confirmation_mode \<Rightarrow> tool_context \<Rightarrow>
   exn + confirmation_request option"

text \<open>\<open>DeclaredToolConfirmationPolicy\<close>: \<open>identity\<close> is the SHA-256 of the call's JSON.\<close>

definition declared_policy :: "(tool_call \<Rightarrow> string) \<Rightarrow> (string \<Rightarrow> uuid) \<Rightarrow> confirmation_policy" where
  "declared_policy identity uuid5 call tool_name mode cmode context =
     (if cmode = ConfirmNone then Inr None
      else rbind (construct valid_confirmation_request
        \<lparr>cr_id = uuid5 (''base-agent:tool-confirmation:'' @ str_uuid (cx_run_id context) @ '':'' @ tool_name @ '':'' @ identity call),
         cr_tool_call_id = tc_id call, cr_tool_name = tool_name, cr_mode = mode,
         cr_prompt = ''Approve execution of Tool '' @ [CHR 0x27] @ tool_name @ [CHR 0x27] @ ''?''\<rparr>) (\<lambda>r. Inr (Some r)))"

subsection \<open>Results\<close>

datatype tool_result_status = TSuccess | TInvalidArguments | TNotFound | TDenied | TTimeout | TError | TWaiting

fun status_value :: "tool_result_status \<Rightarrow> string" where
  "status_value TSuccess = ''success''"
| "status_value TInvalidArguments = ''invalid_arguments''"
| "status_value TNotFound = ''not_found''"
| "status_value TDenied = ''denied''"
| "status_value TTimeout = ''timeout''"
| "status_value TError = ''error''"
| "status_value TWaiting = ''waiting''"

record tool_result =
  trs_tool_name :: string
  trs_status :: tool_result_status
  trs_data :: json
  trs_error_code :: "string option"
  trs_message :: "string option"

abbreviation outcome :: "tool_call \<Rightarrow> tool_result_status \<Rightarrow> string \<Rightarrow> string \<Rightarrow> tool_result" where
  "outcome call st code message \<equiv> \<lparr>trs_tool_name = tc_name call, trs_status = st, trs_data = JNull, trs_error_code = Some code,
     trs_message = Some message\<rparr>"

text \<open>
  The length in bytes of compact UTF-8 JSON: quotes, backslashes and control characters are escaped,
  characters from U+0080 take two bytes; \<open>float_size\<close> is the length of a number with a fraction.
\<close>

definition char_size :: "char \<Rightarrow> nat" where
  "char_size c = (let n = (of_char c :: nat) in
     if n = 34 \<or> n = 92 \<or> n \<in> {8, 9, 10, 12, 13} then 2 else if n < 32 then 6 else if n < 128 then 1 else 2)"

definition str_size :: "string \<Rightarrow> nat" where
  "str_size s = 2 + sum_list (map char_size s)"

fun json_size :: "(rat \<Rightarrow> nat) \<Rightarrow> json \<Rightarrow> nat" where
  "json_size fs JNull = 4"
| "json_size fs (JBool b) = (if b then 4 else 5)"
| "json_size fs (JInt i) = length (str_int i)"
| "json_size fs (JFloat x) = fs x"
| "json_size fs (JStr s) = str_size s"
| "json_size fs (JList js) = 2 + (length js - 1) + sum_list (map (json_size fs) js)"
| "json_size fs (JObj kvs) = 2 + (length kvs - 1) + sum_list (map (\<lambda>(k, v). str_size k + 1 + json_size fs v) kvs)"

definition result_json :: "tool_result \<Rightarrow> json" where
  "result_json r = JObj [(''tool_name'', JStr (trs_tool_name r)), (''status'', JStr (status_value (trs_status r))),
     (''data'', trs_data r), (''error_code'', case trs_error_code r of None \<Rightarrow> JNull | Some c \<Rightarrow> JStr c),
     (''message'', case trs_message r of None \<Rightarrow> JNull | Some m \<Rightarrow> JStr m)]"

text \<open>\<open>BoundedToolResultPolicy.enforce\<close>.\<close>

definition enforce :: "(rat \<Rightarrow> nat) \<Rightarrow> nat \<Rightarrow> tool_result \<Rightarrow> tool_result" where
  "enforce fs max_bytes r = (let size_bytes = json_size fs (result_json r) in
     if size_bytes \<le> max_bytes then r
     else \<lparr>trs_tool_name = trs_tool_name r, trs_status = TError,
       trs_data = JObj [(''original_size_bytes'', JInt (int size_bytes)), (''limit_bytes'', JInt (int max_bytes)),
         (''original_status'', JStr (status_value (trs_status r))), (''overflow_action'', JStr ''rejected'')],
       trs_error_code = Some ''tool_result_too_large'', trs_message = Some ''Tool result exceeded the configured size limit''\<rparr>)"

subsection \<open>The executor\<close>

text \<open>\<open>ToolSideEffectRecorder\<close>: \<open>start\<close> may run out of the fuel of its retry loop.\<close>

record effect_recorder =
  er_start :: "tool_call \<Rightarrow> string \<Rightarrow> tool_side_effect_mode \<Rightarrow> tool_context \<Rightarrow> ledger \<Rightarrow> ((exn + tool_receipt) \<times> ledger) option"
  er_confirm :: "tool_receipt \<Rightarrow> unit ledger_prog"

definition flow_recorder :: "(string \<Rightarrow> string) \<Rightarrow> (nat \<Rightarrow> ledger \<Rightarrow> ledger) \<Rightarrow> (nat \<Rightarrow> ledger \<Rightarrow> ledger) \<Rightarrow> effect_recorder" where
  "flow_recorder digest env env' = \<lparr>er_start = recorder_start digest env, er_confirm = recorder_confirm env'\<rparr>"

record 'w executor =
  tx_registry :: "'w tool_registry"
  tx_recorder :: "effect_recorder option"
  tx_policy :: confirmation_policy
  tx_enforce :: "tool_result \<Rightarrow> tool_result"
  tx_str :: "exn \<Rightarrow> string"

text \<open>\<open>', '.join(sorted(missing))\<close>.\<close>

fun join_comma :: "string list \<Rightarrow> string" where
  "join_comma [] = []"
| "join_comma [s] = s"
| "join_comma (s # ss) = s @ '', '' @ join_comma ss"

definition tool_mode :: "'w tool \<Rightarrow> tool_side_effect_mode" where
  "tool_mode t = (case tl_mode t of None \<Rightarrow> ModeUnspecified | Some m \<Rightarrow> m)"

definition confirmation_mode :: "'w tool \<Rightarrow> tool_confirmation_mode" where
  "confirmation_mode t = (case tl_confirmation t of None \<Rightarrow> ConfirmNone | Some m \<Rightarrow> m)"

text \<open>The \<open>except\<close> clauses: only \<open>CancelledError\<close> is not an \<open>Exception\<close>.\<close>

definition exception_result :: "('w executor) \<Rightarrow> 'w tool \<Rightarrow> tool_call \<Rightarrow> exn \<Rightarrow> exn + tool_result" where
  "exception_result ex t call e =
     (if e = CancelledError then Inl e
      else if (case e of ValidationError \<Rightarrow> True | ToolInvalidArgumentsError _ \<Rightarrow> True | _ \<Rightarrow> False)
      then Inr (outcome call TInvalidArguments ''invalid_arguments'' (tx_str ex e))
      else if e = ToolSideEffectReplayUnsafeError
      then Inr (outcome call TDenied ''side_effect_replay_unsafe'' ''Tool replay requires operator review'')
      else if e = ToolSideEffectRecorderError \<or> e = ToolSideEffectContextError
      then Inr (outcome call TError ''side_effect_evidence_error'' ''Tool side-effect evidence could not be recorded'')
      else if e = TimeoutError
      then Inr (outcome call TTimeout ''tool_timeout'' (''tool exceeded timeout of '' @ format_g (tl_timeout t) @ '' seconds''))
      else Inr (outcome call TError ''tool_execution_error'' (tx_str ex e)))"

text \<open>The confirmation gate: the result that stops the execution, if any.\<close>

definition wait_json :: "wait_for_input \<Rightarrow> json" where
  "wait_json w = JObj [(''prompt'', JStr (wf_prompt w)), (''metadata'', JObj (wf_metadata w))]"

fun mode_value :: "tool_side_effect_mode \<Rightarrow> string" where
  "mode_value ModeUnspecified = ''unspecified''"
| "mode_value ModeReadOnly = ''read_only''"
| "mode_value ModeUnsafe = ''unsafe''"
| "mode_value ModeIdempotent = ''idempotent''"

definition waiting_result :: "tool_call \<Rightarrow> wait_for_input \<Rightarrow> tool_result" where
  "waiting_result call w = \<lparr>trs_tool_name = tc_name call, trs_status = TWaiting, trs_data = wait_json w, trs_error_code = None,
     trs_message = Some (wf_prompt w)\<rparr>"

definition confirmation_gate :: "('w executor) \<Rightarrow> 'w tool \<Rightarrow> tool_call \<Rightarrow> tool_context option \<Rightarrow> exn + tool_result option" where
  "confirmation_gate ex t call cxo = (case cxo of
     None \<Rightarrow> if confirmation_mode t = ConfirmRequired
       then Inr (Some (outcome call TError ''tool_confirmation_context_required'' ''Tool confirmation requires execution context''))
       else Inr None
   | Some cx \<Rightarrow> rbind (tx_policy ex call (tc_name call) (tool_mode t) (confirmation_mode t) cx) (\<lambda>request. case request of
       None \<Rightarrow> Inr None
     | Some r \<Rightarrow> (case cx_confirmation cx of
         None \<Rightarrow> if cr_prompt r = [] then Inl ValidationError
           else Inr (Some (waiting_result call \<lparr>wf_prompt = cr_prompt r, wf_metadata = [(''kind'', JStr ''tool_confirmation''),
             (''request'', JObj [(''id'', JStr (str_uuid (cr_id r))), (''tool_call_id'', JStr (cr_tool_call_id r)),
               (''tool_name'', JStr (cr_tool_name r)), (''side_effect_mode'', JStr (mode_value (cr_mode r))),
               (''prompt'', JStr (cr_prompt r))])]\<rparr>))
       | Some c \<Rightarrow>
           if tc_request_id c \<noteq> cr_id r
           then Inr (Some (outcome call TDenied ''tool_confirmation_mismatch'' ''Tool confirmation targets another request''))
           else if tc_decision c = Reject
           then Inr (Some (outcome call TDenied ''tool_confirmation_rejected'' ''Tool execution was rejected''))
           else Inr None)))"

text \<open>The evidence gate: the receipt, if the tool is governed and a recorder is configured.\<close>

definition governed :: "('w executor) \<Rightarrow> 'w tool \<Rightarrow> bool" where
  "governed ex t \<longleftrightarrow> tx_recorder ex \<noteq> None \<and> (tool_mode t = ModeUnsafe \<or> tool_mode t = ModeIdempotent)"

definition evidence_gate :: "('w executor) \<Rightarrow> 'w tool \<Rightarrow> tool_call \<Rightarrow> tool_context option \<Rightarrow> ledger \<Rightarrow>
    ((exn + tool_receipt option) \<times> ledger) option" where
  "evidence_gate ex t call cxo l = (case tx_recorder ex of
     None \<Rightarrow> Some (Inr None, l)
   | Some rec \<Rightarrow>
       if tool_mode t \<noteq> ModeUnsafe \<and> tool_mode t \<noteq> ModeIdempotent then Some (Inr None, l)
       else (case cxo of None \<Rightarrow> Some (Inl ToolSideEffectContextError, l)
       | Some cx \<Rightarrow>
           if tool_mode t = ModeIdempotent \<and> tl_invoke_with_context t = None then Some (Inl ToolSideEffectContextError, l)
           else (case er_start rec call (tc_name call) (tool_mode t) cx l of
               None \<Rightarrow> None
             | Some (Inl e, l') \<Rightarrow> Some (Inl e, l')
             | Some (Inr rc, l') \<Rightarrow> Some (Inr (Some rc), l'))))"

text \<open>The transport and what follows it. \<open>asyncio.timeout\<close> shows as the transport raising \<open>TimeoutError\<close>.\<close>

definition run_transport :: "'w tool \<Rightarrow> jobj \<Rightarrow> tool_context option \<Rightarrow> ('w, exn, tool_value) prog" where
  "run_transport t args cxo = (case (cxo, tl_invoke_with_context t) of
     (Some cx, Some invoke) \<Rightarrow> invoke args cx | _ \<Rightarrow> tl_invoke t args)"

definition confirm_receipt :: "('w executor) \<Rightarrow> tool_receipt option \<Rightarrow> unit ledger_prog" where
  "confirm_receipt ex receipt = (case receipt of None \<Rightarrow> pret ()
     | Some rc \<Rightarrow> (case tx_recorder ex of None \<Rightarrow> praise AssertionError | Some rec \<Rightarrow> er_confirm rec rc))"

definition finish_call :: "('w executor) \<Rightarrow> tool_call \<Rightarrow> tool_receipt option \<Rightarrow> tool_value \<Rightarrow> tool_result ledger_prog" where
  "finish_call ex call receipt v = (case v of
     AsksInput w \<Rightarrow> pret (waiting_result call w)
   | Returned j \<Rightarrow> pbind (confirm_receipt ex receipt) (\<lambda>_. pret
       \<lparr>trs_tool_name = tc_name call, trs_status = TSuccess, trs_data = j, trs_error_code = None, trs_message = None\<rparr>)
   | NotSerializable e \<Rightarrow> pbind (confirm_receipt ex receipt) (\<lambda>_. praise e))"

text \<open>The body of the \<open>try\<close> statement.\<close>

definition validated_arguments :: "'w tool \<Rightarrow> tool_call \<Rightarrow> exn + jobj" where
  "validated_arguments t call = (case tl_validate t of None \<Rightarrow> Inr (tc_arguments call) | Some v \<Rightarrow> v (tc_arguments call))"

definition try_execute :: "('w executor) \<Rightarrow> 'w tool \<Rightarrow> tool_call \<Rightarrow> tool_context option \<Rightarrow> 'w \<times> ledger \<Rightarrow>
    ((exn + tool_result) \<times> 'w \<times> ledger) option" where
  "try_execute ex t call context = (\<lambda>(w, l). case validated_arguments t call of Inl e \<Rightarrow> Some (Inl e, (w, l))
   | Inr args \<Rightarrow>
     let cxo = map_option (\<lambda>cx. cx\<lparr>cx_tool_call_id := Some (tc_id call)\<rparr>) context in
     (case confirmation_gate ex t call cxo of
       Inl e \<Rightarrow> Some (Inl e, (w, l))
     | Inr (Some r) \<Rightarrow> Some (Inr r, (w, l))
     | Inr None \<Rightarrow> (case evidence_gate ex t call cxo l of
         None \<Rightarrow> None
       | Some (Inl e, l') \<Rightarrow> Some (Inl e, (w, l'))
       | Some (Inr receipt, l') \<Rightarrow>
           let cx' = (case receipt of None \<Rightarrow> cxo
             | Some rc \<Rightarrow> map_option (\<lambda>cx. cx\<lparr>cx_idempotency_key := tr_idempotency_key rc\<rparr>) cxo) in
           (case run_transport t args cx' w of
             (Inl e, w') \<Rightarrow> Some (Inl e, (w', l'))
           | (Inr v, w') \<Rightarrow> (case finish_call ex call receipt v l' of (r, l'') \<Rightarrow> Some (r, (w', l'')))))))"

definition execute_unbounded :: "('w executor) \<Rightarrow> tool_call \<Rightarrow> string set \<Rightarrow> string list option \<Rightarrow> tool_context option \<Rightarrow>
    'w \<times> ledger \<Rightarrow> ((exn + tool_result) \<times> 'w \<times> ledger) option" where
  "execute_unbounded ex call granted allowed context s =
     (if allowed \<noteq> None \<and> tc_name call \<notin> set (the allowed)
      then Some (Inr (outcome call TDenied ''tool_not_allowed''
        (''tool '' @ [CHR 0x27] @ tc_name call @ [CHR 0x27] @ '' is not allowed in this execution'')), s)
      else case dict_get (tx_registry ex) (tc_name call) of
        None \<Rightarrow> Some (Inr (outcome call TNotFound ''tool_not_found''
          (''tool '' @ [CHR 0x27] @ tc_name call @ [CHR 0x27] @ '' is not registered'')), s)
      | Some t \<Rightarrow>
          let missing = tl_permissions t - granted in
          if missing \<noteq> {}
          then Some (Inr (outcome call TDenied ''permission_denied''
            (''missing tool permissions: '' @ join_comma (sorted_list_of_set missing))), s)
          else (case try_execute ex t call context s of
            None \<Rightarrow> None
          | Some (Inr r, s') \<Rightarrow> Some (Inr r, s')
          | Some (Inl e, s') \<Rightarrow> Some (exception_result ex t call e, s')))"

definition execute_tool :: "('w executor) \<Rightarrow> tool_call \<Rightarrow> string set \<Rightarrow> string list option \<Rightarrow> tool_context option \<Rightarrow>
    'w \<times> ledger \<Rightarrow> ((exn + tool_result) \<times> 'w \<times> ledger) option" where
  "execute_tool ex call granted allowed context s = (case execute_unbounded ex call granted allowed context s of
     None \<Rightarrow> None
   | Some (Inl e, s') \<Rightarrow> Some (Inl e, s')
   | Some (Inr r, s') \<Rightarrow> Some (Inr (tx_enforce ex r), s'))"

subsection \<open>What reaches the transport\<close>

text \<open>The context a tool sees: its own call id, and the key of the receipt.\<close>

abbreviation call_context :: "tool_call \<Rightarrow> tool_context option \<Rightarrow> tool_context option" where
  "call_context call context \<equiv> map_option (\<lambda>cx. cx\<lparr>cx_tool_call_id := Some (tc_id call)\<rparr>) context"

definition tool_view :: "tool_receipt option \<Rightarrow> tool_context option \<Rightarrow> tool_context option" where
  "tool_view receipt cxo = (case receipt of None \<Rightarrow> cxo
     | Some rc \<Rightarrow> map_option (\<lambda>cx. cx\<lparr>cx_idempotency_key := tr_idempotency_key rc\<rparr>) cxo)"

text \<open>
  \<open>sent\<close>: every gate was passed and the transport ran once; \<open>held\<close>: the call was stopped before it.
\<close>

definition sent :: "'w executor \<Rightarrow> 'w tool \<Rightarrow> tool_call \<Rightarrow> tool_context option \<Rightarrow> 'w \<times> ledger \<Rightarrow> exn + tool_result \<Rightarrow>
    'w \<times> ledger \<Rightarrow> bool" where
  "sent tx t call context s r s' \<longleftrightarrow> (\<exists>args receipt l1 v. validated_arguments t call = Inr args \<and>
     confirmation_gate tx t call (call_context call context) = Inr None \<and>
     evidence_gate tx t call (call_context call context) (snd s) = Some (Inr receipt, l1) \<and>
     run_transport t args (tool_view receipt (call_context call context)) (fst s) = (v, fst s') \<and>
     (case v of Inl e \<Rightarrow> r = Inl e \<and> snd s' = l1 | Inr x \<Rightarrow> finish_call tx call receipt x l1 = (r, snd s')))"

definition held :: "'w executor \<Rightarrow> 'w tool \<Rightarrow> tool_call \<Rightarrow> tool_context option \<Rightarrow> 'w \<times> ledger \<Rightarrow> 'w \<times> ledger \<Rightarrow> bool" where
  "held tx t call context s s' \<longleftrightarrow> fst s' = fst s \<and> (snd s' = snd s \<or>
     (\<exists>e. evidence_gate tx t call (call_context call context) (snd s) = Some (Inl e, snd s')))"

lemma try_execute_cases:
  assumes "try_execute tx t call context s = Some (r, s')"
  shows "held tx t call context s s' \<or> sent tx t call context s r s'"
proof -
  obtain w l where s: "s = (w, l)" by (cases s)
  let ?cx = "call_context call context"
  show ?thesis
  proof (cases "validated_arguments t call")
    case (Inl e)
    with assms show ?thesis by (simp add: s try_execute_def held_def)
  next
    case args: (Inr args)
    show ?thesis
    proof (cases "confirmation_gate tx t call ?cx = Inr None")
      case False
      with assms args show ?thesis
        by (cases "confirmation_gate tx t call ?cx" rule: sumE) (auto simp: s try_execute_def held_def split: option.splits)
    next
      case True
      with assms args obtain q l1 where q: "evidence_gate tx t call ?cx l = Some (q, l1)"
        by (cases "evidence_gate tx t call ?cx l") (auto simp: s try_execute_def)
      show ?thesis
      proof (cases q)
        case (Inl e)
        with assms args True q show ?thesis by (auto simp: s try_execute_def held_def)
      next
        case (Inr receipt)
        obtain v w' where v: "run_transport t args (tool_view receipt ?cx) w = (v, w')" by (cases "run_transport t args (tool_view receipt ?cx) w")
        from assms args True q Inr v have "w' = fst s' \<and> (case v of Inl e \<Rightarrow> r = Inl e \<and> snd s' = l1
            | Inr x \<Rightarrow> finish_call tx call receipt x l1 = (r, snd s'))"
          by (auto simp: s try_execute_def tool_view_def [symmetric] split: sum.splits prod.splits)
        with args True q Inr v show ?thesis unfolding sent_def s by (intro disjI2) auto
      qed
    qed
  qed
qed

definition admitted :: "'w executor \<Rightarrow> tool_call \<Rightarrow> string set \<Rightarrow> string list option \<Rightarrow> 'w tool \<Rightarrow> bool" where
  "admitted tx call granted allowed t \<longleftrightarrow> dict_get (tx_registry tx) (tc_name call) = Some t \<and>
     (\<forall>names. allowed = Some names \<longrightarrow> tc_name call \<in> set names) \<and> tl_permissions t \<subseteq> granted"

lemma execute_unbounded_cases:
  assumes "execute_unbounded tx call granted allowed context s = Some (r, s')"
  shows "s' = s \<and> (\<exists>x. r = Inr x) \<or> (\<exists>t q. admitted tx call granted allowed t \<and> try_execute tx t call context s = Some (q, s') \<and>
    r = (case q of Inl e \<Rightarrow> exception_result tx t call e | Inr x \<Rightarrow> Inr x))"
proof (cases "\<exists>t. admitted tx call granted allowed t")
  case True
  then obtain t where t: "admitted tx call granted allowed t" ..
  then have a: "dict_get (tx_registry tx) (tc_name call) = Some t" "\<not> (allowed \<noteq> None \<and> tc_name call \<notin> set (the allowed))"
    "tl_permissions t - granted = {}" by (cases allowed; auto simp: admitted_def)+
  with assms obtain q where "try_execute tx t call context s = Some (q, s')"
    "r = (case q of Inl e \<Rightarrow> exception_result tx t call e | Inr x \<Rightarrow> Inr x)"
    by (auto simp: execute_unbounded_def split: option.splits sum.splits)
  with t show ?thesis by blast
next
  case False
  have "admitted tx call granted allowed t" if "dict_get (tx_registry tx) (tc_name call) = Some t"
    "\<not> (allowed \<noteq> None \<and> tc_name call \<notin> set (the allowed))" "tl_permissions t - granted = {}" for t
    using that by (auto simp: admitted_def)
  with False assms show ?thesis
    by (auto simp: execute_unbounded_def Let_def split: if_splits option.splits)
qed

lemma execute_tool_cases:
  assumes "execute_tool tx call granted allowed context s = Some (r, s')"
  shows "s' = s \<and> (\<exists>x. r = Inr x) \<or> (\<exists>t q. admitted tx call granted allowed t \<and> try_execute tx t call context s = Some (q, s') \<and>
    r = (case (case q of Inl e \<Rightarrow> exception_result tx t call e | Inr x \<Rightarrow> Inr x) of Inl e \<Rightarrow> Inl e | Inr x \<Rightarrow> Inr (tx_enforce tx x)))"
proof -
  obtain r0 where r0: "execute_unbounded tx call granted allowed context s = Some (r0, s')"
    "r = (case r0 of Inl e \<Rightarrow> Inl e | Inr x \<Rightarrow> Inr (tx_enforce tx x))"
    using assms by (auto simp: execute_tool_def split: option.splits sum.splits)
  from execute_unbounded_cases [OF r0(1)] r0(2) show ?thesis by auto
qed



lemma exception_result_Inl: "exception_result tx t call e = Inl x \<Longrightarrow> e = CancelledError \<and> x = CancelledError"
  by (auto simp: exception_result_def split: if_splits)

text \<open>An approved confirmation.\<close>

lemma declared_gate_open:
  assumes "tx_policy tx = declared_policy identity uuid5" "confirmation_mode t = ConfirmRequired"
    "confirmation_gate tx t call (call_context call context) = Inr None"
  shows "\<exists>cx c. context = Some cx \<and> cx_confirmation cx = Some c \<and> tc_decision c = Approve \<and>
    tc_request_id c = uuid5 (''base-agent:tool-confirmation:'' @ str_uuid (cx_run_id cx) @ '':'' @ tc_name call @ '':'' @ identity call)"
proof (cases "context")
  case None
  with assms show ?thesis by (simp add: confirmation_gate_def)
next
  case (Some cx)
  with assms obtain c where "cx_confirmation cx = Some c" "tc_decision c \<noteq> Reject"
    "tc_request_id c = uuid5 (''base-agent:tool-confirmation:'' @ str_uuid (cx_run_id cx) @ '':'' @ tc_name call @ '':'' @ identity call)"
    by (auto simp: confirmation_gate_def declared_policy_def rbind_Inr_iff split: option.splits if_splits)
  moreover have "tc_decision c = Approve" using calculation(2) by (cases "tc_decision c") auto
  ultimately show ?thesis using Some by blast
qed

text \<open>Evidence.\<close>

lemma evidence_gate_open:
  assumes "tx_recorder tx = Some rec" "tool_mode t = ModeUnsafe \<or> tool_mode t = ModeIdempotent"
    "evidence_gate tx t call (call_context call context) l = Some (Inr receipt, l1)"
  shows "\<exists>cx rc. context = Some cx \<and> receipt = Some rc \<and>
    er_start rec call (tc_name call) (tool_mode t) (cx\<lparr>cx_tool_call_id := Some (tc_id call)\<rparr>) l = Some (Inr rc, l1)"
  using assms by (auto simp: evidence_gate_def split: option.splits if_splits sum.splits prod.splits)

subsection \<open>With the Flow recorder\<close>



subsection \<open>Sizes\<close>

lemma nat_digits_length: "n < 10 ^ k \<Longrightarrow> 1 \<le> k \<Longrightarrow> length (nat_digits n) \<le> k"
proof (induction n arbitrary: k rule: nat_digits.induct)
  case (1 n)
  show ?case
  proof (cases "n < 10")
    case True
    with 1(3) show ?thesis by (simp add: nat_digits.simps [of n])
  next
    case False
    then obtain j where j: "k = Suc j" "1 \<le> j" using 1(2,3) by (cases k; cases "k - 1") auto
    then have "n div 10 < 10 ^ j" using 1(2) by (simp add: less_mult_imp_div_less mult.commute)
    from 1(1) [OF False this j(2)] False j(1) show ?thesis by (simp add: nat_digits.simps [of n])
  qed
qed

lemma plain_str_size: "list_all (\<lambda>c. ascii_alnum c \<or> c \<in> set ''_.-'') s \<Longrightarrow> str_size s = 2 + length s"
proof -
  have "char_size c = 1" if "ascii_alnum c \<or> c \<in> set ''_.-''" for c
    using that by (auto simp: char_size_def ascii_alnum_def Let_def)
  then have "list_all (\<lambda>c. ascii_alnum c \<or> c \<in> set ''_.-'') s \<Longrightarrow> sum_list (map char_size s) = length s"
    by (induction s) auto
  then show "list_all (\<lambda>c. ascii_alnum c \<or> c \<in> set ''_.-'') s \<Longrightarrow> str_size s = 2 + length s" by (simp add: str_size_def)
qed

lemma status_value_size: "str_size (status_value st) \<le> 19"
proof -
  have "list_all (\<lambda>st. str_size (status_value st) \<le> 19) [TSuccess, TInvalidArguments, TNotFound, TDenied, TTimeout, TError, TWaiting]"
    by code_simp
  then show ?thesis by (cases st) simp_all
qed

lemma envelope_size:
  "json_size fs (result_json \<lparr>trs_tool_name = name, trs_status = TError,
     trs_data = JObj [(''original_size_bytes'', JInt n), (''limit_bytes'', JInt m), (''original_status'', JStr st),
       (''overflow_action'', JStr ''rejected'')],
     trs_error_code = Some ''tool_result_too_large'', trs_message = Some ''Tool result exceeded the configured size limit''\<rparr>) =
   str_size name + str_size st + length (str_int n) + length (str_int m) + 222"
proof -
  have "str_size ''tool_name'' = 11" "str_size ''status'' = 8" "str_size ''error'' = 7" "str_size ''data'' = 6"
    "str_size ''error_code'' = 12" "str_size ''message'' = 9" "str_size ''original_size_bytes'' = 21" "str_size ''limit_bytes'' = 13"
    "str_size ''original_status'' = 17" "str_size ''overflow_action'' = 17" "str_size ''rejected'' = 10"
    "str_size ''tool_result_too_large'' = 23" "str_size ''Tool result exceeded the configured size limit'' = 48"
    by code_simp+
  then show ?thesis by (simp add: result_json_def)
qed

subsection \<open>Properties\<close>

text \<open>
  C23. No gate is bypassed. Whatever a tool call, its context and the granted permissions are, the outside
  world is unchanged, or the transport of the registered tool ran once on the validated arguments; and
  then the tool was allowed, its permissions were granted, a tool that requires confirmation had an
  approval for exactly this call of this run, and a governed tool had a receipt for its evidence.
\<close>

theorem tool_transport_gated:
  assumes x: "execute_tool tx call granted allowed context (w, l) = Some (res, (w', l'))"
    and policy: "tx_policy tx = declared_policy identity uuid5"
  shows "w' = w \<or> (\<exists>t args view. dict_get (tx_registry tx) (tc_name call) = Some t \<and>
      (\<forall>names. allowed = Some names \<longrightarrow> tc_name call \<in> set names) \<and> tl_permissions t \<subseteq> granted \<and>
      validated_arguments t call = Inr args \<and> w' = snd (run_transport t args view w) \<and>
      (confirmation_mode t = ConfirmRequired \<longrightarrow> (\<exists>cx c. context = Some cx \<and> cx_confirmation cx = Some c \<and>
         tc_decision c = Approve \<and> tc_request_id c =
           uuid5 (''base-agent:tool-confirmation:'' @ str_uuid (cx_run_id cx) @ '':'' @ tc_name call @ '':'' @ identity call))) \<and>
      (\<forall>rec. tx_recorder tx = Some rec \<and> (tool_mode t = ModeUnsafe \<or> tool_mode t = ModeIdempotent) \<longrightarrow>
         (\<exists>cx rc l1. context = Some cx \<and> er_start rec call (tc_name call) (tool_mode t)
            (cx\<lparr>cx_tool_call_id := Some (tc_id call)\<rparr>) l = Some (Inr rc, l1))))"
proof (cases "w' = w")
  case moved: False
  with execute_tool_cases [OF x] obtain t q where t: "admitted tx call granted allowed t"
    "try_execute tx t call context (w, l) = Some (q, (w', l'))" by auto
  with try_execute_cases [OF t(2)] moved have "sent tx t call context (w, l) q (w', l')" by (auto simp: held_def)
  then obtain args receipt l1 v where g: "validated_arguments t call = Inr args"
    "confirmation_gate tx t call (call_context call context) = Inr None"
    "evidence_gate tx t call (call_context call context) l = Some (Inr receipt, l1)"
    "run_transport t args (tool_view receipt (call_context call context)) w = (v, w')" by (auto simp: sent_def)
  have "\<exists>cx rc l1. context = Some cx \<and> er_start rec call (tc_name call) (tool_mode t)
      (cx\<lparr>cx_tool_call_id := Some (tc_id call)\<rparr>) l = Some (Inr rc, l1)"
    if "tx_recorder tx = Some rec \<and> (tool_mode t = ModeUnsafe \<or> tool_mode t = ModeIdempotent)" for rec
    using evidence_gate_open [OF conjunct1 [OF that] conjunct2 [OF that] g(3)] by blast
  moreover have "w' = snd (run_transport t args (tool_view receipt (call_context call context)) w)" using g(4) by simp
  ultimately show ?thesis
    using t(1) g(1) declared_gate_open [OF policy _ g(2)] unfolding admitted_def by blast
qed simp


text \<open>The examples: a tool that sends mail; the world counts the mails.\<close>

definition ex_tool :: "nat tool" where
  "ex_tool = \<lparr>tl_definition = \<lparr>td_name = ''mail'', td_description = ''send'', td_input_schema = [(''type'', JStr ''object'')]\<rparr>,
     tl_permissions = {''net''}, tl_timeout = 30, tl_validate = None, tl_mode = Some ModeUnsafe, tl_confirmation = None,
     tl_invoke = (\<lambda>args w. (Inr (Returned JNull), w + 1)), tl_invoke_with_context = None\<rparr>"

definition ex_executor :: "nat executor" where
  "ex_executor = \<lparr>tx_registry = [(''mail'', ex_tool)], tx_recorder = Some (flow_recorder ex_hash ex_aborts ex_aborts),
     tx_policy = declared_policy (\<lambda>c. []) (\<lambda>v. 1), tx_enforce = (\<lambda>r. r), tx_str = (\<lambda>e. exn_name e)\<rparr>"

definition ex_sent :: "((exn + tool_result) \<times> nat \<times> ledger) option" where
  "ex_sent = execute_tool ex_executor ex_call {''net''} None (Some ex_context) (0, ex_ledger)"

lemma ex_sent_world: "map_option (\<lambda>(r, w, l). (map_sum id trs_status r, w)) ex_sent = Some (Inr TSuccess, 1)"
  by code_simp

theorem tool_transport_gated_witness:
  "\<exists>res l. execute_tool ex_executor ex_call {''net''} None (Some ex_context) (0, ex_ledger) = Some (res, (1, l)) \<and>
     (\<exists>cx rc l1. er_start (flow_recorder ex_hash ex_aborts ex_aborts) ex_call ''mail'' ModeUnsafe cx ex_ledger = Some (Inr rc, l1))"
proof -
  obtain res l where x: "execute_tool ex_executor ex_call {''net''} None (Some ex_context) (0, ex_ledger) = Some (res, (1, l))"
    using ex_sent_world by (auto simp: ex_sent_def)
  have p: "tx_policy ex_executor = declared_policy (\<lambda>c. []) (\<lambda>v. 1)" by (simp add: ex_executor_def)
  have t: "dict_get (tx_registry ex_executor) (tc_name ex_call) = Some ex_tool" "tc_name ex_call = ''mail''"
    "tx_recorder ex_executor = Some (flow_recorder ex_hash ex_aborts ex_aborts)" "tool_mode ex_tool = ModeUnsafe"
    by (simp_all add: ex_executor_def ex_call_def ex_tool_def tool_mode_def)
  from tool_transport_gated [OF x p] t have "\<exists>cx rc l1. er_start (flow_recorder ex_hash ex_aborts ex_aborts) ex_call ''mail''
      ModeUnsafe cx ex_ledger = Some (Inr rc, l1)" by auto
  with x show ?thesis by blast
qed







text \<open>
  C25. The executor returns a result. With the Flow recorder an execution always ends, whatever other tasks do
  to the ledger, and no exception of the tool, its validator, the policy or the recorder escapes:
  the only exception is the cancellation of the task.
\<close>

theorem tool_execution_returns:
  assumes l: "ledger_reachable l" and env: "interferes (next_uuid l) env"
    and tx: "tx_recorder tx = Some (flow_recorder digest env env1)"
  shows "\<exists>res s'. execute_tool tx call granted allowed context (w, l) = Some (res, s') \<and> (\<forall>e. res = Inl e \<longrightarrow> e = CancelledError)"
proof -
  have start: "\<exists>r l'. evidence_gate tx t call cxo l = Some (r, l')" for t cxo
  proof (cases "\<exists>cx. cxo = Some cx")
    case True
    then obtain cx where cx: "cxo = Some cx" ..
    obtain q l' where "recorder_start digest env call (tc_name call) (tool_mode t) cx l = Some (q, l')"
      using recorder_start_ends [OF ledger_reachable_inv [OF l] env] by blast
    with tx cx show ?thesis
      by (cases q; cases "tool_mode t = ModeUnsafe"; cases "tool_mode t = ModeIdempotent")
        (simp_all add: evidence_gate_def flow_recorder_def)
  qed (simp add: evidence_gate_def tx)
  have "\<exists>r s'. try_execute tx t call context (w, l) = Some (r, s')" for t
    using start [of t "call_context call context"]
    by (auto simp: try_execute_def Let_def split: sum.splits option.splits prod.splits)
  then have tried: "try_execute tx t call context (w, l) \<noteq> None" for t by (metis option.distinct(1))
  have "execute_unbounded tx call granted allowed context (w, l) \<noteq> None"
  proof (cases "dict_get (tx_registry tx) (tc_name call)")
    case (Some t)
    then show ?thesis using tried [of t]
      by (auto simp: execute_unbounded_def Let_def simp del: not_None_eq split: option.split sum.split prod.split)
  qed (simp add: execute_unbounded_def)
  then obtain r s' where u: "execute_unbounded tx call granted allowed context (w, l) = Some (r, s')" by auto
  obtain res where x: "execute_tool tx call granted allowed context (w, l) = Some (res, s')"
    using u by (cases r) (simp_all add: execute_tool_def)
  have "e = CancelledError" if "res = Inl e" for e
  proof -
    from execute_tool_cases [OF x] that obtain t q where "res = (case (case q of Inl e \<Rightarrow> exception_result tx t call e
        | Inr x \<Rightarrow> Inr x) of Inl e \<Rightarrow> Inl e | Inr x \<Rightarrow> Inr (tx_enforce tx x))" by auto
    with that show ?thesis
      by (cases q; cases "exception_result tx t call (projl q)") (auto dest: exception_result_Inl)
  qed
  with x show ?thesis by blast
qed

theorem tool_execution_returns_witness:
  "\<exists>res s'. execute_tool ex_executor ex_call {} None None (0, ex_ledger) = Some (res, s')"
proof -
  have tx: "tx_recorder ex_executor = Some (flow_recorder ex_hash ex_aborts ex_aborts)" by (simp add: ex_executor_def)
  show ?thesis using tool_execution_returns [OF ex_ledger_reachable ex_aborts_interferes tx] by blast
qed

text \<open>
  Results that enter durable state are bounded: the JSON of a result that passed the policy has at most
  \<open>max_bytes\<close> bytes, also when the policy had to replace an oversized one. The replacement carries
  both sizes in decimal; its bound assumes that they have at most twenty digits, as every size in
  memory has.
\<close>

theorem tool_result_bounded:
  assumes m: "512 \<le> max_bytes" "max_bytes < 10 ^ 20" and r: "json_size fs (result_json r) < 10 ^ 20"
    and name: "within_length 128 (trs_tool_name r)" "list_all (\<lambda>c. ascii_alnum c \<or> c \<in> set ''_.-'') (trs_tool_name r)"
  shows "json_size fs (result_json (enforce fs max_bytes r)) \<le> max_bytes"
proof (cases "json_size fs (result_json r) \<le> max_bytes")
  case True
  then show ?thesis by (simp add: enforce_def Let_def)
next
  case False
  have digits: "length (str_int (int n)) \<le> 20" if "n < 10 ^ 20" for n
    using nat_digits_length [of n 20] that by (simp add: str_int_def)
  have "json_size fs (result_json (enforce fs max_bytes r)) =
      str_size (trs_tool_name r) + str_size (status_value (trs_status r)) + length (str_int (int (json_size fs (result_json r)))) +
      length (str_int (int max_bytes)) + 222"
    using False by (simp only: enforce_def Let_def if_False envelope_size)
  also have "\<dots> \<le> 130 + 19 + 20 + 20 + 222"
    using plain_str_size [OF name(2)] name(1) status_value_size [of "trs_status r"] digits [OF r] digits [OF m(2)]
    by (simp add: within_length_def)
  finally show ?thesis using m(1) by simp
qed

definition ex_large :: tool_result where
  "ex_large = \<lparr>trs_tool_name = ''mail'', trs_status = TSuccess, trs_data = JStr (replicate 600 CHR ''x''), trs_error_code = None,
     trs_message = None\<rparr>"

theorem tool_result_bounded_witness:
  "json_size (\<lambda>x. 10) (result_json ex_large) = 682 \<and> json_size (\<lambda>x. 10) (result_json (enforce (\<lambda>x. 10) 512 ex_large)) \<le> 512"
proof -
  have s: "json_size (\<lambda>x. 10) (result_json ex_large) = 682" by code_simp
  have n: "within_length 128 (trs_tool_name ex_large)"
    "list_all (\<lambda>c. ascii_alnum c \<or> c \<in> set ''_.-'') (trs_tool_name ex_large)" by code_simp+
  from tool_result_bounded [of 512 "\<lambda>x. 10" ex_large] s n show ?thesis by simp
qed

end
