(* ===== verification/Plans.thy ===== *)
theory Plans
  imports Flow_Models
begin

text \<open>
  \<open>models/plan.py\<close>: execution plans, the depth-first search that rejects cyclic plans, and the
  transitions of their steps. The search recurses in Python; the frames the interpreter still has are
  an argument, and running out of them raises \<open>RecursionError\<close>.
\<close>

subsection \<open>Data\<close>

datatype plan_status = PlanCreated | PlanRunning | PlanWaiting | PlanCompleted | PlanFailed | PlanCancelled

datatype step_status = StepPending | StepRunning | StepWaiting | StepCompleted | StepFailed | StepCancelled | StepSkipped

record plan_step =
  ps_id :: string
  ps_description :: string
  ps_executor :: "string option"
  ps_dependencies :: "string list"
  ps_status :: step_status
  ps_success :: "bool option"
  ps_result :: "json option"
  ps_attachments :: "string list"
  ps_error :: "string option"
  ps_metadata :: jobj

definition valid_step :: "plan_step \<Rightarrow> bool" where
  "valid_step p \<longleftrightarrow> name_pattern ''_.-'' (ps_id p) \<and> ps_description p \<noteq> [] \<and> unique_ids (ps_dependencies p) \<and>
     ps_id p \<notin> set (ps_dependencies p) \<and>
     \<not> (ps_status p \<in> {StepFailed, StepCancelled} \<and> (ps_error p = None \<or> ps_error p = Some []))"

record execution_plan =
  pl_id :: string
  pl_title :: string
  pl_steps :: "plan_step list"
  pl_status :: plan_status
  pl_revision :: int
  pl_metadata :: jobj

text \<open>\<open>{step.id: step.dependencies for step in self.steps}\<close>.\<close>

definition dependencies_of :: "plan_step list \<Rightarrow> (string, string list) dict" where
  "dependencies_of ps = fold (\<lambda>p d. dict_set (ps_id p) (ps_dependencies p) d) ps []"

definition RecursionError :: exn where
  "RecursionError = OtherError ''RecursionError'' ''maximum recursion depth exceeded''"

definition cycle_error :: exn where
  "cycle_error = ValueError ''plan dependencies must not contain a cycle''"

text \<open>A \<open>for\<close> loop whose body may raise.\<close>

fun for_each :: "('a \<Rightarrow> 's \<Rightarrow> 'e + 's) \<Rightarrow> 'a list \<Rightarrow> 's \<Rightarrow> 'e + 's" where
  "for_each f [] s = Inr s"
| "for_each f (x # xs) s = rbind (f x s) (for_each f xs)"

text \<open>\<open>visit\<close>: the state is the pair of the sets \<open>visiting\<close> and \<open>visited\<close>.\<close>

primrec visit :: "nat \<Rightarrow> (string, string list) dict \<Rightarrow> string \<Rightarrow> string set \<times> string set \<Rightarrow>
    exn + string set \<times> string set" where
  "visit 0 deps step_id = (\<lambda>st. Inl RecursionError)"
| "visit (Suc frames) deps step_id = (\<lambda>(visiting, visited).
     if step_id \<in> visiting then Inl cycle_error
     else if step_id \<in> visited then Inr (visiting, visited)
     else (case dict_get deps step_id of None \<Rightarrow> Inl KeyError
       | Some ds \<Rightarrow> rbind (for_each (visit frames deps) ds (insert step_id visiting, visited))
           (\<lambda>(visiting', visited'). Inr (visiting' - {step_id}, insert step_id visited'))))"

definition assert_acyclic :: "nat \<Rightarrow> plan_step list \<Rightarrow> exn + unit" where
  "assert_acyclic frames ps = (let deps = dependencies_of ps in
     rbind (for_each (visit frames deps) (dict_keys deps) ({}, {})) (\<lambda>_. Inr ()))"

text \<open>\<open>validate_graph\<close>, and the construction of a plan: pydantic turns a \<open>ValueError\<close> into a \<open>ValidationError\<close>.\<close>

definition validate_graph :: "nat \<Rightarrow> execution_plan \<Rightarrow> exn + unit" where
  "validate_graph frames p = (let ids = map ps_id (pl_steps p) in
     if \<not> unique_ids ids then Inl (ValueError ''plan step ids must be unique'')
     else if list_ex (\<lambda>q. \<not> set (ps_dependencies q) \<subseteq> set ids) (pl_steps p)
     then Inl (ValueError ''step has unknown dependencies'')
     else assert_acyclic frames (pl_steps p))"

definition make_plan :: "nat \<Rightarrow> execution_plan \<Rightarrow> exn + execution_plan" where
  "make_plan frames p =
     (if \<not> (name_pattern ''_.-'' (pl_id p) \<and> pl_title p \<noteq> [] \<and> pl_steps p \<noteq> [] \<and> list_all valid_step (pl_steps p) \<and>
        1 \<le> pl_revision p) then Inl ValidationError
      else (case validate_graph frames p of
          Inl e \<Rightarrow> Inl (if is_value_error e then ValidationError else e)
        | Inr _ \<Rightarrow> Inr p))"

subsection \<open>Transitions\<close>

abbreviation settled_step :: "step_status \<Rightarrow> bool" where
  "settled_step s \<equiv> s = StepCompleted \<or> s = StepSkipped"

text \<open>\<open>statuses[dependency]\<close>; every dependency of a constructed plan is the id of one of its steps
  (\<open>validate_graph\<close>), so that the lookup finds a status.\<close>

definition statuses_of :: "plan_step list \<Rightarrow> (string, step_status) dict" where
  "statuses_of ps = fold (\<lambda>p d. dict_set (ps_id p) (ps_status p) d) ps []"

definition ready_step :: "plan_step list \<Rightarrow> plan_step \<Rightarrow> bool" where
  "ready_step ps p \<longleftrightarrow> ps_status p = StepPending \<and>
     list_all (\<lambda>d. case dict_get (statuses_of ps) d of None \<Rightarrow> False | Some st \<Rightarrow> settled_step st) (ps_dependencies p)"

definition ready_steps :: "execution_plan \<Rightarrow> plan_step list" where
  "ready_steps p = filter (ready_step (pl_steps p)) (pl_steps p)"

definition get_step :: "execution_plan \<Rightarrow> string \<Rightarrow> exn + plan_step" where
  "get_step p k = (case find (\<lambda>q. ps_id q = k) (pl_steps p) of None \<Rightarrow> Inl KeyError | Some q \<Rightarrow> Inr q)"

definition InvalidPlanTransitionError :: exn where
  "InvalidPlanTransitionError = OtherError ''InvalidPlanTransitionError'' ''''"

definition require_status :: "execution_plan \<Rightarrow> string \<Rightarrow> step_status \<Rightarrow> exn + plan_step" where
  "require_status p k expected = rbind (get_step p k) (\<lambda>q.
     if ps_status q \<noteq> expected then Inl InvalidPlanTransitionError else Inr q)"

definition replace_step :: "execution_plan \<Rightarrow> plan_step \<Rightarrow> plan_status option \<Rightarrow> execution_plan" where
  "replace_step p q status = p\<lparr>pl_steps := replace_by ps_id (ps_id q) q (pl_steps p),
     pl_status := (case status of Some st \<Rightarrow> st | None \<Rightarrow> pl_status p), pl_revision := pl_revision p + 1\<rparr>"

definition start_step :: "execution_plan \<Rightarrow> string \<Rightarrow> exn + execution_plan" where
  "start_step p k = rbind (get_step p k) (\<lambda>q.
     if q \<notin> set (ready_steps p) then Inl InvalidPlanTransitionError
     else Inr (replace_step p (q\<lparr>ps_status := StepRunning\<rparr>) (Some PlanRunning)))"

text \<open>\<open>{**step.metadata, **(metadata or {})}\<close>.\<close>

definition merge_metadata :: "jobj \<Rightarrow> jobj \<Rightarrow> jobj" where
  "merge_metadata a b = fold (\<lambda>(k, v) d. dict_set k v d) b a"

definition complete_step :: "execution_plan \<Rightarrow> string \<Rightarrow> json option \<Rightarrow> bool option \<Rightarrow> string list \<Rightarrow> jobj \<Rightarrow>
    exn + execution_plan" where
  "complete_step p k result success attachments metadata = rbind (require_status p k StepRunning) (\<lambda>q.
     let updated = replace_step p (q\<lparr>ps_status := StepCompleted, ps_success := success, ps_result := result,
           ps_attachments := attachments, ps_error := None,
           ps_metadata := merge_metadata (ps_metadata q) metadata\<rparr>) None in
     Inr (if list_all (\<lambda>x. settled_step (ps_status x)) (pl_steps updated)
       then updated\<lparr>pl_status := PlanCompleted\<rparr> else updated))"

definition fail_step :: "execution_plan \<Rightarrow> string \<Rightarrow> string \<Rightarrow> exn + execution_plan" where
  "fail_step p k error = (if blank error then Inl (ValueError ''error must not be empty'')
     else rbind (require_status p k StepRunning) (\<lambda>q.
       Inr (replace_step p (q\<lparr>ps_status := StepFailed, ps_error := Some error\<rparr>) (Some PlanFailed))))"

definition wait_step :: "execution_plan \<Rightarrow> string \<Rightarrow> exn + execution_plan" where
  "wait_step p k = rbind (require_status p k StepRunning) (\<lambda>q.
     Inr (replace_step p (q\<lparr>ps_status := StepWaiting\<rparr>) (Some PlanWaiting)))"

definition resume_step :: "execution_plan \<Rightarrow> string \<Rightarrow> exn + execution_plan" where
  "resume_step p k = rbind (require_status p k StepWaiting) (\<lambda>q.
     Inr (replace_step p (q\<lparr>ps_status := StepRunning\<rparr>) (Some PlanRunning)))"

definition close_active :: "step_status \<Rightarrow> string \<Rightarrow> plan_step \<Rightarrow> plan_step" where
  "close_active st error q = (if ps_status q = StepRunning \<or> ps_status q = StepWaiting
     then q\<lparr>ps_status := st, ps_error := Some error\<rparr> else q)"

definition cancel_plan :: "execution_plan \<Rightarrow> string \<Rightarrow> exn + execution_plan" where
  "cancel_plan p error = (if blank error then Inl (ValueError ''error must not be empty'')
     else Inr (p\<lparr>pl_steps := map (close_active StepCancelled error) (pl_steps p), pl_status := PlanCancelled,
       pl_revision := pl_revision p + 1, pl_metadata := dict_set ''terminal_error'' (JStr error) (pl_metadata p)\<rparr>))"

definition fail_plan :: "execution_plan \<Rightarrow> string \<Rightarrow> exn + execution_plan" where
  "fail_plan p error = (if blank error then Inl (ValueError ''error must not be empty'')
     else Inr (p\<lparr>pl_steps := map (close_active StepFailed error) (pl_steps p), pl_status := PlanFailed,
       pl_revision := pl_revision p + 1, pl_metadata := dict_set ''terminal_error'' (JStr error) (pl_metadata p)\<rparr>))"

subsection \<open>The depth-first search\<close>

text \<open>The edges of the dependency graph, and its cycles.\<close>

definition edges :: "(string, string list) dict \<Rightarrow> (string \<times> string) set" where
  "edges deps = {(a, b). \<exists>ds. dict_get deps a = Some ds \<and> b \<in> set ds}"

text \<open>A finished set of vertices: closed under dependencies and off every cycle.\<close>

definition finished :: "(string, string list) dict \<Rightarrow> string set \<Rightarrow> bool" where
  "finished deps S \<longleftrightarrow> (\<forall>x \<in> S. (x, x) \<notin> (edges deps)\<^sup>+ \<and> (\<forall>y. (x, y) \<in> edges deps \<longrightarrow> y \<in> S))"

lemma finished_closed: "finished deps S \<Longrightarrow> x \<in> S \<Longrightarrow> (x, y) \<in> (edges deps)\<^sup>* \<Longrightarrow> y \<in> S"
  by (rotate_tac 2, induction rule: rtrancl_induct) (auto simp: finished_def)

lemma finished_insert:
  assumes f: "finished deps S" and x: "x \<notin> S" and succ: "\<And>y. (x, y) \<in> edges deps \<Longrightarrow> y \<in> S"
  shows "finished deps (insert x S)"
proof -
  have "(x, x) \<notin> (edges deps)\<^sup>+"
  proof
    assume "(x, x) \<in> (edges deps)\<^sup>+"
    then obtain y where "(x, y) \<in> edges deps" "(y, x) \<in> (edges deps)\<^sup>*" by (meson tranclD)
    with succ finished_closed [OF f] x show False by blast
  qed
  with f succ show ?thesis by (auto simp: finished_def)
qed

text \<open>
  What a call of \<open>visit\<close> from the search state \<open>(visiting, visited)\<close> may return: the same \<open>visiting\<close>, more
  finished vertices none of which is being visited, or the cycle error when there is a cycle.
\<close>

definition visited_ok :: "(string, string list) dict \<Rightarrow> string set \<Rightarrow> string set \<Rightarrow> string list \<Rightarrow>
    exn + string set \<times> string set \<Rightarrow> bool" where
  "visited_ok deps visiting visited xs res \<longleftrightarrow> (case res of
     Inl e \<Rightarrow> e = cycle_error \<and> \<not> acyclic (edges deps)
   | Inr (visiting', visited') \<Rightarrow> visiting' = visiting \<and> visited \<subseteq> visited' \<and> set xs \<subseteq> visited' \<and>
       finished deps visited' \<and> visited' \<inter> visiting = {})"

lemma for_each_visits:
  assumes each: "\<And>x visited. x \<in> set xs \<Longrightarrow> finished deps visited \<Longrightarrow> visited \<inter> visiting = {} \<Longrightarrow>
      visited_ok deps visiting visited [x] (f x (visiting, visited))"
    and start: "finished deps visited" "visited \<inter> visiting = {}"
  shows "visited_ok deps visiting visited xs (for_each f xs (visiting, visited))"
  using assms
proof (induction xs arbitrary: visited)
  case Nil
  then show ?case by (simp add: visited_ok_def)
next
  case (Cons x xs)
  from Cons.prems(1) [of x visited] Cons.prems(2,3) have x: "visited_ok deps visiting visited [x] (f x (visiting, visited))" by simp
  show ?case
  proof (cases "f x (visiting, visited)")
    case (Inl e)
    with x show ?thesis by (simp add: visited_ok_def)
  next
    case (Inr st)
    with x obtain v where v: "f x (visiting, visited) = Inr (visiting, v)" "visited \<subseteq> v" "x \<in> v" "finished deps v"
      "v \<inter> visiting = {}" by (cases st) (auto simp: visited_ok_def)
    from Cons.IH [of v] Cons.prems(1) v(4,5) have "visited_ok deps visiting v xs (for_each f xs (visiting, v))" by simp
    with v show ?thesis by (auto simp: visited_ok_def split: sum.splits)
  qed
qed

text \<open>
  One visit. The vertices being visited lead to this one, so that meeting one of them again closes a
  cycle; the frames suffice for the vertices not being visited.
\<close>

lemma visit_ok:
  assumes known: "\<And>a b. (a, b) \<in> edges deps \<Longrightarrow> b \<in> set (dict_keys deps)"
    and "x \<in> set (dict_keys deps)" and "\<forall>y \<in> visiting. (y, x) \<in> (edges deps)\<^sup>+"
    and "card (set (dict_keys deps) - visiting) < frames" and "finished deps visited" "visited \<inter> visiting = {}"
  shows "visited_ok deps visiting visited [x] (visit frames deps x (visiting, visited))"
  using assms(2-)
proof (induction frames arbitrary: x visiting visited)
  case (Suc frames)
  let ?K = "set (dict_keys deps)"
  show ?case
  proof (cases "x \<in> visiting \<or> x \<in> visited")
    case True
    then show ?thesis
    proof
      assume "x \<in> visiting"
      with Suc.prems(2) have "\<not> acyclic (edges deps)" by (auto simp: acyclic_def)
      with \<open>x \<in> visiting\<close> show ?thesis by (simp add: visited_ok_def)
    next
      assume "x \<in> visited"
      with Suc.prems(4,5) have "x \<notin> visiting" by blast
      with \<open>x \<in> visited\<close> Suc.prems(4,5) show ?thesis by (simp add: visited_ok_def)
    qed
  next
    case False
    from Suc.prems(1) obtain ds where ds: "dict_get deps x = Some ds" using dict_get_keys [of deps x] by auto
    let ?visiting = "insert x visiting"
    have sub: "card (?K - ?visiting) < card (?K - visiting)"
      using Suc.prems(1) False by (intro psubset_card_mono) auto
    have "visited_ok deps ?visiting v [d] (visit frames deps d (?visiting, v))"
      if d: "d \<in> set ds" and v: "finished deps v" "v \<inter> ?visiting = {}" for d v
    proof (rule Suc.IH)
      have edge: "(x, d) \<in> edges deps" using ds d by (auto simp: edges_def)
      then show "d \<in> ?K" by (rule known)
      show "\<forall>y\<in>?visiting. (y, d) \<in> (edges deps)\<^sup>+"
        using Suc.prems(2) edge by (auto intro: trancl_into_trancl)
      show "card (?K - ?visiting) < frames" using sub Suc.prems(3) by simp
    qed (use v in auto)
    then have loop: "visited_ok deps ?visiting visited ds (for_each (visit frames deps) ds (?visiting, visited))"
      using for_each_visits [of ds deps ?visiting "visit frames deps" visited] Suc.prems(4,5) False by blast
    show ?thesis
    proof (cases "for_each (visit frames deps) ds (?visiting, visited)")
      case (Inl e)
      with loop False ds show ?thesis by (simp add: visited_ok_def)
    next
      case (Inr st)
      with loop obtain v where v: "for_each (visit frames deps) ds (?visiting, visited) = Inr (?visiting, v)"
        "visited \<subseteq> v" "set ds \<subseteq> v" "finished deps v" "v \<inter> ?visiting = {}"
        by (cases st) (auto simp: visited_ok_def)
      have "finished deps (insert x v)"
        using finished_insert [OF v(4), of x] v(3,5) ds by (auto simp: edges_def)
      moreover have "?visiting - {x} = visiting" using False by auto
      ultimately show ?thesis using v False ds by (auto simp: visited_ok_def)
    qed
  qed
qed simp

subsection \<open>Well-formed plans\<close>

lemma dict_set_new: "k \<notin> set (dict_keys d) \<Longrightarrow> dict_set k v d = d @ [(k, v)]"
  by (induction d) auto

lemma fold_dict_set:
  assumes "distinct (map key ps)" "set (map key ps) \<inter> set (dict_keys d) = {}"
  shows "fold (\<lambda>p d. dict_set (key p) (val p) d) ps d = d @ map (\<lambda>p. (key p, val p)) ps"
  using assms
proof (induction ps arbitrary: d)
  case (Cons p ps)
  have "dict_set (key p) (val p) d = d @ [(key p, val p)]" using Cons.prems by (intro dict_set_new) auto
  with Cons.IH [of "d @ [(key p, val p)]"] Cons.prems show ?case by auto
qed simp

lemma dependencies_of_eq: "distinct (map ps_id ps) \<Longrightarrow> dependencies_of ps = map (\<lambda>p. (ps_id p, ps_dependencies p)) ps"
  using fold_dict_set [of ps_id ps "[]" ps_dependencies] by (simp add: dependencies_of_def)

lemma statuses_of_eq: "distinct (map ps_id ps) \<Longrightarrow> statuses_of ps = map (\<lambda>p. (ps_id p, ps_status p)) ps"
  using fold_dict_set [of ps_id ps "[]" ps_status] by (simp add: statuses_of_def)

lemma map_of_keyed:
  "distinct (map key ps) \<Longrightarrow> map_of (map (\<lambda>p. (key p, val p)) ps) k = Some v \<longleftrightarrow> (\<exists>p \<in> set ps. key p = k \<and> val p = v)"
  by (induction ps) (auto simp: image_iff)

definition plan_edges :: "plan_step list \<Rightarrow> (string \<times> string) set" where
  "plan_edges ps = {(a, b). \<exists>p \<in> set ps. ps_id p = a \<and> b \<in> set (ps_dependencies p)}"

lemma edges_of_plan: "distinct (map ps_id ps) \<Longrightarrow> edges (dependencies_of ps) = plan_edges ps"
  by (auto simp: edges_def plan_edges_def dependencies_of_eq map_of_keyed simp del: map_of_eq_Some_iff)

definition known_dependencies :: "plan_step list \<Rightarrow> bool" where
  "known_dependencies ps \<longleftrightarrow> (\<forall>p \<in> set ps. set (ps_dependencies p) \<subseteq> set (map ps_id ps))"

lemma assert_acyclic_eq:
  assumes d: "distinct (map ps_id ps)" and k: "known_dependencies ps" and f: "length ps < frames"
  shows "assert_acyclic frames ps = (if acyclic (plan_edges ps) then Inr () else Inl cycle_error)"
proof -
  let ?deps = "dependencies_of ps"
  have keys: "dict_keys ?deps = map ps_id ps" using d by (simp add: dependencies_of_eq comp_def)
  have known: "b \<in> set (dict_keys ?deps)" if "(a, b) \<in> edges ?deps" for a b
    using that k d unfolding keys by (auto simp: edges_of_plan plan_edges_def known_dependencies_def)
  have "card (set (dict_keys ?deps) - {}) < frames"
    using f card_length [of "map ps_id ps"] by (simp add: keys)
  then have "visited_ok ?deps {} v [x] (visit frames ?deps x ({}, v))"
    if "x \<in> set (dict_keys ?deps)" "finished ?deps v" for x v
    using visit_ok [of ?deps x "{}" frames v, OF known] that by simp
  then have loop: "visited_ok ?deps {} {} (dict_keys ?deps) (for_each (visit frames ?deps) (dict_keys ?deps) ({}, {}))"
    by (intro for_each_visits) (auto simp: finished_def)
  show ?thesis
  proof (cases "for_each (visit frames ?deps) (dict_keys ?deps) ({}, {})")
    case (Inl e)
    with loop d show ?thesis by (simp add: assert_acyclic_def visited_ok_def edges_of_plan Let_def)
  next
    case (Inr st)
    with loop obtain v where v: "set (dict_keys ?deps) \<subseteq> v" "finished ?deps v" by (cases st) (auto simp: visited_ok_def)
    have "(x, x) \<notin> (edges ?deps)\<^sup>+" for x
    proof
      assume c: "(x, x) \<in> (edges ?deps)\<^sup>+"
      then obtain y where "(x, y) \<in> edges ?deps" by (meson tranclD)
      then have "x \<in> set (dict_keys ?deps)" using dict_get_keys [of ?deps x] by (auto simp: edges_def)
      with v c show False by (auto simp: finished_def)
    qed
    then have "acyclic (plan_edges ps)" using d by (simp add: acyclic_def edges_of_plan)
    with Inr show ?thesis by (simp add: assert_acyclic_def Let_def)
  qed
qed

definition well_formed :: "execution_plan \<Rightarrow> bool" where
  "well_formed p \<longleftrightarrow> name_pattern ''_.-'' (pl_id p) \<and> pl_title p \<noteq> [] \<and> pl_steps p \<noteq> [] \<and> list_all valid_step (pl_steps p) \<and>
     1 \<le> pl_revision p \<and> distinct (map ps_id (pl_steps p)) \<and> known_dependencies (pl_steps p) \<and>
     acyclic (plan_edges (pl_steps p))"

lemma make_plan_eq:
  assumes "length (pl_steps p) < frames"
  shows "make_plan frames p = (if well_formed p then Inr p else Inl ValidationError)"
proof (cases "distinct (map ps_id (pl_steps p)) \<and> known_dependencies (pl_steps p)")
  case True
  with assert_acyclic_eq [of "pl_steps p" frames] assms show ?thesis
    by (auto simp: make_plan_def validate_graph_def well_formed_def known_dependencies_def list_ex_iff Let_def
        cycle_error_def is_value_error_def)
next
  case False
  then have "is_value_error e" if "validate_graph frames p = Inl e" for e
    using that by (auto simp: validate_graph_def known_dependencies_def list_ex_iff is_value_error_def Let_def split: if_splits)
  with False show ?thesis
    by (auto simp: make_plan_def well_formed_def validate_graph_def known_dependencies_def list_ex_iff is_value_error_def Let_def)
qed

subsection \<open>Runs of a plan\<close>

inductive plan_move :: "execution_plan \<Rightarrow> execution_plan \<Rightarrow> bool" where
  move_start: "start_step p k = Inr p' \<Longrightarrow> plan_move p p'"
| move_complete: "complete_step p k result success atts metadata = Inr p' \<Longrightarrow> plan_move p p'"
| move_fail: "fail_step p k error = Inr p' \<Longrightarrow> plan_move p p'"
| move_wait: "wait_step p k = Inr p' \<Longrightarrow> plan_move p p'"
| move_resume: "resume_step p k = Inr p' \<Longrightarrow> plan_move p p'"
| move_cancel: "cancel_plan p error = Inr p' \<Longrightarrow> plan_move p p'"
| move_fail_plan: "fail_plan p error = Inr p' \<Longrightarrow> plan_move p p'"

text \<open>How a step changes: its identity and dependencies are fixed and a settled step stays as it is.\<close>

definition step_moves :: "(plan_step \<Rightarrow> bool) \<Rightarrow> plan_step \<Rightarrow> plan_step \<Rightarrow> bool" where
  "step_moves ready q q' \<longleftrightarrow> ps_id q' = ps_id q \<and> ps_dependencies q' = ps_dependencies q \<and>
     (valid_step q \<longrightarrow> valid_step q') \<and> (q' = q \<or> ps_status q \<in> {StepRunning, StepWaiting} \<and> ps_status q' \<noteq> StepPending \<or>
       ready q \<and> ps_status q = StepPending \<and> ps_status q' = StepRunning)"

definition moves_to :: "execution_plan \<Rightarrow> execution_plan \<Rightarrow> bool" where
  "moves_to p p' \<longleftrightarrow> pl_id p' = pl_id p \<and> pl_title p' = pl_title p \<and> pl_revision p' = pl_revision p + 1 \<and>
     list_all2 (step_moves (ready_step (pl_steps p))) (pl_steps p) (pl_steps p')"

lemma replaced_steps:
  assumes d: "distinct (map ps_id ps)" and q: "q \<in> set ps" and m: "step_moves R q q'"
  shows "list_all2 (step_moves R) ps (replace_by ps_id (ps_id q') q' ps)"
proof -
  have "step_moves R x (if ps_id x = ps_id q' then q' else x)" if "x \<in> set ps" for x
    using d q m that by (cases "ps_id x = ps_id q'") (auto simp: distinct_map inj_on_def step_moves_def)
  then show ?thesis by (auto simp: replace_by_def list_all2_map2 list.rel_refl_strong list_all2_same)
qed

lemma get_step_Inr: "get_step p k = Inr q \<Longrightarrow> q \<in> set (pl_steps p) \<and> ps_id q = k"
  by (auto simp: get_step_def dest: find_Some_in split: option.splits)

lemma require_status_Inr: "require_status p k st = Inr q \<Longrightarrow> q \<in> set (pl_steps p) \<and> ps_id q = k \<and> ps_status q = st"
  by (auto simp: require_status_def rbind_Inr_iff dest: get_step_Inr split: if_splits)

lemma replace_moves:
  assumes "well_formed p" "q \<in> set (pl_steps p)" "step_moves (ready_step (pl_steps p)) q q'"
  shows "moves_to p (replace_step p q' st)" "moves_to p ((replace_step p q' st)\<lparr>pl_status := st'\<rparr>)"
  using assms replaced_steps [of "pl_steps p" q _ q'] by (simp_all add: moves_to_def replace_step_def well_formed_def)

lemma close_active_moves: "error \<noteq> [] \<Longrightarrow> st \<noteq> StepPending \<Longrightarrow> step_moves R q (close_active st error q)"
  by (auto simp: step_moves_def close_active_def valid_step_def)

lemma plan_move_moves:
  assumes w: "well_formed p" and "plan_move p p'"
  shows "moves_to p p'"
  using assms(2)
proof cases
  case (move_start k)
  then obtain q where q: "get_step p k = Inr q" "q \<in> set (ready_steps p)"
    and p': "p' = replace_step p (q\<lparr>ps_status := StepRunning\<rparr>) (Some PlanRunning)"
    by (auto simp: start_step_def rbind_Inr_iff split: if_splits)
  then have "step_moves (ready_step (pl_steps p)) q (q\<lparr>ps_status := StepRunning\<rparr>)"
    by (auto simp: step_moves_def ready_steps_def ready_step_def valid_step_def)
  moreover have "q \<in> set (pl_steps p)" using q(2) by (simp add: ready_steps_def)
  ultimately show ?thesis using replace_moves(1) [OF w] p' by blast
next
  case (move_complete k result success atts metadata)
  then obtain q where q: "require_status p k StepRunning = Inr q" by (auto simp: complete_step_def rbind_Inr_iff)
  let ?q = "q\<lparr>ps_status := StepCompleted, ps_success := success, ps_result := result, ps_attachments := atts, ps_error := None,
      ps_metadata := merge_metadata (ps_metadata q) metadata\<rparr>"
  have "step_moves (ready_step (pl_steps p)) q ?q"
    using require_status_Inr [OF q] by (auto simp: step_moves_def valid_step_def)
  with replace_moves [OF w _ this] require_status_Inr [OF q] move_complete q show ?thesis
    by (auto simp: complete_step_def Let_def split: if_splits)
next
  case (move_fail k error)
  then obtain q where q: "require_status p k StepRunning = Inr q" "\<not> blank error"
    and p': "p' = replace_step p (q\<lparr>ps_status := StepFailed, ps_error := Some error\<rparr>) (Some PlanFailed)"
    by (auto simp: fail_step_def rbind_Inr_iff split: if_splits)
  have "step_moves (ready_step (pl_steps p)) q (q\<lparr>ps_status := StepFailed, ps_error := Some error\<rparr>)"
    using require_status_Inr [OF q(1)] q(2) by (auto simp: step_moves_def valid_step_def)
  with replace_moves(1) [OF w] require_status_Inr [OF q(1)] p' show ?thesis by blast
next
  case (move_wait k)
  then obtain q where q: "require_status p k StepRunning = Inr q"
    and p': "p' = replace_step p (q\<lparr>ps_status := StepWaiting\<rparr>) (Some PlanWaiting)"
    by (auto simp: wait_step_def rbind_Inr_iff)
  have "step_moves (ready_step (pl_steps p)) q (q\<lparr>ps_status := StepWaiting\<rparr>)"
    using require_status_Inr [OF q] by (auto simp: step_moves_def valid_step_def)
  with replace_moves(1) [OF w] require_status_Inr [OF q] p' show ?thesis by blast
next
  case (move_resume k)
  then obtain q where q: "require_status p k StepWaiting = Inr q"
    and p': "p' = replace_step p (q\<lparr>ps_status := StepRunning\<rparr>) (Some PlanRunning)"
    by (auto simp: resume_step_def rbind_Inr_iff)
  have "step_moves (ready_step (pl_steps p)) q (q\<lparr>ps_status := StepRunning\<rparr>)"
    using require_status_Inr [OF q] by (auto simp: step_moves_def valid_step_def)
  with replace_moves(1) [OF w] require_status_Inr [OF q] p' show ?thesis by blast
next
  case (move_cancel error)
  then show ?thesis using close_active_moves [of error StepCancelled]
    by (auto simp: cancel_plan_def moves_to_def list_all2_map2 list_all2_same split: if_splits)
next
  case (move_fail_plan error)
  then show ?thesis using close_active_moves [of error StepFailed]
    by (auto simp: fail_plan_def moves_to_def list_all2_map2 list_all2_same split: if_splits)
qed

lemma moves_same_graph:
  assumes "list_all2 (step_moves R) ps ps'"
  shows "map ps_id ps' = map ps_id ps"
    and "map (\<lambda>p. (ps_id p, ps_dependencies p)) ps' = map (\<lambda>p. (ps_id p, ps_dependencies p)) ps"
  using assms by (induction rule: list_all2_induct) (auto simp: step_moves_def)

lemma graph_eq:
  assumes "map ps_id ps' = map ps_id ps"
    and "map (\<lambda>p. (ps_id p, ps_dependencies p)) ps' = map (\<lambda>p. (ps_id p, ps_dependencies p)) ps"
  shows "plan_edges ps' = plan_edges ps" "known_dependencies ps' = known_dependencies ps"
proof -
  from assms(2) have same: "(\<lambda>p. (ps_id p, ps_dependencies p)) ` set ps' = (\<lambda>p. (ps_id p, ps_dependencies p)) ` set ps"
    by (metis list.set_map)
  have "plan_edges qs = {(a, b). \<exists>ds. (a, ds) \<in> (\<lambda>p. (ps_id p, ps_dependencies p)) ` set qs \<and> b \<in> set ds}" for qs
    by (auto simp: plan_edges_def)
  with same show "plan_edges ps' = plan_edges ps" by simp
  have known: "known_dependencies qs \<longleftrightarrow> (\<forall>x \<in> (\<lambda>p. (ps_id p, ps_dependencies p)) ` set qs. set (snd x) \<subseteq> set (map ps_id qs))" for qs
    by (simp add: known_dependencies_def)
  show "known_dependencies ps' = known_dependencies ps" unfolding known same assms(1) ..
qed

lemma moves_valid: "list_all2 (step_moves R) ps ps' \<Longrightarrow> list_all valid_step ps \<Longrightarrow> list_all valid_step ps'"
  by (induction rule: list_all2_induct) (auto simp: step_moves_def)

lemma well_formed_moves:
  assumes w: "well_formed p" and m: "moves_to p p'"
  shows "well_formed p'"
proof -
  have l: "list_all2 (step_moves (ready_step (pl_steps p))) (pl_steps p) (pl_steps p')" using m by (simp add: moves_to_def)
  note g = moves_same_graph [OF l]
  have "pl_steps p' \<noteq> []" using g(1) w by (auto simp: well_formed_def)
  with w m g graph_eq [OF g] moves_valid [OF l] show ?thesis by (simp add: well_formed_def moves_to_def)
qed

text \<open>A dependency of a step, by its status.\<close>

definition depends_settled :: "plan_step list \<Rightarrow> plan_step \<Rightarrow> bool" where
  "depends_settled ps q \<longleftrightarrow> (\<forall>d \<in> set (ps_dependencies q). \<exists>x \<in> set ps. ps_id x = d \<and> settled_step (ps_status x))"

lemma ready_step_iff:
  "distinct (map ps_id ps) \<Longrightarrow> ready_step ps q \<longleftrightarrow> ps_status q = StepPending \<and> depends_settled ps q"
proof -
  assume d: "distinct (map ps_id ps)"
  have "(case dict_get (statuses_of ps) k of None \<Rightarrow> False | Some st \<Rightarrow> settled_step st) \<longleftrightarrow>
      (\<exists>x \<in> set ps. ps_id x = k \<and> settled_step (ps_status x))" for k
  proof -
    have "(case map_of (map (\<lambda>p. (ps_id p, ps_status p)) ps) k of None \<Rightarrow> False | Some st \<Rightarrow> settled_step st) \<longleftrightarrow>
        (\<exists>x \<in> set ps. ps_id x = k \<and> settled_step (ps_status x))"
      using d
    proof (induction ps)
      case (Cons a ps)
      show ?case
      proof (cases "k = ps_id a")
        case True
        with Cons.prems have "\<not> (\<exists>x \<in> set ps. ps_id x = k)" by (simp add: image_iff) metis
        with True show ?thesis by auto
      next
        case False
        with Cons.IH Cons.prems show ?thesis by simp
      qed
    qed simp
    with statuses_of_eq [OF d] show ?thesis by simp
  qed
  then show ?thesis by (simp add: ready_step_def depends_settled_def list_all_iff)
qed

lemma list_all2_related:
  assumes "list_all2 R xs ys"
  shows "x \<in> set xs \<Longrightarrow> \<exists>y \<in> set ys. R x y" and "y \<in> set ys \<Longrightarrow> \<exists>x \<in> set xs. R x y"
  using assms by (induction rule: list_all2_induct) auto

lemma depends_settled_moves:
  assumes l: "list_all2 (step_moves R) ps ps'" and q: "depends_settled ps q" "ps_dependencies q' = ps_dependencies q"
  shows "depends_settled ps' q'"
  unfolding depends_settled_def q(2)
proof
  fix d
  assume "d \<in> set (ps_dependencies q)"
  with q(1) obtain x where x: "x \<in> set ps" "ps_id x = d" "settled_step (ps_status x)" by (auto simp: depends_settled_def)
  then obtain x' where "x' \<in> set ps'" "step_moves R x x'" using list_all2_related(1) [OF l] by blast
  with x show "\<exists>x\<in>set ps'. ps_id x = d \<and> settled_step (ps_status x)" by (auto simp: step_moves_def)
qed

definition plan_inv :: "execution_plan \<Rightarrow> bool" where
  "plan_inv p \<longleftrightarrow> well_formed p \<and> (\<forall>q \<in> set (pl_steps p). ps_status q \<noteq> StepPending \<longrightarrow> depends_settled (pl_steps p) q)"

lemma plan_move_inv:
  assumes inv: "plan_inv p" and "plan_move p p'"
  shows "plan_inv p'"
proof -
  have w: "well_formed p" using inv by (simp add: plan_inv_def)
  have m: "moves_to p p'" using plan_move_moves [OF w assms(2)] .
  then have l: "list_all2 (step_moves (ready_step (pl_steps p))) (pl_steps p) (pl_steps p')" by (simp add: moves_to_def)
  have "depends_settled (pl_steps p') q'" if q': "q' \<in> set (pl_steps p')" "ps_status q' \<noteq> StepPending" for q'
  proof -
    obtain q where q: "q \<in> set (pl_steps p)" "step_moves (ready_step (pl_steps p)) q q'"
      using list_all2_related(2) [OF l q'(1)] by blast
    then have "depends_settled (pl_steps p) q"
      using inv q'(2) w by (auto simp: plan_inv_def step_moves_def ready_step_iff well_formed_def)
    with depends_settled_moves [OF l] q(2) show ?thesis by (simp add: step_moves_def)
  qed
  with well_formed_moves [OF w m] show ?thesis by (simp add: plan_inv_def)
qed

lemma plan_moves_inv: "plan_move\<^sup>*\<^sup>* p p' \<Longrightarrow> plan_inv p \<Longrightarrow> plan_inv p'"
  by (induction rule: rtranclp_induct) (auto intro: plan_move_inv)

text \<open>A plan as strategies create it: constructed with all its steps pending.\<close>

definition plan_run :: "nat \<Rightarrow> execution_plan \<Rightarrow> execution_plan \<Rightarrow> bool" where
  "plan_run frames p0 p \<longleftrightarrow> make_plan frames p0 = Inr p0 \<and> length (pl_steps p0) < frames \<and>
     list_all (\<lambda>q. ps_status q = StepPending) (pl_steps p0) \<and> plan_move\<^sup>*\<^sup>* p0 p"

lemma plan_run_inv: "plan_run frames p0 p \<Longrightarrow> plan_inv p"
  using plan_moves_inv [of p0 p] make_plan_eq [of p0 frames]
  by (auto simp: plan_run_def plan_inv_def list_all_iff split: if_splits)

subsection \<open>Properties\<close>

text \<open>The example: a step that needs another one.\<close>

definition ex_step :: "string \<Rightarrow> string list \<Rightarrow> plan_step" where
  "ex_step k ds = \<lparr>ps_id = k, ps_description = ''do'', ps_executor = None, ps_dependencies = ds, ps_status = StepPending,
     ps_success = None, ps_result = None, ps_attachments = [], ps_error = None, ps_metadata = []\<rparr>"

definition ex_plan :: execution_plan where
  "ex_plan = \<lparr>pl_id = ''p'', pl_title = ''t'', pl_steps = [ex_step ''b'' [''a''], ex_step ''a'' []],
     pl_status = PlanCreated, pl_revision = 1, pl_metadata = []\<rparr>"

definition ex_plan1 :: execution_plan where
  "ex_plan1 = projr (start_step ex_plan ''a'')"

lemma ex_plan_facts: "make_plan 10 ex_plan = Inr ex_plan" "length (pl_steps ex_plan) < 10"
  "list_all (\<lambda>q. ps_status q = StepPending) (pl_steps ex_plan)" "start_step ex_plan ''a'' = Inr ex_plan1"
  by code_simp+

lemma ex_plan_runs: "plan_run 10 ex_plan ex_plan" "plan_run 10 ex_plan ex_plan1"
  using ex_plan_facts move_start [OF ex_plan_facts(4)] by (simp_all add: plan_run_def r_into_rtranclp)

text \<open>
  C40. The depth-first search decides acyclicity. As long as the interpreter has more frames than the plan
  has steps, a plan is constructed exactly when its fields are valid, its step ids are unique, its
  dependencies are known, and its dependency graph has no cycle; otherwise the construction raises a
  validation error.
\<close>

theorem plan_accepted_iff_acyclic:
  assumes "length (pl_steps p) < frames"
  shows "make_plan frames p =
    (if name_pattern ''_.-'' (pl_id p) \<and> pl_title p \<noteq> [] \<and> pl_steps p \<noteq> [] \<and> list_all valid_step (pl_steps p) \<and>
        1 \<le> pl_revision p \<and> distinct (map ps_id (pl_steps p)) \<and>
        (\<forall>q \<in> set (pl_steps p). set (ps_dependencies q) \<subseteq> set (map ps_id (pl_steps p))) \<and>
        acyclic {(a, b). \<exists>q \<in> set (pl_steps p). ps_id q = a \<and> b \<in> set (ps_dependencies q)}
     then Inr p else Inl ValidationError)"
  using make_plan_eq [OF assms] by (simp only: well_formed_def known_dependencies_def plan_edges_def)

theorem plan_accepted_iff_acyclic_witness:
  "acyclic {(a, b). \<exists>q \<in> set (pl_steps ex_plan). ps_id q = a \<and> b \<in> set (ps_dependencies q)}"
  using plan_accepted_iff_acyclic [OF ex_plan_facts(2)] ex_plan_facts(1) by (auto split: if_splits)

text \<open>
  A plan never gets stuck: in every plan reached from a constructed one whose steps were all pending,
  either every step is completed or skipped, or some step is running, waiting, failed or cancelled,
  or some pending step can be started.
\<close>

theorem plan_never_stuck:
  assumes r: "plan_run frames p0 p"
  shows "(\<forall>q \<in> set (pl_steps p). settled_step (ps_status q)) \<or>
    (\<exists>q \<in> set (pl_steps p). ps_status q \<in> {StepRunning, StepWaiting, StepFailed, StepCancelled}) \<or>
    (\<exists>q \<in> set (pl_steps p). \<exists>p'. start_step p (ps_id q) = Inr p')"
proof (rule ccontr)
  assume "\<not> ?thesis"
  then obtain q0 where q0: "q0 \<in> set (pl_steps p)" "\<not> settled_step (ps_status q0)"
    and quiet: "\<And>q. q \<in> set (pl_steps p) \<Longrightarrow> ps_status q \<notin> {StepRunning, StepWaiting, StepFailed, StepCancelled}"
    and none: "\<And>q. q \<in> set (pl_steps p) \<Longrightarrow> \<nexists>p'. start_step p (ps_id q) = Inr p'" by blast
  have w: "well_formed p" using plan_run_inv [OF r] by (simp add: plan_inv_def)
  then have d: "distinct (map ps_id (pl_steps p))" and k: "known_dependencies (pl_steps p)"
    and a: "acyclic (plan_edges (pl_steps p))" by (simp_all add: well_formed_def)
  have st: "ps_status q = StepPending \<or> settled_step (ps_status q)" if "q \<in> set (pl_steps p)" for q
    using quiet [OF that] by (cases "ps_status q") auto
  let ?E = "plan_edges (pl_steps p)"
  have "?E \<subseteq> set (map ps_id (pl_steps p)) \<times> set (map ps_id (pl_steps p))"
    using k by (auto simp: plan_edges_def known_dependencies_def)
  then have "finite ?E" by (rule finite_subset) simp
  with a have wf: "wf (?E\<inverse>)" by (simp add: finite_acyclic_wf_converse)
  let ?P = "ps_id ` {q \<in> set (pl_steps p). ps_status q = StepPending}"
  have "ps_id q0 \<in> ?P" using st [OF q0(1)] q0 by auto
  with wf obtain z where z: "z \<in> ?P" and least: "\<And>y. (y, z) \<in> ?E\<inverse> \<Longrightarrow> y \<notin> ?P" by (rule wfE_min) blast
  then obtain q where q: "q \<in> set (pl_steps p)" "ps_status q = StepPending" "z = ps_id q" by auto
  have "depends_settled (pl_steps p) q"
    unfolding depends_settled_def
  proof
    fix y
    assume y: "y \<in> set (ps_dependencies q)"
    with k q(1) obtain x where x: "x \<in> set (pl_steps p)" "ps_id x = y" by (force simp: known_dependencies_def)
    have "y \<notin> ?P" using least [of y] y q by (auto simp: plan_edges_def)
    with st [OF x(1)] x show "\<exists>x\<in>set (pl_steps p). ps_id x = y \<and> settled_step (ps_status x)" by blast
  qed
  with q d have "q \<in> set (ready_steps p)" by (simp add: ready_steps_def ready_step_iff)
  moreover have "get_step p (ps_id q) = Inr q"
  proof -
    obtain x where "find (\<lambda>x. ps_id x = ps_id q) (pl_steps p) = Some x"
      using q(1) by (cases "find (\<lambda>x. ps_id x = ps_id q) (pl_steps p)") (auto simp: find_None_iff)
    with find_Some_in [OF this] q(1) d show ?thesis by (auto simp: get_step_def distinct_map inj_on_def)
  qed
  ultimately show False using none [OF q(1)] by (simp add: start_step_def)
qed

theorem plan_never_stuck_witness:
  "(\<forall>q \<in> set (pl_steps ex_plan1). settled_step (ps_status q)) \<or>
    (\<exists>q \<in> set (pl_steps ex_plan1). ps_status q \<in> {StepRunning, StepWaiting, StepFailed, StepCancelled}) \<or>
    (\<exists>q \<in> set (pl_steps ex_plan1). \<exists>p'. start_step ex_plan1 (ps_id q) = Inr p')"
  by (rule plan_never_stuck [OF ex_plan_runs(2)])

text \<open>
  Steps run in dependency order, whatever sequence of transitions is applied, including failures and
  cancellations: every step that has left the pending state has only dependencies that are completed
  or skipped, and every step still satisfies its validator although \<open>model_copy\<close> does not run it.
\<close>

theorem plan_respects_dependencies:
  assumes "plan_run frames p0 p" and "q \<in> set (pl_steps p)"
  shows "valid_step q \<and> (ps_status q \<noteq> StepPending \<longrightarrow>
    (\<forall>d \<in> set (ps_dependencies q). \<exists>x \<in> set (pl_steps p). ps_id x = d \<and> settled_step (ps_status x)))"
  using plan_run_inv [OF assms(1)] assms(2)
  by (auto simp: plan_inv_def well_formed_def list_all_iff depends_settled_def)

theorem plan_respects_dependencies_witness: "list_all valid_step (pl_steps ex_plan1)"
  using plan_respects_dependencies [OF ex_plan_runs(2)] by (simp add: list_all_iff)

end
