(* ===== verification/Supervision.thy ===== *)
theory Supervision
  imports Stores Tools Plans
begin

text \<open>
  The mutable context of one run (\<open>runtime/context.py\<close>), the checkpoint that suspends and restores it
  (\<open>runtime/checkpoint.py\<close>), and the supervision policies that bound it (\<open>supervision/\<close>,
  \<open>orchestration/supervision.py\<close>). \<open>json.dumps(arguments, sort_keys=True)\<close> is a parameter.
\<close>

subsection \<open>The context of a run\<close>

record skill_manifest =
  sm_name :: string
  sm_version :: string
  sm_description :: string
  sm_argument_hint :: "string option"
  sm_allowed_tools :: "string list"
  sm_required_tools :: "string list"
  sm_required_permissions :: "string set"
  sm_input_schema :: "jobj option"
  sm_output_schema :: "jobj option"

record skill =
  sk_manifest :: skill_manifest
  sk_instructions :: string
  sk_source :: string

record model_response =
  mr_content :: "string option"
  mr_tool_calls :: "tool_call list"
  mr_finish_reason :: "string option"
  mr_usage :: token_usage
  mr_metadata :: jobj

record memory_record =
  mm_id :: uuid
  mm_content :: string
  mm_namespace :: string
  mm_created_at :: timestamp
  mm_metadata :: jobj

record memory_match =
  mt_record :: memory_record
  mt_score :: rat

datatype resource_phase = Acquire | Release

record resource_failure =
  rf_name :: string
  rf_phase :: resource_phase
  rf_message :: string

record runtime_context =
  rc_profile :: agent_profile
  rc_messages :: "message list"
  rc_conversation_id :: "uuid option"
  rc_turn_sequence :: "int option"
  rc_skills :: "skill list"
  rc_enabled_tools :: "string list"
  rc_run_id :: uuid
  rc_state :: run_status
  rc_step_count :: int
  rc_tool_call_count :: int
  rc_usage :: token_usage
  rc_responses :: "model_response list"
  rc_output :: "string option"
  rc_error :: "string option"
  rc_provider_name :: "string option"
  rc_supervision :: jobj
  rc_pending_input :: "pending_input option"
  rc_plan :: "execution_plan option"
  rc_planning_requested :: bool
  rc_resource_failures :: "resource_failure list"
  rc_attachments :: "attachment list"
  rc_artifacts :: "artifact list"
  rc_input_text :: string
  rc_memories :: "memory_match list"
  rc_memory_initialized :: bool
  rc_memory_error :: "string option"
  rc_run_metadata :: jobj

type_synonym 'a context_prog = "(runtime_context, exn, 'a) prog"

subsection \<open>Checkpoints\<close>

record runtime_checkpoint =
  cp_run_id :: uuid
  cp_profile :: agent_profile
  cp_messages :: "message list"
  cp_conversation_id :: "uuid option"
  cp_turn_sequence :: "int option"
  cp_skills :: "skill list"
  cp_enabled_tools :: "string list"
  cp_state :: run_status
  cp_step_count :: int
  cp_tool_call_count :: int
  cp_usage :: token_usage
  cp_responses :: "model_response list"
  cp_output :: "string option"
  cp_error :: "string option"
  cp_provider_name :: "string option"
  cp_supervision :: jobj
  cp_pending_input :: pending_input
  cp_plan :: "execution_plan option"
  cp_planning_requested :: bool
  cp_resource_failures :: "resource_failure list"
  cp_attachments :: "attachment list"
  cp_artifacts :: "artifact list"
  cp_input_text :: string
  cp_memories :: "memory_match list"
  cp_memory_initialized :: bool
  cp_memory_error :: "string option"
  cp_run_metadata :: jobj

definition valid_checkpoint :: "runtime_checkpoint \<Rightarrow> bool" where
  "valid_checkpoint c \<longleftrightarrow> cp_state c = Waiting \<and> 0 \<le> cp_step_count c \<and> 0 \<le> cp_tool_call_count c"

definition checkpoint_from_context :: "runtime_context \<Rightarrow> exn + runtime_checkpoint" where
  "checkpoint_from_context c = (case rc_pending_input c of
     Some p \<Rightarrow> if rc_state c \<noteq> Waiting
       then Inl (ValueError ''only a waiting context with pending input can be checkpointed'')
       else construct valid_checkpoint \<lparr>cp_run_id = rc_run_id c, cp_profile = rc_profile c, cp_messages = rc_messages c,
         cp_conversation_id = rc_conversation_id c, cp_turn_sequence = rc_turn_sequence c, cp_skills = rc_skills c,
         cp_enabled_tools = rc_enabled_tools c, cp_state = rc_state c, cp_step_count = rc_step_count c,
         cp_tool_call_count = rc_tool_call_count c, cp_usage = rc_usage c, cp_responses = rc_responses c,
         cp_output = rc_output c, cp_error = rc_error c, cp_provider_name = rc_provider_name c,
         cp_supervision = rc_supervision c, cp_pending_input = p, cp_plan = rc_plan c,
         cp_planning_requested = rc_planning_requested c, cp_resource_failures = rc_resource_failures c,
         cp_attachments = rc_attachments c, cp_artifacts = rc_artifacts c, cp_input_text = rc_input_text c,
         cp_memories = rc_memories c, cp_memory_initialized = rc_memory_initialized c,
         cp_memory_error = rc_memory_error c, cp_run_metadata = rc_run_metadata c\<rparr>
   | None \<Rightarrow> Inl (ValueError ''only a waiting context with pending input can be checkpointed''))"

definition restore :: "runtime_checkpoint \<Rightarrow> runtime_context" where
  "restore c = \<lparr>rc_profile = cp_profile c, rc_messages = cp_messages c, rc_conversation_id = cp_conversation_id c,
     rc_turn_sequence = cp_turn_sequence c, rc_skills = cp_skills c, rc_enabled_tools = cp_enabled_tools c,
     rc_run_id = cp_run_id c, rc_state = cp_state c, rc_step_count = cp_step_count c,
     rc_tool_call_count = cp_tool_call_count c, rc_usage = cp_usage c, rc_responses = cp_responses c,
     rc_output = cp_output c, rc_error = cp_error c, rc_provider_name = cp_provider_name c,
     rc_supervision = cp_supervision c, rc_pending_input = Some (cp_pending_input c), rc_plan = cp_plan c,
     rc_planning_requested = cp_planning_requested c, rc_resource_failures = cp_resource_failures c,
     rc_attachments = cp_attachments c, rc_artifacts = cp_artifacts c, rc_input_text = cp_input_text c,
     rc_memories = cp_memories c, rc_memory_initialized = cp_memory_initialized c,
     rc_memory_error = cp_memory_error c, rc_run_metadata = cp_run_metadata c\<rparr>"

subsection \<open>Decisions\<close>

datatype supervision_action = Continue | Redirect | Stop

record supervision_decision =
  sd_policy :: string
  sd_action :: supervision_action
  sd_reason :: "string option"
  sd_message :: "string option"
  sd_terminal_status :: "run_status option"
  sd_metadata :: jobj

abbreviation empty_text :: "string option \<Rightarrow> bool" where
  "empty_text s \<equiv> s = None \<or> s = Some []"

definition valid_decision :: "supervision_decision \<Rightarrow> bool" where
  "valid_decision d \<longleftrightarrow> sd_policy d \<noteq> [] \<and> (case sd_action d of
     Continue \<Rightarrow> sd_terminal_status d = None
   | Redirect \<Rightarrow> \<not> empty_text (sd_reason d) \<and> \<not> empty_text (sd_message d) \<and> sd_terminal_status d = None
   | Stop \<Rightarrow> \<not> empty_text (sd_reason d) \<and> sd_terminal_status d \<in> {Some Failed, Some Cancelled, Some LimitReached})"

definition continue_decision :: "string \<Rightarrow> exn + supervision_decision" where
  "continue_decision policy = construct valid_decision \<lparr>sd_policy = policy, sd_action = Continue, sd_reason = None,
     sd_message = None, sd_terminal_status = None, sd_metadata = []\<rparr>"

definition redirect_decision :: "string \<Rightarrow> string \<Rightarrow> string \<Rightarrow> jobj \<Rightarrow> exn + supervision_decision" where
  "redirect_decision policy reason message metadata = construct valid_decision \<lparr>sd_policy = policy, sd_action = Redirect,
     sd_reason = Some reason, sd_message = Some message, sd_terminal_status = None, sd_metadata = metadata\<rparr>"

definition stop_decision :: "string \<Rightarrow> string \<Rightarrow> run_status \<Rightarrow> jobj \<Rightarrow> exn + supervision_decision" where
  "stop_decision policy reason status metadata = construct valid_decision \<lparr>sd_policy = policy, sd_action = Stop,
     sd_reason = Some reason, sd_message = None, sd_terminal_status = Some status, sd_metadata = metadata\<rparr>"

subsection \<open>Policies\<close>

record supervisor =
  sv_before_model :: "supervision_decision context_prog"
  sv_before_tool :: "tool_call \<Rightarrow> supervision_decision context_prog"
  sv_after_tool :: "tool_call \<Rightarrow> tool_result \<Rightarrow> supervision_decision context_prog"

definition base_supervisor :: "string \<Rightarrow> supervisor" where
  "base_supervisor name = \<lparr>sv_before_model = plift (continue_decision name), sv_before_tool = (\<lambda>_. plift (continue_decision name)),
     sv_after_tool = (\<lambda>_ _. plift (continue_decision name))\<rparr>"

definition execution_budget :: supervisor where
  "execution_budget = (base_supervisor ''execution-budget'')\<lparr>
     sv_before_model := pbind pget (\<lambda>c.
       if ap_max_steps (rc_profile c) \<le> rc_step_count c
       then plift (stop_decision ''execution-budget''
         (''maximum model steps reached ('' @ str_int (ap_max_steps (rc_profile c)) @ '')'') LimitReached
         [(''limit'', JInt (ap_max_steps (rc_profile c))), (''kind'', JStr ''model_steps'')])
       else plift (continue_decision ''execution-budget'')),
     sv_before_tool := (\<lambda>call. pbind pget (\<lambda>c.
       if ap_max_tool_calls (rc_profile c) \<le> rc_tool_call_count c
       then plift (stop_decision ''execution-budget''
         (''maximum tool calls reached ('' @ str_int (ap_max_tool_calls (rc_profile c)) @ '')'') LimitReached
         [(''limit'', JInt (ap_max_tool_calls (rc_profile c))), (''kind'', JStr ''tool_calls'')])
       else plift (continue_decision ''execution-budget'')))\<rparr>"

definition call_fingerprint :: "(jobj \<Rightarrow> string) \<Rightarrow> tool_call \<Rightarrow> string" where
  "call_fingerprint dumps call = tc_name call @ '':'' @ dumps (tc_arguments call)"

text \<open>\<open>int(d.get(key, 0))\<close> of an integer entry; the detectors write nothing else there.\<close>

definition int_entry :: "jobj \<Rightarrow> string \<Rightarrow> exn + int" where
  "int_entry d key = (case dict_get d key of None \<Rightarrow> Inr 0 | Some (JInt n) \<Rightarrow> Inr n
     | Some _ \<Rightarrow> Inl (OtherError ''TypeError'' ''int() argument must be a number''))"

abbreviation dup_key :: string where
  "dup_key \<equiv> ''duplicate_tool_calls''"

abbreviation fail_key :: string where
  "fail_key \<equiv> ''consecutive_tool_failures''"

definition duplicate_detector :: "(jobj \<Rightarrow> string) \<Rightarrow> supervisor" where
  "duplicate_detector dumps = (base_supervisor ''duplicate-tool-call-detector'')\<lparr>
     sv_before_tool := (\<lambda>call. pbind pget (\<lambda>c.
       case (case dict_get (rc_supervision c) dup_key of None \<Rightarrow> JObj [] | Some j \<Rightarrow> j) of
         JObj st \<Rightarrow>
           let fp = call_fingerprint dumps call in
           pbind (plift (if dict_get st ''fingerprint'' = Some (JStr fp) then rbind (int_entry st ''count'') (\<lambda>n. Inr (n + 1))
             else Inr 1)) (\<lambda>count.
           pbind (pput (\<lambda>c. c\<lparr>rc_supervision := dict_set dup_key
             (JObj (dict_set ''count'' (JInt count) (dict_set ''fingerprint'' (JStr fp) st))) (rc_supervision c)\<rparr>)) (\<lambda>_.
           if ap_duplicate_threshold (rc_profile c) \<le> count
           then plift (redirect_decision ''duplicate-tool-call-detector''
             (''repeated identical tool call detected ('' @ str_int count @ '' times)'')
             (''The same tool call has been repeated without enough progress. '' @
              ''Do not repeat it again; inspect prior observations and choose a new strategy.'')
             [(''count'', JInt count), (''tool'', JStr (tc_name call))])
           else plift (continue_decision ''duplicate-tool-call-detector'')))
       | _ \<Rightarrow> praise (OtherError ''AttributeError'' ''get'')))\<rparr>"

definition no_progress_detector :: supervisor where
  "no_progress_detector = (base_supervisor ''no-progress-detector'')\<lparr>
     sv_after_tool := (\<lambda>call result.
       if trs_status result = TSuccess
       then pbind (pput (\<lambda>c. c\<lparr>rc_supervision := dict_set fail_key (JInt 0) (rc_supervision c)\<rparr>)) (\<lambda>_.
         plift (continue_decision ''no-progress-detector''))
       else pbind pget (\<lambda>c. pbind (plift (int_entry (rc_supervision c) fail_key)) (\<lambda>n.
         let count = n + 1 in
         pbind (pput (\<lambda>c. c\<lparr>rc_supervision := dict_set fail_key (JInt count) (rc_supervision c)\<rparr>)) (\<lambda>_.
         if ap_max_failures (rc_profile c) \<le> count
         then plift (redirect_decision ''no-progress-detector'' (''consecutive tool failures detected ('' @ str_int count @ '')'')
           (''Multiple tool attempts have failed. Review the error observations, '' @
            ''change the approach, and avoid issuing another equivalent call.'')
           [(''count'', JInt count), (''last_tool'', JStr (tc_name call))])
         else plift (continue_decision ''no-progress-detector'')))))\<rparr>"

text \<open>\<open>CompositeSupervisor\<close>: the first decision other than continue.\<close>

fun first_decision :: "(supervisor \<Rightarrow> supervision_decision context_prog) \<Rightarrow> supervisor list \<Rightarrow> supervision_decision context_prog" where
  "first_decision hook [] = plift (continue_decision ''composite-supervisor'')"
| "first_decision hook (p # ps) = pbind (hook p) (\<lambda>d. if sd_action d \<noteq> Continue then pret d else first_decision hook ps)"

definition composite :: "supervisor list \<Rightarrow> supervisor" where
  "composite ps = \<lparr>sv_before_model = first_decision sv_before_model ps,
     sv_before_tool = (\<lambda>call. first_decision (\<lambda>p. sv_before_tool p call) ps),
     sv_after_tool = (\<lambda>call result. first_decision (\<lambda>p. sv_after_tool p call result) ps)\<rparr>"

definition default_supervisor :: "(jobj \<Rightarrow> string) \<Rightarrow> supervisor" where
  "default_supervisor dumps = composite [execution_budget, duplicate_detector dumps, no_progress_detector]"

subsection \<open>Applying a decision\<close>

text \<open>\<open>apply_supervision_decision\<close> on the context and the event store; \<open>dump\<close> is the decision's JSON.\<close>

definition apply_supervision_decision :: "(supervision_decision \<Rightarrow> jobj) \<Rightarrow> bool \<Rightarrow> supervision_decision \<Rightarrow>
    (runtime_context \<times> event_store, exn, unit) prog" where
  "apply_supervision_decision dump append_message d = (\<lambda>(c, es).
     case emit (rc_run_id c) SUPERVISOR_INTERVENED (dump d) es of (Inl e, es') \<Rightarrow> (Inl e, (c, es'))
     | (Inr _, es') \<Rightarrow>
       (let c1 = (case sd_message d of Some m \<Rightarrow> if append_message \<and> m \<noteq> [] then c\<lparr>rc_messages := rc_messages c @ [system_message m]\<rparr> else c
          | None \<Rightarrow> c) in
        if sd_action d \<noteq> Stop then (Inr (), (c1, es'))
        else (case sd_terminal_status d of None \<Rightarrow> (Inl InvalidStateTransitionError, (c1, es'))
          | Some st \<Rightarrow> (let c2 = c1\<lparr>rc_error := sd_reason d\<rparr> in
              case transition_to (rc_state c2) st of Inl e \<Rightarrow> (Inl e, (c2, es'))
              | Inr st' \<Rightarrow> (Inr (), (c2\<lparr>rc_state := st'\<rparr>, es'))))))"

subsection \<open>The decisions of the default supervisor\<close>

lemma decision_actions:
  "name \<noteq> [] \<Longrightarrow> \<exists>d. continue_decision name = Inr d \<and> valid_decision d \<and> sd_action d = Continue"
  "name \<noteq> [] \<Longrightarrow> reason \<noteq> [] \<Longrightarrow> message \<noteq> [] \<Longrightarrow>
     \<exists>d. redirect_decision name reason message md = Inr d \<and> valid_decision d \<and> sd_action d = Redirect"
  "name \<noteq> [] \<Longrightarrow> reason \<noteq> [] \<Longrightarrow>
     \<exists>d. stop_decision name reason LimitReached md = Inr d \<and> valid_decision d \<and> sd_action d = Stop \<and> sd_terminal_status d = Some LimitReached"
  by (simp_all add: continue_decision_def redirect_decision_def stop_decision_def construct_def valid_decision_def)

text \<open>A hook returns a valid decision with a given action and leaves a given context.\<close>

definition decides :: "(exn + supervision_decision) \<times> runtime_context \<Rightarrow> supervision_action \<Rightarrow> runtime_context \<Rightarrow> bool" where
  "decides res a c \<longleftrightarrow> (\<exists>d. res = (Inr d, c) \<and> valid_decision d \<and> sd_action d = a \<and>
     (a = Stop \<longrightarrow> sd_terminal_status d = Some LimitReached))"

lemma decides_continue: "name \<noteq> [] \<Longrightarrow> decides (continue_decision name, c) Continue c"
  using decision_actions(1) [of name] by (auto simp: decides_def)

lemma decides_redirect: "name \<noteq> [] \<Longrightarrow> reason \<noteq> [] \<Longrightarrow> message \<noteq> [] \<Longrightarrow>
   decides (redirect_decision name reason message md, c) Redirect c"
  using decision_actions(2) [of name reason message md] by (auto simp: decides_def)

lemma decides_stop: "name \<noteq> [] \<Longrightarrow> reason \<noteq> [] \<Longrightarrow> decides (stop_decision name reason LimitReached md, c) Stop c"
  using decision_actions(3) [of name reason md] by (auto simp: decides_def)

lemma decides_base:
  "name \<noteq> [] \<Longrightarrow> decides (sv_before_tool (base_supervisor name) call c) Continue c"
  "name \<noteq> [] \<Longrightarrow> decides (sv_after_tool (base_supervisor name) call r c) Continue c"
  "name \<noteq> [] \<Longrightarrow> decides (sv_before_model (base_supervisor name) c) Continue c"
  by (simp_all add: base_supervisor_def decides_continue)

lemma first_decision_step:
  "decides (hook p c) Continue c' \<Longrightarrow> first_decision hook (p # ps) c = first_decision hook ps c'"
  "decides (hook p c) a c' \<Longrightarrow> a \<noteq> Continue \<Longrightarrow> decides (first_decision hook (p # ps) c) a c'"
  by (auto simp: decides_def pbind_app)

lemma first_decision_end: "decides (first_decision hook [] c) Continue c"
  by (simp add: decides_continue)

subsection \<open>Histories of a run\<close>

text \<open>
  What the supervisor of a run is asked, in order: \<open>Asked n call\<close> before a tool call, when \<open>n\<close> calls have
  been counted, and \<open>Done call result\<close> after one. Between two hooks the run changes its context but
  neither its profile nor the data of the supervisor.
\<close>

datatype hook = Asked int tool_call | Done tool_call tool_result

fun run_hook :: "(jobj \<Rightarrow> string) \<Rightarrow> hook \<Rightarrow> supervision_decision context_prog" where
  "run_hook dumps (Asked n call) c = sv_before_tool (default_supervisor dumps) call (c\<lparr>rc_tool_call_count := n\<rparr>)"
| "run_hook dumps (Done call result) c = sv_after_tool (default_supervisor dumps) call result c"

definition after_hooks :: "(jobj \<Rightarrow> string) \<Rightarrow> hook list \<Rightarrow> runtime_context \<Rightarrow> runtime_context" where
  "after_hooks dumps hs c = fold (\<lambda>h c. snd (run_hook dumps h c)) hs c"

text \<open>The reference: the calls within the budget, the results, and the length of the final run of a property.\<close>

fun asked_calls :: "int \<Rightarrow> hook list \<Rightarrow> tool_call list" where
  "asked_calls m [] = []"
| "asked_calls m (Asked n call # hs) = (if n < m then call # asked_calls m hs else asked_calls m hs)"
| "asked_calls m (Done call r # hs) = asked_calls m hs"

fun results_of :: "hook list \<Rightarrow> tool_result list" where
  "results_of [] = []"
| "results_of (Asked n call # hs) = results_of hs"
| "results_of (Done call r # hs) = r # results_of hs"

definition streak :: "('a \<Rightarrow> bool) \<Rightarrow> 'a list \<Rightarrow> int" where
  "streak P xs = int (length (takeWhile P (rev xs)))"

lemma streak_simps [simp]: "streak P [] = 0" "streak P (xs @ [x]) = (if P x then streak P xs + 1 else 0)"
  by (simp_all add: streak_def)

lemma histories_append:
  "asked_calls m (hs @ [h]) = asked_calls m hs @ asked_calls m [h]" "results_of (hs @ [h]) = results_of hs @ results_of [h]"
  "after_hooks dumps (hs @ [h]) c = snd (run_hook dumps h (after_hooks dumps hs c))"
proof -
  show "asked_calls m (hs @ [h]) = asked_calls m hs @ asked_calls m [h]"
    by (induction m hs rule: asked_calls.induct) simp_all
  show "results_of (hs @ [h]) = results_of hs @ results_of [h]" by (induction hs rule: results_of.induct) simp_all
qed (simp add: after_hooks_def)

text \<open>The data of the two detectors.\<close>

definition dup_data :: "(jobj \<Rightarrow> string) \<Rightarrow> tool_call list \<Rightarrow> json option" where
  "dup_data dumps calls = (if calls = [] then None else
     let fp = call_fingerprint dumps (last calls) in
     Some (JObj [(''fingerprint'', JStr fp), (''count'', JInt (streak (\<lambda>c. call_fingerprint dumps c = fp) calls))]))"

definition fail_data :: "tool_result list \<Rightarrow> json option" where
  "fail_data rs = (if rs = [] then None else Some (JInt (streak (\<lambda>r. trs_status r \<noteq> TSuccess) rs)))"

definition detectors_at :: "(jobj \<Rightarrow> string) \<Rightarrow> tool_call list \<Rightarrow> tool_result list \<Rightarrow> runtime_context \<Rightarrow> bool" where
  "detectors_at dumps calls rs c \<longleftrightarrow> dict_get (rc_supervision c) dup_key = dup_data dumps calls \<and>
     dict_get (rc_supervision c) fail_key = fail_data rs"

lemma duplicate_step:
  fixes call :: tool_call
  assumes "dict_get (rc_supervision c) dup_key = dup_data dumps calls"
  defines "n \<equiv> streak (\<lambda>x. call_fingerprint dumps x = call_fingerprint dumps call) (calls @ [call])"
  shows "\<exists>c'. decides (sv_before_tool (duplicate_detector dumps) call c)
      (if ap_duplicate_threshold (rc_profile c) \<le> n then Redirect else Continue) c' \<and>
    rc_profile c' = rc_profile c \<and> dict_get (rc_supervision c') dup_key = dup_data dumps (calls @ [call]) \<and>
    dict_get (rc_supervision c') fail_key = dict_get (rc_supervision c) fail_key"
proof -
  let ?fp = "call_fingerprint dumps call"
  define st where "st = (case dup_data dumps calls of Some (JObj st) \<Rightarrow> st | _ \<Rightarrow> [])"
  have st: "(case dict_get (rc_supervision c) dup_key of None \<Rightarrow> JObj [] | Some j \<Rightarrow> j) = JObj st"
    using assms(1) by (simp add: st_def dup_data_def Let_def)
  have cnt: "(if dict_get st ''fingerprint'' = Some (JStr ?fp) then rbind (int_entry st ''count'') (\<lambda>n. Inr (n + 1)) else Inr 1) = (Inr n :: exn + int)"
  proof (cases "calls = []")
    case True
    then show ?thesis by (simp add: st_def dup_data_def n_def streak_def)
  next
    case False
    then obtain xs y where calls: "calls = xs @ [y]" by (cases calls rule: rev_cases) auto
    have "n = streak (\<lambda>x. call_fingerprint dumps x = ?fp) calls + 1" by (simp add: n_def)
    with calls show ?thesis by (auto simp: st_def dup_data_def Let_def int_entry_def)
  qed
  let ?c = "c\<lparr>rc_supervision := dict_set dup_key (JObj (dict_set ''count'' (JInt n) (dict_set ''fingerprint'' (JStr ?fp) st)))
      (rc_supervision c)\<rparr>"
  have data: "Some (JObj (dict_set ''count'' (JInt n) (dict_set ''fingerprint'' (JStr ?fp) st))) = dup_data dumps (calls @ [call])"
    by (cases "calls = []") (simp_all add: st_def dup_data_def Let_def n_def)
  have "decides (sv_before_tool (duplicate_detector dumps) call c)
      (if ap_duplicate_threshold (rc_profile c) \<le> n then Redirect else Continue) ?c"
    using decides_continue [of "''duplicate-tool-call-detector''" ?c]
      decides_redirect [of "''duplicate-tool-call-detector''" "''repeated identical tool call detected ('' @ str_int n @ '' times)''"]
    by (simp add: duplicate_detector_def pbind_app st cnt Let_def)
  moreover have "dict_get (rc_supervision ?c) dup_key = dup_data dumps (calls @ [call])"
    "dict_get (rc_supervision ?c) fail_key = dict_get (rc_supervision c) fail_key"
    using data by simp_all
  ultimately show ?thesis by (intro exI [of _ ?c]) simp
qed

lemma failure_step:
  fixes r :: tool_result
  assumes "dict_get (rc_supervision c) fail_key = fail_data rs" and "1 \<le> ap_max_failures (rc_profile c)"
  defines "n \<equiv> streak (\<lambda>r. trs_status r \<noteq> TSuccess) (rs @ [r])"
  shows "\<exists>c'. decides (sv_after_tool no_progress_detector call r c)
      (if ap_max_failures (rc_profile c) \<le> n then Redirect else Continue) c' \<and>
    rc_profile c' = rc_profile c \<and> dict_get (rc_supervision c') fail_key = fail_data (rs @ [r]) \<and>
    dict_get (rc_supervision c') dup_key = dict_get (rc_supervision c) dup_key"
proof -
  let ?c = "c\<lparr>rc_supervision := dict_set fail_key (JInt n) (rc_supervision c)\<rparr>"
  have e: "int_entry (rc_supervision c) fail_key = Inr (streak (\<lambda>r. trs_status r \<noteq> TSuccess) rs)"
    using assms(1) by (simp add: int_entry_def fail_data_def)
  have "decides (sv_after_tool no_progress_detector call r c)
      (if ap_max_failures (rc_profile c) \<le> n then Redirect else Continue) ?c"
  proof (cases "trs_status r = TSuccess")
    case True
    then have "n = 0" by (simp add: n_def)
    with True assms(2) decides_continue [of "''no-progress-detector''" ?c] show ?thesis
      by (simp add: no_progress_detector_def pbind_app)
  next
    case False
    then have "streak (\<lambda>r. trs_status r \<noteq> TSuccess) rs + 1 = n" by (simp add: n_def)
    with False decides_continue [of "''no-progress-detector''" ?c]
      decides_redirect [of "''no-progress-detector''" "''consecutive tool failures detected ('' @ str_int n @ '')''"]
    show ?thesis by (simp add: no_progress_detector_def pbind_app e Let_def)
  qed
  then show ?thesis by (intro exI [of _ ?c]) (simp add: fail_data_def n_def)
qed

definition expected_action :: "(jobj \<Rightarrow> string) \<Rightarrow> agent_profile \<Rightarrow> hook list \<Rightarrow> hook \<Rightarrow> supervision_action" where
  "expected_action dumps p hs h = (case h of
     Asked n call \<Rightarrow>
       if ap_max_tool_calls p \<le> n then Stop
       else if ap_duplicate_threshold p \<le> streak (\<lambda>x. call_fingerprint dumps x = call_fingerprint dumps call)
           (asked_calls (ap_max_tool_calls p) hs @ [call])
       then Redirect else Continue
   | Done call r \<Rightarrow> if ap_max_failures p \<le> streak (\<lambda>r. trs_status r \<noteq> TSuccess) (results_of hs @ [r]) then Redirect else Continue)"

lemma hook_step:
  assumes d: "detectors_at dumps (asked_calls m hs) (results_of hs) c" and p: "rc_profile c = p" "m = ap_max_tool_calls p"
    "1 \<le> ap_max_failures p"
  shows "\<exists>c'. decides (run_hook dumps h c) (expected_action dumps p hs h) c' \<and> rc_profile c' = p \<and>
    detectors_at dumps (asked_calls m (hs @ [h])) (results_of (hs @ [h])) c'"
proof (cases h)
  case (Asked n call)
  let ?c = "c\<lparr>rc_tool_call_count := n\<rparr>"
  let ?ps = "[duplicate_detector dumps, no_progress_detector]"
  show ?thesis
  proof (cases "m \<le> n")
    case True
    have "decides (sv_before_tool execution_budget call ?c) Stop ?c"
      using True p decides_stop [of "''execution-budget''" "''maximum tool calls reached ('' @ str_int m @ '')''"]
      by (simp add: execution_budget_def pbind_app)
    from first_decision_step(2) [where hook = "\<lambda>x. sv_before_tool x call" and ps = ?ps, OF this] True p d show ?thesis
      by (intro exI [of _ ?c]) (simp add: Asked default_supervisor_def composite_def expected_action_def histories_append detectors_at_def
          del: first_decision.simps)
  next
    case False
    have b: "decides (sv_before_tool execution_budget call ?c) Continue ?c"
      using False p decides_continue [of "''execution-budget''" ?c] by (simp add: execution_budget_def pbind_app)
    let ?a = "expected_action dumps p hs h"
    obtain c' where c': "decides (sv_before_tool (duplicate_detector dumps) call ?c) ?a c'" "rc_profile c' = p"
      "dict_get (rc_supervision c') dup_key = dup_data dumps (asked_calls m hs @ [call])"
      "dict_get (rc_supervision c') fail_key = dict_get (rc_supervision c) fail_key"
      using duplicate_step [of ?c dumps "asked_calls m hs" call] d p False
      by (auto simp: detectors_at_def expected_action_def Asked)
    have "decides (first_decision (\<lambda>x. sv_before_tool x call) ?ps ?c) ?a c'"
    proof (cases "?a = Continue")
      case True
      have "decides (sv_before_tool no_progress_detector call c') Continue c'"
        using decides_base(1) [of "''no-progress-detector''"] by (simp add: no_progress_detector_def)
      with c'(1) True first_decision_end show ?thesis by (simp add: first_decision_step(1) del: first_decision.simps)
    next
      case False
      from first_decision_step(2) [where hook = "\<lambda>x. sv_before_tool x call", OF c'(1) False] show ?thesis .
    qed
    with b c' d False show ?thesis
      by (intro exI [of _ c']) (simp add: Asked default_supervisor_def composite_def first_decision_step(1) histories_append
          detectors_at_def del: first_decision.simps)
  qed
next
  case (Done call r)
  let ?a = "expected_action dumps p hs h"
  have b: "decides (sv_after_tool execution_budget call r c) Continue c" "decides (sv_after_tool (duplicate_detector dumps) call r c) Continue c"
    using decides_base(2) [of "''execution-budget''"] decides_base(2) [of "''duplicate-tool-call-detector''"]
    by (simp_all add: execution_budget_def duplicate_detector_def)
  obtain c' where c': "decides (sv_after_tool no_progress_detector call r c) ?a c'" "rc_profile c' = p"
    "dict_get (rc_supervision c') fail_key = fail_data (results_of hs @ [r])"
    "dict_get (rc_supervision c') dup_key = dict_get (rc_supervision c) dup_key"
    using failure_step [of c "results_of hs" call r] d p by (auto simp: detectors_at_def expected_action_def Done)
  have "decides (first_decision (\<lambda>x. sv_after_tool x call r) [no_progress_detector] c) ?a c'"
  proof (cases "?a = Continue")
    case True
    with c'(1) first_decision_end show ?thesis by (simp add: first_decision_step(1) del: first_decision.simps)
  next
    case False
    from first_decision_step(2) [where hook = "\<lambda>x. sv_after_tool x call r", OF c'(1) False] show ?thesis .
  qed
  with b c' d show ?thesis
    by (intro exI [of _ c']) (simp add: Done default_supervisor_def composite_def first_decision_step(1) histories_append
        detectors_at_def del: first_decision.simps)
qed

lemma after_hooks_detectors:
  assumes "rc_supervision c = []" "rc_profile c = p" "m = ap_max_tool_calls p" "1 \<le> ap_max_failures p"
  shows "detectors_at dumps (asked_calls m hs) (results_of hs) (after_hooks dumps hs c) \<and> rc_profile (after_hooks dumps hs c) = p"
proof (induction hs rule: rev_induct)
  case Nil
  then show ?case using assms(1,2) by (simp add: detectors_at_def dup_data_def fail_data_def after_hooks_def)
next
  case (snoc h hs)
  from hook_step [OF conjunct1 [OF snoc] conjunct2 [OF snoc] assms(3,4), of h] show ?case
    by (auto simp: histories_append(3) decides_def)
qed

subsection \<open>Properties\<close>

text \<open>
  C26. The default supervisor against its specification over the whole history of a run. Before a tool call
  it stops the run, as limit reached, exactly when the budget of tool calls is used up; otherwise it
  redirects exactly when the last calls that were within the budget, this one included, have been the
  same call as often as the threshold says. After a call it redirects exactly when the last results
  have all failed as often as allowed. It never raises, and every decision is valid.
\<close>

theorem default_supervisor_exact:
  assumes c: "rc_supervision c = []" and p: "valid_profile (rc_profile c)"
  shows "\<exists>d c'. run_hook dumps h (after_hooks dumps hs c) = (Inr d, c') \<and> valid_decision d \<and>
    sd_action d = (case h of
      Asked n call \<Rightarrow>
        if ap_max_tool_calls (rc_profile c) \<le> n then Stop
        else if ap_duplicate_threshold (rc_profile c) \<le> streak (\<lambda>x. call_fingerprint dumps x = call_fingerprint dumps call)
            (asked_calls (ap_max_tool_calls (rc_profile c)) hs @ [call])
        then Redirect else Continue
    | Done call r \<Rightarrow>
        if ap_max_failures (rc_profile c) \<le> streak (\<lambda>r. trs_status r \<noteq> TSuccess) (results_of hs @ [r]) then Redirect else Continue)"
proof -
  have f: "1 \<le> ap_max_failures (rc_profile c)" using p by (simp add: valid_profile_def)
  note at = after_hooks_detectors [OF c refl refl f, of dumps hs]
  from hook_step [OF conjunct1 [OF at] conjunct2 [OF at] refl f, of h] show ?thesis
    by (auto simp: decides_def expected_action_def)
qed

definition ex_profile :: agent_profile where
  "ex_profile = \<lparr>ap_id = ''p'', ap_instructions = ''do'', ap_model = None, ap_tools = [], ap_skills = [], ap_permissions = {},
     ap_max_steps = 10, ap_max_tool_calls = 50, ap_duplicate_threshold = 2, ap_max_failures = 3, ap_max_result_bytes = 512\<rparr>"

definition ex_runtime :: runtime_context where
  "ex_runtime = \<lparr>rc_profile = ex_profile, rc_messages = [], rc_conversation_id = None, rc_turn_sequence = None, rc_skills = [],
     rc_enabled_tools = [], rc_run_id = 3, rc_state = Waiting, rc_step_count = 1, rc_tool_call_count = 1,
     rc_usage = \<lparr>input_tokens = 0, output_tokens = 0, total_tokens = 0\<rparr>, rc_responses = [], rc_output = None, rc_error = None,
     rc_provider_name = None, rc_supervision = [], rc_pending_input = Some \<lparr>pi_tool_call_id = ''c1'', pi_tool_name = ''mail'',
       pi_prompt = ''ok?'', pi_metadata = []\<rparr>, rc_plan = None, rc_planning_requested = False, rc_resource_failures = [],
     rc_attachments = [], rc_artifacts = [], rc_input_text = ''hello'', rc_memories = [], rc_memory_initialized = False,
     rc_memory_error = None, rc_run_metadata = []\<rparr>"

theorem default_supervisor_exact_witness:
  "\<exists>d c'. run_hook (\<lambda>_. []) (Asked 1 ex_call) (after_hooks (\<lambda>_. []) [Asked 0 ex_call] ex_runtime) = (Inr d, c') \<and> sd_action d = Redirect"
proof -
  have v: "rc_supervision ex_runtime = []" "valid_profile (rc_profile ex_runtime)" by code_simp+
  have "ap_max_tool_calls (rc_profile ex_runtime) = 50" "ap_duplicate_threshold (rc_profile ex_runtime) = 2"
    by (simp_all add: ex_runtime_def ex_profile_def)
  with default_supervisor_exact [OF v, of "\<lambda>_. []" "Asked 1 ex_call" "[Asked 0 ex_call]"] show ?thesis
    by (auto simp: streak_def)
qed

text \<open>
  Round trip of suspension: a context is checkpointed exactly when it is waiting with a pending input
  (and its counters are not negative), and the checkpoint that any later claim takes from the store
  restores exactly the suspended context.
\<close>

theorem checkpoint_restores_context:
  assumes n: "0 \<le> rc_step_count c" "0 \<le> rc_tool_call_count c"
  shows "(case checkpoint_from_context c of
      Inl e \<Rightarrow> (\<exists>m. e = ValueError m) \<and> (rc_state c \<noteq> Waiting \<or> rc_pending_input c = None)
    | Inr cp \<Rightarrow> rc_state c = Waiting \<and> rc_pending_input c \<noteq> None \<and>
        (\<exists>s'. claim_checkpoint (rc_run_id c) (snd (save_checkpoint cp_run_id cp s)) = (Inr cp, s') \<and> restore cp = c))"
  using n by (auto simp: checkpoint_from_context_def construct_def valid_checkpoint_def restore_def save_checkpoint_def
      claim_checkpoint_def split: option.split)

theorem checkpoint_restores_context_witness:
  "\<exists>cp. checkpoint_from_context ex_runtime = Inr cp \<and> restore cp = ex_runtime"
proof -
  have n: "0 \<le> rc_step_count ex_runtime" "0 \<le> rc_tool_call_count ex_runtime" "\<not> isl (checkpoint_from_context ex_runtime)" by code_simp+
  then obtain cp where cp: "checkpoint_from_context ex_runtime = Inr cp" by (cases "checkpoint_from_context ex_runtime") auto
  from checkpoint_restores_context [OF n(1,2), of "[]"] cp show ?thesis by auto
qed

end
