(* ===== verification/Scopes.thy ===== *)
theory Scopes
  imports Supervision
begin

text \<open>
  The state of one execution segment and the managers that give tools access to it: named resources
  (\<open>resources/manager.py\<close>), attachments and artifacts (\<open>artifacts/manager.py\<close>) and memories
  (\<open>memory/manager.py\<close>), with the lexical memory store (\<open>memory/store.py\<close>).

  A segment runs in one asyncio task, the owner of its resources. Resource factories, their context
  managers and memory retrievers are application code: functions on the outside world \<open>'w\<close>. A resource
  is a Python object, known by its identity. \<open>str(exc)\<close> and \<open>model_dump(mode="json")\<close> of the larger
  models are parameters (\<open>codec\<close>).
\<close>

subsection \<open>The state of a segment\<close>

record 'w resource =
  rz_enter :: "('w, exn, nat) prog"
  rz_exit :: "exn option \<Rightarrow> ('w, exn, unit) prog"

record 'w resource_spec =
  sp_name :: string
  sp_factory :: "runtime_context \<Rightarrow> ('w, exn, 'w resource) prog"
  sp_eager :: bool

record 'w acquired_resource =
  aq_manager :: "'w resource"
  aq_value :: nat

datatype scope_state = ScopeCreated | ScopeActive | ScopeClosed

record 'w resource_scope =
  sc_specs :: "(string, 'w resource_spec) dict"
  sc_acquired :: "(string, 'w acquired_resource) dict"
  sc_order :: "string list"
  sc_failures :: "resource_failure list"
  sc_state :: scope_state

record 'w runtime =
  rt_context :: runtime_context
  rt_runs :: run_store
  rt_events :: event_store
  rt_content :: content_store
  rt_checkpoints :: "runtime_checkpoint checkpoint_store"
  rt_conversations :: "conversation_store option"
  rt_ledger :: ledger
  rt_scope :: "'w resource_scope"
  rt_world :: 'w
  rt_turn :: nat

type_synonym ('w, 'a) run_task = "('w runtime, exn, 'a) prog"

record codec =
  cd_str :: "exn \<Rightarrow> string"
  cd_attachment :: "attachment \<Rightarrow> json"
  cd_artifact :: "artifact \<Rightarrow> json"
  cd_plan :: "execution_plan \<Rightarrow> json"

text \<open>Operations on one part of the state.\<close>

definition on_context :: "'a context_prog \<Rightarrow> ('w, 'a) run_task" where
  "on_context m s = (case m (rt_context s) of (r, c) \<Rightarrow> (r, s\<lparr>rt_context := c\<rparr>))"

definition on_events :: "'a event_prog \<Rightarrow> ('w, 'a) run_task" where
  "on_events m s = (case m (rt_events s) of (r, es) \<Rightarrow> (r, s\<lparr>rt_events := es\<rparr>))"

definition on_content :: "'a content_prog \<Rightarrow> ('w, 'a) run_task" where
  "on_content m s = (case m (rt_content s) of (r, cs) \<Rightarrow> (r, s\<lparr>rt_content := cs\<rparr>))"

definition on_world :: "('w, exn, 'a) prog \<Rightarrow> ('w, 'a) run_task" where
  "on_world m s = (case m (rt_world s) of (r, w) \<Rightarrow> (r, s\<lparr>rt_world := w\<rparr>))"

abbreviation set_context :: "(runtime_context \<Rightarrow> runtime_context) \<Rightarrow> ('w, unit) run_task" where
  "set_context f \<equiv> on_context (pput f)"

abbreviation set_scope :: "('w resource_scope \<Rightarrow> 'w resource_scope) \<Rightarrow> ('w, unit) run_task" where
  "set_scope f \<equiv> pput (\<lambda>s. s\<lparr>rt_scope := f (rt_scope s)\<rparr>)"

abbreviation pthen :: "('s, 'e, 'a) prog \<Rightarrow> ('s, 'e, 'b) prog \<Rightarrow> ('s, 'e, 'b) prog" where
  "pthen m k \<equiv> pbind m (\<lambda>_. k)"

fun peach :: "('a \<Rightarrow> ('s, 'e, unit) prog) \<Rightarrow> 'a list \<Rightarrow> ('s, 'e, unit) prog" where
  "peach f [] = pret ()"
| "peach f (x # xs) = pthen (f x) (peach f xs)"

text \<open>\<open>event_store.emit(context.run_id, type, data)\<close>.\<close>

definition emit_event :: "event_type \<Rightarrow> jobj \<Rightarrow> ('w, unit) run_task" where
  "emit_event t data = pbind pget (\<lambda>s. pthen (on_events (emit (rc_run_id (rt_context s)) t data)) (pret ()))"

subsection \<open>Resources\<close>

definition valid_resource_name :: "string \<Rightarrow> bool" where
  "valid_resource_name s = name_pattern ''_.-'' s"

fun phase_value :: "resource_phase \<Rightarrow> string" where
  "phase_value Acquire = ''acquire''"
| "phase_value Release = ''release''"

definition failure_json :: "resource_failure \<Rightarrow> jobj" where
  "failure_json f = [(''name'', JStr (rf_name f)), (''phase'', JStr (phase_value (rf_phase f))), (''message'', JStr (rf_message f))]"

abbreviation quoted :: "string \<Rightarrow> string" where
  "quoted s \<equiv> [CHR 0x27] @ s @ [CHR 0x27]"

definition make_scope :: "'w resource_spec list \<Rightarrow> exn + 'w resource_scope" where
  "make_scope specs = (if \<not> distinct (map sp_name specs) then Inl (ValueError ''resource names must be unique'')
     else Inr \<lparr>sc_specs = map (\<lambda>sp. (sp_name sp, sp)) specs, sc_acquired = [], sc_order = [], sc_failures = [],
       sc_state = ScopeCreated\<rparr>)"

definition emit_failure :: "resource_failure \<Rightarrow> ('w, unit) run_task" where
  "emit_failure f = emit_event RESOURCE_FAILED (failure_json f)"

abbreviation record_failure :: "resource_failure \<Rightarrow> ('w, unit) run_task" where
  "record_failure f \<equiv> pthen (set_scope (\<lambda>sc. sc\<lparr>sc_failures := sc_failures sc @ [f]\<rparr>)) (emit_failure f)"

definition acquire_resource :: "codec \<Rightarrow> 'w resource_spec \<Rightarrow> ('w, 'w acquired_resource) run_task" where
  "acquire_resource cd sp = pbind pget (\<lambda>s. pbind (on_world (sp_factory sp (rt_context s))) (\<lambda>m.
     ptry (on_world (rz_enter m)) (\<lambda>r. case r of
       Inl e \<Rightarrow> if e = CancelledError then praise e
         else pthen (record_failure \<lparr>rf_name = sp_name sp, rf_phase = Acquire, rf_message = cd_str cd e\<rparr>)
           (praise (OtherError ''ResourceAcquisitionError'' (''failed to acquire resource '' @ quoted (sp_name sp) @ '': '' @ cd_str cd e)))
     | Inr v \<Rightarrow>
         let a = \<lparr>aq_manager = m, aq_value = v\<rparr> in
         pthen (set_scope (\<lambda>sc. sc\<lparr>sc_acquired := dict_set (sp_name sp) a (sc_acquired sc), sc_order := sc_order sc @ [sp_name sp]\<rparr>))
         (pthen (emit_event RESOURCE_ACQUIRED [(''name'', JStr (sp_name sp))]) (pret a)))))"

text \<open>\<open>get(name, expected_type)\<close>: \<open>expected\<close> is the \<open>isinstance\<close> test, if a type is given.\<close>

definition get_resource :: "codec \<Rightarrow> string \<Rightarrow> (nat \<Rightarrow> bool) option \<Rightarrow> ('w, nat) run_task" where
  "get_resource cd name expected = pbind pget (\<lambda>s.
     if sc_state (rt_scope s) \<noteq> ScopeActive
     then praise (OtherError ''ResourceScopeClosedError'' ''resources are only available during execution'')
     else pbind (case dict_get (sc_acquired (rt_scope s)) name of
         Some a \<Rightarrow> pret a
       | None \<Rightarrow> (case dict_get (sc_specs (rt_scope s)) name of
           None \<Rightarrow> praise (OtherError ''ResourceNotFoundError'' (''unknown resource '' @ quoted name))
         | Some sp \<Rightarrow> acquire_resource cd sp)) (\<lambda>a.
       case expected of
         Some is_instance \<Rightarrow> if is_instance (aq_value a) then pret (aq_value a)
           else praise (OtherError ''ResourceTypeError'' (''resource '' @ quoted name @ '' has another type''))
       | None \<Rightarrow> pret (aq_value a)))"

definition start_scope :: "codec \<Rightarrow> ('w, unit) run_task" where
  "start_scope cd = pbind pget (\<lambda>s.
     if sc_state (rt_scope s) \<noteq> ScopeCreated
     then praise (OtherError ''ResourceScopeClosedError'' ''resource scope can only be started once'')
     else pthen (set_scope (\<lambda>sc. sc\<lparr>sc_state := ScopeActive\<rparr>))
       (peach (\<lambda>sp. if sp_eager sp then pthen (get_resource cd (sp_name sp) None) (pret ()) else pret ())
         (dict_values (sc_specs (rt_scope s)))))"

definition release_resource :: "codec \<Rightarrow> exn option \<Rightarrow> string \<Rightarrow> ('w, unit) run_task" where
  "release_resource cd err name = pbind pget (\<lambda>s. case dict_get (sc_acquired (rt_scope s)) name of
     None \<Rightarrow> praise KeyError
   | Some a \<Rightarrow> ptry (on_world (rz_exit (aq_manager a) err)) (\<lambda>r. case r of
       Inl e \<Rightarrow> if e = CancelledError then praise e
         else record_failure \<lparr>rf_name = name, rf_phase = Release, rf_message = cd_str cd e\<rparr>
     | Inr _ \<Rightarrow> emit_event RESOURCE_RELEASED [(''name'', JStr name)]))"

definition close_scope :: "codec \<Rightarrow> exn option \<Rightarrow> ('w, resource_failure list) run_task" where
  "close_scope cd err = pbind pget (\<lambda>s.
     if sc_state (rt_scope s) = ScopeClosed then pret (sc_failures (rt_scope s))
     else pthen (set_scope (\<lambda>sc. sc\<lparr>sc_state := ScopeClosed\<rparr>))
       (pthen (peach (release_resource cd err) (rev (sc_order (rt_scope s))))
       (pthen (set_scope (\<lambda>sc. sc\<lparr>sc_acquired := [], sc_order := []\<rparr>))
       (pbind pget (\<lambda>s. pret (sc_failures (rt_scope s)))))))"

subsection \<open>Attachments and artifacts\<close>

definition create_run_artifact :: "codec \<Rightarrow> (bytes \<Rightarrow> string) \<Rightarrow> string \<Rightarrow> string \<Rightarrow> bytes \<Rightarrow> jobj \<Rightarrow> ('w, artifact) run_task" where
  "create_run_artifact cd sha256 name media payload metadata = pbind pget (\<lambda>s.
     pbind (on_content (create_artifact sha256 (rc_run_id (rt_context s)) name media payload metadata)) (\<lambda>a.
     pthen (set_context (\<lambda>c. c\<lparr>rc_artifacts := rc_artifacts c @ [a]\<rparr>))
     (pthen (emit_event ARTIFACT_CREATED [(''artifact'', cd_artifact cd a)]) (pret a))))"

definition read_run_attachment :: "uuid \<Rightarrow> ('w, bytes) run_task" where
  "read_run_attachment k = pbind pget (\<lambda>s.
     if k \<notin> att_id ` set (rc_attachments (rt_context s))
     then praise (OtherError ''ArtifactAccessError'' (''attachment '' @ quoted (str_uuid k) @ '' is not available to this Run''))
     else on_content (read_content k))"

definition read_run_artifact :: "uuid \<Rightarrow> ('w, bytes) run_task" where
  "read_run_artifact k = pbind (on_content (get_artifact k)) (\<lambda>a. pbind pget (\<lambda>s.
     if art_run_id a \<noteq> rc_run_id (rt_context s)
     then praise (OtherError ''ArtifactAccessError'' (''artifact '' @ quoted (str_uuid k) @ '' belongs to another Run''))
     else on_content (read_content k)))"

subsection \<open>Memories\<close>

record memory_query =
  mq_text :: string
  mq_limit :: int
  mq_namespace :: "string option"
  mq_profile_id :: "string option"
  mq_run_id :: "uuid option"
  mq_filters :: jobj

definition valid_query :: "memory_query \<Rightarrow> bool" where
  "valid_query q \<longleftrightarrow> \<not> blank (mq_text q) \<and> 1 \<le> mq_limit q \<and> mq_limit q \<le> 100 \<and> opt_all (within_length 128) (mq_namespace q)"

datatype memory_failure_mode = BestEffort | RequiredMemory

record 'w memory_manager =
  my_retriever :: "(memory_query \<Rightarrow> ('w, exn, memory_match list) prog) option"
  my_limit :: int
  my_namespace :: "string option"
  my_failure_mode :: memory_failure_mode

definition make_memory_manager :: "'w memory_manager \<Rightarrow> exn + 'w memory_manager" where
  "make_memory_manager m = (if my_limit m < 1 \<or> 100 < my_limit m then Inl (ValueError ''memory limit must be between 1 and 100'')
     else if (case my_namespace m of None \<Rightarrow> False | Some n \<Rightarrow> blank n) then Inl (ValueError ''memory namespace must not be blank'')
     else Inr m)"

definition match_json :: "memory_match \<Rightarrow> json" where
  "match_json m = JObj [(''id'', JStr (str_uuid (mm_id (mt_record m)))), (''score'', JFloat (mt_score m))]"

definition search_memories :: "codec \<Rightarrow> 'w memory_manager \<Rightarrow> memory_query \<Rightarrow> ('w, memory_match list) run_task" where
  "search_memories cd my q = (case my_retriever my of
     None \<Rightarrow> praise (OtherError ''MemoryNotConfiguredError'' ''no memory retriever is configured'')
   | Some search \<Rightarrow> ptry (on_world (search q)) (\<lambda>r. case r of
       Inl e \<Rightarrow> if e = CancelledError then praise e
         else pthen (emit_event MEMORY_FAILED [(''error'', JStr (cd_str cd e))]) (praise e)
     | Inr found \<Rightarrow> let matches = take (nat (mq_limit q)) found in
         pthen (emit_event MEMORY_RETRIEVED [(''limit'', JInt (mq_limit q)), (''namespace'', opt_json JStr (mq_namespace q)),
           (''matches'', JList (map match_json matches))]) (pret matches)))"

definition initialize_memories :: "codec \<Rightarrow> 'w memory_manager \<Rightarrow> ('w, memory_match list) run_task" where
  "initialize_memories cd my = pbind pget (\<lambda>s.
     if rc_memory_initialized (rt_context s) then pret (rc_memories (rt_context s))
     else pthen (set_context (\<lambda>c. c\<lparr>rc_memory_initialized := True\<rparr>))
       (if my_retriever my = None then pret []
        else pbind (plift (construct valid_query \<lparr>mq_text = rc_input_text (rt_context s), mq_limit = my_limit my,
          mq_namespace = my_namespace my, mq_profile_id = Some (ap_id (rc_profile (rt_context s))),
          mq_run_id = Some (rc_run_id (rt_context s)), mq_filters = []\<rparr>)) (\<lambda>q.
        ptry (search_memories cd my q) (\<lambda>r. case r of
          Inl e \<Rightarrow> if e = CancelledError then praise e
            else pthen (set_context (\<lambda>c. c\<lparr>rc_memory_error := Some (cd_str cd e)\<rparr>))
              (if my_failure_mode my = RequiredMemory then praise e else pret [])
        | Inr matches \<Rightarrow> pthen (set_context (\<lambda>c. c\<lparr>rc_memories := matches, rc_memory_error := None\<rparr>)) (pret matches)))))"

text \<open>
  The lexical store. \<open>re.findall(r"\w+", value.casefold())\<close> on the code points a \<open>char\<close> can hold: U+00B5
  folds to a letter outside them, to which nothing else in the range folds, and stands for it here.
\<close>

definition casefold_char :: "char \<Rightarrow> string" where
  "casefold_char c = (let n = (of_char c :: nat) in
     if (65 \<le> n \<and> n \<le> 90) \<or> (192 \<le> n \<and> n \<le> 222 \<and> n \<noteq> 215) then [char_of (n + 32)]
     else if n = 223 then ''ss'' else [c])"

definition word_char :: "char \<Rightarrow> bool" where
  "word_char c \<longleftrightarrow> (let n = (of_char c :: nat) in
     ascii_alnum c \<or> n = 95 \<or> n \<in> {170, 178, 179, 181, 185, 186, 188, 189, 190} \<or> (192 \<le> n \<and> n \<noteq> 215 \<and> n \<noteq> 247))"

fun words_of :: "string \<Rightarrow> string \<Rightarrow> string list" where
  "words_of word [] = (if word = [] then [] else [word])"
| "words_of word (c # cs) = (if word_char c then words_of (word @ [c]) cs
     else if word = [] then words_of [] cs else word # words_of [] cs)"

definition tokens :: "string \<Rightarrow> string set" where
  "tokens s = set (words_of [] (concat (map casefold_char s)))"

type_synonym memory_store = "(uuid, memory_record) dict"

definition add_memory :: "memory_record \<Rightarrow> memory_store \<Rightarrow> memory_store" where
  "add_memory r st = dict_set (mm_id r) r st"

definition memory_candidate :: "memory_query \<Rightarrow> memory_record \<Rightarrow> bool" where
  "memory_candidate q r \<longleftrightarrow> (case mq_namespace q of None \<Rightarrow> True | Some n \<Rightarrow> mm_namespace r = n) \<and>
     list_all (\<lambda>(k, v). json_eq (case dict_get (mm_metadata r) k of None \<Rightarrow> JNull | Some j \<Rightarrow> j) v) (mq_filters q)"

definition memory_score :: "memory_query \<Rightarrow> memory_record \<Rightarrow> rat" where
  "memory_score q r = of_nat (card (tokens (mq_text q) \<inter> tokens (mm_content r))) / of_nat (card (tokens (mq_text q)))"

abbreviation ZeroDivisionError :: exn where
  "ZeroDivisionError \<equiv> OtherError ''ZeroDivisionError'' ''division by zero''"

fun score_records :: "memory_query \<Rightarrow> memory_record list \<Rightarrow> exn + memory_match list" where
  "score_records q [] = Inr []"
| "score_records q (r # rs) = (if \<not> memory_candidate q r then score_records q rs
     else if card (tokens (mq_text q)) = 0 then Inl ZeroDivisionError
     else rbind (score_records q rs) (\<lambda>ms. Inr (if 0 < memory_score q r then \<lparr>mt_record = r, mt_score = memory_score q r\<rparr> # ms else ms)))"

definition match_key :: "memory_match \<Rightarrow> rat \<times> int \<times> uuid" where
  "match_key m = (- mt_score m, - mm_created_at (mt_record m), mm_id (mt_record m))"

definition search_store :: "memory_query \<Rightarrow> memory_store \<Rightarrow> exn + memory_match list" where
  "search_store q st = rbind (score_records q (dict_values st)) (\<lambda>ms. Inr (take (nat (mq_limit q)) (sort_key match_key ms)))"

subsection \<open>What a tool may do to the segment\<close>

text \<open>
  While a tool runs it acts on the outside world and, through the managers of its context, on the
  resources, artifacts and memories of its run.
\<close>

inductive tool_action :: "codec \<Rightarrow> (bytes \<Rightarrow> string) \<Rightarrow> 'w memory_manager \<Rightarrow> 'w runtime \<Rightarrow> 'w runtime \<Rightarrow> bool"
  for cd :: codec and sha256 :: "bytes \<Rightarrow> string" and my :: "'w memory_manager" where
  act_world: "tool_action cd sha256 my s (s\<lparr>rt_world := w\<rparr>)"
| act_resource: "get_resource cd name expected s = (r, s') \<Longrightarrow> tool_action cd sha256 my s s'"
| act_artifact: "create_run_artifact cd sha256 name media payload metadata s = (r', s') \<Longrightarrow> tool_action cd sha256 my s s'"
| act_memory: "search_memories cd my q s = (r'', s') \<Longrightarrow> tool_action cd sha256 my s s'"

subsection \<open>The log of the run\<close>

definition run_log :: "'w runtime \<Rightarrow> (event_type \<times> jobj) list" where
  "run_log s = map (\<lambda>e. (en_type e, en_data e)) (log_of (rc_run_id (rt_context s)) (rt_events s))"

lemma emit_appends: "\<exists>e es'. emit k t data es = (Inr e, es') \<and> en_type e = t \<and> en_data e = data \<and>
   (\<forall>j. log_of j es' = (if j = k then log_of k es @ [e] else log_of j es))"
  by (auto simp: emit_def pbind_app uuid4_def utc_now_def log_of_def Let_def)

definition emitted :: "event_type \<Rightarrow> jobj \<Rightarrow> 'w runtime \<Rightarrow> 'w runtime" where
  "emitted t data s = s\<lparr>rt_events := snd (emit (rc_run_id (rt_context s)) t data (rt_events s))\<rparr>"

lemma emit_event_eq: "emit_event t data s = (Inr (), emitted t data s)"
  using emit_appends [of "rc_run_id (rt_context s)" t data "rt_events s"]
  by (auto simp: emit_event_def pbind_app on_events_def emitted_def)

lemma emitted_sel [simp]: "rt_context (emitted t data s) = rt_context s" "rt_runs (emitted t data s) = rt_runs s"
  "rt_content (emitted t data s) = rt_content s" "rt_checkpoints (emitted t data s) = rt_checkpoints s"
  "rt_conversations (emitted t data s) = rt_conversations s" "rt_ledger (emitted t data s) = rt_ledger s"
  "rt_scope (emitted t data s) = rt_scope s" "rt_world (emitted t data s) = rt_world s" "rt_turn (emitted t data s) = rt_turn s"
  by (simp_all add: emitted_def)

lemma run_log_emitted [simp]: "run_log (emitted t data s) = run_log s @ [(t, data)]"
  using emit_appends [of "rc_run_id (rt_context s)" t data "rt_events s"] by (auto simp: run_log_def emitted_def)

lemma run_log_frame [simp]: "run_log (s\<lparr>rt_scope := sc\<rparr>) = run_log s" "run_log (s\<lparr>rt_world := w\<rparr>) = run_log s"
  "run_log (s\<lparr>rt_content := x\<rparr>) = run_log s" "run_log (s\<lparr>rt_runs := y\<rparr>) = run_log s" "run_log (s\<lparr>rt_turn := n\<rparr>) = run_log s"
  "run_log (s\<lparr>rt_ledger := l\<rparr>) = run_log s" "run_log (s\<lparr>rt_checkpoints := cp\<rparr>) = run_log s"
  "run_log (s\<lparr>rt_conversations := cv\<rparr>) = run_log s"
  "rc_run_id c = rc_run_id (rt_context s) \<Longrightarrow> run_log (s\<lparr>rt_context := c\<rparr>) = run_log s"
  by (simp_all add: run_log_def)

lemmas task_eqs = pbind_app ptry_app on_context_def on_content_def on_world_def emit_event_eq Let_def

subsection \<open>Resources are released in reverse\<close>

definition acquire_names :: "(event_type \<times> jobj) list \<Rightarrow> json option list" where
  "acquire_names es = map (\<lambda>(t, d). dict_get d ''name'') (filter (\<lambda>(t, d). t = RESOURCE_ACQUIRED) es)"

definition release_names :: "(event_type \<times> jobj) list \<Rightarrow> json option list" where
  "release_names es = map (\<lambda>(t, d). dict_get d ''name'')
     (filter (\<lambda>(t, d). t = RESOURCE_RELEASED \<or> t = RESOURCE_FAILED \<and> dict_get d ''phase'' = Some (JStr ''release'')) es)"

lemma names_simps [simp]: "acquire_names [] = []" "release_names [] = []"
  "acquire_names (es @ es') = acquire_names es @ acquire_names es'" "release_names (es @ es') = release_names es @ release_names es'"
  by (simp_all add: acquire_names_def release_names_def)

definition scope_inv :: "nat \<Rightarrow> 'w runtime \<Rightarrow> bool" where
  "scope_inv n s \<longleftrightarrow> n \<le> length (run_log s) \<and> acquire_names (drop n (run_log s)) = map (\<lambda>x. Some (JStr x)) (sc_order (rt_scope s)) \<and>
     release_names (drop n (run_log s)) = [] \<and> dict_keys (sc_acquired (rt_scope s)) = sc_order (rt_scope s) \<and>
     distinct (sc_order (rt_scope s)) \<and> dict_all (\<lambda>k sp. sp_name sp = k) (sc_specs (rt_scope s))"

text \<open>An event that is neither an acquisition nor a release.\<close>

lemma scope_inv_frame:
  assumes "scope_inv n s" "rt_scope s' = (rt_scope s)\<lparr>sc_failures := fs\<rparr>" "run_log s' = run_log s @ es"
    "acquire_names es = []" "release_names es = []"
  shows "scope_inv n s'"
  using assms by (simp add: scope_inv_def)

lemma acquire_inv:
  assumes inv: "scope_inv n s" and new: "dict_get (sc_acquired (rt_scope s)) (sp_name sp) = None" and r: "acquire_resource cd sp s = (r, s')"
  shows "scope_inv n s'"
proof -
  obtain m w1 where f: "sp_factory sp (rt_context s) (rt_world s) = (m, w1)" by (cases "sp_factory sp (rt_context s) (rt_world s)")
  show ?thesis
  proof (cases m)
    case (Inl e)
    with r f have "s' = s\<lparr>rt_world := w1\<rparr>" by (simp add: acquire_resource_def task_eqs)
    with scope_inv_frame [OF inv, of s' "sc_failures (rt_scope s)" "[]"] show ?thesis by simp
  next
    case (Inr mgr)
    obtain v w2 where v: "rz_enter mgr w1 = (v, w2)" by (cases "rz_enter mgr w1")
    show ?thesis
    proof (cases v)
      case (Inl e)
      let ?f = "\<lparr>rf_name = sp_name sp, rf_phase = Acquire, rf_message = cd_str cd e\<rparr>"
      show ?thesis
      proof (cases "e = CancelledError")
        case True
        with r f \<open>m = Inr mgr\<close> v Inl have "s' = s\<lparr>rt_world := w2\<rparr>" by (simp add: acquire_resource_def task_eqs)
        with scope_inv_frame [OF inv, of s' "sc_failures (rt_scope s)" "[]"] show ?thesis by simp
      next
        case False
        with r f \<open>m = Inr mgr\<close> v Inl have "rt_scope s' = (rt_scope s)\<lparr>sc_failures := sc_failures (rt_scope s) @ [?f]\<rparr>"
          "run_log s' = run_log s @ [(RESOURCE_FAILED, failure_json ?f)]"
          by (auto simp: acquire_resource_def task_eqs emit_failure_def)
        from scope_inv_frame [OF inv this] show ?thesis by (simp add: acquire_names_def release_names_def failure_json_def)
      qed
    next
      case (Inr x)
      let ?a = "\<lparr>aq_manager = mgr, aq_value = x\<rparr>"
      have "sp_name sp \<notin> set (dict_keys (sc_acquired (rt_scope s)))" using new by (simp add: dict_get_keys)
      with inv have "sp_name sp \<notin> set (sc_order (rt_scope s))" by (simp add: scope_inv_def)
      moreover note \<open>sp_name sp \<notin> set (dict_keys _)\<close>
      moreover from r f \<open>m = Inr mgr\<close> v Inr have "run_log s' = run_log s @ [(RESOURCE_ACQUIRED, [(''name'', JStr (sp_name sp))])]"
        "rt_scope s' = (rt_scope s)\<lparr>sc_acquired := dict_set (sp_name sp) ?a (sc_acquired (rt_scope s)),
          sc_order := sc_order (rt_scope s) @ [sp_name sp]\<rparr>"
        by (auto simp: acquire_resource_def task_eqs)
      ultimately show ?thesis using inv by (simp add: scope_inv_def dict_set_new acquire_names_def release_names_def)
    qed
  qed
qed

lemma get_resource_inv:
  assumes inv: "scope_inv n s" and r: "get_resource cd name expected s = (r, s')"
  shows "scope_inv n s'"
proof (cases "sc_state (rt_scope s) \<noteq> ScopeActive \<or> dict_get (sc_acquired (rt_scope s)) name \<noteq> None \<or> dict_get (sc_specs (rt_scope s)) name = None")
  case True
  with r inv show ?thesis by (auto simp: get_resource_def task_eqs split: if_splits option.splits)
next
  case False
  then obtain sp where sp: "dict_get (sc_specs (rt_scope s)) name = Some sp" by auto
  with inv have nm: "sp_name sp = name" by (auto simp: scope_inv_def dest: dict_allD)
  obtain q s1 where q: "acquire_resource cd sp s = (q, s1)" by (cases "acquire_resource cd sp s")
  with False r sp have "s' = s1" by (cases q) (auto simp: get_resource_def pbind_app split: if_splits option.splits)
  with acquire_inv [OF inv _ q] False nm show ?thesis by auto
qed

lemma start_scope_inv:
  assumes inv: "scope_inv n s" and r: "start_scope cd s = (r, s')"
  shows "scope_inv n s'"
proof (cases "sc_state (rt_scope s) = ScopeCreated")
  case True
  have each: "scope_inv n t \<Longrightarrow> scope_inv n (snd (peach (\<lambda>sp. if sp_eager sp then pthen (get_resource cd (sp_name sp) None) (pret ()) else pret ()) sps t))"
    for t :: "'a runtime" and sps
  proof (induction sps arbitrary: t)
    case (Cons sp sps)
    obtain q t1 where q: "get_resource cd (sp_name sp) None t = (q, t1)" by (cases "get_resource cd (sp_name sp) None t")
    from get_resource_inv [OF Cons.prems q] Cons.IH Cons.prems q show ?case by (cases q) (auto simp: pbind_app)
  qed simp
  have "scope_inv n (s\<lparr>rt_scope := (rt_scope s)\<lparr>sc_state := ScopeActive\<rparr>\<rparr>)" using inv by (simp add: scope_inv_def)
  from each [OF this, of "dict_values (sc_specs (rt_scope s))"] r True show ?thesis by (simp add: start_scope_def pbind_app)
qed (use r inv in \<open>simp add: start_scope_def pbind_app\<close>)

lemma tool_action_inv: "tool_action cd sha256 my s s' \<Longrightarrow> scope_inv n s \<Longrightarrow> scope_inv n s'"
proof (induction rule: tool_action.induct)
  case (act_world s w)
  then show ?case by (simp add: scope_inv_def)
next
  case (act_resource name expected s r s')
  then show ?case by (blast intro: get_resource_inv)
next
  case (act_artifact name media payload metadata s r' s')
  then show ?case
    by (cases "create_artifact sha256 (rc_run_id (rt_context s)) name media payload metadata (rt_content s)")
      (auto simp: create_run_artifact_def task_eqs scope_inv_def acquire_names_def release_names_def split: sum.splits)
next
  case (act_memory q s r'' s')
  then show ?case
    by (cases "my_retriever my"; cases "the (my_retriever my) q (rt_world s)")
      (auto simp: search_memories_def task_eqs scope_inv_def acquire_names_def release_names_def Let_def split: sum.splits if_splits)
qed

interpretation resource_scopes: stable_property "tool_action cd sha256 my" "scope_inv n"
  by unfold_locales (rule tool_action_inv)

text \<open>The loop of \<open>close\<close>, for context managers whose exits are not interrupted.\<close>

definition exits_settle :: "'w resource_scope \<Rightarrow> bool" where
  "exits_settle sc \<longleftrightarrow> (\<forall>name a. dict_get (sc_acquired sc) name = Some a \<longrightarrow> (\<forall>err w. fst (rz_exit (aq_manager a) err w) \<noteq> Inl CancelledError))"

definition exit_world :: "'w resource_scope \<Rightarrow> exn option \<Rightarrow> string list \<Rightarrow> 'w \<Rightarrow> 'w" where
  "exit_world sc err names w = fold (\<lambda>name w. snd (rz_exit (aq_manager (the (dict_get (sc_acquired sc) name))) err w)) names w"

lemma same_failures: "\<exists>fs. sc = sc\<lparr>sc_failures := fs\<rparr>"
  by (rule exI [of _ "sc_failures sc"]) simp

lemma release_resource_ok:
  assumes a: "dict_get (sc_acquired (rt_scope s)) name = Some a" and ok: "exits_settle (rt_scope s)"
  shows "\<exists>s' fs e. release_resource cd err name s = (Inr (), s') \<and> rt_scope s' = (rt_scope s)\<lparr>sc_failures := fs\<rparr> \<and>
    run_log s' = run_log s @ [e] \<and> acquire_names [e] = [] \<and> release_names [e] = [Some (JStr name)] \<and>
    rt_world s' = exit_world (rt_scope s) err [name] (rt_world s) \<and> rt_context s' = rt_context s"
proof -
  obtain r w where w: "rz_exit (aq_manager a) err (rt_world s) = (r, w)" by (cases "rz_exit (aq_manager a) err (rt_world s)")
  with a ok have "r \<noteq> Inl CancelledError" unfolding exits_settle_def by (metis fst_conv)
  with a w show ?thesis
    by (cases r) (auto simp: release_resource_def task_eqs emit_failure_def failure_json_def acquire_names_def release_names_def exit_world_def same_failures)
qed

lemma release_all_ok:
  assumes "set names \<subseteq> set (dict_keys (sc_acquired (rt_scope s)))" "exits_settle (rt_scope s)"
  shows "\<exists>s' fs es. peach (release_resource cd err) names s = (Inr (), s') \<and> rt_scope s' = (rt_scope s)\<lparr>sc_failures := fs\<rparr> \<and>
    run_log s' = run_log s @ es \<and> acquire_names es = [] \<and> release_names es = map (\<lambda>x. Some (JStr x)) names \<and>
    rt_world s' = exit_world (rt_scope s) err names (rt_world s) \<and> rt_context s' = rt_context s"
  using assms
proof (induction names arbitrary: s)
  case Nil
  then show ?case by (intro exI [of _ s] exI [of _ "sc_failures (rt_scope s)"] exI [of _ "[]"]) (simp add: exit_world_def)
next
  case (Cons name names)
  from Cons.prems(1) obtain a where "dict_get (sc_acquired (rt_scope s)) name = Some a"
    using dict_get_keys [of "sc_acquired (rt_scope s)" name] by auto
  from release_resource_ok [OF this Cons.prems(2)] obtain s1 fs e where
    s1: "release_resource cd err name s = (Inr (), s1)" "rt_scope s1 = (rt_scope s)\<lparr>sc_failures := fs\<rparr>" "run_log s1 = run_log s @ [e]"
      "acquire_names [e] = []" "release_names [e] = [Some (JStr name)]" "rt_world s1 = exit_world (rt_scope s) err [name] (rt_world s)"
      "rt_context s1 = rt_context s" by blast
  have "set names \<subseteq> set (dict_keys (sc_acquired (rt_scope s1)))" "exits_settle (rt_scope s1)"
    using Cons.prems s1(2) by (simp_all add: exits_settle_def)
  from Cons.IH [OF this] obtain s2 gs es where
    s2: "peach (release_resource cd err) names s1 = (Inr (), s2)" "rt_scope s2 = (rt_scope s1)\<lparr>sc_failures := gs\<rparr>"
      "run_log s2 = run_log s1 @ es" "acquire_names es = []" "release_names es = map (\<lambda>x. Some (JStr x)) names"
      "rt_world s2 = exit_world (rt_scope s1) err names (rt_world s1)" "rt_context s2 = rt_context s1" by blast
  have "acquire_names (e # es) = []" "release_names (e # es) = Some (JStr name) # map (\<lambda>x. Some (JStr x)) names"
    using names_simps(3,4) [of "[e]" es] s1(4,5) s2(4,5) by simp_all
  with s1 s2 show ?case
    by (intro exI [of _ s2] exI [of _ gs] exI [of _ "e # es"]) (simp add: pbind_app exit_world_def)
qed

subsection \<open>Properties\<close>

text \<open>
  C39. Resources of a segment are released exactly once and in the reverse of the order in which they were
  acquired: whatever the factories do, whether starting succeeds or not, and whatever tools do in
  between, closing the scope calls the exits of exactly the acquired resources, latest first, reports
  each of them in the log, returns every failure and leaves nothing acquired, as long as no exit is itself
  interrupted by a cancellation of the task.
\<close>

theorem resources_released_in_reverse:
  assumes mk: "make_scope specs = Inr (rt_scope s0)" and start: "start_scope cd s0 = (r, s1)"
    and act: "(tool_action cd sha my)\<^sup>*\<^sup>* s1 s2" and exits: "exits_settle (rt_scope s2)"
    and not_closed: "sc_state (rt_scope s2) \<noteq> ScopeClosed"
  shows "\<exists>s3. close_scope cd err s2 = (Inr (sc_failures (rt_scope s3)), s3) \<and>
    release_names (drop (length (run_log s0)) (run_log s3)) = rev (acquire_names (drop (length (run_log s0)) (run_log s3))) \<and>
    rt_world s3 = exit_world (rt_scope s2) err (rev (sc_order (rt_scope s2))) (rt_world s2) \<and>
    acquire_names (drop (length (run_log s0)) (run_log s3)) = map (\<lambda>x. Some (JStr x)) (sc_order (rt_scope s2)) \<and>
    sc_state (rt_scope s3) = ScopeClosed \<and> sc_order (rt_scope s3) = [] \<and> sc_acquired (rt_scope s3) = []"
proof -
  let ?n = "length (run_log s0)" and ?o = "sc_order (rt_scope s2)"
  have "rt_scope s0 = \<lparr>sc_specs = map (\<lambda>sp. (sp_name sp, sp)) specs, sc_acquired = [], sc_order = [], sc_failures = [],
      sc_state = ScopeCreated\<rparr>" using mk by (simp add: make_scope_def split: if_splits)
  then have "scope_inv ?n s0" by (auto simp: scope_inv_def dict_all_def dest: map_of_SomeD)
  from resource_scopes.steps_stable [OF act start_scope_inv [OF this start]] have inv: "scope_inv ?n s2" .
  let ?t = "s2\<lparr>rt_scope := (rt_scope s2)\<lparr>sc_state := ScopeClosed\<rparr>\<rparr>"
  have "set (rev ?o) \<subseteq> set (dict_keys (sc_acquired (rt_scope ?t)))" "exits_settle (rt_scope ?t)"
    using inv exits by (simp_all add: scope_inv_def exits_settle_def)
  from release_all_ok [OF this, of cd err] obtain s3 fs es where
    s3: "peach (release_resource cd err) (rev ?o) ?t = (Inr (), s3)" "rt_scope s3 = (rt_scope ?t)\<lparr>sc_failures := fs\<rparr>"
      "run_log s3 = run_log s2 @ es" "acquire_names es = []" "release_names es = map (\<lambda>x. Some (JStr x)) (rev ?o)"
      "rt_world s3 = exit_world (rt_scope s2) err (rev ?o) (rt_world s2)" by (auto simp: exit_world_def)
  let ?u = "s3\<lparr>rt_scope := (rt_scope s3)\<lparr>sc_acquired := [], sc_order := []\<rparr>\<rparr>"
  have "close_scope cd err s2 = (Inr (sc_failures (rt_scope ?u)), ?u)" using not_closed s3(1) by (simp add: close_scope_def pbind_app)
  with inv s3 show ?thesis by (intro exI [of _ ?u]) (simp add: scope_inv_def rev_map)
qed

definition ex_manager :: "nat resource" where
  "ex_manager = \<lparr>rz_enter = (\<lambda>w. (Inr w, w + 1)), rz_exit = (\<lambda>err w. (Inr (), w * 10))\<rparr>"

definition ex_spec :: "string \<Rightarrow> nat resource_spec" where
  "ex_spec name = \<lparr>sp_name = name, sp_factory = (\<lambda>c w. (Inr ex_manager, w)), sp_eager = True\<rparr>"

definition ex_codec :: codec where
  "ex_codec = \<lparr>cd_str = exn_name, cd_attachment = (\<lambda>a. JStr (att_name a)), cd_artifact = (\<lambda>a. JStr (art_name a)), cd_plan = (\<lambda>_. JNull)\<rparr>"

definition ex_segment :: "nat runtime" where
  "ex_segment = \<lparr>rt_context = ex_runtime, rt_runs = ex_runs, rt_events = empty_events (\<lambda>n. int n) (\<lambda>n. n),
     rt_content = empty_content (\<lambda>n. int n) (\<lambda>n. n), rt_checkpoints = [], rt_conversations = None, rt_ledger = ex_ledger,
     rt_scope = \<lparr>sc_specs = [(''a'', ex_spec ''a''), (''b'', ex_spec ''b'')], sc_acquired = [], sc_order = [], sc_failures = [],
       sc_state = ScopeCreated\<rparr>, rt_world = 1, rt_turn = 0\<rparr>"

definition ex_memories :: "nat memory_manager" where
  "ex_memories = \<lparr>my_retriever = None, my_limit = 5, my_namespace = None, my_failure_mode = BestEffort\<rparr>"

theorem resources_released_in_reverse_witness:
  "\<exists>s3. close_scope ex_codec None (snd (start_scope ex_codec ex_segment)) = (Inr (sc_failures (rt_scope s3)), s3) \<and>
     release_names (run_log s3) = [Some (JStr ''b''), Some (JStr ''a'')] \<and> rt_world s3 = 300"
proof -
  let ?s1 = "snd (start_scope ex_codec ex_segment)"
  have mk: "make_scope [ex_spec ''a'', ex_spec ''b''] = Inr (rt_scope ex_segment)" by (simp add: make_scope_def ex_segment_def ex_spec_def)
  have s1: "sc_order (rt_scope ?s1) = [''a'', ''b'']" "sc_state (rt_scope ?s1) = ScopeActive" "rt_world ?s1 = 3"
    "map snd (sc_acquired (rt_scope ?s1)) = [\<lparr>aq_manager = ex_manager, aq_value = 1\<rparr>, \<lparr>aq_manager = ex_manager, aq_value = 2\<rparr>]"
    "dict_keys (sc_acquired (rt_scope ?s1)) = [''a'', ''b'']"
    by (simp_all add: start_scope_def get_resource_def acquire_resource_def task_eqs ex_segment_def ex_spec_def ex_manager_def)
  have all: "aq_manager a = ex_manager" if "dict_get (sc_acquired (rt_scope ?s1)) name = Some a" for name a
    using dict_get_in_values [OF that] s1(4) by auto
  have "exits_settle (rt_scope ?s1)" by (auto simp: exits_settle_def ex_manager_def dest: all)
  from resources_released_in_reverse [where err = None and sha = ex_sha and my = ex_memories,
      OF mk surjective_pairing rtranclp.rtrancl_refl this] s1(2)
  obtain s3 where s3: "close_scope ex_codec None ?s1 = (Inr (sc_failures (rt_scope s3)), s3)"
    "release_names (drop (length (run_log ex_segment)) (run_log s3)) = rev (acquire_names (drop (length (run_log ex_segment)) (run_log s3)))"
    "rt_world s3 = exit_world (rt_scope ?s1) None (rev (sc_order (rt_scope ?s1))) (rt_world ?s1)"
    "acquire_names (drop (length (run_log ex_segment)) (run_log s3)) = map (\<lambda>x. Some (JStr x)) (sc_order (rt_scope ?s1))"
    by auto
  have "run_log ex_segment = []" by (simp add: run_log_def log_of_def ex_segment_def empty_events_def)
  moreover obtain a b where "dict_get (sc_acquired (rt_scope ?s1)) ''a'' = Some a" "dict_get (sc_acquired (rt_scope ?s1)) ''b'' = Some b"
    using s1(5) by (metis dict_get_keys list.set_intros(1,2) not_None_eq)
  ultimately show ?thesis using s3 s1 all by (intro exI [of _ s3]) (auto simp: exit_world_def ex_manager_def)
qed

text \<open>The lexical search.\<close>

lemma score_records_eq: "card (tokens (mq_text q)) \<noteq> 0 \<Longrightarrow> score_records q rs =
   Inr (map (\<lambda>r. \<lparr>mt_record = r, mt_score = memory_score q r\<rparr>) (filter (\<lambda>r. memory_candidate q r \<and> 0 < memory_score q r) rs))"
  by (induction rs) auto

lemma score_records_wordless: "card (tokens (mq_text q)) = 0 \<Longrightarrow> list_ex (memory_candidate q) rs \<Longrightarrow>
   score_records q rs = Inl ZeroDivisionError"
  by (induction rs) auto

lemma finite_tokens [simp]: "finite (tokens s)"
  by (simp add: tokens_def)

lemma memory_score_le: "memory_score q r \<le> 1"
  by (simp add: memory_score_def divide_le_eq_1 card_mono card_gt_0_iff)

lemma take_sorted_least:
  assumes "x \<in> set xs" "x \<notin> set (take n (sort_key key xs))" "m \<in> set (take n (sort_key key xs))"
  shows "n < length xs \<and> key m \<le> key x"
proof -
  let ?s = "sort_key key xs"
  from assms(1,2) have x: "x \<in> set (drop n ?s)" by (metis append_take_drop_id Un_iff set_append set_sort)
  then have "n < length xs" by (cases "n < length xs") auto
  moreover have "sorted (map key (take n ?s) @ map key (drop n ?s))" by (metis append_take_drop_id map_append sorted_sort_key)
  ultimately show ?thesis using x assms(3) by (auto simp: sorted_append)
qed

text \<open>
  The lexical memory search is exact: for a query with at least one word it returns, best first in the
  order score, recency, id, at most \<open>limit\<close> of the records of the namespace that pass the filters and share
  a word with the query, with scores in the range (0, 1]; a matching record is left out only if the limit
  is used up by records that rank no lower.
\<close>

theorem memory_search_exact:
  assumes words: "tokens (mq_text q) \<noteq> {}" and v: "valid_query q"
  shows "\<exists>ms. search_store q st = Inr ms \<and> sorted (map match_key ms) \<and> int (length ms) \<le> mq_limit q \<and>
    (\<forall>m \<in> set ms. mt_record m \<in> set (dict_values st) \<and> memory_candidate q (mt_record m) \<and>
       tokens (mq_text q) \<inter> tokens (mm_content (mt_record m)) \<noteq> {} \<and> 0 < mt_score m \<and> mt_score m \<le> 1) \<and>
    (\<forall>r \<in> set (dict_values st). memory_candidate q r \<and> tokens (mq_text q) \<inter> tokens (mm_content r) \<noteq> {} \<longrightarrow>
       r \<in> mt_record ` set ms \<or> int (length ms) = mq_limit q \<and>
         (\<forall>m \<in> set ms. match_key m \<le> match_key \<lparr>mt_record = r, mt_score = memory_score q r\<rparr>))"
proof -
  let ?match = "\<lambda>r. \<lparr>mt_record = r, mt_score = memory_score q r\<rparr>"
  let ?xs = "map ?match (filter (\<lambda>r. memory_candidate q r \<and> 0 < memory_score q r) (dict_values st))"
  let ?ms = "take (nat (mq_limit q)) (sort_key match_key ?xs)"
  have c: "card (tokens (mq_text q)) \<noteq> 0" using words by simp
  have pos: "0 < memory_score q r \<longleftrightarrow> tokens (mq_text q) \<inter> tokens (mm_content r) \<noteq> {}" for r
    using c by (auto simp: memory_score_def zero_less_divide_iff card_gt_0_iff)
  have "search_store q st = Inr ?ms" using score_records_eq [OF c] by (simp add: search_store_def)
  moreover have "sorted (map match_key ?ms)" unfolding take_map [symmetric] by (intro sorted_wrt_take) (rule sorted_sort_key)
  moreover have "length ?ms \<le> nat (mq_limit q)" by simp
  then have "int (length ?ms) \<le> mq_limit q" using v unfolding valid_query_def by linarith
  moreover have "\<forall>m \<in> set ?ms. mt_record m \<in> set (dict_values st) \<and> memory_candidate q (mt_record m) \<and>
       tokens (mq_text q) \<inter> tokens (mm_content (mt_record m)) \<noteq> {} \<and> 0 < mt_score m \<and> mt_score m \<le> 1"
  proof
    fix m assume "m \<in> set ?ms"
    then have "m \<in> set ?xs" by (metis in_set_takeD set_sort)
    then obtain r where r: "m = ?match r" "r \<in> set (dict_values st)" "memory_candidate q r" "0 < memory_score q r" by auto
    with pos [of r] memory_score_le [of q r] show "mt_record m \<in> set (dict_values st) \<and> memory_candidate q (mt_record m) \<and>
       tokens (mq_text q) \<inter> tokens (mm_content (mt_record m)) \<noteq> {} \<and> 0 < mt_score m \<and> mt_score m \<le> 1" by simp
  qed
  moreover have "r \<in> mt_record ` set ?ms \<or> int (length ?ms) = mq_limit q \<and> (\<forall>m \<in> set ?ms. match_key m \<le> match_key (?match r))"
    if "r \<in> set (dict_values st)" "memory_candidate q r" "tokens (mq_text q) \<inter> tokens (mm_content r) \<noteq> {}" for r
  proof (cases "?match r \<in> set ?ms")
    case True
    then show ?thesis by force
  next
    case False
    have x: "?match r \<in> set ?xs" using that pos by auto
    show ?thesis
    proof (cases "?ms = []")
      case True
      have "min (length ?xs) (nat (mq_limit q)) = length ?ms" by simp
      also have "\<dots> = 0" unfolding True by simp
      finally show ?thesis using v length_pos_if_in_set [OF x] by (simp add: valid_query_def min_def split: if_splits)
    next
      case ne: False
      then obtain m where "m \<in> set ?ms" by (meson list.set_sel(1))
      from take_sorted_least [OF x False this] v have "int (length ?ms) = mq_limit q" by (simp add: valid_query_def)
      with take_sorted_least [OF x False] show ?thesis by blast
    qed
  qed
  ultimately show ?thesis by blast
qed

definition ex_record :: "uuid \<Rightarrow> string \<Rightarrow> memory_record" where
  "ex_record k text = \<lparr>mm_id = k, mm_content = text, mm_namespace = ''default'', mm_created_at = 0, mm_metadata = []\<rparr>"

definition ex_query :: "string \<Rightarrow> memory_query" where
  "ex_query text = \<lparr>mq_text = text, mq_limit = 5, mq_namespace = None, mq_profile_id = None, mq_run_id = None, mq_filters = []\<rparr>"

theorem memory_search_exact_witness:
  "\<exists>ms. search_store (ex_query ''red Fox'') [(1, ex_record 1 ''a fox''), (2, ex_record 2 ''dog'')] = Inr ms \<and>
     mt_record ` set ms \<subseteq> {ex_record 1 ''a fox''}"
proof -
  let ?q = "ex_query ''red Fox''" and ?st = "[(1, ex_record 1 ''a fox''), (2, ex_record 2 ''dog'')] :: memory_store"
  have t: "tokens (mq_text ?q) = {''red'', ''fox''}" "tokens (mm_content (ex_record 2 ''dog'')) = {''dog''}" by code_simp+
  have ne: "tokens (mq_text ?q) \<noteq> {}" and v: "valid_query ?q" by (simp add: t) code_simp
  obtain ms where ms: "search_store ?q ?st = Inr ms"
    "\<forall>m \<in> set ms. mt_record m \<in> set (dict_values ?st) \<and> memory_candidate ?q (mt_record m) \<and>
       tokens (mq_text ?q) \<inter> tokens (mm_content (mt_record m)) \<noteq> {} \<and> 0 < mt_score m \<and> mt_score m \<le> 1"
    using memory_search_exact [OF ne v, of ?st] by (elim exE conjE) (rule that; assumption)
  have d: "tokens (mq_text ?q) \<inter> tokens (mm_content (ex_record 2 ''dog'')) = {}" unfolding t by simp
  have "mt_record m = ex_record 1 ''a fox''" if "m \<in> set ms" for m
  proof -
    note m = bspec [OF ms(2) that]
    have "mt_record m = ex_record 1 ''a fox'' \<or> mt_record m = ex_record 2 ''dog''" using conjunct1 [OF m] by simp
    with m d show ?thesis by metis
  qed
  with ms(1) show ?thesis by blast
qed

text \<open>
  A query that passes validation but has no word divides by zero as soon as one record is
  considered: an input such as \<open>???\<close> makes the retrieval fail, and the run too where memory is required.
\<close>

theorem wordless_query_fails:
  assumes "tokens (mq_text q) = {}" and "r \<in> set (dict_values st)" "memory_candidate q r"
  shows "search_store q st = Inl ZeroDivisionError"
proof -
  have "list_ex (memory_candidate q) (dict_values st)" using assms(2,3) unfolding list_ex_iff by blast
  with assms(1) score_records_wordless show ?thesis by (simp add: search_store_def)
qed

theorem wordless_query_fails_witness:
  "valid_query (ex_query ''???'') \<and> search_store (ex_query ''???'') [(1, ex_record 1 ''a fox'')] = Inl ZeroDivisionError"
proof -
  have "tokens (mq_text (ex_query ''???'')) = {}" "memory_candidate (ex_query ''???'') (ex_record 1 ''a fox'')"
    "valid_query (ex_query ''???'')" by code_simp+
  with wordless_query_fails [of "ex_query ''???''" "ex_record 1 ''a fox''" "[(1, ex_record 1 ''a fox'')]"] show ?thesis by simp
qed

end
