(* ===== verification/Model_Tool.thy ===== *)
theory Model_Tool
  imports Scopes
begin

text \<open>
  One turn of an agent: \<open>orchestration/model_tool.py\<close> (ask the model, execute the tool calls it asks for,
  suspend for input, resume), \<open>orchestration/react.py\<close> on top of it, \<open>orchestration/protocol.py\<close> and
  \<open>runtime/persistence.py\<close>.

  The methods a subclass of \<open>ModelToolStrategy\<close> overrides are the record \<open>hooks\<close>. The model provider acts on
  the outside world. Other tasks act on the run store whenever this one awaits it (\<open>srv_others\<close>); they are
  where cancellation comes from. Logging has no effect on the state. The JSON of requests, responses,
  results and decisions, and the parsers that validate it again, are parameters. The \<open>tool_choice\<close> and
  \<open>metadata\<close> of a request keep their defaults.
\<close>

subsection \<open>Requests and services\<close>

record model_request =
  rq_messages :: "message list"
  rq_tools :: "tool_definition list"
  rq_model :: "string option"
  rq_attachments :: "attachment list"
  rq_memories :: "memory_match list"

definition valid_model_request :: "model_request \<Rightarrow> bool" where
  "valid_model_request r \<longleftrightarrow> rq_messages r \<noteq> []"

definition valid_response :: "model_response \<Rightarrow> bool" where
  "valid_response r \<longleftrightarrow> \<not> (mr_content r = None \<and> mr_tool_calls r = []) \<and> list_all valid_tool_call (mr_tool_calls r) \<and> valid_usage (mr_usage r)"

definition to_assistant_message :: "model_response \<Rightarrow> exn + message" where
  "to_assistant_message r = assistant_message (mr_content r) (mr_tool_calls r)"

record react_result =
  ra_success :: bool
  ra_result :: string
  ra_attachments :: "string list"

record wire =
  wr_request :: "model_request \<Rightarrow> jobj"
  wr_response :: "model_response \<Rightarrow> json"
  wr_decision :: "supervision_decision \<Rightarrow> jobj"
  wr_confirmation :: "tool_confirmation \<Rightarrow> json"
  wr_text :: "tool_result \<Rightarrow> string"
  wr_isoformat :: "timestamp \<Rightarrow> string"
  wr_parse_call :: "json \<Rightarrow> exn + tool_call"
  wr_parse_response :: "json \<Rightarrow> exn + model_response"
  wr_parse_result :: "json \<Rightarrow> exn + tool_result"
  wr_parse_confirmation :: "json \<Rightarrow> exn + tool_confirmation"
  wr_parse_request :: "json \<Rightarrow> exn + confirmation_request"
  wr_parse_text :: "string \<Rightarrow> exn + tool_result"
  wr_uuid :: "json \<Rightarrow> uuid option"
  wr_identity :: "tool_call \<Rightarrow> string"
  wr_uuid5 :: "string \<Rightarrow> uuid"
  wr_float_size :: "rat \<Rightarrow> nat"
  wr_loads :: "string \<Rightarrow> exn + json"
  wr_parse_react :: "json \<Rightarrow> exn + react_result"

record 'w services =
  srv_provider :: string
  srv_complete :: "model_request \<Rightarrow> ('w, exn, model_response) prog"
  srv_registry :: "'w runtime tool_registry option"
  srv_executor :: "'w runtime executor option"
  srv_supervisor :: supervisor
  srv_others :: "nat \<Rightarrow> run_store \<Rightarrow> run_store"
  srv_codec :: codec
  srv_wire :: wire

text \<open>An awaited operation of the run store: the other tasks act first.\<close>

definition on_runs :: "'w services \<Rightarrow> 'a run_prog \<Rightarrow> ('w, 'a) run_task" where
  "on_runs srv m s = (case m (srv_others srv (rt_turn s) (rt_runs s)) of (r, rs) \<Rightarrow>
     (r, s\<lparr>rt_runs := rs, rt_turn := Suc (rt_turn s)\<rparr>))"

subsection \<open>Persistence\<close>

definition pending_json :: "pending_input option \<Rightarrow> json" where
  "pending_json p = opt_json (\<lambda>p. JObj [(''tool_call_id'', JStr (pi_tool_call_id p)), (''tool_name'', JStr (pi_tool_name p)),
     (''prompt'', JStr (pi_prompt p)), (''metadata'', JObj (pi_metadata p))]) p"

definition memory_json :: "runtime_context \<Rightarrow> json" where
  "memory_json c = JObj [(''initialized'', JBool (rc_memory_initialized c)), (''error'', opt_json JStr (rc_memory_error c)),
     (''matches'', JList (map match_json (rc_memories c)))]"

definition snapshot_metadata :: "codec \<Rightarrow> runtime_context \<Rightarrow> jobj \<Rightarrow> jobj" where
  "snapshot_metadata cd c md = merge_metadata md
     ([(''pending_input'', pending_json (rc_pending_input c)), (''plan'', opt_json (cd_plan cd) (rc_plan c)),
       (''resource_failures'', JList (map (\<lambda>f. JObj (failure_json f)) (rc_resource_failures c))), (''memory'', memory_json c),
       (''model_calls'', JInt (int (length (rc_responses c)))), (''planning_requested'', JBool (rc_planning_requested c))] @
      (if rc_state c = Interrupted
       then [(''interruption'', JObj [(''source'', JStr ''asyncio_task_cancelled''), (''recoverable'', JBool False)])] else []))"

definition snapshot :: "codec \<Rightarrow> runtime_context \<Rightarrow> run \<Rightarrow> timestamp \<Rightarrow> run" where
  "snapshot cd c existing now = existing\<lparr>rn_status := rc_state c, rn_step_count := rc_step_count c,
     rn_tool_call_count := rc_tool_call_count c, rn_usage := rc_usage c, rn_output := rc_output c, rn_error := rc_error c,
     rn_attachments := rc_attachments c, rn_artifacts := rc_artifacts c, rn_metadata := snapshot_metadata cd c (rn_metadata existing),
     rn_updated_at := now\<rparr>"

definition save_context_snapshot :: "'w services \<Rightarrow> ('w, unit) run_task" where
  "save_context_snapshot srv = pbind pget (\<lambda>s. let c = rt_context s in
     pbind (on_runs srv (pbind (get_run (rc_run_id c)) (\<lambda>r. pbind utc_now (\<lambda>now. pret (r, now))))) (\<lambda>(existing, now).
     on_runs srv (save_run (snapshot (srv_codec srv) c existing now))))"

subsection \<open>The overridable methods\<close>

type_synonym tool_observation = "tool_call \<times> tool_result"

record 'w hooks =
  hk_before :: "('w, unit) run_task"
  hk_select :: "runtime_context \<Rightarrow> model_response \<Rightarrow> tool_call list"
  hk_actions :: "tool_call list \<Rightarrow> ('w, unit) run_task"
  hk_observed :: "tool_observation list \<Rightarrow> ('w, unit) run_task"
  hk_completed :: "model_response \<Rightarrow> bool \<Rightarrow> ('w, unit) run_task"
  hk_definitions :: "runtime_context \<Rightarrow> exn + tool_definition list"
  hk_complete :: "string \<Rightarrow> ('w, unit) run_task"
  hk_fail :: "string \<Rightarrow> ('w, unit) run_task"
  hk_wait :: "('w, unit) run_task"

text \<open>\<open>context.state_machine.transition_to\<close>.\<close>

definition enter_state :: "run_status \<Rightarrow> ('w, unit) run_task" where
  "enter_state target = on_context (pbind pget (\<lambda>c. pbind (plift (transition_to (rc_state c) target)) (\<lambda>st.
     pput (\<lambda>c. c\<lparr>rc_state := st\<rparr>))))"

definition complete_response :: "string \<Rightarrow> ('w, unit) run_task" where
  "complete_response content = pthen (set_context (\<lambda>c. c\<lparr>rc_output := Some content\<rparr>)) (enter_state Completed)"

definition fail_execution :: "string \<Rightarrow> ('w, unit) run_task" where
  "fail_execution err = pthen (set_context (\<lambda>c. c\<lparr>rc_error := Some err\<rparr>)) (pbind pget (\<lambda>s.
     if rc_state (rt_context s) = Running then enter_state Failed else pret ()))"

definition registered_definitions :: "'w services \<Rightarrow> runtime_context \<Rightarrow> exn + tool_definition list" where
  "registered_definitions srv c = (case srv_registry srv of None \<Rightarrow> Inr [] | Some reg \<Rightarrow> tool_definitions reg (rc_enabled_tools c))"

definition model_tool_hooks :: "'w services \<Rightarrow> 'w hooks" where
  "model_tool_hooks srv = \<lparr>hk_before = pret (), hk_select = (\<lambda>c r. mr_tool_calls r), hk_actions = (\<lambda>_. pret ()),
     hk_observed = (\<lambda>_. pret ()), hk_completed = (\<lambda>_ _. pret ()), hk_definitions = registered_definitions srv,
     hk_complete = complete_response, hk_fail = fail_execution, hk_wait = pret ()\<rparr>"

subsection \<open>One batch of tool calls\<close>

definition cancel_if_requested :: "'w services \<Rightarrow> ('w, bool) run_task" where
  "cancel_if_requested srv = pbind pget (\<lambda>s. pbind (on_runs srv (is_cancel_requested (rc_run_id (rt_context s)))) (\<lambda>b.
     if \<not> b then pret False
     else pthen (set_context (\<lambda>c. c\<lparr>rc_error := Some ''run cancellation requested''\<rparr>)) (pthen (enter_state Cancelled) (pret True))))"

definition call_json :: "tool_call \<Rightarrow> json" where
  "call_json call = JObj [(''id'', JStr (tc_id call)), (''name'', JStr (tc_name call)), (''arguments'', JObj (tc_arguments call))]"

abbreviation step_entry :: "'w runtime \<Rightarrow> string \<times> json" where
  "step_entry s \<equiv> (''step'', JInt (rc_step_count (rt_context s)))"

definition result_data :: "tool_call \<Rightarrow> tool_result \<Rightarrow> 'w runtime \<Rightarrow> jobj" where
  "result_data call r s = [step_entry s, (''call_id'', JStr (tc_id call)), (''result'', result_json r)]"

definition apply_decision :: "'w services \<Rightarrow> bool \<Rightarrow> supervision_decision \<Rightarrow> ('w, unit) run_task" where
  "apply_decision srv append_message d s = (case apply_supervision_decision (wr_decision (srv_wire srv)) append_message d
     (rt_context s, rt_events s) of (r, (c, es)) \<Rightarrow> (r, s\<lparr>rt_context := c, rt_events := es\<rparr>))"

definition append_tool_message :: "'w services \<Rightarrow> tool_call \<Rightarrow> tool_result \<Rightarrow> ('w, unit) run_task" where
  "append_tool_message srv call r = pbind (plift (tool_message (wr_text (srv_wire srv) r) (tc_id call))) (\<lambda>m.
     set_context (\<lambda>c. c\<lparr>rc_messages := rc_messages c @ [m]\<rparr>))"

definition blocked_result :: "tool_call \<Rightarrow> supervision_decision \<Rightarrow> tool_result" where
  "blocked_result call d = \<lparr>trs_tool_name = tc_name call, trs_status = TDenied, trs_data = JNull,
     trs_error_code = Some ''supervisor_intervention'', trs_message = sd_reason d\<rparr>"

text \<open>Before a call that is not yet confirmed: the supervisor may stop the run or block the call. \<open>True\<close> lets it execute.\<close>

definition block_call :: "'w services \<Rightarrow> tool_call \<Rightarrow> supervision_decision \<Rightarrow> ('w, unit) run_task" where
  "block_call srv call d =
     pthen (set_context (\<lambda>c. c\<lparr>rc_tool_call_count := rc_tool_call_count c + 1\<rparr>))
     (pthen (append_tool_message srv call (blocked_result call d))
     (pthen (case sd_message d of Some m \<Rightarrow> if m \<noteq> [] then set_context (\<lambda>c. c\<lparr>rc_messages := rc_messages c @ [system_message m]\<rparr>) else pret ()
         | None \<Rightarrow> pret ())
     (pthen (pbind pget (\<lambda>s. emit_event TOOL_FAILED (result_data call (blocked_result call d) s)))
     (save_context_snapshot srv))))"

definition admit_call :: "'w services \<Rightarrow> tool_call \<Rightarrow> ('w, bool) run_task" where
  "admit_call srv call = pbind pget (\<lambda>s. let call_data = [step_entry s, (''call'', call_json call)] in
     pthen (emit_event TOOL_REQUESTED call_data)
     (pbind (on_context (sv_before_tool (srv_supervisor srv) call)) (\<lambda>d.
      if sd_action d \<noteq> Continue
      then pthen (apply_decision srv False d)
        (if sd_action d = Stop then pret False else pthen (block_call srv call d) (pret False))
      else pthen (set_context (\<lambda>c. c\<lparr>rc_tool_call_count := rc_tool_call_count c + 1\<rparr>))
        (pthen (save_context_snapshot srv) (pthen (emit_event TOOL_STARTED call_data) (pret True))))))"

definition metadata_uuid :: "'w services \<Rightarrow> runtime_context \<Rightarrow> string \<Rightarrow> uuid option" where
  "metadata_uuid srv c key = (case dict_get (rc_run_metadata c) key of None \<Rightarrow> None | Some JNull \<Rightarrow> None
     | Some j \<Rightarrow> wr_uuid (srv_wire srv) j)"

text \<open>\<open>services.tool_executor or ToolExecutor(services.tool_registry or ToolRegistry())\<close>.\<close>

definition executor_of :: "'w services \<Rightarrow> 'w runtime executor" where
  "executor_of srv = (case srv_executor srv of Some ex \<Rightarrow> ex
     | None \<Rightarrow> \<lparr>tx_registry = (case srv_registry srv of None \<Rightarrow> [] | Some reg \<Rightarrow> reg), tx_recorder = None,
         tx_policy = declared_policy (wr_identity (srv_wire srv)) (wr_uuid5 (srv_wire srv)),
         tx_enforce = enforce (wr_float_size (srv_wire srv)) 262144, tx_str = cd_str (srv_codec srv)\<rparr>)"

text \<open>
  The executor, on the segment and the ledger. Its only loop is the recorder's, whose bound is never
  reached (theory \<open>Flow_Side_Effects\<close>).
\<close>

definition call_tool :: "'w services \<Rightarrow> tool_call \<Rightarrow> tool_confirmation option \<Rightarrow> ('w, tool_result) run_task" where
  "call_tool srv call confirmation s = (let c = rt_context s in
     case execute_tool (executor_of srv) call (ap_permissions (rc_profile c)) (Some (rc_enabled_tools c))
       (Some \<lparr>cx_run_id = rc_run_id c, cx_flow_run_id = metadata_uuid srv c ''flow_run_id'',
         cx_invocation_id = metadata_uuid srv c ''invocation_id'', cx_tool_call_id = Some (tc_id call), cx_idempotency_key = None,
         cx_confirmation = confirmation\<rparr>) (s, rt_ledger s) of
       Some (r, (s', l)) \<Rightarrow> (r, s'\<lparr>rt_ledger := l\<rparr>)
     | None \<Rightarrow> (Inl AssertionError, s))"

abbreviation batch_key :: string where
  "batch_key \<equiv> ''model_tool_suspended_action_batch''"

abbreviation decision_key :: string where
  "decision_key \<equiv> ''tool_confirmation_decision''"

definition batch_json :: "'w services \<Rightarrow> tool_call \<Rightarrow> tool_call list \<Rightarrow> tool_observation list \<Rightarrow> model_response \<Rightarrow> json" where
  "batch_json srv call rest observed response = JObj [(''waiting_call'', call_json call), (''remaining_calls'', JList (map call_json rest)),
     (''observations'', JList (map (\<lambda>(c, r). JObj [(''call'', call_json c), (''result'', result_json r)]) observed)),
     (''response'', wr_response (srv_wire srv) response)]"

fun json_get :: "json \<Rightarrow> string \<Rightarrow> json option" where
  "json_get (JObj d) k = dict_get d k"
| "json_get _ k = None"

fun json_object :: "json option \<Rightarrow> jobj option" where
  "json_object (Some (JObj d)) = Some d"
| "json_object _ = None"

text \<open>A tool that waits suspends the rest of the batch.\<close>

definition suspend_batch :: "'w services \<Rightarrow> 'w hooks \<Rightarrow> model_response \<Rightarrow> tool_observation list \<Rightarrow> tool_call \<Rightarrow> tool_call list \<Rightarrow>
    tool_result \<Rightarrow> ('w, unit) run_task" where
  "suspend_batch srv hk response observed call rest r =
     pthen (set_context (\<lambda>c. c\<lparr>rc_supervision := dict_set batch_key (batch_json srv call rest observed response) (rc_supervision c)\<rparr>))
     (case json_get (trs_data r) ''prompt'' of
       Some (JStr prompt) \<Rightarrow>
         if blank prompt then hk_fail hk (''tool '' @ quoted (tc_name call) @ '' returned an invalid input request'')
         else (let metadata = json_object (json_get (trs_data r) ''metadata'') in
           pbind (plift (construct valid_pending_input \<lparr>pi_tool_call_id = tc_id call, pi_tool_name = tc_name call, pi_prompt = prompt,
             pi_metadata = (case metadata of Some d \<Rightarrow> d | None \<Rightarrow> [])\<rparr>)) (\<lambda>p.
           pthen (set_context (\<lambda>c. c\<lparr>rc_pending_input := Some p\<rparr>))
           (pthen (enter_state Waiting)
           (pthen (case metadata of
               Some d \<Rightarrow> if dict_get d ''kind'' = Some (JStr ''tool_confirmation'')
                 then emit_event TOOL_CONFIRMATION_REQUESTED
                   [(''request_id'', case dict_get d ''request'' of Some (JObj q) \<Rightarrow> (case dict_get q ''id'' of Some j \<Rightarrow> j | None \<Rightarrow> JNull) | _ \<Rightarrow> JNull),
                    (''tool_call_id'', JStr (tc_id call)), (''tool_name'', JStr (tc_name call))]
                 else pret ()
             | None \<Rightarrow> pret ())
           (pthen (pbind pget (\<lambda>s. emit_event TOOL_WAITING (result_data call r s)))
           (pthen (hk_wait hk) (save_context_snapshot srv)))))))
     | _ \<Rightarrow> hk_fail hk (''tool '' @ quoted (tc_name call) @ '' returned an invalid input request''))"

text \<open>After a call that returned: its event, its message, the supervisor. \<open>True\<close> goes on with the batch.\<close>

definition observe_result :: "'w services \<Rightarrow> tool_call \<Rightarrow> tool_result \<Rightarrow> ('w, bool) run_task" where
  "observe_result srv call r =
     pthen (pbind pget (\<lambda>s. emit_event (if trs_status r = TSuccess then TOOL_COMPLETED else TOOL_FAILED) (result_data call r s)))
     (pthen (append_tool_message srv call r)
     (pbind (on_context (sv_after_tool (srv_supervisor srv) call r)) (\<lambda>d.
      if sd_action d \<noteq> Continue
      then pthen (apply_decision srv True d) (pthen (save_context_snapshot srv) (pret False))
      else pbind (cancel_if_requested srv) (\<lambda>b. pret (\<not> b)))))"

definition finish_batch :: "'w services \<Rightarrow> 'w hooks \<Rightarrow> model_response \<Rightarrow> tool_observation list \<Rightarrow> ('w, unit) run_task" where
  "finish_batch srv hk response observed = pthen (hk_observed hk observed) (pthen (hk_completed hk response True) (save_context_snapshot srv))"

fun execute_tool_batch :: "'w services \<Rightarrow> 'w hooks \<Rightarrow> model_response \<Rightarrow> (string, tool_confirmation) dict \<Rightarrow>
    tool_observation list \<Rightarrow> tool_call list \<Rightarrow> ('w, unit) run_task" where
  "execute_tool_batch srv hk response confirmations observed [] = finish_batch srv hk response observed"
| "execute_tool_batch srv hk response confirmations observed (call # rest) =
     pbind (cancel_if_requested srv) (\<lambda>stop. if stop then pret () else
     let confirmation = dict_get confirmations (tc_id call) in
     pbind (if confirmation = None then admit_call srv call else pret True) (\<lambda>go. if \<not> go then pret () else
     pbind (call_tool srv call confirmation) (\<lambda>r.
     if trs_status r = TWaiting then suspend_batch srv hk response observed call rest r
     else pbind (observe_result srv call r) (\<lambda>go. if \<not> go then pret ()
       else execute_tool_batch srv hk response confirmations (observed @ [(call, r)]) rest))))"

subsection \<open>Resuming a batch\<close>

abbreviation TypeError :: "string \<Rightarrow> exn" where
  "TypeError text \<equiv> OtherError ''TypeError'' text"

text \<open>Subscription and iteration of a JSON value.\<close>

definition subscript :: "json \<Rightarrow> string \<Rightarrow> exn + json" where
  "subscript j k = (case j of JObj d \<Rightarrow> (case dict_get d k of None \<Rightarrow> Inl KeyError | Some v \<Rightarrow> Inr v)
     | _ \<Rightarrow> Inl (TypeError ''not subscriptable by a string''))"

definition json_items :: "json \<Rightarrow> exn + json list" where
  "json_items j = (case j of JList js \<Rightarrow> Inr js | JObj d \<Rightarrow> Inr (map JStr (dict_keys d)) | JStr t \<Rightarrow> Inr (map (\<lambda>c. JStr [c]) t)
     | _ \<Rightarrow> Inl (TypeError ''not iterable''))"

fun parse_all :: "('a \<Rightarrow> exn + 'b) \<Rightarrow> 'a list \<Rightarrow> exn + 'b list" where
  "parse_all f [] = Inr []"
| "parse_all f (x # xs) = rbind (f x) (\<lambda>y. rbind (parse_all f xs) (\<lambda>ys. Inr (y # ys)))"

definition parse_observation :: "wire \<Rightarrow> json \<Rightarrow> exn + tool_observation" where
  "parse_observation w j = rbind (subscript j ''call'') (\<lambda>c. rbind (wr_parse_call w c) (\<lambda>call.
     rbind (subscript j ''result'') (\<lambda>r. rbind (wr_parse_result w r) (\<lambda>res. Inr (call, res)))))"

definition parse_batch :: "wire \<Rightarrow> json \<Rightarrow> exn + tool_call \<times> tool_call list \<times> model_response \<times> tool_observation list" where
  "parse_batch w raw = (case raw of
     JObj _ \<Rightarrow>
       rbind (rbind (subscript raw ''waiting_call'') (wr_parse_call w)) (\<lambda>call.
       rbind (rbind (subscript raw ''remaining_calls'') json_items) (\<lambda>js. rbind (parse_all (wr_parse_call w) js) (\<lambda>rest.
       rbind (rbind (subscript raw ''response'') (wr_parse_response w)) (\<lambda>response.
       rbind (rbind (subscript raw ''observations'') json_items) (\<lambda>os. rbind (parse_all (parse_observation w) os) (\<lambda>observed.
       Inr (call, rest, response, observed)))))))
   | _ \<Rightarrow> Inl (TypeError ''suspended action batch must be an object''))"

definition find_tool_result :: "wire \<Rightarrow> message list \<Rightarrow> string \<Rightarrow> exn + tool_result" where
  "find_tool_result w messages call_id =
     (case find (\<lambda>m. mg_tool_call_id m = Some call_id \<and> mg_content m \<noteq> None) (rev messages) of
       Some m \<Rightarrow> wr_parse_text w (the (mg_content m))
     | None \<Rightarrow> Inl (ValueError (''missing resumed ToolResult for call '' @ quoted call_id)))"

definition approves :: "tool_confirmation option \<Rightarrow> bool" where
  "approves confirmation \<longleftrightarrow> (case confirmation of Some c \<Rightarrow> tc_decision c = Approve | None \<Rightarrow> False)"

text \<open>The body of the \<open>try\<close>: the batch, the confirmation and, unless it approves, the result of the waiting call.\<close>

definition read_batch :: "wire \<Rightarrow> json \<Rightarrow> (tool_call \<times> tool_call list \<times> model_response \<times> tool_observation list \<times>
    tool_confirmation option \<times> tool_result option) context_prog" where
  "read_batch w raw = pbind (plift (parse_batch w raw)) (\<lambda>(call, rest, response, observed). pbind pget (\<lambda>c.
     let raw_confirmation = dict_get (rc_supervision c) decision_key in
     pthen (pput (\<lambda>c. c\<lparr>rc_supervision := dict_pop decision_key (rc_supervision c)\<rparr>))
     (pbind (case raw_confirmation of None \<Rightarrow> pret None | Some JNull \<Rightarrow> pret None
         | Some j \<Rightarrow> pbind (plift (wr_parse_confirmation w j)) (\<lambda>x. pret (Some x))) (\<lambda>confirmation.
      pbind (if approves confirmation then pret None
         else pbind (plift (find_tool_result w (rc_messages c) (tc_id call))) (\<lambda>r. pret (Some r))) (\<lambda>waiting.
      pret (call, rest, response, observed, confirmation, waiting))))))"

definition caught_in_batch :: "exn \<Rightarrow> bool" where
  "caught_in_batch e \<longleftrightarrow> e = KeyError \<or> is_value_error e \<or> exn_name e = ''TypeError''"

definition resume_action_batch :: "'w services \<Rightarrow> 'w hooks \<Rightarrow> ('w, bool) run_task" where
  "resume_action_batch srv hk = pbind pget (\<lambda>s. let raw = dict_get (rc_supervision (rt_context s)) batch_key in
     pthen (set_context (\<lambda>c. c\<lparr>rc_supervision := dict_pop batch_key (rc_supervision c)\<rparr>))
     (if raw = None \<or> raw = Some JNull then pret False
      else ptry (on_context (read_batch (srv_wire srv) (the raw))) (\<lambda>res. case res of
        Inl e \<Rightarrow> if caught_in_batch e
          then pthen (hk_fail hk (''invalid suspended action batch: '' @ cd_str (srv_codec srv) e)) (pret True) else praise e
      | Inr (call, rest, response, observed, confirmation, waiting) \<Rightarrow>
          if approves confirmation
          then pthen (execute_tool_batch srv hk response [(tc_id call, the confirmation)] observed (call # rest)) (pret True)
          else (case waiting of None \<Rightarrow> praise AssertionError
            | Some r \<Rightarrow> let observed' = observed @ [(call, r)] in
                if rest \<noteq> [] then pthen (execute_tool_batch srv hk response [] observed' rest) (pret True)
                else pthen (finish_batch srv hk response observed') (pret True)))))"

subsection \<open>One turn\<close>

definition model_request_of :: "tool_definition list \<Rightarrow> runtime_context \<Rightarrow> exn + model_request" where
  "model_request_of definitions c = construct valid_model_request \<lparr>rq_messages = rc_messages c, rq_tools = definitions,
     rq_model = ap_model (rc_profile c), rq_attachments = rc_attachments c, rq_memories = rc_memories c\<rparr>"

definition accept_response :: "'w services \<Rightarrow> model_response \<Rightarrow> ('w, unit) run_task" where
  "accept_response srv response =
     pthen (pbind pget (\<lambda>s. emit_event MODEL_RESPONDED [step_entry s, (''response'', wr_response (srv_wire srv) response)]))
     (pthen (set_context (\<lambda>c. c\<lparr>rc_responses := rc_responses c @ [response], rc_usage := add_usage (rc_usage c) (mr_usage response)\<rparr>))
     (pbind (plift (to_assistant_message response)) (\<lambda>m.
      pthen (set_context (\<lambda>c. c\<lparr>rc_messages := rc_messages c @ [m]\<rparr>)) (save_context_snapshot srv))))"

definition act_on_response :: "'w services \<Rightarrow> 'w hooks \<Rightarrow> model_response \<Rightarrow> ('w, unit) run_task" where
  "act_on_response srv hk response = pbind (cancel_if_requested srv) (\<lambda>stop. if stop then pret ()
     else if mr_tool_calls response = []
     then pthen (hk_completed hk response False) (hk_complete hk (case mr_content response of None \<Rightarrow> [] | Some t \<Rightarrow> t))
     else pbind pget (\<lambda>s. let calls = hk_select hk (rt_context s) response in
       pthen (hk_actions hk calls) (execute_tool_batch srv hk response [] [] calls)))"

definition advance_turn :: "'w services \<Rightarrow> 'w hooks \<Rightarrow> ('w, unit) run_task" where
  "advance_turn srv hk = pbind (resume_action_batch srv hk) (\<lambda>resumed. if resumed then pret () else
     pthen (set_context (\<lambda>c. c\<lparr>rc_step_count := rc_step_count c + 1\<rparr>))
     (pthen (hk_before hk)
     (pbind pget (\<lambda>s. pbind (plift (hk_definitions hk (rt_context s))) (\<lambda>definitions.
      pbind (plift (model_request_of definitions (rt_context s))) (\<lambda>request.
      pthen (emit_event MODEL_REQUESTED [step_entry s, (''request'', JObj (wr_request (srv_wire srv) request @
        [(''memories'', JList (map match_json (rq_memories request)))]))])
      (ptry (on_world (srv_complete srv request)) (\<lambda>res. case res of
        Inl e \<Rightarrow> if e = CancelledError then praise e
          else hk_fail hk (''model provider '' @ quoted (srv_provider srv) @ '' failed: '' @ cd_str (srv_codec srv) e)
      | Inr response \<Rightarrow> pthen (accept_response srv response) (act_on_response srv hk response)))))))))"

definition model_tool_advance :: "'w services \<Rightarrow> ('w, unit) run_task" where
  "model_tool_advance srv = advance_turn srv (model_tool_hooks srv)"

subsection \<open>ReAct\<close>

abbreviation react_key :: string where
  "react_key \<equiv> ''react_strategy''"

abbreviation plan_key :: string where
  "plan_key \<equiv> ''built_in_planning''"

abbreviation newline :: char where
  "newline \<equiv> CHR 0x0A"

fun join_with :: "string \<Rightarrow> string list \<Rightarrow> string" where
  "join_with sep [] = []"
| "join_with sep [t] = t"
| "join_with sep (t # ts) = t @ sep @ join_with sep ts"

definition react_instructions :: string where
  "react_instructions = join_with [newline] [
     ''Use an iterative ReAct process to complete the task.'',
     ''Analyze the current state, choose the necessary tool actions, observe their results, and repeat until the task is complete.'',
     ''Independent tool calls may be emitted in one action batch. Calls that depend on an earlier result must wait for a later iteration.'',
     ''Do not reveal private chain-of-thought. Tool calls express actions. When complete, return JSON only as {'' @ [CHR 0x22] @ ''success'' @ [CHR 0x22] @ '':true,'' @ [CHR 0x22] @ ''result'' @ [CHR 0x22] @ '':'' @ [CHR 0x22] @ ''final result'' @ [CHR 0x22] @ '','' @ [CHR 0x22] @ ''attachments'' @ [CHR 0x22] @ '':[]}.'']"

text \<open>\<open>str.strip\<close>, \<open>str.lstrip\<close> and \<open>str.splitlines\<close>.\<close>

definition lstrip :: "string \<Rightarrow> string" where
  "lstrip t = dropWhile py_space t"

definition strip :: "string \<Rightarrow> string" where
  "strip t = rev (lstrip (rev (lstrip t)))"

definition line_break :: "char \<Rightarrow> bool" where
  "line_break c \<longleftrightarrow> (of_char c :: nat) \<in> {10, 11, 12, 13, 28, 29, 30, 133}"

function lines_from :: "string \<Rightarrow> string \<Rightarrow> string list" where
  "lines_from line [] = (if line = [] then [] else [line])"
| "lines_from line (c # cs) = (if \<not> line_break c then lines_from (line @ [c]) cs
     else line # lines_from [] (if c = CHR 0x0D \<and> cs \<noteq> [] \<and> hd cs = newline then tl cs else cs))"
  by pat_completeness auto
termination
  by (relation "measure (\<lambda>(line, cs). length cs)") auto

abbreviation fence :: string where
  "fence \<equiv> replicate 3 (CHR 0x60)"

definition react_candidate :: "string \<Rightarrow> string" where
  "react_candidate content = (let candidate = strip content; lines = lines_from [] candidate in
     if take 3 candidate = fence \<and> 3 \<le> length lines \<and> strip (last lines) = fence
     then (let inner = join_with [newline] (butlast (tl lines)) in
       if take 4 (lstrip inner) = ''json'' then lstrip (drop 4 (lstrip inner)) else inner)
     else candidate)"

definition parse_react_result :: "wire \<Rightarrow> string \<Rightarrow> exn + react_result" where
  "parse_react_result w content = rbind (wr_loads w (react_candidate content)) (\<lambda>payload. case payload of
     JObj _ \<Rightarrow> wr_parse_react w payload | _ \<Rightarrow> Inl (TypeError ''ReAct response must be a JSON object''))"

definition react_json :: "react_result \<Rightarrow> json" where
  "react_json r = JObj [(''success'', JBool (ra_success r)), (''result'', JStr (ra_result r)),
     (''attachments'', JList (map JStr (ra_attachments r)))]"

text \<open>\<open>context.supervision_data[_STATE_KEY]\<close>, a dictionary that is changed in place.\<close>

definition react_state :: "runtime_context \<Rightarrow> exn + jobj" where
  "react_state c = (case dict_get (rc_supervision c) react_key of None \<Rightarrow> Inl KeyError | Some (JObj d) \<Rightarrow> Inr d
     | Some _ \<Rightarrow> Inl (OtherError ''AttributeError'' ''get''))"

definition put_react :: "string \<Rightarrow> json \<Rightarrow> ('w, unit) run_task" where
  "put_react k j = on_context (pbind pget (\<lambda>c. pbind (plift (react_state c)) (\<lambda>d.
     pput (\<lambda>c. c\<lparr>rc_supervision := dict_set react_key (JObj (dict_set k j d)) (rc_supervision c)\<rparr>))))"

definition react_event :: "event_type \<Rightarrow> jobj \<Rightarrow> ('w, unit) run_task" where
  "react_event t data = pbind pget (\<lambda>s. pbind (plift (react_state (rt_context s))) (\<lambda>d.
     emit_event t ((''iteration'', case dict_get d ''iteration'' of None \<Rightarrow> JInt 0 | Some j \<Rightarrow> j) # data)))"

definition react_before :: "('w, unit) run_task" where
  "react_before = pbind pget (\<lambda>s. pbind (plift (rbind (react_state (rt_context s)) (\<lambda>d. int_entry d ''iteration''))) (\<lambda>n.
     pthen (put_react ''iteration'' (JInt (n + 1))) (react_event REACT_ITERATION_STARTED [])))"

definition react_actions :: "tool_call list \<Rightarrow> ('w, unit) run_task" where
  "react_actions calls = react_event REACT_ACTION_BATCH_SELECTED
     [(''actions'', JList (map (\<lambda>c. JObj [(''call_id'', JStr (tc_id c)), (''tool_name'', JStr (tc_name c))]) calls))]"

definition react_observed :: "tool_observation list \<Rightarrow> ('w, unit) run_task" where
  "react_observed observed = react_event REACT_OBSERVATION_BATCH_RECORDED
     [(''observations'', JList (map (\<lambda>(c, r). JObj [(''call_id'', JStr (tc_id c)), (''tool_name'', JStr (tc_name c)),
        (''status'', JStr (status_value (trs_status r))), (''error_code'', opt_json JStr (trs_error_code r))]) observed))]"

definition react_completed :: "model_response \<Rightarrow> bool \<Rightarrow> ('w, unit) run_task" where
  "react_completed response had_actions = react_event REACT_ITERATION_COMPLETED
     [(''had_actions'', JBool had_actions), (''finish_reason'', opt_json JStr (mr_finish_reason response))]"

text \<open>\<open>except (ValueError, TypeError, json.JSONDecodeError)\<close>: the last is a \<open>ValueError\<close>.\<close>

definition react_complete :: "'w services \<Rightarrow> string \<Rightarrow> ('w, unit) run_task" where
  "react_complete srv content = (case parse_react_result (srv_wire srv) content of
     Inl e \<Rightarrow> if is_value_error e \<or> exn_name e = ''TypeError''
       then fail_execution (''model generated an invalid ReAct result: '' @ cd_str (srv_codec srv) e) else praise e
   | Inr r \<Rightarrow> pthen (put_react ''result'' (react_json r))
       (pthen (set_context (\<lambda>c. c\<lparr>rc_output := Some (ra_result r)\<rparr>)) (enter_state Completed)))"

definition react_hooks :: "'w services \<Rightarrow> 'w hooks" where
  "react_hooks srv = (model_tool_hooks srv)\<lparr>hk_before := react_before, hk_actions := react_actions, hk_observed := react_observed,
     hk_completed := react_completed, hk_complete := react_complete srv\<rparr>"

fun json_true :: "json option \<Rightarrow> bool" where
  "json_true None = False"
| "json_true (Some JNull) = False"
| "json_true (Some (JBool b)) = b"
| "json_true (Some (JInt i)) = (i \<noteq> 0)"
| "json_true (Some (JFloat x)) = (x \<noteq> 0)"
| "json_true (Some (JStr t)) = (t \<noteq> [])"
| "json_true (Some (JList js)) = (js \<noteq> [])"
| "json_true (Some (JObj d)) = (d \<noteq> [])"

definition add_react_prompt :: "'w services \<Rightarrow> ('w, unit) run_task" where
  "add_react_prompt srv = pbind pget (\<lambda>s. case rc_messages (rt_context s) of
     [] \<Rightarrow> praise IndexError
   | first # rest \<Rightarrow> (case mg_content first of
       None \<Rightarrow> praise (ValueError ''ReActStrategy requires a textual System Prompt'')
     | Some t \<Rightarrow> pthen (set_context (\<lambda>c. c\<lparr>rc_messages := system_message (t @ [newline, newline] @ react_instructions) # rest\<rparr>))
         (pthen (put_react ''prompt_added'' (JBool True)) (save_context_snapshot srv))))"

definition react_advance :: "'w services \<Rightarrow> int \<Rightarrow> ('w, unit) run_task" where
  "react_advance srv max_iterations =
     pthen (set_context (\<lambda>c. if dict_get (rc_supervision c) react_key = None
       then c\<lparr>rc_supervision := dict_set react_key (JObj [(''iteration'', JInt 0), (''prompt_added'', JBool False)]) (rc_supervision c)\<rparr> else c))
     (pbind pget (\<lambda>s. pbind (plift (react_state (rt_context s))) (\<lambda>d.
      pthen (if \<not> json_true (dict_get d ''prompt_added'') then add_react_prompt srv else pret ())
      (pbind pget (\<lambda>s. pbind (plift (rbind (react_state (rt_context s)) (\<lambda>d. int_entry d ''iteration''))) (\<lambda>n.
       if max_iterations \<le> n \<and> dict_get (rc_supervision (rt_context s)) batch_key = None
       then fail_execution (''ReAct iteration limit reached ('' @ str_int max_iterations @ '')'')
       else advance_turn srv (react_hooks srv)))))))"

end
