(* ===== verification/Turns.thy ===== *)
theory Turns
  imports Model_Tool
begin

text \<open>
  What a turn keeps. The locale \<open>turn_hooks\<close> states what the shared loop of \<open>ModelToolStrategy\<close> relies on from the
  methods a subclass overrides; the model-tool and the ReAct strategy interpret it. The results are about
  a segment of a run: its identity, its stored run, its log, its counters and its suspended batch.
\<close>

subsection \<open>Relations a program keeps\<close>

definition keeps :: "('s \<Rightarrow> 's \<Rightarrow> bool) \<Rightarrow> ('s, 'e, 'a) prog \<Rightarrow> bool" where
  "keeps R m \<longleftrightarrow> (\<forall>s. R s (snd (m s)))"

lemma keepsD: "keeps R m \<Longrightarrow> m s = (r, s') \<Longrightarrow> R s s'"
  by (metis keeps_def snd_conv)

locale kept_relation =
  fixes R :: "'s \<Rightarrow> 's \<Rightarrow> bool"
  assumes R_refl: "R s s" and R_trans: "R s s' \<Longrightarrow> R s' s'' \<Longrightarrow> R s s''"
begin

lemma basic: "keeps R (pret x)" "keeps R (praise e)" "keeps R (plift r)" "keeps R pget"
  by (simp_all add: keeps_def R_refl)

lemma bind:
  assumes m: "keeps R m" and f: "\<And>x. keeps R (f x)"
  shows "keeps R (pbind m f)"
  unfolding keeps_def
proof
  fix s
  obtain r s1 where r: "m s = (r, s1)" by (cases "m s")
  with m have s1: "R s s1" by (rule keepsD)
  show "R s (snd (pbind m f s))"
  proof (cases r)
    case (Inr x)
    with r have "snd (pbind m f s) = snd (f x s1)" by (simp add: pbind_app)
    with R_trans [OF s1] f show ?thesis by (simp add: keeps_def)
  qed (use r s1 in \<open>simp add: pbind_app\<close>)
qed

lemma each: "(\<And>x. keeps R (f x)) \<Longrightarrow> keeps R (peach f xs)"
  by (induction xs) (auto intro!: basic bind)

lemma leads: "keeps R m \<Longrightarrow> R s0 s \<Longrightarrow> m s = (r, s') \<Longrightarrow> R s0 s'"
  using keepsD R_trans by metis

end

abbreviation same_context :: "'w runtime \<Rightarrow> 'w runtime \<Rightarrow> bool" where
  "same_context s s' \<equiv> rt_context s' = rt_context s"

interpretation contexts: kept_relation same_context
  by unfold_locales simp_all

lemma same_context_emit: "keeps same_context (emit_event t d)" and same_context_runs: "keeps same_context (on_runs srv m)"
  by (simp_all add: keeps_def emit_event_eq on_runs_def split: prod.split)

lemma same_context_save: "keeps same_context (save_context_snapshot srv)"
  unfolding save_context_snapshot_def by (auto simp: Let_def case_prod_unfold intro!: contexts.basic contexts.bind same_context_runs)

subsection \<open>The invariant of a segment\<close>

text \<open>The store holds a run under its own id.\<close>

definition has_run :: "uuid \<Rightarrow> run_store \<Rightarrow> bool" where
  "has_run k rs \<longleftrightarrow> (\<exists>r. dict_get (rs_runs rs) k = Some r \<and> rn_id r = k)"

definition stored :: "uuid \<Rightarrow> 'w runtime \<Rightarrow> bool" where
  "stored k s \<longleftrightarrow> has_run k (rt_runs s)"

definition quiet_log :: "(event_type \<times> jobj) list \<Rightarrow> (event_type \<times> jobj) list \<Rightarrow> bool" where
  "quiet_log l l' \<longleftrightarrow> (\<exists>es. l' = l @ es \<and> list_all (\<lambda>(t, d). t \<notin> set terminal_types) es)"

definition suspended :: "'w runtime \<Rightarrow> bool" where
  "suspended s \<longleftrightarrow> dict_get (rc_supervision (rt_context s)) batch_key \<noteq> None"

text \<open>Resources whose exits are not interrupted, now and when they are acquired later.\<close>

definition settles :: "'w resource \<Rightarrow> bool" where
  "settles m \<longleftrightarrow> (\<forall>err w. fst (rz_exit m err w) \<noteq> Inl CancelledError)"

definition calm :: "'w resource_scope \<Rightarrow> bool" where
  "calm sc \<longleftrightarrow> (\<forall>k a. dict_get (sc_acquired sc) k = Some a \<longrightarrow> settles (aq_manager a)) \<and>
     (\<forall>k sp c w m. dict_get (sc_specs sc) k = Some sp \<longrightarrow> fst (sp_factory sp c w) = Inr m \<longrightarrow> settles m) \<and>
     set (sc_order sc) \<subseteq> set (dict_keys (sc_acquired sc))"

text \<open>An error of the context is never a blank text: plans refuse blank errors.\<close>

lemma visible [simp]: "\<not> py_space (CHR ''m'')" "\<not> py_space (CHR ''t'')" "\<not> py_space (CHR ''i'')" "\<not> py_space (CHR ''R'')"
  "\<not> py_space (CHR ''r'')" "\<not> py_space (CHR ''o'')" "\<not> py_space (CHR ''p'')" "\<not> py_space (CHR ''e'')"
  "\<not> py_space (CHR ''c'')" "\<not> py_space (CHR ''s'')"
  by code_simp+

lemma blank_Cons [simp]: "blank (c # cs) \<longleftrightarrow> py_space c \<and> blank cs"
  by (simp add: blank_def)

definition clear_text :: "string option \<Rightarrow> bool" where
  "clear_text e \<longleftrightarrow> (\<forall>t. e = Some t \<longrightarrow> t = [] \<or> \<not> blank t)"

definition seg :: "'w runtime \<Rightarrow> 'w runtime \<Rightarrow> bool" where
  "seg s0 s \<longleftrightarrow> rc_run_id (rt_context s) = rc_run_id (rt_context s0) \<and> rc_profile (rt_context s) = rc_profile (rt_context s0) \<and>
     rc_conversation_id (rt_context s) = rc_conversation_id (rt_context s0) \<and> rt_conversations s = rt_conversations s0 \<and>
     rt_checkpoints s = rt_checkpoints s0 \<and> quiet_log (run_log s0) (run_log s) \<and> stored (rc_run_id (rt_context s0)) s \<and> rc_state (rt_context s) \<noteq> Created \<and>
     (rc_state (rt_context s) = Waiting \<longrightarrow> rc_pending_input (rt_context s) \<noteq> None) \<and> calm (rt_scope s) \<and> 0 \<le> rc_step_count (rt_context s) \<and>
     0 \<le> rc_tool_call_count (rt_context s) \<and> rc_tool_call_count (rt_context s) \<le> ap_max_tool_calls (rc_profile (rt_context s0)) \<and>
     clear_text (rc_error (rt_context s))"

definition view :: "'w runtime \<Rightarrow> run_status \<times> int \<times> bool" where
  "view s = (rc_state (rt_context s), rc_step_count (rt_context s), suspended s)"

text \<open>Programs that change neither the view nor the invariant.\<close>

definition steady :: "('w, 'a) run_task \<Rightarrow> bool" where
  "steady m \<longleftrightarrow> (\<forall>s0 s. seg s0 s \<longrightarrow> seg s0 (snd (m s)) \<and> view (snd (m s)) = view s)"

lemma quiet_log_refl [simp]: "quiet_log l l"
  by (simp add: quiet_log_def)

lemma quiet_log_snoc: "quiet_log l l' \<Longrightarrow> t \<notin> set terminal_types \<Longrightarrow> quiet_log l (l' @ [(t, d)])"
  by (auto simp: quiet_log_def)

lemma quiet_types [simp]: "RUN_CREATED \<notin> set terminal_types" "RUN_STARTED \<notin> set terminal_types" "RUN_RESUMED \<notin> set terminal_types"
  "SKILL_SELECTED \<notin> set terminal_types" "SKILL_LOADED \<notin> set terminal_types" "MODEL_REQUESTED \<notin> set terminal_types"
  "MODEL_RESPONDED \<notin> set terminal_types" "TOOL_REQUESTED \<notin> set terminal_types" "TOOL_STARTED \<notin> set terminal_types"
  "TOOL_COMPLETED \<notin> set terminal_types" "TOOL_FAILED \<notin> set terminal_types" "TOOL_WAITING \<notin> set terminal_types"
  "TOOL_CONFIRMATION_REQUESTED \<notin> set terminal_types" "TOOL_CONFIRMATION_DECIDED \<notin> set terminal_types"
  "INPUT_RECEIVED \<notin> set terminal_types" "PLAN_CREATED \<notin> set terminal_types" "REACT_ITERATION_STARTED \<notin> set terminal_types"
  "REACT_ACTION_BATCH_SELECTED \<notin> set terminal_types" "REACT_OBSERVATION_BATCH_RECORDED \<notin> set terminal_types"
  "REACT_ITERATION_COMPLETED \<notin> set terminal_types" "RESOURCE_ACQUIRED \<notin> set terminal_types" "RESOURCE_RELEASED \<notin> set terminal_types"
  "RESOURCE_FAILED \<notin> set terminal_types" "ATTACHMENT_ADDED \<notin> set terminal_types" "ARTIFACT_CREATED \<notin> set terminal_types"
  "MEMORY_RETRIEVED \<notin> set terminal_types" "MEMORY_FAILED \<notin> set terminal_types" "SUPERVISOR_INTERVENED \<notin> set terminal_types"
  by (simp_all add: terminal_types_def permanent_terminal_types_def)

lemma steadyI: "(\<And>s0 s r s'. seg s0 s \<Longrightarrow> m s = (r, s') \<Longrightarrow> seg s0 s' \<and> view s' = view s) \<Longrightarrow> steady m"
  by (simp add: steady_def) (metis prod.collapse)

lemma steadyD: "steady m \<Longrightarrow> seg s0 s \<Longrightarrow> m s = (r, s') \<Longrightarrow> seg s0 s' \<and> view s' = view s"
  by (metis snd_conv steady_def)

lemma steady_leads: "steady m \<Longrightarrow> leads (\<lambda>s. seg s0 s \<and> P (view s)) m (\<lambda>_ s. seg s0 s \<and> P (view s)) (\<lambda>_ s. seg s0 s \<and> P (view s))"
  by (rule leadsI) (auto dest: steadyD)

named_theorems steady_rules \<open>programs that keep the invariant of a segment and its view\<close>

lemma steady_basic [steady_rules]: "steady (pret x)" "steady (praise e)" "steady (plift r)" "steady pget"
  by (simp_all add: steady_def)

lemma steady_bind [steady_rules]:
  assumes "steady m" "\<And>x. steady (f x)"
  shows "steady (pbind m f)"
proof (rule steadyI)
  fix s0 s r s' assume s: "seg s0 s" and r: "pbind m f s = (r, s')"
  obtain x s1 where m: "m s = (x, s1)" by (cases "m s")
  with steadyD [OF assms(1) s] have s1: "seg s0 s1 \<and> view s1 = view s" by blast
  show "seg s0 s' \<and> view s' = view s"
  proof (cases x)
    case (Inl e)
    with r m s1 show ?thesis by (simp add: pbind_app)
  next
    case (Inr y)
    with r m have "f y s1 = (r, s')" by (simp add: pbind_app)
    from steadyD [OF assms(2) conjunct1 [OF s1] this] s1 show ?thesis by simp
  qed
qed

lemma steady_try [steady_rules]:
  assumes "steady m" "\<And>r. steady (h r)"
  shows "steady (ptry m h)"
proof (rule steadyI)
  fix s0 s r s' assume s: "seg s0 s" and r: "ptry m h s = (r, s')"
  obtain x s1 where m: "m s = (x, s1)" by (cases "m s")
  with steadyD [OF assms(1) s] have s1: "seg s0 s1 \<and> view s1 = view s" by blast
  from r m have "h x s1 = (r, s')" by (simp add: ptry_app)
  from steadyD [OF assms(2) conjunct1 [OF s1] this] s1 show "seg s0 s' \<and> view s' = view s" by simp
qed

lemma steady_get: "(\<And>s. steady (f s)) \<Longrightarrow> steady (pbind pget f)"
  by (intro steady_rules)

lemma steady_peach [steady_rules]: "(\<And>x. steady (f x)) \<Longrightarrow> steady (peach f xs)"
  by (induction xs) (auto intro!: steady_rules)

lemma seg_emitted: "seg s0 s \<Longrightarrow> t \<notin> set terminal_types \<Longrightarrow> seg s0 (emitted t d s)"
  by (simp add: seg_def stored_def quiet_log_snoc)

lemma view_emitted [simp]: "view (emitted t d s) = view s"
  by (simp add: view_def suspended_def)

lemma steady_emit [steady_rules]: "t \<notin> set terminal_types \<Longrightarrow> steady (emit_event t d)"
  by (simp add: steady_def emit_event_eq seg_emitted)

lemma seg_frame [simp]: "seg s0 (s\<lparr>rt_ledger := l\<rparr>) = seg s0 s" "view (s\<lparr>rt_ledger := l\<rparr>) = view s"
  "view (s\<lparr>rt_scope := sc\<rparr>) = view s"
  by (simp_all add: seg_def stored_def view_def suspended_def)

lemma steady_world [steady_rules]: "steady (on_world m)"
  by (rule steadyI) (auto simp: on_world_def seg_def stored_def view_def suspended_def split: prod.splits)

lemma steady_content [steady_rules]: "steady (on_content m)"
  by (rule steadyI) (auto simp: on_content_def seg_def stored_def view_def suspended_def split: prod.splits)

lemma steady_scope: "(\<And>sc. calm sc \<Longrightarrow> calm (f sc)) \<Longrightarrow> steady (pput (\<lambda>s. s\<lparr>rt_scope := f (rt_scope s)\<rparr>))"
  by (rule steadyI) (auto simp: seg_def stored_def view_def suspended_def)

text \<open>Changes of the context that the invariant does not mention.\<close>

definition plain_change :: "(runtime_context \<Rightarrow> runtime_context) \<Rightarrow> bool" where
  "plain_change f \<longleftrightarrow> (\<forall>c. rc_run_id (f c) = rc_run_id c \<and> rc_profile (f c) = rc_profile c \<and> rc_conversation_id (f c) = rc_conversation_id c \<and>
     rc_state (f c) = rc_state c \<and> rc_step_count (f c) = rc_step_count c \<and> rc_tool_call_count (f c) = rc_tool_call_count c \<and>
     rc_pending_input (f c) = rc_pending_input c \<and> dict_get (rc_supervision (f c)) batch_key = dict_get (rc_supervision c) batch_key \<and>
     (clear_text (rc_error c) \<longrightarrow> clear_text (rc_error (f c))))"

lemma seg_context:
  assumes "seg s0 s" "rc_run_id c = rc_run_id (rt_context s)" "rc_profile c = rc_profile (rt_context s)"
    "rc_conversation_id c = rc_conversation_id (rt_context s)" "rc_state c = rc_state (rt_context s)"
    "rc_step_count c = rc_step_count (rt_context s)" "rc_tool_call_count c = rc_tool_call_count (rt_context s)"
    "rc_pending_input c = rc_pending_input (rt_context s)"
    "dict_get (rc_supervision c) batch_key = dict_get (rc_supervision (rt_context s)) batch_key"
    "clear_text (rc_error (rt_context s)) \<longrightarrow> clear_text (rc_error c)"
  shows "seg s0 (s\<lparr>rt_context := c\<rparr>)" "view (s\<lparr>rt_context := c\<rparr>) = view s"
  using assms by (simp_all add: seg_def stored_def view_def suspended_def)

lemma steady_context: "plain_change f \<Longrightarrow> steady (set_context f)"
  by (simp add: steady_def on_context_def plain_change_def seg_context)

lemma plain_changes [steady_rules]:
  "steady (set_context (\<lambda>c. c\<lparr>rc_messages := g c\<rparr>))" "steady (set_context (\<lambda>c. c\<lparr>rc_plan := p\<rparr>))"
  "steady (set_context (\<lambda>c. c\<lparr>rc_output := e\<rparr>))" "steady (set_context (\<lambda>c. c\<lparr>rc_artifacts := a c\<rparr>))"
  "steady (set_context (\<lambda>c. c\<lparr>rc_responses := rs c, rc_usage := u c\<rparr>))" "steady (set_context (\<lambda>c. c\<lparr>rc_memory_initialized := b\<rparr>))"
  "steady (set_context (\<lambda>c. c\<lparr>rc_memory_error := e\<rparr>))" "steady (set_context (\<lambda>c. c\<lparr>rc_memories := ms, rc_memory_error := e\<rparr>))"
  "steady (set_context (\<lambda>c. c\<lparr>rc_provider_name := e\<rparr>))" "steady (set_context (\<lambda>c. c\<lparr>rc_resource_failures := fs c\<rparr>))"
  by (rule steady_context, simp add: plain_change_def)+

lemma steady_error [steady_rules]: "\<not> blank t \<Longrightarrow> steady (set_context (\<lambda>c. c\<lparr>rc_error := Some t\<rparr>))"
  by (rule steady_context) (simp add: plain_change_def clear_text_def)

lemma clear_text_None [simp]: "clear_text None"
  by (simp add: clear_text_def)

subsection \<open>Managers, stores and tools\<close>

lemma calm_updates [simp]: "calm (sc\<lparr>sc_failures := fs\<rparr>) = calm sc" "calm (sc\<lparr>sc_state := st\<rparr>) = calm sc"
  by (simp_all add: calm_def)

lemma calm_acquired:
  assumes "calm sc" "settles (aq_manager a)"
  shows "calm (sc\<lparr>sc_acquired := dict_set k a (sc_acquired sc), sc_order := sc_order sc @ [k]\<rparr>)"
  using assms by (auto simp: calm_def dict_keys_set [simplified])

lemma steady_record_failure [steady_rules]: "steady (record_failure f)"
  unfolding emit_failure_def by (intro steady_rules steady_scope) simp_all

lemma steady_enter: "settles m \<Longrightarrow> steady (ptry (on_world (rz_enter m)) (\<lambda>r. case r of
    Inl e \<Rightarrow> if e = CancelledError then praise e
      else pthen (record_failure \<lparr>rf_name = sp_name sp, rf_phase = Acquire, rf_message = cd_str cd e\<rparr>)
        (praise (OtherError ''ResourceAcquisitionError'' (''failed to acquire resource '' @ quoted (sp_name sp) @ '': '' @ cd_str cd e)))
  | Inr v \<Rightarrow>
      let a = \<lparr>aq_manager = m, aq_value = v\<rparr> in
      pthen (set_scope (\<lambda>sc. sc\<lparr>sc_acquired := dict_set (sp_name sp) a (sc_acquired sc), sc_order := sc_order sc @ [sp_name sp]\<rparr>))
      (pthen (emit_event RESOURCE_ACQUIRED [(''name'', JStr (sp_name sp))]) (pret a))))"
  by (intro steady_rules) (auto simp: Let_def intro!: steady_rules steady_scope calm_acquired split: sum.split)

lemma acquire_keeps:
  assumes s: "seg s0 s" and sp: "dict_get (sc_specs (rt_scope s)) k = Some sp" and r: "acquire_resource cd sp s = (r, s')"
  shows "seg s0 s' \<and> view s' = view s"
proof -
  obtain q s1 where q: "on_world (sp_factory sp (rt_context s)) s = (q, s1)" by (cases "on_world (sp_factory sp (rt_context s)) s")
  from steadyD [OF steady_world s q] have s1: "seg s0 s1" "view s1 = view s" by auto
  show ?thesis
  proof (cases q)
    case (Inl e)
    with r q s1 show ?thesis by (simp add: acquire_resource_def pbind_app)
  next
    case (Inr m)
    with q have "fst (sp_factory sp (rt_context s) (rt_world s)) = Inr m" by (auto simp: on_world_def split: prod.splits)
    with s sp have "settles m" unfolding seg_def calm_def by blast
    from steadyD [OF steady_enter [OF this, of sp cd] s1(1)] r q Inr s1(2) show ?thesis by (simp add: acquire_resource_def pbind_app)
  qed
qed

lemma steady_get_resource [steady_rules]: "steady (get_resource cd name expected)"
proof (rule steadyI)
  fix s0 s r s' assume s: "seg s0 s" and r: "get_resource cd name expected s = (r, s')"
  show "seg s0 s' \<and> view s' = view s"
  proof (cases "sc_state (rt_scope s) \<noteq> ScopeActive \<or> dict_get (sc_acquired (rt_scope s)) name \<noteq> None \<or> dict_get (sc_specs (rt_scope s)) name = None")
    case True
    with r s show ?thesis by (auto simp: get_resource_def task_eqs split: if_splits option.splits)
  next
    case False
    then obtain sp where sp: "dict_get (sc_specs (rt_scope s)) name = Some sp" by auto
    obtain q s1 where q: "acquire_resource cd sp s = (q, s1)" by (cases "acquire_resource cd sp s")
    with False r sp have "s' = s1" by (cases q) (auto simp: get_resource_def pbind_app split: if_splits option.splits)
    with acquire_keeps [OF s sp q] show ?thesis by simp
  qed
qed

lemma steady_artifact [steady_rules]: "steady (create_run_artifact cd sha name media payload metadata)"
  unfolding create_run_artifact_def by (intro steady_rules) simp

lemma steady_search [steady_rules]: "steady (search_memories cd my q)"
  unfolding search_memories_def
  by (cases "my_retriever my"; simp; intro steady_rules; simp add: Let_def split: sum.split; intro allI impI conjI steady_rules; simp)

lemma tool_action_steady: "tool_action cd sha my s s' \<Longrightarrow> seg s0 s \<Longrightarrow> seg s0 s' \<and> view s' = view s"
proof (induction rule: tool_action.induct)
  case (act_world s w)
  then show ?case by (simp add: seg_def stored_def view_def suspended_def)
qed (blast dest: steadyD [OF steady_get_resource] steadyD [OF steady_artifact] steadyD [OF steady_search])+

interpretation segments: stable_property "tool_action cd sha my" "\<lambda>s. seg s0 s \<and> view s = v"
  by unfold_locales (auto dest: tool_action_steady)

lemma steady_start: "steady (start_scope cd)"
  unfolding start_scope_def by (rule steady_get) (auto intro!: steady_rules steady_scope)

lemma steady_initialize: "steady (initialize_memories cd my)"
  unfolding initialize_memories_def by (rule steady_get) (auto intro!: steady_rules split: sum.split)

lemma steady_close: "steady (close_scope cd err)"
proof -
  have "steady (release_resource cd err name)" for name
    unfolding release_resource_def by (rule steady_get) (auto intro!: steady_rules split: option.split sum.split)
  then show ?thesis unfolding close_scope_def
    by (intro steady_get) (auto intro!: steady_rules steady_scope simp: calm_def)
qed

definition keeps_runs :: "(nat \<Rightarrow> run_store \<Rightarrow> run_store) \<Rightarrow> bool" where
  "keeps_runs others \<longleftrightarrow> (\<forall>n rs k. has_run k rs \<longrightarrow> has_run k (others n rs))"

definition run_op :: "'a run_prog \<Rightarrow> bool" where
  "run_op m \<longleftrightarrow> (\<forall>rs k. has_run k rs \<longrightarrow> has_run k (snd (m rs)))"

lemma run_ops: "run_op (get_run k)" "run_op (save_run r)" "run_op utc_now" "run_op (pret x)" "run_op (plift z)" "run_op (is_cancel_requested k)"
  "run_op (create_run r)"
  by (auto simp: run_op_def has_run_def get_run_def save_run_def utc_now_def is_cancel_requested_def create_run_def pbind_app split: option.split)

lemma run_op_bind:
  assumes m: "run_op m" and f: "\<And>x. run_op (f x)"
  shows "run_op (pbind m f)"
  unfolding run_op_def
proof (intro allI impI)
  fix rs k assume "has_run k rs"
  with m have "has_run k (snd (m rs))" by (simp add: run_op_def)
  with f show "has_run k (snd (pbind m f rs))"
    by (cases "m rs"; cases "fst (m rs)") (auto simp: pbind_app run_op_def)
qed

lemma steady_runs: "keeps_runs (srv_others srv) \<Longrightarrow> run_op m \<Longrightarrow> steady (on_runs srv m)"
proof (rule steadyI)
  fix s0 s r s' assume others: "keeps_runs (srv_others srv)" and m: "run_op m" and s: "seg s0 s" and r: "on_runs srv m s = (r, s')"
  let ?rs = "srv_others srv (rt_turn s) (rt_runs s)"
  have "s' = s\<lparr>rt_runs := snd (m ?rs), rt_turn := Suc (rt_turn s)\<rparr>" using r by (auto simp: on_runs_def split: prod.splits)
  moreover have "has_run (rc_run_id (rt_context s0)) (snd (m ?rs))"
    using others m s unfolding keeps_runs_def run_op_def seg_def stored_def by blast
  ultimately show "seg s0 s' \<and> view s' = view s" using s by (simp add: seg_def stored_def view_def suspended_def)
qed

lemma steady_save: "keeps_runs (srv_others srv) \<Longrightarrow> steady (save_context_snapshot srv)"
  unfolding save_context_snapshot_def Let_def
  by (intro steady_get steady_bind steady_runs run_op_bind run_ops; simp add: case_prod_unfold; intro steady_runs run_ops)

text \<open>Tools that act on the segment only through its managers.\<close>

definition well_behaved :: "codec \<Rightarrow> (bytes \<Rightarrow> string) \<Rightarrow> 'w memory_manager \<Rightarrow> 'w runtime executor \<Rightarrow> bool" where
  "well_behaved cd sha my ex \<longleftrightarrow> (\<forall>name t args cx s. dict_get (tx_registry ex) name = Some t \<longrightarrow>
     (tool_action cd sha my)\<^sup>*\<^sup>* s (snd (run_transport t args cx s)))"

lemma execute_tool_actions:
  assumes ex: "well_behaved cd sha my ex" and r: "execute_tool ex call granted allowed cx (s, l) = Some (r, (s', l'))"
  shows "(tool_action cd sha my)\<^sup>*\<^sup>* s s'"
proof (cases "(s', l') = (s, l)")
  case False
  with execute_tool_cases [OF r] obtain t q where t: "admitted ex call granted allowed t" "try_execute ex t call cx (s, l) = Some (q, (s', l'))" by auto
  from try_execute_cases [OF t(2)] show ?thesis
  proof
    assume "held ex t call cx (s, l) (s', l')"
    then show ?thesis by (simp add: held_def)
  next
    assume "sent ex t call cx (s, l) q (s', l')"
    then obtain args receipt v where "run_transport t args (tool_view receipt (call_context call cx)) s = (v, s')" by (auto simp: sent_def)
    moreover have "dict_get (tx_registry ex) (tc_name call) = Some t" using t(1) by (simp add: admitted_def)
    ultimately show ?thesis using ex unfolding well_behaved_def by (metis snd_conv)
  qed
qed simp

lemma steady_tool: "well_behaved cd sha my (executor_of srv) \<Longrightarrow> steady (call_tool srv call confirmation)"
proof (rule steadyI)
  fix s0 s r s' assume ex: "well_behaved cd sha my (executor_of srv)" and s: "seg s0 s" and r: "call_tool srv call confirmation s = (r, s')"
  show "seg s0 s' \<and> view s' = view s"
  proof (cases "s' = s")
    case False
    with r obtain s1 l where s1: "s' = s1\<lparr>rt_ledger := l\<rparr>" "(tool_action cd sha my)\<^sup>*\<^sup>* s s1"
      by (auto simp: call_tool_def Let_def dest!: execute_tool_actions [OF ex] split: option.splits)
    from segments.steps_stable [OF s1(2), of s0 "view s"] s have "seg s0 s1 \<and> view s1 = view s" by simp
    with s1(1) show ?thesis by simp
  qed (use s in simp)
qed

subsection \<open>Supervisors\<close>

text \<open>
  What the loop relies on from a supervisor: it keeps its own data only, its decisions are valid, and
  it stops the run when a budget is used up.
\<close>

definition own_data :: "runtime_context \<Rightarrow> runtime_context \<Rightarrow> bool" where
  "own_data c c' \<longleftrightarrow> c' = c\<lparr>rc_supervision := rc_supervision c'\<rparr> \<and>
     (\<forall>k \<in> {batch_key, decision_key, react_key, plan_key}. dict_get (rc_supervision c') k = dict_get (rc_supervision c) k)"

definition sound_decision :: "supervision_decision \<Rightarrow> bool" where
  "sound_decision d \<longleftrightarrow> valid_decision d \<and> (\<forall>r. sd_reason d = Some r \<longrightarrow> \<not> blank r)"

definition quiet_hook :: "supervision_decision context_prog \<Rightarrow> bool" where
  "quiet_hook h \<longleftrightarrow> (\<forall>c. own_data c (snd (h c)) \<and> (\<forall>d. fst (h c) = Inr d \<longrightarrow> sound_decision d))"

definition bounded_supervisor :: "supervisor \<Rightarrow> bool" where
  "bounded_supervisor sv \<longleftrightarrow> quiet_hook (sv_before_model sv) \<and> (\<forall>call. quiet_hook (sv_before_tool sv call)) \<and>
     (\<forall>call r. quiet_hook (sv_after_tool sv call r)) \<and>
     (\<forall>c d. fst (sv_before_model sv c) = Inr d \<and> sd_action d \<noteq> Stop \<longrightarrow> rc_step_count c < ap_max_steps (rc_profile c)) \<and>
     (\<forall>call c d. fst (sv_before_tool sv call c) = Inr d \<and> sd_action d \<noteq> Stop \<longrightarrow>
        rc_tool_call_count c < ap_max_tool_calls (rc_profile c))"

definition good_services :: "(bytes \<Rightarrow> string) \<Rightarrow> 'w memory_manager \<Rightarrow> 'w services \<Rightarrow> bool" where
  "good_services sha my srv \<longleftrightarrow> bounded_supervisor (srv_supervisor srv) \<and> keeps_runs (srv_others srv) \<and>
     well_behaved (srv_codec srv) sha my (executor_of srv)"

lemma own_dataD: "own_data c c' \<Longrightarrow> rc_run_id c' = rc_run_id c \<and> rc_profile c' = rc_profile c \<and> rc_conversation_id c' = rc_conversation_id c \<and>
   rc_state c' = rc_state c \<and> rc_step_count c' = rc_step_count c \<and> rc_tool_call_count c' = rc_tool_call_count c \<and>
   rc_pending_input c' = rc_pending_input c \<and> dict_get (rc_supervision c') batch_key = dict_get (rc_supervision c) batch_key \<and>
   rc_error c' = rc_error c \<and> dict_get (rc_supervision c') plan_key = dict_get (rc_supervision c) plan_key"
proof -
  assume o: "own_data c c'"
  obtain d where d: "c' = c\<lparr>rc_supervision := d\<rparr>" using o unfolding own_data_def by blast
  show ?thesis using o unfolding d own_data_def by simp
qed

lemma own_data_refl [simp]: "own_data c c"
  by (simp add: own_data_def)

lemma own_data_trans: "own_data c c' \<Longrightarrow> own_data c' c'' \<Longrightarrow> own_data c c''"
proof -
  assume a: "own_data c c'" "own_data c' c''"
  obtain d where d: "c' = c\<lparr>rc_supervision := d\<rparr>" using a(1) unfolding own_data_def by blast
  obtain d' where d': "c'' = c'\<lparr>rc_supervision := d'\<rparr>" using a(2) unfolding own_data_def by blast
  show ?thesis using a unfolding d' d own_data_def by simp
qed

lemma steady_hook: "quiet_hook h \<Longrightarrow> steady (on_context h)"
proof (rule steadyI)
  fix s0 s r s' assume h: "quiet_hook h" and s: "seg s0 s" and r: "on_context h s = (r, s')"
  have "own_data (rt_context s) (snd (h (rt_context s)))" using h by (simp add: quiet_hook_def)
  moreover have "s' = s\<lparr>rt_context := snd (h (rt_context s))\<rparr>" using r by (auto simp: on_context_def split: prod.splits)
  ultimately show "seg s0 s' \<and> view s' = view s" using s by (simp add: seg_context own_dataD)
qed

subsection \<open>Positions in a turn\<close>

definition at_step :: "'w runtime \<Rightarrow> int \<Rightarrow> 'w runtime \<Rightarrow> bool" where
  "at_step s0 n s \<longleftrightarrow> seg s0 s \<and> rc_step_count (rt_context s) = n"

definition live :: "'w runtime \<Rightarrow> int \<Rightarrow> bool \<Rightarrow> 'w runtime \<Rightarrow> bool" where
  "live s0 n b s \<longleftrightarrow> seg s0 s \<and> view s = (Running, n, b)"

definition over :: "'w runtime \<Rightarrow> int \<Rightarrow> 'w runtime \<Rightarrow> bool" where
  "over s0 n s \<longleftrightarrow> at_step s0 n s \<and> (rc_state (rt_context s) = Running \<longrightarrow> \<not> suspended s)"

definition closes :: "('w, unit) run_task \<Rightarrow> bool" where
  "closes m \<longleftrightarrow> (\<forall>s0 n b. leads (live s0 n b) m (\<lambda>_. at_step s0 n) (\<lambda>_ s. at_step s0 n s \<and> rc_state (rt_context s) \<noteq> Running))"

lemma live_at: "live s0 n b s \<Longrightarrow> at_step s0 n s" and live_over: "live s0 n False s \<Longrightarrow> over s0 n s"
  and closed_over: "at_step s0 n s \<and> rc_state (rt_context s) \<noteq> Running \<Longrightarrow> over s0 n s" and over_at: "over s0 n s \<Longrightarrow> at_step s0 n s"
  by (auto simp: live_def at_step_def over_def view_def)

lemma steady_live: "steady m \<Longrightarrow> leads (live s0 n b) m (\<lambda>_. at_step s0 n) (\<lambda>_. live s0 n b)"
  by (rule leads_conseq [OF steady_leads [where P = "\<lambda>v. v = (Running, n, b)"]]) (auto simp: live_def at_step_def view_def)

lemma steady_at: "steady m \<Longrightarrow> leads (at_step s0 n) m (\<lambda>_. at_step s0 n) (\<lambda>_. at_step s0 n)"
  by (rule leads_conseq [OF steady_leads [where P = "\<lambda>v. fst (snd v) = n"]]) (auto simp: at_step_def view_def)

lemma steady_over: "steady m \<Longrightarrow> leads (over s0 n) m (\<lambda>_. at_step s0 n) (\<lambda>_. over s0 n)"
  by (rule leads_conseq [OF steady_leads [where P = "\<lambda>(st, m, b). m = n \<and> (st = Running \<longrightarrow> \<not> b)"]])
    (auto simp: over_def at_step_def view_def)

text \<open>Entering a state from \<open>Running\<close>.\<close>

lemma enter_state_eq: "enter_state st s = (case transition_to (rc_state (rt_context s)) st of Inl e \<Rightarrow> (Inl e, s)
   | Inr st' \<Rightarrow> (Inr (), s\<lparr>rt_context := (rt_context s)\<lparr>rc_state := st'\<rparr>\<rparr>))"
  by (simp add: enter_state_def on_context_def pbind_app split: sum.split)

lemma seg_state: "seg s0 s \<Longrightarrow> st \<notin> {Created, Waiting} \<or> st = Waiting \<and> rc_pending_input (rt_context s) \<noteq> None \<Longrightarrow>
   seg s0 (s\<lparr>rt_context := (rt_context s)\<lparr>rc_state := st\<rparr>\<rparr>)"
  by (auto simp: seg_def stored_def)

lemma closes_enter: "st \<in> {Completed, Failed, Cancelled, LimitReached, Interrupted} \<Longrightarrow> closes (enter_state st)"
  unfolding closes_def
  by (intro allI leadsI)
    (auto simp: enter_state_eq transition_to_def live_def at_step_def view_def seg_state split: if_splits)

lemma closesD: "closes m \<Longrightarrow> leads (live s0 n b) m (\<lambda>_. at_step s0 n) (\<lambda>_ s. at_step s0 n s \<and> rc_state (rt_context s) \<noteq> Running)"
  by (simp add: closes_def)

lemma closes_then: "steady m \<Longrightarrow> closes k \<Longrightarrow> closes (pthen m k)"
  unfolding closes_def by (blast intro: leads_bind steady_live)

lemma closes_fail:
  assumes t: "\<not> blank t"
  shows "closes (fail_execution t :: ('w, unit) run_task)"
proof -
  have "closes (pbind pget (\<lambda>s. if rc_state (rt_context s) = Running then enter_state Failed else pret ()) :: ('w, unit) run_task)" unfolding closes_def
  proof (intro allI leads_get)
    fix s0 s :: "'w runtime" and n b assume s: "live s0 n b s"
    then have "rc_state (rt_context s) = Running" by (simp add: live_def view_def)
    moreover have "leads (live s0 n b) (enter_state Failed) (\<lambda>_. at_step s0 n) (\<lambda>_ s. at_step s0 n s \<and> rc_state (rt_context s) \<noteq> Running)"
      by (rule closesD [OF closes_enter]) simp
    ultimately show "leads ((=) s) (if rc_state (rt_context s) = Running then enter_state Failed else pret ())
        (\<lambda>_. at_step s0 n) (\<lambda>_ s. at_step s0 n s \<and> rc_state (rt_context s) \<noteq> Running)"
      using leads_from [where P = "live s0 n b", OF _ s] by simp
  qed
  then show ?thesis unfolding fail_execution_def by (intro closes_then steady_error t)
qed

lemma closes_complete: "closes (complete_response t)"
  unfolding complete_response_def by (intro closes_then plain_changes closes_enter) simp

subsection \<open>Decisions and admission\<close>

definition after_decision :: "'w services \<Rightarrow> bool \<Rightarrow> supervision_decision \<Rightarrow> 'w runtime \<Rightarrow> 'w runtime" where
  "after_decision srv am d s = (let s1 = emitted SUPERVISOR_INTERVENED (wr_decision (srv_wire srv) d) s in
     case sd_message d of Some m \<Rightarrow> if am \<and> m \<noteq> [] then s1\<lparr>rt_context := (rt_context s)\<lparr>rc_messages := rc_messages (rt_context s) @ [system_message m]\<rparr>\<rparr> else s1
     | None \<Rightarrow> s1)"

lemma apply_decision_eq: "apply_decision srv am d s = (let s2 = after_decision srv am d s in
   if sd_action d \<noteq> Stop then (Inr (), s2)
   else case sd_terminal_status d of None \<Rightarrow> (Inl InvalidStateTransitionError, s2)
     | Some st \<Rightarrow> (let c = (rt_context s2)\<lparr>rc_error := sd_reason d\<rparr> in
         case transition_to (rc_state c) st of Inl e \<Rightarrow> (Inl e, s2\<lparr>rt_context := c\<rparr>)
         | Inr st' \<Rightarrow> (Inr (), s2\<lparr>rt_context := c\<lparr>rc_state := st'\<rparr>\<rparr>)))"
  using emit_appends [of "rc_run_id (rt_context s)" SUPERVISOR_INTERVENED "wr_decision (srv_wire srv) d" "rt_events s"]
  by (auto simp: apply_decision_def apply_supervision_decision_def after_decision_def emitted_def Let_def split: option.split sum.split)

lemma decided_keeps: "seg s0 s \<Longrightarrow> seg s0 (after_decision srv am d s)" "view (after_decision srv am d s) = view s"
  "rc_state (rt_context (after_decision srv am d s)) = rc_state (rt_context s)"
  "rc_tool_call_count (rt_context (after_decision srv am d s)) = rc_tool_call_count (rt_context s)"
  "rc_profile (rt_context (after_decision srv am d s)) = rc_profile (rt_context s)"
  using seg_emitted [of s0 s SUPERVISOR_INTERVENED]
  by (auto simp: after_decision_def Let_def seg_context view_def suspended_def split: option.split)

abbreviation room :: "'w runtime \<Rightarrow> bool" where
  "room s \<equiv> rc_tool_call_count (rt_context s) < ap_max_tool_calls (rc_profile (rt_context s))"

lemma apply_decision_ok:
  assumes v: "sound_decision d"
  shows "leads (\<lambda>s. live s0 n b s \<and> (sd_action d \<noteq> Stop \<longrightarrow> r \<longrightarrow> room s)) (apply_decision srv am d) (\<lambda>_. at_step s0 n)
    (\<lambda>_ s. if sd_action d = Stop then at_step s0 n s \<and> rc_state (rt_context s) \<noteq> Running else live s0 n b s \<and> (r \<longrightarrow> room s))"
proof (rule leads_pre)
  fix s :: "'a runtime" assume s: "live s0 n b s \<and> (sd_action d \<noteq> Stop \<longrightarrow> r \<longrightarrow> room s)"
  let ?s = "after_decision srv am d s"
  have s2: "seg s0 ?s" "view ?s = (Running, n, b)" "rc_state (rt_context ?s) = Running" "rc_step_count (rt_context ?s) = n"
    using s decided_keeps [where s = s] by (auto simp: live_def view_def)
  show "leads ((=) s) (apply_decision srv am d) (\<lambda>_. at_step s0 n)
    (\<lambda>_ s. if sd_action d = Stop then at_step s0 n s \<and> rc_state (rt_context s) \<noteq> Running else live s0 n b s \<and> (r \<longrightarrow> room s))"
  proof (cases "sd_action d = Stop")
    case True
    with v obtain st where st: "sd_terminal_status d = Some st" "st \<in> {Failed, Cancelled, LimitReached}" by (auto simp: sound_decision_def valid_decision_def)
    have clear: "clear_text (sd_reason d)" using v by (simp add: sound_decision_def clear_text_def)
    let ?c = "(rt_context ?s)\<lparr>rc_error := sd_reason d\<rparr>"
    from clear s2(1) have "seg s0 (?s\<lparr>rt_context := ?c\<rparr>)" by (intro seg_context(1)) simp_all
    from seg_state [OF this, of st] st(2) have "seg s0 (?s\<lparr>rt_context := ?c\<lparr>rc_state := st\<rparr>\<rparr>)" by auto
    with True st s2(3,4) show ?thesis by (auto simp: leads_def apply_decision_eq Let_def transition_to_def at_step_def)
  next
    case False
    with s s2 decided_keeps(4,5) [of srv am d s] show ?thesis by (auto simp: leads_def apply_decision_eq Let_def live_def)
  qed
qed

lemma hook_decides:
  assumes "quiet_hook h"
  shows "leads (live s0 n b) (on_context h) (\<lambda>_. at_step s0 n) (\<lambda>d s. live s0 n b s \<and> sound_decision d)"
proof (rule leadsI)
  fix s d s' assume s: "live s0 n b s" and r: "on_context h s = (Inr d, s')"
  from r have "fst (h (rt_context s)) = Inr d" by (auto simp: on_context_def split: prod.splits)
  with assms have "sound_decision d" by (auto simp: quiet_hook_def)
  with leadsD(2) [OF steady_live [OF steady_hook [OF assms]] s r] show "live s0 n b s' \<and> sound_decision d" by blast
qed (blast dest: leadsD(1) [OF steady_live [OF steady_hook [OF assms]]])

lemma before_tool_decides:
  assumes "bounded_supervisor sv"
  shows "leads (live s0 n b) (on_context (sv_before_tool sv call)) (\<lambda>_. at_step s0 n)
    (\<lambda>d s. (live s0 n b s \<and> (sd_action d \<noteq> Stop \<longrightarrow> True \<longrightarrow> room s)) \<and> sound_decision d)"
proof (rule leadsI)
  have q: "quiet_hook (sv_before_tool sv call)" using assms by (simp add: bounded_supervisor_def)
  fix s s' assume s: "live s0 n b s"
  show "at_step s0 n s'" if "on_context (sv_before_tool sv call) s = (Inl e, s')" for e using hook_decides [OF q] s that by (rule leadsD(1))
  fix d assume r: "on_context (sv_before_tool sv call) s = (Inr d, s')"
  from r have f: "fst (sv_before_tool sv call (rt_context s)) = Inr d" "rt_context s' = snd (sv_before_tool sv call (rt_context s))"
    by (auto simp: on_context_def split: prod.splits)
  from q f(2) have "own_data (rt_context s) (rt_context s')" by (simp add: quiet_hook_def)
  from own_dataD [OF this] have "room s' = room s" by simp
  moreover have "sd_action d \<noteq> Stop \<longrightarrow> room s" using assms f(1) unfolding bounded_supervisor_def by blast
  ultimately show "(live s0 n b s' \<and> (sd_action d \<noteq> Stop \<longrightarrow> True \<longrightarrow> room s')) \<and> sound_decision d"
    using leadsD(2) [OF hook_decides [OF q] s r] by simp
qed

lemma count_call: "leads (\<lambda>s. live s0 n b s \<and> (True \<longrightarrow> room s)) (set_context (\<lambda>c. c\<lparr>rc_tool_call_count := rc_tool_call_count c + 1\<rparr>)) E (\<lambda>_. live s0 n b)"
  by (auto simp: leads_def on_context_def live_def seg_def stored_def view_def suspended_def)

lemma steady_append [steady_rules]: "steady (append_tool_message srv call r)"
  unfolding append_tool_message_def by (intro steady_rules)

lemma cancel_ok:
  assumes "keeps_runs (srv_others srv)"
  shows "leads (live s0 n b) (cancel_if_requested srv) (\<lambda>_. at_step s0 n)
    (\<lambda>stop s. if stop then at_step s0 n s \<and> rc_state (rt_context s) \<noteq> Running else live s0 n b s)"
  unfolding cancel_if_requested_def
proof (rule leads_get, rule leads_bind)
  fix s assume "live s0 n b s"
  from leads_from [OF steady_live [OF steady_runs [OF assms run_ops(6)]] this]
  show "leads ((=) s) (on_runs srv (is_cancel_requested (rc_run_id (rt_context s)))) (\<lambda>_. at_step s0 n) (\<lambda>_. live s0 n b)" .
  fix x
  show "leads (live s0 n b) (if \<not> x then pret False else pthen (set_context (\<lambda>c. c\<lparr>rc_error := Some ''run cancellation requested''\<rparr>))
      (pthen (enter_state Cancelled) (pret True))) (\<lambda>_. at_step s0 n)
      (\<lambda>stop s. if stop then at_step s0 n s \<and> rc_state (rt_context s) \<noteq> Running else live s0 n b s)"
  proof (cases x)
    case True
    have c: "closes (enter_state Cancelled :: ('a, unit) run_task)" by (rule closes_enter) simp
    have "leads (live s0 n b) (pthen (set_context (\<lambda>c. c\<lparr>rc_error := Some ''run cancellation requested''\<rparr>))
      (pthen (enter_state Cancelled) (pret True))) (\<lambda>_. at_step s0 n)
      (\<lambda>stop s. if stop then at_step s0 n s \<and> rc_state (rt_context s) \<noteq> Running else live s0 n b s)"
      by (rule leads_bind, rule steady_live, rule steady_error, simp, rule leads_bind, rule closesD, rule c, rule leads_ret) simp
    with True show ?thesis by simp
  qed (simp add: leads_ret)
qed

lemma steady_closed: "steady m \<Longrightarrow> leads (\<lambda>s. at_step s0 n s \<and> rc_state (rt_context s) \<noteq> Running) m (\<lambda>_. at_step s0 n)
   (\<lambda>_ s. at_step s0 n s \<and> rc_state (rt_context s) \<noteq> Running)"
  by (rule leads_conseq [OF steady_leads [where P = "\<lambda>(st, m, b). m = n \<and> st \<noteq> Running"]]) (auto simp: at_step_def view_def)

lemma set_batch: "leads (live s0 n False) (set_context (\<lambda>c. c\<lparr>rc_supervision := dict_set batch_key j (rc_supervision c)\<rparr>)) E (\<lambda>_. live s0 n True)"
  by (auto simp: leads_def on_context_def live_def seg_def stored_def view_def suspended_def)

lemma set_pending: "leads (live s0 n b) (set_context (\<lambda>c. c\<lparr>rc_pending_input := Some p\<rparr>)) E
   (\<lambda>_ s. live s0 n b s \<and> rc_pending_input (rt_context s) \<noteq> None)"
  by (auto simp: leads_def on_context_def live_def seg_def stored_def view_def suspended_def)

lemma enter_waiting: "leads (\<lambda>s. live s0 n b s \<and> rc_pending_input (rt_context s) \<noteq> None) (enter_state Waiting) (\<lambda>_. at_step s0 n)
   (\<lambda>_ s. at_step s0 n s \<and> rc_state (rt_context s) \<noteq> Running)"
  by (rule leadsI) (auto simp: enter_state_eq transition_to_def live_def at_step_def view_def seg_state split: if_splits)

lemma good_servicesD: "good_services sha my srv \<Longrightarrow> keeps_runs (srv_others srv)" "good_services sha my srv \<Longrightarrow> bounded_supervisor (srv_supervisor srv)"
  "good_services sha my srv \<Longrightarrow> well_behaved (srv_codec srv) sha my (executor_of srv)"
  by (simp_all add: good_services_def)

lemmas others = good_servicesD(1) and bounded = good_servicesD(2) and tools = good_servicesD(3)
lemmas save_steady = steady_save [OF good_servicesD(1)]

subsection \<open>The shared loop\<close>

text \<open>Programs that end a turn, and programs that run while the run waits.\<close>

definition rests :: "('w, unit) run_task \<Rightarrow> bool" where
  "rests m \<longleftrightarrow> (\<forall>s0 n. leads (live s0 n False) m (\<lambda>_. at_step s0 n) (\<lambda>_. over s0 n))"

definition idles :: "('w, 'a) run_task \<Rightarrow> bool" where
  "idles m \<longleftrightarrow> (\<forall>s0 n. leads (\<lambda>s. at_step s0 n s \<and> rc_state (rt_context s) \<noteq> Running) m (\<lambda>_. at_step s0 n)
     (\<lambda>_ s. at_step s0 n s \<and> rc_state (rt_context s) \<noteq> Running))"

lemma rests_closes: "closes m \<Longrightarrow> rests m"
  unfolding rests_def closes_def by (blast intro: leads_conseq closed_over [OF conjI])

lemma rests_steady: "steady m \<Longrightarrow> rests m"
  unfolding rests_def by (blast intro: leads_conseq [OF steady_live] live_over)

lemma rests_bind: "steady m \<Longrightarrow> (\<And>x. rests (f x)) \<Longrightarrow> rests (pbind m f)"
  unfolding rests_def by (blast intro: leads_bind steady_live)

lemma idles_steady: "steady m \<Longrightarrow> idles m"
  unfolding idles_def by (blast intro: steady_closed)

lemma restsD: "rests m \<Longrightarrow> leads (live s0 n False) m (\<lambda>_. at_step s0 n) (\<lambda>_. over s0 n)"
  by (simp add: rests_def)

lemma idlesD: "idles m \<Longrightarrow> leads (\<lambda>s. at_step s0 n s \<and> rc_state (rt_context s) \<noteq> Running) m (\<lambda>_. at_step s0 n)
   (\<lambda>_ s. at_step s0 n s \<and> rc_state (rt_context s) \<noteq> Running)"
  by (simp add: idles_def)

lemma idles_bind: "idles m \<Longrightarrow> (\<And>x. idles (f x)) \<Longrightarrow> idles (pbind m f)"
  unfolding idles_def by (blast intro: leads_bind)

locale turn_hooks =
  fixes srv :: "'w services" and hk :: "'w hooks"
  assumes before_steady: "steady (hk_before hk)" and actions_steady: "steady (hk_actions hk calls)"
    and observed_steady: "steady (hk_observed hk os)" and completed_steady: "steady (hk_completed hk r b)"
    and wait_idles: "keeps_runs (srv_others srv) \<Longrightarrow> idles (hk_wait hk)"
    and complete_rests: "keeps_runs (srv_others srv) \<Longrightarrow> rests (hk_complete hk t)"
    and fail_closes: "keeps_runs (srv_others srv) \<Longrightarrow> \<not> blank t \<Longrightarrow> closes (hk_fail hk t)"
begin

lemma block_ok: assumes good: "good_services sha my srv" shows "leads (\<lambda>s. live s0 n b s \<and> (True \<longrightarrow> room s)) (block_call srv call d) (\<lambda>_. at_step s0 n) (\<lambda>_. live s0 n b)"
  unfolding block_call_def
proof (rule leads_bind [OF count_call], rule steady_live)
  show "steady (pthen (append_tool_message srv call (blocked_result call d))
     (pthen (case sd_message d of Some m \<Rightarrow> if m \<noteq> [] then set_context (\<lambda>c. c\<lparr>rc_messages := rc_messages c @ [system_message m]\<rparr>) else pret ()
         | None \<Rightarrow> pret ())
     (pthen (pbind pget (\<lambda>s. emit_event TOOL_FAILED (result_data call (blocked_result call d) s))) (save_context_snapshot srv))))"
    by (cases "sd_message d") (auto intro!: steady_rules save_steady [OF good])
qed

lemma admit_ok: assumes good: "good_services sha my srv" shows "leads (live s0 n False) (admit_call srv call) (\<lambda>_. at_step s0 n) (\<lambda>go s. if go then live s0 n False s else over s0 n s)"
  unfolding admit_call_def Let_def
proof (rule leads_get, rule leads_from [where P = "live s0 n False"], rule leads_bind, rule steady_live, rule steady_emit)
  fix s :: "'w runtime"
  let ?data = "[step_entry s, (''call'', call_json call)]"
  let ?Q = "\<lambda>go s. if go then live s0 n False s else over s0 n s"
  show "leads (live s0 n False) (pbind (on_context (sv_before_tool (srv_supervisor srv) call)) (\<lambda>d.
      if sd_action d \<noteq> Continue
      then pthen (apply_decision srv False d) (if sd_action d = Stop then pret False else pthen (block_call srv call d) (pret False))
      else pthen (set_context (\<lambda>c. c\<lparr>rc_tool_call_count := rc_tool_call_count c + 1\<rparr>))
        (pthen (save_context_snapshot srv) (pthen (emit_event TOOL_STARTED ?data) (pret True))))) (\<lambda>_. at_step s0 n) ?Q"
  proof (rule leads_bind [OF before_tool_decides [OF bounded [OF good]]])
    fix d
    have stop: "leads (\<lambda>s. if sd_action d = Stop then at_step s0 n s \<and> rc_state (rt_context s) \<noteq> Running else live s0 n False s \<and> (True \<longrightarrow> room s))
      (if sd_action d = Stop then pret False else pthen (block_call srv call d) (pret False)) (\<lambda>_. at_step s0 n) ?Q"
      by (auto intro!: leads_ret leads_bind [OF block_ok [OF good, unfolded simp_thms]] intro: closed_over [OF conjI] dest: live_over)
    have go: "leads (\<lambda>s. live s0 n False s \<and> (True \<longrightarrow> room s)) (pthen (set_context (\<lambda>c. c\<lparr>rc_tool_call_count := rc_tool_call_count c + 1\<rparr>))
        (pthen (save_context_snapshot srv) (pthen (emit_event TOOL_STARTED ?data) (pret True)))) (\<lambda>_. at_step s0 n) ?Q"
      by (rule leads_bind, rule count_call, rule leads_bind, rule steady_live, rule save_steady [OF good], rule leads_bind, rule steady_live,
          rule steady_emit, simp, rule leads_ret, simp)
    show "leads (\<lambda>s. (live s0 n False s \<and> (sd_action d \<noteq> Stop \<longrightarrow> True \<longrightarrow> room s)) \<and> sound_decision d)
      (if sd_action d \<noteq> Continue
       then pthen (apply_decision srv False d) (if sd_action d = Stop then pret False else pthen (block_call srv call d) (pret False))
       else pthen (set_context (\<lambda>c. c\<lparr>rc_tool_call_count := rc_tool_call_count c + 1\<rparr>))
         (pthen (save_context_snapshot srv) (pthen (emit_event TOOL_STARTED ?data) (pret True)))) (\<lambda>_. at_step s0 n) ?Q"
    proof (cases "sound_decision d")
      case True
      from leads_bind [OF apply_decision_ok [OF True, of s0 n False True srv False] stop] go True show ?thesis
        by (cases "sd_action d = Continue") (auto elim!: leads_conseq)
    qed (simp add: leads_def)
  qed
qed simp_all

lemma observe_ok: assumes good: "good_services sha my srv" shows "leads (live s0 n False) (observe_result srv call r) (\<lambda>_. at_step s0 n) (\<lambda>go s. if go then live s0 n False s else over s0 n s)"
  unfolding observe_result_def
proof (rule leads_bind, rule steady_live, rule steady_get, rule steady_emit, simp, rule leads_bind, rule steady_live, rule steady_append,
    rule leads_bind, rule hook_decides)
  let ?Q = "\<lambda>go s. if go then live s0 n False s else over s0 n s"
  show "quiet_hook (sv_after_tool (srv_supervisor srv) call r)" using bounded [OF good] by (simp add: bounded_supervisor_def)
  fix d
  have ended: "leads (over s0 n) (pthen (save_context_snapshot srv) (pret False)) (\<lambda>_. at_step s0 n) ?Q"
    by (rule leads_bind, rule steady_over, rule save_steady [OF good], rule leads_ret, simp)
  have stop: "leads (live s0 n False) (pthen (apply_decision srv True d) (pthen (save_context_snapshot srv) (pret False))) (\<lambda>_. at_step s0 n) ?Q"
    if "sound_decision d"
  proof (rule leads_bind [OF _ ended])
    show "leads (live s0 n False) (apply_decision srv True d) (\<lambda>_. at_step s0 n) (\<lambda>_. over s0 n)"
      by (rule leads_conseq [OF apply_decision_ok [OF that, of s0 n False False srv True]])
        (auto intro: closed_over [OF conjI] live_over split: if_splits)
  qed
  have go: "leads (live s0 n False) (pbind (cancel_if_requested srv) (\<lambda>b. pret (\<not> b))) (\<lambda>_. at_step s0 n) ?Q"
    by (rule leads_bind [OF cancel_ok [OF others [OF good]]], rule leads_ret) (auto intro: closed_over [OF conjI] split: if_splits)
  show "leads (\<lambda>s. live s0 n False s \<and> sound_decision d) (if sd_action d \<noteq> Continue
      then pthen (apply_decision srv True d) (pthen (save_context_snapshot srv) (pret False))
      else pbind (cancel_if_requested srv) (\<lambda>b. pret (\<not> b))) (\<lambda>_. at_step s0 n) ?Q"
    using stop go by (cases "sound_decision d"; cases "sd_action d = Continue") (auto simp: leads_def)
qed

lemma fail_over: "good_services sha my srv \<Longrightarrow> \<not> blank t \<Longrightarrow> leads (live s0 n b) (hk_fail hk t) (\<lambda>_. at_step s0 n) (\<lambda>_. over s0 n)"
  by (rule leads_conseq [OF closesD [OF fail_closes [OF others]]]) (auto intro: closed_over [OF conjI])

lemma suspend_ok: assumes good: "good_services sha my srv" shows "leads (live s0 n False) (suspend_batch srv hk response observed call rest r) (\<lambda>_. at_step s0 n) (\<lambda>_. over s0 n)"
  unfolding suspend_batch_def
proof (rule leads_bind [OF set_batch])
  let ?text = "''tool '' @ quoted (tc_name call) @ '' returned an invalid input request''"
  have wait: "leads (live s0 n True) (pbind (plift (construct valid_pending_input p)) (\<lambda>p.
       pthen (set_context (\<lambda>c. c\<lparr>rc_pending_input := Some p\<rparr>)) (pthen (enter_state Waiting)
       (pthen m (pthen (pbind pget (\<lambda>s. emit_event TOOL_WAITING (result_data call r s))) (pthen (hk_wait hk) (save_context_snapshot srv)))))))
       (\<lambda>_. at_step s0 n) (\<lambda>_. over s0 n)" if "steady m" for p m
    by (rule leads_bind, rule steady_live, rule steady_basic, rule leads_bind, rule set_pending, rule leads_bind, rule enter_waiting,
        rule leads_conseq, rule idlesD) (auto intro!: idles_bind idles_steady [OF that] wait_idles [OF others [OF good]] idles_steady [OF save_steady [OF good]]
          idles_steady [OF steady_get] steady_emit intro: closed_over [OF conjI])
  show "leads (live s0 n True) (case json_get (trs_data r) ''prompt'' of
       Some (JStr prompt) \<Rightarrow>
         if blank prompt then hk_fail hk ?text
         else (let metadata = json_object (json_get (trs_data r) ''metadata'') in
           pbind (plift (construct valid_pending_input \<lparr>pi_tool_call_id = tc_id call, pi_tool_name = tc_name call, pi_prompt = prompt,
             pi_metadata = (case metadata of Some d \<Rightarrow> d | None \<Rightarrow> [])\<rparr>)) (\<lambda>p.
           pthen (set_context (\<lambda>c. c\<lparr>rc_pending_input := Some p\<rparr>))
           (pthen (enter_state Waiting)
           (pthen (case metadata of
               Some d \<Rightarrow> if dict_get d ''kind'' = Some (JStr ''tool_confirmation'')
                 then emit_event TOOL_CONFIRMATION_REQUESTED
                   [(''request_id'', case dict_get d ''request'' of Some (JObj q) \<Rightarrow> (case dict_get q ''id'' of Some j \<Rightarrow> j | None \<Rightarrow> JNull) | _ \<Rightarrow> JNull),
                    (''tool_call_id'', JStr (tc_id call)), (''tool_name'', JStr (tc_name call))]
                 else pret ()
             | None \<Rightarrow> pret ())
           (pthen (pbind pget (\<lambda>s. emit_event TOOL_WAITING (result_data call r s)))
           (pthen (hk_wait hk) (save_context_snapshot srv)))))))
     | _ \<Rightarrow> hk_fail hk ?text) (\<lambda>_. at_step s0 n) (\<lambda>_. over s0 n)"
    by (auto simp: Let_def intro!: fail_over [OF good] wait steady_rules split: option.split json.split)
qed

lemma finish_ok: assumes good: "good_services sha my srv" shows "leads (live s0 n False) (finish_batch srv hk response observed) (\<lambda>_. at_step s0 n) (\<lambda>_. over s0 n)"
  unfolding finish_batch_def
  by (rule leads_conseq [OF steady_live]) (auto intro!: steady_rules observed_steady completed_steady save_steady [OF good] dest: live_over)

lemma batch_ok: assumes good: "good_services sha my srv" shows "leads (live s0 n False) (execute_tool_batch srv hk response confirmations observed calls) (\<lambda>_. at_step s0 n) (\<lambda>_. over s0 n)"
proof (induction calls arbitrary: observed)
  case Nil
  then show ?case by (simp add: finish_ok [OF good])
next
  case (Cons call calls)
  have ret: "leads (\<lambda>s. if go then live s0 n False s else over s0 n s) (if \<not> go then pret () else m) (\<lambda>_. at_step s0 n) (\<lambda>_. over s0 n)"
    if "leads (live s0 n False) m (\<lambda>_. at_step s0 n) (\<lambda>_. over s0 n)" for go and m :: "('w, unit) run_task"
    using that by (cases go) (auto intro: leads_ret)
  have admit: "leads (live s0 n False) (if c = None then admit_call srv call else pret True) (\<lambda>_. at_step s0 n)
      (\<lambda>go s. if go then live s0 n False s else over s0 n s)" for c :: "tool_confirmation option"
    using admit_ok [OF good] by (cases c) (auto intro: leads_ret)
  have tool: "leads (live s0 n False) (pbind (call_tool srv call c) (\<lambda>r.
     if trs_status r = TWaiting then suspend_batch srv hk response observed call calls r
     else pbind (observe_result srv call r) (\<lambda>go. if \<not> go then pret ()
       else execute_tool_batch srv hk response confirmations (observed @ [(call, r)]) calls))) (\<lambda>_. at_step s0 n) (\<lambda>_. over s0 n)" for c
    by (rule leads_bind [OF steady_live [OF steady_tool [OF tools [OF good]]]])
      (simp add: suspend_ok [OF good] leads_bind [OF observe_ok [OF good] ret [OF Cons.IH]])
  show ?case unfolding execute_tool_batch.simps Let_def
  proof (rule leads_bind [OF cancel_ok [OF others [OF good]]])
    fix stop
    show "leads (\<lambda>s. if stop then at_step s0 n s \<and> rc_state (rt_context s) \<noteq> Running else live s0 n False s)
      (if stop then pret () else pbind (if dict_get confirmations (tc_id call) = None then admit_call srv call else pret True) (\<lambda>go.
       if \<not> go then pret () else pbind (call_tool srv call (dict_get confirmations (tc_id call))) (\<lambda>r.
       if trs_status r = TWaiting then suspend_batch srv hk response observed call calls r
       else pbind (observe_result srv call r) (\<lambda>go. if \<not> go then pret ()
         else execute_tool_batch srv hk response confirmations (observed @ [(call, r)]) calls)))) (\<lambda>_. at_step s0 n) (\<lambda>_. over s0 n)"
    proof (cases stop)
      case True
      then show ?thesis by (auto intro!: leads_ret intro: closed_over [OF conjI])
    next
      case False
      from leads_bind [OF admit ret [OF tool]] False show ?thesis by simp
    qed
  qed
qed

lemma count_step: "leads (live s0 n False) (set_context (\<lambda>c. c\<lparr>rc_step_count := rc_step_count c + 1\<rparr>)) E (\<lambda>_. live s0 (n + 1) False)"
  by (auto simp: leads_def on_context_def live_def seg_def stored_def view_def suspended_def)

lemma pop_batch: "live s0 n b s \<Longrightarrow>
   live s0 n False (s\<lparr>rt_context := (rt_context s)\<lparr>rc_supervision := dict_pop batch_key (rc_supervision (rt_context s))\<rparr>\<rparr>)"
  by (simp add: live_def seg_def stored_def view_def suspended_def dict_simps)

definition pure_prog :: "('s, 'e, 'a) prog \<Rightarrow> bool" where
  "pure_prog m \<longleftrightarrow> (\<forall>s. snd (m s) = s)"

lemma pure_rules: "pure_prog (pret x)" "pure_prog (praise e)" "pure_prog (plift r)" "pure_prog (Pair r)"
  by (simp_all add: pure_prog_def)

lemma pureD: "pure_prog m \<Longrightarrow> snd (m s) = s"
  by (simp add: pure_prog_def)

lemma pure_bind: "pure_prog m \<Longrightarrow> (\<And>x. pure_prog (f x)) \<Longrightarrow> pure_prog (pbind m f)"
  by (simp add: pure_prog_def pbind_app split: prod.split sum.split) (metis snd_conv)

lemma pbind_first: "pbind (plift (Inr x)) f = f x" "pbind pget g c = g c c" "pthen (pput h) k c = k (h c)"
  by (simp_all add: pbind_def pget_def plift_def pput_def)

lemma read_batch_context: "snd (read_batch w raw c) = c \<or> snd (read_batch w raw c) = c\<lparr>rc_supervision := dict_pop decision_key (rc_supervision c)\<rparr>"
proof (cases "parse_batch w raw")
  case (Inl e)
  then show ?thesis by (simp add: read_batch_def pbind_app)
next
  case (Inr q)
  obtain call rest response observed where q: "q = (call, rest, response, observed)" by (cases q) auto
  let ?k = "pbind (case dict_get (rc_supervision c) decision_key of None \<Rightarrow> pret None | Some JNull \<Rightarrow> pret None
       | Some j \<Rightarrow> pbind (plift (wr_parse_confirmation w j)) (\<lambda>x. pret (Some x))) (\<lambda>confirmation.
     pbind (if approves confirmation then pret None
       else pbind (plift (find_tool_result w (rc_messages c) (tc_id call))) (\<lambda>r. pret (Some r))) (\<lambda>waiting.
     pret (call, rest, response, observed, confirmation, waiting)))"
  let ?c = "c\<lparr>rc_supervision := dict_pop decision_key (rc_supervision c)\<rparr>"
  have "snd (?k ?c) = ?c" by (rule pureD) (auto intro!: pure_bind pure_rules split: option.split json.split)
  moreover have "read_batch w raw c = ?k ?c" by (simp add: read_batch_def Inr q pbind_first Let_def)
  ultimately show ?thesis by simp
qed

lemma steady_read: "steady (on_context (read_batch w raw))"
proof (rule steadyI)
  fix s0 s r s' assume s: "seg s0 s" and r: "on_context (read_batch w raw) s = (r, s')"
  then have "s' = s\<lparr>rt_context := snd (read_batch w raw (rt_context s))\<rparr>" by (auto simp: on_context_def split: prod.splits)
  with read_batch_context [of w raw "rt_context s"] s show "seg s0 s' \<and> view s' = view s"
    by (elim disjE) (simp_all add: seg_context dict_simps)
qed

definition resume_post :: "'w runtime \<Rightarrow> int \<Rightarrow> bool \<Rightarrow> bool \<Rightarrow> 'w runtime \<Rightarrow> bool" where
  "resume_post s0 n b resumed s \<longleftrightarrow> (if resumed then b \<and> over s0 n s else live s0 n False s)"

lemma resume_ok:
  assumes good: "good_services sha my srv"
  shows "leads (live s0 n b) (resume_action_batch srv hk) (\<lambda>_. at_step s0 n) (resume_post s0 n b)"
  unfolding resume_action_batch_def Let_def
proof (rule leads_get)
  fix s assume s: "live s0 n b s"
  let ?raw = "dict_get (rc_supervision (rt_context s)) batch_key" and ?Q = "resume_post s0 n b"
  let ?pop = "set_context (\<lambda>c. c\<lparr>rc_supervision := dict_pop batch_key (rc_supervision c)\<rparr>)"
  have pop: "leads ((=) s) ?pop (\<lambda>_. at_step s0 n) (\<lambda>_. live s0 n False)"
    using pop_batch [OF s] by (simp add: leads_def on_context_def)
  have b: "?raw \<noteq> None \<Longrightarrow> b" using s by (auto simp: live_def view_def suspended_def)
  have done': "leads (live s0 n False) (pthen m (pret True)) (\<lambda>_. at_step s0 n) ?Q"
    if "leads (live s0 n False) m (\<lambda>_. at_step s0 n) (\<lambda>_. over s0 n)" "?raw \<noteq> None" for m :: "('w, unit) run_task"
    by (rule leads_bind [OF that(1)], rule leads_ret) (simp add: resume_post_def b [OF that(2)])
  show "leads ((=) s) (pthen ?pop (if ?raw = None \<or> ?raw = Some JNull then pret False
      else ptry (on_context (read_batch (srv_wire srv) (the ?raw))) (\<lambda>res. case res of
        Inl e \<Rightarrow> if caught_in_batch e
          then pthen (hk_fail hk (''invalid suspended action batch: '' @ cd_str (srv_codec srv) e)) (pret True) else praise e
      | Inr (call, rest, response, observed, confirmation, waiting) \<Rightarrow>
          if approves confirmation
          then pthen (execute_tool_batch srv hk response [(tc_id call, the confirmation)] observed (call # rest)) (pret True)
          else (case waiting of None \<Rightarrow> praise AssertionError
            | Some r \<Rightarrow> if rest \<noteq> [] then pthen (execute_tool_batch srv hk response [] (observed @ [(call, r)]) rest) (pret True)
                else pthen (finish_batch srv hk response (observed @ [(call, r)])) (pret True))))) (\<lambda>_. at_step s0 n) ?Q"
  proof (rule leads_bind [OF pop], cases "?raw = None \<or> ?raw = Some JNull")
    case True
    then show "leads (live s0 n False) (if ?raw = None \<or> ?raw = Some JNull then pret False else m) (\<lambda>_. at_step s0 n) ?Q" for m
      by (auto simp: resume_post_def intro: leads_ret)
  next
    case False
    then have raw: "?raw \<noteq> None" by simp
    have read: "leads (live s0 n False) (on_context (read_batch (srv_wire srv) j)) (\<lambda>_. live s0 n False) (\<lambda>_. live s0 n False)" for j
      by (rule leads_conseq [OF steady_leads [OF steady_read, where P = "\<lambda>v. v = (Running, n, False)"]]) (auto simp: live_def)
    have failed: "leads (live s0 n False) (hk_fail hk (''invalid suspended action batch: '' @ x)) (\<lambda>_. at_step s0 n) (\<lambda>_. over s0 n)" for x
      by (rule fail_over [OF good]) simp
    have rest: "leads (live s0 n False) (case res of
        Inl e \<Rightarrow> if caught_in_batch e
          then pthen (hk_fail hk (''invalid suspended action batch: '' @ cd_str (srv_codec srv) e)) (pret True) else praise e
      | Inr (call, rest, response, observed, confirmation, waiting) \<Rightarrow>
          if approves confirmation
          then pthen (execute_tool_batch srv hk response [(tc_id call, the confirmation)] observed (call # rest)) (pret True)
          else (case waiting of None \<Rightarrow> praise AssertionError
            | Some r \<Rightarrow> if rest \<noteq> [] then pthen (execute_tool_batch srv hk response [] (observed @ [(call, r)]) rest) (pret True)
                else pthen (finish_batch srv hk response (observed @ [(call, r)])) (pret True))) (\<lambda>_. at_step s0 n) ?Q" for res
      using done' [OF batch_ok [OF good] raw] done' [OF finish_ok [OF good] raw] done' [OF failed raw]
      by (auto simp del: execute_tool_batch.simps intro: leads_raise live_at split: sum.split prod.split option.split)
    show "leads (live s0 n False) (if ?raw = None \<or> ?raw = Some JNull then pret False
      else ptry (on_context (read_batch (srv_wire srv) (the ?raw))) (\<lambda>res. case res of
        Inl e \<Rightarrow> if caught_in_batch e
          then pthen (hk_fail hk (''invalid suspended action batch: '' @ cd_str (srv_codec srv) e)) (pret True) else praise e
      | Inr (call, rest, response, observed, confirmation, waiting) \<Rightarrow>
          if approves confirmation
          then pthen (execute_tool_batch srv hk response [(tc_id call, the confirmation)] observed (call # rest)) (pret True)
          else (case waiting of None \<Rightarrow> praise AssertionError
            | Some r \<Rightarrow> if rest \<noteq> [] then pthen (execute_tool_batch srv hk response [] (observed @ [(call, r)]) rest) (pret True)
                else pthen (finish_batch srv hk response (observed @ [(call, r)])) (pret True)))) (\<lambda>_. at_step s0 n) ?Q"
      by (simp only: False if_False) (rule leads_try [where M = "\<lambda>_. live s0 n False", OF read], rule rest)
  qed
qed

lemma turn_advances:
  assumes good: "good_services sha my srv"
  shows "leads (live s0 n b) (advance_turn srv hk) (\<lambda>_ s. at_step s0 n s \<or> at_step s0 (n + 1) s) (\<lambda>_ s. b \<and> over s0 n s \<or> over s0 (n + 1) s)"
  unfolding advance_turn_def
proof (rule leads_bind)
  let ?E = "\<lambda>_ s. at_step s0 n s \<or> at_step s0 (n + 1) s" and ?Q = "\<lambda>_ s. b \<and> over s0 n s \<or> over s0 (n + 1) s"
  show "leads (live s0 n b) (resume_action_batch srv hk) ?E (resume_post s0 n b)"
    by (rule leads_conseq [OF resume_ok [OF good]]) auto
  fix resumed
  let ?next = "pthen (set_context (\<lambda>c. c\<lparr>rc_step_count := rc_step_count c + 1\<rparr>))
     (pthen (hk_before hk)
     (pbind pget (\<lambda>s. pbind (plift (hk_definitions hk (rt_context s))) (\<lambda>definitions.
      pbind (plift (model_request_of definitions (rt_context s))) (\<lambda>request.
      pthen (emit_event MODEL_REQUESTED [step_entry s, (''request'', JObj (wr_request (srv_wire srv) request @
        [(''memories'', JList (map match_json (rq_memories request)))]))])
      (ptry (on_world (srv_complete srv request)) (\<lambda>res. case res of
        Inl e \<Rightarrow> if e = CancelledError then praise e
          else hk_fail hk (''model provider '' @ quoted (srv_provider srv) @ '' failed: '' @ cd_str (srv_codec srv) e)
      | Inr response \<Rightarrow> pthen (accept_response srv response) (act_on_response srv hk response))))))))"
  have accept: "steady (accept_response srv response)" for response unfolding accept_response_def
    by (intro steady_rules save_steady [OF good]) simp
  have act: "leads (live s0 m False) (act_on_response srv hk response) (\<lambda>_. at_step s0 m) (\<lambda>_. over s0 m)" for m response
    unfolding act_on_response_def Let_def
  proof (rule leads_bind [OF cancel_ok [OF others [OF good]]])
    fix stop
    have batch: "leads (live s0 m False) (pbind pget (\<lambda>s. pthen (hk_actions hk (hk_select hk (rt_context s) response))
        (execute_tool_batch srv hk response [] [] (hk_select hk (rt_context s) response)))) (\<lambda>_. at_step s0 m) (\<lambda>_. over s0 m)"
      by (rule leads_get, rule leads_from [where P = "live s0 m False"], rule leads_bind [OF steady_live [OF actions_steady]], rule batch_ok [OF good])
    have reply: "leads (live s0 m False) (pthen (hk_completed hk response False) (hk_complete hk t)) (\<lambda>_. at_step s0 m) (\<lambda>_. over s0 m)" for t
      by (rule leads_bind [OF steady_live [OF completed_steady]], rule restsD [OF complete_rests [OF others [OF good]]])
    show "leads (\<lambda>s. if stop then at_step s0 m s \<and> rc_state (rt_context s) \<noteq> Running else live s0 m False s) (if stop then pret ()
     else if mr_tool_calls response = []
     then pthen (hk_completed hk response False) (hk_complete hk (case mr_content response of None \<Rightarrow> [] | Some t \<Rightarrow> t))
     else pbind pget (\<lambda>s. pthen (hk_actions hk (hk_select hk (rt_context s) response))
        (execute_tool_batch srv hk response [] [] (hk_select hk (rt_context s) response)))) (\<lambda>_. at_step s0 m) (\<lambda>_. over s0 m)"
      using batch reply by (cases stop) (auto intro!: leads_ret intro: closed_over [OF conjI])
  qed
  have failed: "leads (live s0 m False) (hk_fail hk (''model provider '' @ x)) (\<lambda>_. at_step s0 m) (\<lambda>_. over s0 m)" for m x
    by (rule fail_over [OF good]) simp
  have answered: "leads (live s0 m False) (case res of Inl e \<Rightarrow> if e = CancelledError then praise e
          else hk_fail hk (''model provider '' @ quoted (srv_provider srv) @ '' failed: '' @ cd_str (srv_codec srv) e)
      | Inr response \<Rightarrow> pthen (accept_response srv response) (act_on_response srv hk response)) (\<lambda>_. at_step s0 m) (\<lambda>_. over s0 m)" for m res
    using leads_bind [OF steady_live [OF accept] act] failed by (cases res) (auto intro: leads_raise live_at)
  have ask: "leads (live s0 m False) (on_world (srv_complete srv q)) (\<lambda>_. live s0 m False) (\<lambda>_. live s0 m False)" for m q
    by (rule leads_conseq [OF steady_leads [OF steady_world, where P = "\<lambda>v. v = (Running, m, False)"]]) (auto simp: live_def)
  have "leads (live s0 n False) ?next ?E (\<lambda>_. over s0 (n + 1))"
    by (rule leads_bind, rule count_step, rule leads_conseq, rule leads_bind, rule steady_live, rule before_steady, rule leads_get,
        rule leads_from [where P = "live s0 (n + 1) False"], rule leads_bind, rule steady_live, rule steady_basic, rule leads_bind,
        rule steady_live, rule steady_basic, rule leads_bind, rule steady_live, rule steady_emit, simp,
        rule leads_try [where M = "\<lambda>_. live s0 (n + 1) False", OF ask], rule answered) auto
  then show "leads (resume_post s0 n b resumed) (if resumed then pret () else ?next) ?E ?Q"
    by (cases resumed) (auto simp: resume_post_def intro!: leads_ret elim: leads_conseq)
qed

end

subsection \<open>The two strategies\<close>

lemma steady_put_react [steady_rules]: "steady (put_react k j)"
  by (rule steadyI) (auto simp: put_react_def on_context_def pbind_app seg_context split: sum.splits)

lemma steady_react_event [steady_rules]: "t \<notin> set terminal_types \<Longrightarrow> steady (react_event t d)"
  unfolding react_event_def by (intro steady_rules)

lemma steady_react_before: "steady react_before"
  unfolding react_before_def by (intro steady_rules) simp

lemma closes_raise: "closes (praise e)"
  unfolding closes_def by (auto intro: leads_raise live_at)

lemma closes_react: "closes (react_complete srv t)"
  unfolding react_complete_def
  by (auto intro!: closes_fail closes_raise closes_then closes_enter steady_rules split: sum.split)

interpretation model_tool: turn_hooks srv "model_tool_hooks srv"
  by unfold_locales (simp_all add: model_tool_hooks_def steady_basic idles_steady rests_closes closes_complete closes_fail)

interpretation react: turn_hooks srv "react_hooks srv"
  by unfold_locales (simp_all add: react_hooks_def model_tool_hooks_def steady_basic steady_react_before react_actions_def react_observed_def
      react_completed_def steady_react_event idles_steady rests_closes closes_react closes_fail)

text \<open>
  What the runtime relies on from a strategy: from a running context with \<open>n\<close> steps, \<open>advance\<close> takes one more
  step or, if a batch was suspended, finishes that batch; only then is the context still running with as many
  steps. A planning strategy may also spend one turn to announce its summary.
\<close>

definition spare :: "runtime_context \<Rightarrow> bool" where
  "spare c \<longleftrightarrow> (case dict_get (rc_supervision c) plan_key of Some (JObj d) \<Rightarrow> dict_get d ''phase'' \<noteq> Some (JStr ''summarizing'') | _ \<Rightarrow> True)"

definition turned :: "'w runtime \<Rightarrow> int \<Rightarrow> bool \<Rightarrow> bool \<Rightarrow> 'w runtime \<Rightarrow> bool" where
  "turned s0 n b c s \<longleftrightarrow> over s0 n s \<and> (rc_state (rt_context s) = Running \<longrightarrow> b) \<or> over s0 (n + 1) s \<or>
     at_step s0 n s \<and> suspended s = b \<and> c \<and> \<not> spare (rt_context s)"

locale bounded_strategy =
  fixes srv :: "'w services" and adv :: "('w, unit) run_task"
  assumes adv_ok: "good_services sha my srv \<Longrightarrow> leads (\<lambda>s. live s0 n b s \<and> spare (rt_context s) = c) adv
    (\<lambda>_ s. at_step s0 n s \<or> at_step s0 (n + 1) s) (\<lambda>_. turned s0 n b c)"

interpretation model_tool_strategy: bounded_strategy srv "model_tool_advance srv"
  unfolding model_tool_advance_def by unfold_locales (rule leads_conseq [OF model_tool.turn_advances], auto simp: turned_def)

lemma react_advance_ok:
  assumes good: "good_services sha my srv"
  shows "leads (live s0 n b) (react_advance srv k) (\<lambda>_ s. at_step s0 n s \<or> at_step s0 (n + 1) s)
    (\<lambda>_ s. over s0 n s \<and> (rc_state (rt_context s) = Running \<longrightarrow> b) \<or> over s0 (n + 1) s)"
proof -
  let ?E = "\<lambda>_ s. at_step s0 n s \<or> at_step s0 (n + 1) s"
    and ?Q = "\<lambda>_ s. over s0 n s \<and> (rc_state (rt_context s) = Running \<longrightarrow> b) \<or> over s0 (n + 1) s"
  have e: "leads (live s0 n b) m ?E (\<lambda>_. live s0 n b)" if "steady m" for m :: "('a, 'c) run_task"
    by (rule leads_conseq [OF steady_live [OF that]]) auto
  have init: "steady (set_context (\<lambda>c. if dict_get (rc_supervision c) react_key = None
       then c\<lparr>rc_supervision := dict_set react_key (JObj [(''iteration'', JInt 0), (''prompt_added'', JBool False)]) (rc_supervision c)\<rparr> else c))"
    by (rule steady_context) (simp add: plain_change_def)
  have prompt: "steady (add_react_prompt srv)" unfolding add_react_prompt_def
    by (rule steady_get) (auto intro!: steady_rules save_steady [OF good] split: list.split option.split)
  have adv: "leads (live s0 n b) (advance_turn srv (react_hooks srv)) ?E ?Q" by (rule leads_conseq [OF react.turn_advances [OF good]]) auto
  have fail: "leads (live s0 n b) (fail_execution t) ?E ?Q" if "\<not> blank t" for t
    by (rule leads_conseq [OF closesD [OF closes_fail [OF that]]]) (auto intro: closed_over [OF conjI])
  show ?thesis unfolding react_advance_def
  proof (rule leads_bind [OF e [OF init]], rule leads_get, rule leads_from [where P = "live s0 n b"], rule leads_bind [OF e [OF steady_basic(3)]],
      rule leads_bind [OF e], force intro: prompt steady_basic, rule leads_get, rule leads_from [where P = "live s0 n b"],
      rule leads_bind [OF e [OF steady_basic(3)]])
    fix i and s :: "'a runtime"
    show "leads (live s0 n b) (if k \<le> i \<and> dict_get (rc_supervision (rt_context s)) batch_key = None
       then fail_execution (''ReAct iteration limit reached ('' @ str_int k @ '')'') else advance_turn srv (react_hooks srv)) ?E ?Q"
      using adv fail [of "''ReAct iteration limit reached ('' @ str_int k @ '')''"] by simp
  qed
qed

interpretation react_strategy: bounded_strategy srv "react_advance srv k"
  by unfold_locales (rule leads_conseq [OF react_advance_ok], auto simp: turned_def)

subsection \<open>The default supervisor\<close>

definition keeps_own :: "'a context_prog \<Rightarrow> bool" where
  "keeps_own m \<longleftrightarrow> (\<forall>c. own_data c (snd (m c)))"

lemma keeps_own_rules: "keeps_own (pret x)" "keeps_own (praise e)" "keeps_own (plift r)" "keeps_own pget" "keeps_own (Pair r)"
  by (simp_all add: keeps_own_def)

lemma keeps_own_put: "(\<And>c. own_data c (f c)) \<Longrightarrow> keeps_own (pput f)"
  by (simp add: keeps_own_def)

lemma keeps_own_bind:
  assumes "keeps_own m" "\<And>x. keeps_own (f x)"
  shows "keeps_own (pbind m f)"
  unfolding keeps_own_def
proof
  fix c
  obtain r c1 where r: "m c = (r, c1)" by (cases "m c")
  with assms(1) have c1: "own_data c c1" unfolding keeps_own_def by (metis snd_conv)
  show "own_data c (snd (pbind m f c))"
  proof (cases r)
    case (Inr x)
    with r have "snd (pbind m f c) = snd (f x c1)" by (simp add: pbind_app)
    with own_data_trans [OF c1] assms(2) show ?thesis by (simp add: keeps_own_def)
  qed (use r c1 in \<open>simp add: pbind_app\<close>)
qed

lemma quiet_hookI: "keeps_own h \<Longrightarrow> leads (\<lambda>_. True) h (\<lambda>_ _. True) (\<lambda>d _. sound_decision d) \<Longrightarrow> quiet_hook h"
  unfolding quiet_hook_def keeps_own_def by (metis leadsD(2) prod.collapse)

lemma quiet_hookD: "quiet_hook h \<Longrightarrow> keeps_own h" "quiet_hook h \<Longrightarrow> leads (\<lambda>_. True) h (\<lambda>_ _. True) (\<lambda>d _. sound_decision d)"
  by (auto simp: quiet_hook_def keeps_own_def leads_def split: prod.split sum.split) (metis fst_conv)

lemma decisions_valid: "continue_decision name = Inr d \<Longrightarrow> sound_decision d" "\<not> blank reason \<Longrightarrow> stop_decision name reason st md = Inr d \<Longrightarrow> sound_decision d"
  "\<not> blank reason \<Longrightarrow> redirect_decision name reason message md = Inr d \<Longrightarrow> sound_decision d"
  by (auto simp: sound_decision_def continue_decision_def stop_decision_def redirect_decision_def construct_def split: if_splits)

lemma valid_leads: "leads (\<lambda>_. True) (plift (continue_decision name)) (\<lambda>_ _. True) (\<lambda>d _. sound_decision d)"
  "\<not> blank reason \<Longrightarrow> leads (\<lambda>_. True) (plift (stop_decision name reason st md)) (\<lambda>_ _. True) (\<lambda>d _. sound_decision d)"
  "\<not> blank reason \<Longrightarrow> leads (\<lambda>_. True) (plift (redirect_decision name reason message md)) (\<lambda>_ _. True) (\<lambda>d _. sound_decision d)"
  by (auto intro!: leads_lift dest: decisions_valid)

lemma valid_after: "(\<And>x. leads (\<lambda>_. True) (f x) (\<lambda>_ _. True) Q) \<Longrightarrow> leads (\<lambda>_. True) (pbind m f) (\<lambda>_ _. True) Q"
  by (rule leads_bind [where M = "\<lambda>_ _. True"]) (auto simp: leads_def split: prod.split sum.split)

lemmas quiet_rules = keeps_own_rules keeps_own_put keeps_own_bind valid_leads valid_after leads_raise

lemma quiet_continue: "quiet_hook (plift (continue_decision name))"
  by (rule quiet_hookI) (rule quiet_rules)+

lemma quiet_first: "(\<forall>p \<in> set ps. quiet_hook (hook p)) \<Longrightarrow> quiet_hook (first_decision hook ps)"
proof (induction ps)
  case Nil
  show ?case unfolding first_decision.simps by (rule quiet_continue)
next
  case (Cons p ps)
  then have p: "quiet_hook (hook p)" and ps: "quiet_hook (first_decision hook ps)" by simp_all
  show ?case unfolding first_decision.simps
  proof (rule quiet_hookI)
    show "keeps_own (pbind (hook p) (\<lambda>d. if sd_action d \<noteq> Continue then pret d else first_decision hook ps))"
      by (rule keeps_own_bind [OF quiet_hookD(1) [OF p]]) (simp add: keeps_own_rules(1) quiet_hookD(1) [OF ps])
    show "leads (\<lambda>_. True) (pbind (hook p) (\<lambda>d. if sd_action d \<noteq> Continue then pret d else first_decision hook ps)) (\<lambda>_ _. True) (\<lambda>d _. sound_decision d)"
      by (rule leads_bind [OF quiet_hookD(2) [OF p]]) (auto intro: leads_ret leads_conseq [OF quiet_hookD(2) [OF ps]])
  qed
qed

lemma quiet_base: "quiet_hook (sv_before_model (base_supervisor name))" "quiet_hook (sv_before_tool (base_supervisor name) call)"
  "quiet_hook (sv_after_tool (base_supervisor name) call r)"
  unfolding base_supervisor_def supervisor.simps by (rule quiet_continue)+

lemma quiet_if: "keeps_own m \<Longrightarrow> keeps_own m' \<Longrightarrow> keeps_own (if b then m else m')" "leads P h E Q \<Longrightarrow> leads P h' E Q \<Longrightarrow> leads P (if b then h else h') E Q"
  by simp_all

lemma quiet_budget: "quiet_hook (sv_before_model execution_budget)" "quiet_hook (sv_before_tool execution_budget call)"
  "quiet_hook (sv_after_tool execution_budget call r)"
proof -
  show "quiet_hook (sv_before_model execution_budget)"
    by (simp only: execution_budget_def base_supervisor_def supervisor.simps) (rule quiet_hookI; intro quiet_rules quiet_if; simp)
  show "quiet_hook (sv_before_tool execution_budget call)"
    by (simp only: execution_budget_def base_supervisor_def supervisor.simps) (rule quiet_hookI; intro quiet_rules quiet_if; simp)
  show "quiet_hook (sv_after_tool execution_budget call r)"
    by (simp only: execution_budget_def base_supervisor_def supervisor.simps) (rule quiet_continue)
qed

lemma own_data_set: "k \<notin> {batch_key, decision_key, react_key, plan_key} \<Longrightarrow> own_data c (c\<lparr>rc_supervision := dict_set k j (rc_supervision c)\<rparr>)"
  by (auto simp: own_data_def)

lemma quiet_duplicate: "quiet_hook (sv_before_tool (duplicate_detector dumps) call)"
  unfolding duplicate_detector_def base_supervisor_def supervisor.simps Let_def
  by (rule quiet_hookI; intro quiet_rules) (auto intro!: quiet_rules own_data_set split: json.split)

lemma quiet_no_progress: "quiet_hook (sv_after_tool no_progress_detector call r)"
  unfolding no_progress_detector_def base_supervisor_def supervisor.simps Let_def
  by (rule quiet_hookI; intro quiet_rules quiet_if own_data_set; simp)

lemma budget_stops: "ap_max_steps (rc_profile c) \<le> rc_step_count c \<Longrightarrow> decides (sv_before_model execution_budget c) Stop c"
  "ap_max_tool_calls (rc_profile c) \<le> rc_tool_call_count c \<Longrightarrow> decides (sv_before_tool execution_budget call c) Stop c"
  by (simp_all add: execution_budget_def pbind_app decides_stop)

text \<open>\<open>build_default_supervisor\<close> meets the contract.\<close>

lemma default_supervisor_bounded: "bounded_supervisor (default_supervisor dumps)"
proof -
  let ?ps = "[execution_budget, duplicate_detector dumps, no_progress_detector]"
  have other: "quiet_hook (sv_before_model (duplicate_detector dumps))" "quiet_hook (sv_before_model no_progress_detector)"
    "quiet_hook (sv_before_tool no_progress_detector call)" "quiet_hook (sv_after_tool (duplicate_detector dumps) call r)" for call r
    using quiet_base by (simp_all add: duplicate_detector_def no_progress_detector_def)
  have "quiet_hook (first_decision sv_before_model ?ps)" "quiet_hook (first_decision (\<lambda>p. sv_before_tool p call) ?ps)"
    "quiet_hook (first_decision (\<lambda>p. sv_after_tool p call r) ?ps)" for call r
    by (rule quiet_first, simp add: quiet_budget quiet_duplicate quiet_no_progress other)+
  moreover have "sd_action d = Stop" if "fst (first_decision sv_before_model ?ps c) = Inr d" "ap_max_steps (rc_profile c) \<le> rc_step_count c" for c d
    using first_decision_step(2) [where hook = sv_before_model, OF budget_stops(1) [OF that(2)], of "[duplicate_detector dumps, no_progress_detector]"] that(1)
    by (auto simp: decides_def simp del: first_decision.simps)
  moreover have "sd_action d = Stop" if "fst (first_decision (\<lambda>p. sv_before_tool p call) ?ps c) = Inr d"
    "ap_max_tool_calls (rc_profile c) \<le> rc_tool_call_count c" for call c d
    using first_decision_step(2) [where hook = "\<lambda>p. sv_before_tool p call", OF budget_stops(2) [OF that(2)], of "[duplicate_detector dumps, no_progress_detector]"] that(1)
    by (auto simp: decides_def simp del: first_decision.simps)
  ultimately show ?thesis unfolding bounded_supervisor_def default_supervisor_def composite_def supervisor.simps by (metis not_le)
qed

end
