(* ===== verification/Engine.thy ===== *)
theory Engine
  imports Turns
begin

text \<open>
  \<open>runtime/engine.py\<close>: \<open>AgentRuntime\<close> creates the context of a run, executes one segment of it (from the
  start or from a suspension) and settles it in the stores. The loop over turns is bounded by fuel; how
  much is enough is proved below. A strategy is its \<open>advance\<close> and, for planning strategies, its \<open>settle\<close>.
\<close>

subsection \<open>Contexts\<close>

definition compose_instructions :: "agent_profile \<Rightarrow> skill list \<Rightarrow> string" where
  "compose_instructions p skills = join_with [newline, newline] (strip (ap_instructions p) #
     map (\<lambda>sk. join_with [newline] [''## Skill: '' @ sm_name (sk_manifest sk) @ '' ('' @ sm_version (sk_manifest sk) @ '')'',
       sm_description (sk_manifest sk), sk_instructions sk]) skills)"

record context_request =
  cq_run_id :: "uuid option"
  cq_conversation_id :: "uuid option"
  cq_turn_sequence :: "int option"
  cq_history :: "message list"
  cq_skills :: "skill list"
  cq_enabled_tools :: "string list option"
  cq_plan :: "execution_plan option"
  cq_planning_requested :: bool
  cq_attachments :: "attachment list"
  cq_metadata :: jobj

text \<open>\<open>fresh_id\<close> is the default run id, \<open>uuid4()\<close>.\<close>

definition create_context :: "uuid \<Rightarrow> agent_profile \<Rightarrow> string \<Rightarrow> context_request \<Rightarrow> exn + runtime_context" where
  "create_context fresh_id p prompt q =
     (if blank prompt then Inl (ValueError ''prompt must not be empty'')
      else if \<not> unique_ids (map att_id (cq_attachments q)) then Inl (ValueError ''attachments must be unique'')
      else if list_ex (\<lambda>m. mg_role m \<notin> {UserRole, AssistantRole}) (cq_history q)
      then Inl (ValueError ''conversation history may contain only user and assistant messages'')
      else if (cq_conversation_id q = None) \<noteq> (cq_turn_sequence q = None)
      then Inl (ValueError ''conversation_id and turn_sequence must be provided together'')
      else if cq_plan q \<noteq> None \<and> cq_planning_requested q then Inl (ValueError ''plan and planning_requested cannot be used together'')
      else Inr \<lparr>rc_profile = p, rc_messages = system_message (compose_instructions p (cq_skills q)) # cq_history q @ [user_message prompt],
        rc_conversation_id = cq_conversation_id q, rc_turn_sequence = cq_turn_sequence q, rc_skills = cq_skills q,
        rc_enabled_tools = (case cq_enabled_tools q of None \<Rightarrow> ap_tools p | Some ts \<Rightarrow> ts),
        rc_run_id = (case cq_run_id q of None \<Rightarrow> fresh_id | Some k \<Rightarrow> k), rc_state = Created, rc_step_count = 0, rc_tool_call_count = 0,
        rc_usage = no_usage, rc_responses = [], rc_output = None, rc_error = None, rc_provider_name = None, rc_supervision = [],
        rc_pending_input = None, rc_plan = cq_plan q, rc_planning_requested = cq_planning_requested q, rc_resource_failures = [],
        rc_attachments = cq_attachments q, rc_artifacts = [], rc_input_text = prompt, rc_memories = [], rc_memory_initialized = False,
        rc_memory_error = None, rc_run_metadata = cq_metadata q\<rparr>)"

subsection \<open>An execution\<close>

record 'w strategy =
  sg_advance :: "('w, unit) run_task"
  sg_settle :: "('w, unit) run_task option"

record 'w agent_runtime =
  ar_strategy :: "'w strategy"
  ar_planning :: "'w strategy option"

record 'w execution =
  xn_services :: "'w services"
  xn_runtime :: "'w agent_runtime"
  xn_resources :: "'w resource_spec list"
  xn_memories :: "'w memory_manager"
  xn_resume_input :: "string option"
  xn_confirmation :: "tool_confirmation option"

definition active_strategy :: "'w agent_runtime \<Rightarrow> runtime_context \<Rightarrow> 'w strategy" where
  "active_strategy ar c = (case ar_planning ar of Some p \<Rightarrow> if rc_plan c \<noteq> None \<or> rc_planning_requested c then p else ar_strategy ar
     | None \<Rightarrow> ar_strategy ar)"

subsection \<open>Starting\<close>

definition flow_invocation_correlation :: "jobj \<Rightarrow> jobj" where
  "flow_invocation_correlation md = (if dict_get md ''execution_scope'' \<noteq> Some (JStr ''flow_invocation'') then []
     else concat (map (\<lambda>k. case dict_get md k of Some j \<Rightarrow> [(k, j)] | None \<Rightarrow> [])
       [''execution_scope'', ''flow_run_id'', ''invocation_id'', ''agent_key'', ''definition_id'', ''definition_version'', ''definition_fingerprint'']))"

definition skill_reference_of :: "skill \<Rightarrow> skill_reference" where
  "skill_reference_of sk = \<lparr>sr_name = sm_name (sk_manifest sk), sr_version = sm_version (sk_manifest sk)\<rparr>"

definition new_run :: "runtime_context \<Rightarrow> timestamp \<Rightarrow> timestamp \<Rightarrow> run" where
  "new_run c t1 t2 = \<lparr>rn_id = rc_run_id c, rn_profile_id = ap_id (rc_profile c), rn_conversation_id = rc_conversation_id c,
     rn_turn_sequence = rc_turn_sequence c, rn_status = Created, rn_step_count = 0, rn_tool_call_count = 0, rn_usage = no_usage,
     rn_skills = map skill_reference_of (rc_skills c), rn_output = None, rn_error = None, rn_cancel_requested = False,
     rn_created_at = t1, rn_updated_at = t2, rn_metadata = rc_run_metadata c, rn_attachments = rc_attachments c,
     rn_artifacts = rc_artifacts c\<rparr>"

definition store_new_run :: "'w services \<Rightarrow> ('w, unit) run_task" where
  "store_new_run srv = pbind pget (\<lambda>s. on_runs srv (pbind utc_now (\<lambda>t1. pbind utc_now (\<lambda>t2.
     pbind (plift (construct valid_run (new_run (rt_context s) t1 t2))) create_run))))"

definition announce_created :: "'w services \<Rightarrow> ('w, unit) run_task" where
  "announce_created srv = pbind pget (\<lambda>s. let c = rt_context s in
     pthen (emit_event RUN_CREATED ([(''profile_id'', JStr (ap_id (rc_profile c))),
        (''conversation_id'', opt_json (\<lambda>k. JStr (str_uuid k)) (rc_conversation_id c)),
        (''turn_sequence'', opt_json JInt (rc_turn_sequence c))] @ flow_invocation_correlation (rc_run_metadata c)))
     (pthen (peach (\<lambda>sk. let data = [(''name'', JStr (sm_name (sk_manifest sk))), (''version'', JStr (sm_version (sk_manifest sk)))] in
        pthen (emit_event SKILL_SELECTED data) (emit_event SKILL_LOADED data)) (rc_skills c))
     (pthen (case rc_plan c of Some p \<Rightarrow> emit_event PLAN_CREATED [(''plan'', cd_plan (srv_codec srv) p)] | None \<Rightarrow> pret ())
     (peach (\<lambda>a. emit_event ATTACHMENT_ADDED [(''attachment'', cd_attachment (srv_codec srv) a)]) (rc_attachments c)))))"

definition create_stored_run :: "'w services \<Rightarrow> ('w, unit) run_task" where
  "create_stored_run srv = pthen (store_new_run srv) (announce_created srv)"

definition announce_start :: "'w services \<Rightarrow> ('w, unit) run_task" where
  "announce_start srv = pthen (set_context (\<lambda>c. c\<lparr>rc_provider_name := Some (srv_provider srv)\<rparr>))
     (pthen (save_context_snapshot srv) (emit_event RUN_STARTED [(''provider'', JStr (srv_provider srv))]))"

definition rejected_result :: "pending_input \<Rightarrow> tool_result" where
  "rejected_result p = \<lparr>trs_tool_name = pi_tool_name p, trs_status = TDenied, trs_data = JNull,
     trs_error_code = Some ''tool_confirmation_rejected'', trs_message = Some ''Tool execution was rejected''\<rparr>"

definition input_result :: "pending_input \<Rightarrow> string \<Rightarrow> tool_result" where
  "input_result p t = \<lparr>trs_tool_name = pi_tool_name p, trs_status = TSuccess, trs_data = JObj [(''input'', JStr t)],
     trs_error_code = None, trs_message = None\<rparr>"

definition answer_pending :: "'w services \<Rightarrow> pending_input \<Rightarrow> tool_result \<Rightarrow> ('w, unit) run_task" where
  "answer_pending srv p r = pbind (plift (tool_message (wr_text (srv_wire srv) r) (pi_tool_call_id p))) (\<lambda>m.
     set_context (\<lambda>c. c\<lparr>rc_messages := rc_messages c @ [m]\<rparr>))"

definition decision_value :: "confirmation_decision \<Rightarrow> string" where
  "decision_value d = (case d of Approve \<Rightarrow> ''approve'' | Reject \<Rightarrow> ''reject'')"

text \<open>The checks of \<open>_prepare_resume\<close>: how the pending request is answered.\<close>

datatype resume_answer = Answered string | Decided tool_confirmation

definition check_resume :: "'w services \<Rightarrow> pending_input \<Rightarrow> string option \<Rightarrow> tool_confirmation option \<Rightarrow> exn + resume_answer" where
  "check_resume srv p input confirmation =
     (if dict_get (pi_metadata p) ''kind'' = Some (JStr ''tool_confirmation'')
      then if input \<noteq> None then Inl (ValueError ''pending Tool confirmation requires Agent.confirm()'')
        else (case confirmation of None \<Rightarrow> Inl (ValueError ''Tool confirmation decision is required'')
          | Some cf \<Rightarrow> (case (case dict_get (pi_metadata p) ''request'' of None \<Rightarrow> Inl KeyError | Some j \<Rightarrow> wr_parse_request (srv_wire srv) j) of
              Inl e \<Rightarrow> if e = KeyError \<or> is_value_error e then Inl InvalidStateTransitionError else Inl e
            | Inr request \<Rightarrow> if tc_request_id cf \<noteq> cr_id request then Inl (ValueError ''Tool confirmation targets another request'')
                else Inr (Decided cf)))
      else if confirmation \<noteq> None then Inl (ValueError ''pending input does not accept a Tool confirmation'')
      else (case input of None \<Rightarrow> Inl (ValueError ''resume input must not be empty'')
        | Some t \<Rightarrow> if blank t then Inl (ValueError ''resume input must not be empty'') else Inr (Answered t)))"

definition take_answer :: "'w services \<Rightarrow> pending_input \<Rightarrow> resume_answer \<Rightarrow> ('w, unit) run_task" where
  "take_answer srv p a = (case a of
     Decided cf \<Rightarrow>
       pthen (set_context (\<lambda>c. c\<lparr>rc_supervision := dict_set decision_key (wr_confirmation (srv_wire srv) cf) (rc_supervision c)\<rparr>))
       (if tc_decision cf = Reject then answer_pending srv p (rejected_result p) else pret ())
   | Answered t \<Rightarrow> answer_pending srv p (input_result p t))"

definition announce_answer :: "'w services \<Rightarrow> pending_input \<Rightarrow> resume_answer \<Rightarrow> ('w, unit) run_task" where
  "announce_answer srv p a = (case a of
     Decided cf \<Rightarrow>
       pthen (emit_event TOOL_CONFIRMATION_DECIDED [(''request_id'', JStr (str_uuid (tc_request_id cf))),
         (''tool_call_id'', JStr (pi_tool_call_id p)), (''tool_name'', JStr (pi_tool_name p)),
         (''decision'', JStr (decision_value (tc_decision cf))), (''subject_id'', JStr (tc_subject_id cf)),
         (''reason_code'', JStr (tc_reason_code cf)), (''decided_at'', JStr (wr_isoformat (srv_wire srv) (tc_decided_at cf)))])
       (if tc_decision cf = Reject
        then pbind pget (\<lambda>s. emit_event TOOL_FAILED [step_entry s, (''call_id'', JStr (pi_tool_call_id p)), (''result'', result_json (rejected_result p))])
        else pret ())
   | Answered t \<Rightarrow> emit_event INPUT_RECEIVED [(''tool_call_id'', JStr (pi_tool_call_id p)), (''tool_name'', JStr (pi_tool_name p)),
       (''input'', JStr t)])"

definition prepare_resume :: "'w services \<Rightarrow> string option \<Rightarrow> tool_confirmation option \<Rightarrow> ('w, unit) run_task" where
  "prepare_resume srv input confirmation = pbind pget (\<lambda>s. case rc_pending_input (rt_context s) of
     None \<Rightarrow> praise InvalidStateTransitionError
   | Some p \<Rightarrow> pbind (plift (check_resume srv p input confirmation)) (\<lambda>a.
       pthen (take_answer srv p a)
       (pthen (set_context (\<lambda>c. c\<lparr>rc_pending_input := None, rc_output := None, rc_error := None, rc_provider_name := Some (srv_provider srv)\<rparr>))
       (pthen (enter_state Running)
       (pthen (save_context_snapshot srv)
       (pthen (announce_answer srv p a)
       (emit_event RUN_RESUMED [(''provider'', JStr (srv_provider srv)), (''from'', JStr ''waiting'')])))))))"

text \<open>Up to the \<open>try\<close> statement: the segment is started or resumed, after its managers are made.\<close>

definition enter_segment :: "'w execution \<Rightarrow> ('w, unit) run_task" where
  "enter_segment x = pbind pget (\<lambda>s. case rc_state (rt_context s) of
       Created \<Rightarrow> pthen (create_stored_run (xn_services x)) (pthen (enter_state Running) (announce_start (xn_services x)))
     | Running \<Rightarrow> pthen (create_stored_run (xn_services x)) (announce_start (xn_services x))
     | Waiting \<Rightarrow> prepare_resume (xn_services x) (xn_resume_input x) (xn_confirmation x)
     | _ \<Rightarrow> praise InvalidStateTransitionError)"

definition begin_segment :: "'w execution \<Rightarrow> ('w, unit) run_task" where
  "begin_segment x = pbind (plift (make_scope (xn_resources x))) (\<lambda>sc.
     pthen (pput (\<lambda>s. s\<lparr>rt_scope := sc\<rparr>)) (pthen (plift (make_memory_manager (xn_memories x))) (enter_segment x)))"

subsection \<open>The loop\<close>

text \<open>What precedes a turn, and the turn; \<open>False\<close> leaves the loop.\<close>

definition turn_gate :: "'w services \<Rightarrow> ('w, bool) run_task" where
  "turn_gate srv = pbind (cancel_if_requested srv) (\<lambda>stop. if stop then pret False else
     pbind (on_context (sv_before_model (srv_supervisor srv))) (\<lambda>d.
     pthen (if sd_action d \<noteq> Continue then apply_decision srv True d else pret ())
     (pbind pget (\<lambda>s. pret (rc_state (rt_context s) = Running)))))"

definition run_turn :: "'w services \<Rightarrow> 'w strategy \<Rightarrow> ('w, bool) run_task" where
  "run_turn srv sg = pbind (turn_gate srv) (\<lambda>go. if go then pthen (sg_advance sg) (pret True) else pret False)"

fun run_loop :: "nat \<Rightarrow> 'w services \<Rightarrow> 'w strategy \<Rightarrow> 'w runtime \<Rightarrow> ((exn + unit) \<times> 'w runtime) option" where
  "run_loop 0 srv sg s = (if rc_state (rt_context s) \<noteq> Running then Some (Inr (), s) else None)"
| "run_loop (Suc n) srv sg s = (if rc_state (rt_context s) \<noteq> Running then Some (Inr (), s)
     else (case run_turn srv sg s of
       (Inl e, s') \<Rightarrow> Some (Inl e, s')
     | (Inr go, s') \<Rightarrow> if go then run_loop n srv sg s' else Some (Inr (), s')))"

definition run_segment :: "'w execution \<Rightarrow> 'w strategy \<Rightarrow> nat \<Rightarrow> 'w runtime \<Rightarrow> ((exn + unit) \<times> 'w runtime) option" where
  "run_segment x sg fuel s = (let cd = srv_codec (xn_services x) in
     case pthen (start_scope cd) (initialize_memories cd (xn_memories x)) s of
       (Inl e, s') \<Rightarrow> Some (Inl e, s')
     | (Inr _, s') \<Rightarrow> run_loop fuel (xn_services x) sg s')"

subsection \<open>Settling\<close>

text \<open>The \<open>except\<close> clauses: the context after an exception.\<close>

definition interrupt_run :: "'w services \<Rightarrow> ('w, unit) run_task" where
  "interrupt_run srv = pbind pget (\<lambda>s. pbind (on_runs srv (is_cancel_requested (rc_run_id (rt_context s)))) (\<lambda>b.
     pthen (set_context (\<lambda>c. c\<lparr>rc_error := Some (if b then ''run cancellation requested'' else ''runtime task interrupted'')\<rparr>))
     (pbind pget (\<lambda>s. if rc_state (rt_context s) \<in> {Created, Running, Waiting} then enter_state (if b then Cancelled else Interrupted)
       else pret ()))))"

definition absorb_outcome :: "'w services \<Rightarrow> exn + unit \<Rightarrow> ('w, unit) run_task" where
  "absorb_outcome srv res = (case res of Inr _ \<Rightarrow> pret ()
     | Inl e \<Rightarrow> if e = CancelledError then interrupt_run srv
         else fail_execution (''orchestration failed: '' @ cd_str (srv_codec srv) e))"

record agent_result =
  ag_status :: agent_result_status
  ag_output :: "string option"
  ag_messages :: "message list"
  ag_usage :: token_usage
  ag_error :: "string option"
  ag_metadata :: jobj
  ag_attachments :: "attachment list"
  ag_artifacts :: "artifact list"

definition result_metadata :: "codec \<Rightarrow> runtime_context \<Rightarrow> jobj" where
  "result_metadata cd c = [(''run_id'', JStr (str_uuid (rc_run_id c))),
     (''conversation_id'', opt_json (\<lambda>k. JStr (str_uuid k)) (rc_conversation_id c)), (''turn_sequence'', opt_json JInt (rc_turn_sequence c)),
     (''steps'', JInt (rc_step_count c)), (''tool_calls'', JInt (rc_tool_call_count c)), (''provider'', opt_json JStr (rc_provider_name c)),
     (''planning_requested'', JBool (rc_planning_requested c))] @
     (case dict_get (rc_supervision c) react_key of Some j \<Rightarrow> [(''react'', j)] | None \<Rightarrow> []) @
     [(''model_calls'', JInt (int (length (rc_responses c)))), (''pending_input'', pending_json (rc_pending_input c)),
      (''plan'', opt_json (cd_plan cd) (rc_plan c)), (''resource_failures'', JList (map (\<lambda>f. JObj (failure_json f)) (rc_resource_failures c))),
      (''memory'', memory_json c)]"

definition build_result :: "codec \<Rightarrow> runtime_context \<Rightarrow> exn + agent_result" where
  "build_result cd c = (case run_to_result_status (rc_state c) of
     None \<Rightarrow> Inl InvalidStateTransitionError
   | Some st \<Rightarrow> Inr \<lparr>ag_status = st, ag_output = rc_output c, ag_messages = rc_messages c, ag_usage = rc_usage c, ag_error = rc_error c,
       ag_metadata = result_metadata cd c, ag_attachments = rc_attachments c, ag_artifacts = rc_artifacts c\<rparr>)"

fun terminal_event :: "run_status \<Rightarrow> event_type option" where
  "terminal_event Completed = Some RUN_COMPLETED"
| "terminal_event Failed = Some RUN_FAILED"
| "terminal_event Cancelled = Some RUN_CANCELLED"
| "terminal_event Interrupted = Some RUN_INTERRUPTED"
| "terminal_event LimitReached = Some RUN_LIMIT_REACHED"
| "terminal_event Waiting = Some RUN_WAITING"
| "terminal_event _ = None"

definition usage_json :: "token_usage \<Rightarrow> json" where
  "usage_json u = JObj [(''input_tokens'', JInt (input_tokens u)), (''output_tokens'', JInt (output_tokens u)),
     (''total_tokens'', JInt (total_tokens u))]"

definition final_data :: "codec \<Rightarrow> runtime_context \<Rightarrow> jobj" where
  "final_data cd c = [(''steps'', JInt (rc_step_count c)), (''tool_calls'', JInt (rc_tool_call_count c)), (''output'', opt_json JStr (rc_output c)),
     (''error'', opt_json JStr (rc_error c)), (''usage'', usage_json (rc_usage c)), (''model_calls'', JInt (int (length (rc_responses c)))),
     (''pending_input'', pending_json (rc_pending_input c)), (''plan'', opt_json (cd_plan cd) (rc_plan c)),
     (''resource_failures'', JList (map (\<lambda>f. JObj (failure_json f)) (rc_resource_failures c))),
     (''attachments'', JList (map (cd_attachment cd) (rc_attachments c))), (''artifacts'', JList (map (cd_artifact cd) (rc_artifacts c))),
     (''memory'', memory_json c)] @
     (if rc_state c = Interrupted then [(''interruption_source'', JStr ''asyncio_task_cancelled''), (''recoverable'', JBool False)] else [])"

definition finalize_run :: "'w services \<Rightarrow> ('w, unit) run_task" where
  "finalize_run srv = pthen (save_context_snapshot srv) (pbind pget (\<lambda>s. case terminal_event (rc_state (rt_context s)) of
     None \<Rightarrow> praise InvalidStateTransitionError
   | Some t \<Rightarrow> emit_event t (final_data (srv_codec srv) (rt_context s))))"

definition store_checkpoint :: "('w, unit) run_task" where
  "store_checkpoint = pbind pget (\<lambda>s. let c = rt_context s in
     if rc_state c = Waiting
     then pbind (plift (checkpoint_from_context c)) (\<lambda>cp.
       pput (\<lambda>s. s\<lparr>rt_checkpoints := snd (save_checkpoint cp_run_id cp (rt_checkpoints s))\<rparr>))
     else pput (\<lambda>s. s\<lparr>rt_checkpoints := snd (delete_checkpoint (rc_run_id c) (rt_checkpoints s))\<rparr>))"

definition finish_conversation :: "('w, unit) run_task" where
  "finish_conversation s = (let c = rt_context s in
     case rc_conversation_id c of None \<Rightarrow> (Inr (), s)
     | Some k \<Rightarrow> (case rt_conversations s of
         None \<Rightarrow> (Inl (ValueError ''conversation_store is required for a Conversation Run''), s)
       | Some cs \<Rightarrow> (case finish_turn k (rc_run_id c) (rc_state c) (rc_output c) cs of
           (Inl e, cs') \<Rightarrow> (Inl e, s\<lparr>rt_conversations := Some cs'\<rparr>)
         | (Inr _, cs') \<Rightarrow> (Inr (), s\<lparr>rt_conversations := Some cs'\<rparr>))))"

definition settle_stores :: "'w execution \<Rightarrow> ('w, agent_result) run_task" where
  "settle_stores x = pbind pget (\<lambda>s. pbind (plift (build_result (srv_codec (xn_services x)) (rt_context s))) (\<lambda>r.
     pthen store_checkpoint (pthen finish_conversation (pthen (finalize_run (xn_services x)) (pret r)))))"

definition settle_run :: "'w execution \<Rightarrow> 'w strategy \<Rightarrow> ('w, agent_result) run_task" where
  "settle_run x sg = pthen (case sg_settle sg of Some m \<Rightarrow> m | None \<Rightarrow> pret ()) (settle_stores x)"

text \<open>Everything after the body of the \<open>try\<close>: handlers, \<open>finally\<close>, the stores, and the cancellation raised again.\<close>

definition close_segment :: "'w execution \<Rightarrow> exn option \<Rightarrow> ('w, unit) run_task" where
  "close_segment x err = pbind (close_scope (srv_codec (xn_services x)) err) (\<lambda>fs.
     set_context (\<lambda>c. c\<lparr>rc_resource_failures := rc_resource_failures c @ fs\<rparr>))"

definition conclude :: "'w execution \<Rightarrow> 'w strategy \<Rightarrow> exn + unit \<Rightarrow> ('w, agent_result) run_task" where
  "conclude x sg res = (let err = (case res of Inl e \<Rightarrow> Some e | Inr _ \<Rightarrow> None) in
     ptry (absorb_outcome (xn_services x) res) (\<lambda>h. pthen (close_segment x err)
       (pthen (plift h) (pbind (settle_run x sg) (\<lambda>r. if err = Some CancelledError then praise CancelledError else pret r)))))"

definition execute_run :: "'w execution \<Rightarrow> nat \<Rightarrow> 'w runtime \<Rightarrow> ((exn + agent_result) \<times> 'w runtime) option" where
  "execute_run x fuel s = (let sg = active_strategy (xn_runtime x) (rt_context s) in
     case begin_segment x s of
       (Inl e, s1) \<Rightarrow> Some (Inl e, s1)
     | (Inr _, s1) \<Rightarrow> (case run_segment x sg fuel s1 of None \<Rightarrow> None | Some (res, s2) \<Rightarrow> Some (conclude x sg res s2)))"

subsection \<open>The loop ends\<close>

abbreviation step_limit :: "'w runtime \<Rightarrow> int" where
  "step_limit s \<equiv> ap_max_steps (rc_profile (rt_context s))"

definition turn_post :: "'w runtime \<Rightarrow> int \<Rightarrow> bool \<Rightarrow> bool \<Rightarrow> bool \<Rightarrow> 'w runtime \<Rightarrow> bool" where
  "turn_post s0 n b c go s \<longleftrightarrow> (if go then n < step_limit s0 \<and> turned s0 n b c s else at_step s0 n s \<and> rc_state (rt_context s) \<noteq> Running)"

definition turn_error :: "'w runtime \<Rightarrow> int \<Rightarrow> 'w runtime \<Rightarrow> bool" where
  "turn_error s0 n s \<longleftrightarrow> at_step s0 n s \<or> n < step_limit s0 \<and> at_step s0 (n + 1) s"

lemma before_model_decides:
  assumes "bounded_supervisor sv"
  shows "leads (live s0 n b) (on_context (sv_before_model sv)) (\<lambda>_. at_step s0 n)
    (\<lambda>d s. live s0 n b s \<and> sound_decision d \<and> (sd_action d \<noteq> Stop \<longrightarrow> n < step_limit s0))"
proof (rule leadsI)
  have q: "quiet_hook (sv_before_model sv)" using assms by (simp add: bounded_supervisor_def)
  fix s s' assume s: "live s0 n b s"
  show "at_step s0 n s'" if "on_context (sv_before_model sv) s = (Inl e, s')" for e using hook_decides [OF q] s that by (rule leadsD(1))
  fix d assume r: "on_context (sv_before_model sv) s = (Inr d, s')"
  then have "fst (sv_before_model sv (rt_context s)) = Inr d" by (auto simp: on_context_def split: prod.splits)
  then have "sd_action d \<noteq> Stop \<longrightarrow> rc_step_count (rt_context s) < ap_max_steps (rc_profile (rt_context s))"
    using assms unfolding bounded_supervisor_def by blast
  moreover have "rc_step_count (rt_context s) = n" "rc_profile (rt_context s) = rc_profile (rt_context s0)"
    using s by (auto simp: live_def view_def seg_def)
  ultimately show "live s0 n b s' \<and> sound_decision d \<and> (sd_action d \<noteq> Stop \<longrightarrow> n < step_limit s0)"
    using leadsD(2) [OF hook_decides [OF q] s r] by simp
qed

text \<open>The gate keeps the phase of a planning strategy.\<close>

abbreviation same_phase :: "'w runtime \<Rightarrow> 'w runtime \<Rightarrow> bool" where
  "same_phase s s' \<equiv> dict_get (rc_supervision (rt_context s')) plan_key = dict_get (rc_supervision (rt_context s)) plan_key"

interpretation phases: kept_relation same_phase
  by unfold_locales simp_all

lemma same_phase_hook: "quiet_hook h \<Longrightarrow> keeps same_phase (on_context h)"
  unfolding keeps_def quiet_hook_def on_context_def
  by (simp add: own_dataD case_prod_unfold)

lemma same_phase_decision: "keeps same_phase (apply_decision srv am d)"
  by (auto simp: keeps_def apply_decision_eq after_decision_def Let_def split: option.split sum.split)

lemma same_phase_cancel: "keeps same_phase (cancel_if_requested srv)"
proof -
  have "keeps same_phase (on_runs srv m)" for m :: "bool run_prog" by (simp add: keeps_def on_runs_def split: prod.split)
  moreover have "keeps same_phase (enter_state st)" for st by (simp add: keeps_def enter_state_eq split: sum.split)
  moreover have "keeps same_phase (set_context (\<lambda>c. c\<lparr>rc_error := e\<rparr>))" for e by (simp add: keeps_def on_context_def)
  ultimately show ?thesis unfolding cancel_if_requested_def by (auto intro!: phases.bind phases.basic)
qed

lemma same_phase_gate: "bounded_supervisor (srv_supervisor srv) \<Longrightarrow> keeps same_phase (turn_gate srv)"
  unfolding turn_gate_def bounded_supervisor_def
  by (auto intro!: phases.bind phases.basic same_phase_cancel same_phase_hook same_phase_decision)

lemma gate_ok:
  assumes good: "good_services sha my srv"
  shows "leads (live s0 n b) (turn_gate srv) (\<lambda>_. at_step s0 n)
    (\<lambda>go s. if go then live s0 n b s \<and> n < step_limit s0 else at_step s0 n s \<and> rc_state (rt_context s) \<noteq> Running)"
  unfolding turn_gate_def
proof (rule leads_bind [OF cancel_ok [OF others [OF good]]])
  fix stop
  let ?Q = "\<lambda>go s. if go then live s0 n b s \<and> n < step_limit s0 else at_step s0 n s \<and> rc_state (rt_context s) \<noteq> Running"
  let ?decided = "\<lambda>d s. if sd_action d = Stop then at_step s0 n s \<and> rc_state (rt_context s) \<noteq> Running else live s0 n b s \<and> n < step_limit s0"
  have decide: "leads (\<lambda>s. live s0 n b s \<and> sound_decision d \<and> (sd_action d \<noteq> Stop \<longrightarrow> n < step_limit s0))
      (if sd_action d \<noteq> Continue then apply_decision srv True d else pret ()) (\<lambda>_. at_step s0 n) (\<lambda>_. ?decided d)" for d
  proof (cases "sound_decision d \<and> (sd_action d \<noteq> Stop \<longrightarrow> n < step_limit s0)")
    case True
    then have v: "sound_decision d" by simp
    have "leads (live s0 n b) (apply_decision srv True d) (\<lambda>_. at_step s0 n) (\<lambda>_. ?decided d)"
      by (rule leads_conseq [OF apply_decision_ok [OF v, of s0 n b False srv True]]) (use True in \<open>auto split: if_splits\<close>)
    with True show ?thesis by (cases "sd_action d = Continue") (auto intro!: leads_ret)
  qed (auto simp: leads_def)
  have state: "leads (?decided d) (pbind pget (\<lambda>s. pret (rc_state (rt_context s) = Running))) (\<lambda>_. at_step s0 n) ?Q" for d
    by (rule leads_get, rule leads_ret) (auto simp: live_def view_def split: if_splits)
  from leads_bind [OF before_model_decides [OF bounded [OF good]] leads_bind [OF decide state]]
  show "leads (\<lambda>s. if stop then at_step s0 n s \<and> rc_state (rt_context s) \<noteq> Running else live s0 n b s) (if stop then pret False else
     pbind (on_context (sv_before_model (srv_supervisor srv))) (\<lambda>d.
     pthen (if sd_action d \<noteq> Continue then apply_decision srv True d else pret ())
     (pbind pget (\<lambda>s. pret (rc_state (rt_context s) = Running))))) (\<lambda>_. at_step s0 n) ?Q"
    by (cases stop) (auto intro!: leads_ret)
qed

lemma spare_same: "same_phase s s' \<Longrightarrow> spare (rt_context s') = spare (rt_context s)"
  by (simp add: spare_def)

text \<open>Turns left: two per step of the budget, two for a suspended batch, one for the summary of a plan.\<close>

definition turns_left :: "'w runtime \<Rightarrow> 'w runtime \<Rightarrow> nat" where
  "turns_left s0 s = 2 * nat (step_limit s0 - rc_step_count (rt_context s)) + (if suspended s then 2 else 0) +
     (if spare (rt_context s) then 1 else 0)"

lemma turned_left:
  assumes "turned s0 n (suspended s) (spare (rt_context s)) s'" "rc_step_count (rt_context s) = n" "n < step_limit s0"
    "rc_state (rt_context s') = Running"
  shows "turns_left s0 s' < turns_left s0 s"
  using assms by (auto simp: turned_def over_def at_step_def turns_left_def)

lemma turned_at:
  assumes "turned s0 n b c s'" "n < step_limit s0"
  shows "\<exists>m. at_step s0 m s' \<and> m \<le> step_limit s0"
  using assms by (auto simp: turned_def over_def intro: exI [of _ n] exI [of _ "n + 1"])

context bounded_strategy
begin

lemma turn_ok:
  assumes good: "good_services sha my srv" and sg: "sg_advance sg = adv" and s: "live s0 n b s" and r: "run_turn srv sg s = (r, s')"
  shows "case r of Inl e \<Rightarrow> turn_error s0 n s' | Inr go \<Rightarrow> turn_post s0 n b (spare (rt_context s)) go s'"
proof -
  obtain g s1 where g: "turn_gate srv s = (g, s1)" by (cases "turn_gate srv s")
  have same: "spare (rt_context s1) = spare (rt_context s)" by (rule spare_same [OF keepsD [OF same_phase_gate [OF bounded [OF good]] g]])
  show ?thesis
  proof (cases g)
    case (Inl e)
    with leadsD(1) [OF gate_ok [OF good] s] g r show ?thesis by (auto simp: run_turn_def pbind_app turn_error_def)
  next
    case (Inr go)
    with leadsD(2) [OF gate_ok [OF good] s] g have s1: "if go then live s0 n b s1 \<and> n < step_limit s0 else at_step s0 n s1 \<and> rc_state (rt_context s1) \<noteq> Running"
      by blast
    show ?thesis
    proof (cases go)
      case False
      with s1 g Inr r show ?thesis by (auto simp: run_turn_def pbind_app turn_post_def)
    next
      case True
      obtain q s2 where q: "adv s1 = (q, s2)" by (cases "adv s1")
      have "live s0 n b s1 \<and> spare (rt_context s1) = spare (rt_context s)" using s1 True same by simp
      from leads_app [OF adv_ok [OF good] this] q True s1 g Inr r sg show ?thesis
        by (cases q) (auto simp: run_turn_def pbind_app turn_post_def turn_error_def)
    qed
  qed
qed

lemma loop_ends:
  assumes good: "good_services sha my srv" and sg: "sg_advance sg = adv"
  shows "at_step s0 n s \<Longrightarrow> n \<le> step_limit s0 \<Longrightarrow> turns_left s0 s < fuel \<Longrightarrow>
    \<exists>r s' m. run_loop fuel srv sg s = Some (r, s') \<and> at_step s0 m s' \<and> m \<le> step_limit s0 \<and> (\<forall>u. r = Inr u \<longrightarrow> rc_state (rt_context s') \<noteq> Running)"
proof (induction fuel arbitrary: s n)
  case (Suc fuel)
  show ?case
  proof (cases "rc_state (rt_context s) = Running")
    case False
    with Suc.prems show ?thesis by auto
  next
    case True
    with Suc.prems(1) have live: "live s0 n (suspended s) s" by (simp add: live_def at_step_def view_def)
    obtain r s' where r: "run_turn srv sg s = (r, s')" by (cases "run_turn srv sg s")
    note post = turn_ok [OF good sg live r]
    show ?thesis
    proof (cases r)
      case (Inl e)
      with post Suc.prems(2) True r show ?thesis by (auto simp: turn_error_def)
    next
      case (Inr go)
      show ?thesis
      proof (cases go)
        case False
        with post Inr Suc.prems(2) True r show ?thesis by (auto simp: turn_post_def)
      next
        case go: True
        with post Inr have lim: "n < step_limit s0" and t: "turned s0 n (suspended s) (spare (rt_context s)) s'" by (auto simp: turn_post_def)
        have loop: "run_loop (Suc fuel) srv sg s = run_loop fuel srv sg s'" using True r Inr go by simp
        from turned_at [OF t lim] obtain m where m: "at_step s0 m s'" "m \<le> step_limit s0" by blast
        show ?thesis
        proof (cases "rc_state (rt_context s') = Running")
          case False
          then have "run_loop fuel srv sg s' = Some (Inr (), s')" by (cases fuel) simp_all
          with loop m False show ?thesis by auto
        next
          case run: True
          have "rc_step_count (rt_context s) = n" using Suc.prems(1) by (simp add: at_step_def)
          from turned_left [OF t this lim run] Suc.prems(3) have "turns_left s0 s' < fuel" by simp
          from Suc.IH [OF m this] loop show ?thesis by simp
        qed
      qed
    qed
  qed
qed simp

end

end
