(* ===== verification/Planning.thy ===== *)
theory Planning
  imports Model_Tool
begin

text \<open>
  \<open>orchestration/planning.py\<close> and \<open>orchestration/plan_execution.py\<close>: the strategy that asks the model for a
  plan, executes its steps one by one as model-tool turns, lets the model replace the pending steps after
  each of them, and asks for a summary. Its state is the dictionary \<open>supervision_data["built_in_planning"]\<close>.

  The JSON texts of plans and steps and the parsers that validate them are parameters; so is the
  character U+2026, which a \<open>char\<close> cannot hold.
\<close>

subsection \<open>Texts\<close>

record plan_texts =
  pt_dumps :: "json \<Rightarrow> string"
  pt_str :: "json \<Rightarrow> string"
  pt_plan :: "execution_plan \<Rightarrow> string"
  pt_step :: "plan_step \<Rightarrow> string"
  pt_step_json :: "plan_step \<Rightarrow> json"
  pt_parse_plan :: "json \<Rightarrow> exn + execution_plan"
  pt_parse_step :: "json \<Rightarrow> exn + plan_step"
  pt_ellipsis :: char
  pt_frames :: nat

record planning_strategy =
  pc_summarize :: bool
  pc_replan :: bool
  pc_max_iterations :: int
  pc_texts :: plan_texts

definition make_planning :: "planning_strategy \<Rightarrow> exn + planning_strategy" where
  "make_planning pc = (if pc_max_iterations pc < 1 then Inl (ValueError ''max_react_iterations_per_step must be at least 1'') else Inr pc)"

abbreviation lines_of :: "string list \<Rightarrow> string" where
  "lines_of ts \<equiv> join_with [newline] ts"

abbreviation dq :: string where
  "dq \<equiv> [CHR 0x22]"

definition dependency_results :: "plan_texts \<Rightarrow> execution_plan \<Rightarrow> plan_step \<Rightarrow> string" where
  "dependency_results pt plan step = (let ds = filter (\<lambda>q. ps_id q \<in> set (ps_dependencies step)) (pl_steps plan) in
     ''Completed dependency results: '' @ (if ds = [] then ''none'' else pt_dumps pt (JList (map (\<lambda>q. JObj [(''id'', JStr (ps_id q)),
       (''description'', JStr (ps_description q)), (''result'', case ps_result q of None \<Rightarrow> JNull | Some j \<Rightarrow> j)]) ds))))"

definition step_prompt :: "plan_texts \<Rightarrow> runtime_context \<Rightarrow> execution_plan \<Rightarrow> plan_step \<Rightarrow> string" where
  "step_prompt pt c plan step = lines_of [''Execute exactly one step from the active plan.'', ''Original task: '' @ rc_input_text c,
     ''Plan: '' @ pl_title plan, ''Current step ['' @ ps_id step @ '']: '' @ ps_description step, dependency_results pt plan step,
     ''Use the available tools when needed. Finish this step only, then return its concrete result.'']"

definition react_step_prompt :: "plan_texts \<Rightarrow> runtime_context \<Rightarrow> execution_plan \<Rightarrow> plan_step \<Rightarrow> string" where
  "react_step_prompt pt c plan step = lines_of [''Execute one plan step with a ReAct loop.'', ''Original task: '' @ rc_input_text c,
     ''Plan: '' @ pl_title plan, ''Current step ['' @ ps_id step @ '']: '' @ ps_description step, dependency_results pt plan step,
     ''Analyze the current state, select the tool actions needed, observe their results, and iterate until this step is complete. '' @
       ''Independent tool calls may be selected in one action batch; dependent calls must wait for a later iteration.'',
     ''Do not reveal private chain-of-thought. Tool calls communicate actions. When complete, return JSON only as {'' @
       dq @ ''success'' @ dq @ '':true,'' @ dq @ ''result'' @ dq @ '':'' @ dq @ ''concrete step result'' @ dq @ '','' @ dq @ ''attachments'' @ dq @ '':[]}.'']"

definition capabilities :: "plan_texts \<Rightarrow> tool_definition list \<Rightarrow> string" where
  "capabilities pt ds = ''Available tools: '' @ pt_dumps pt (JList (map (\<lambda>d. JObj [(''name'', JStr (td_name d)),
     (''description'', JStr (td_description d))]) ds))"

definition planning_prompt :: "plan_texts \<Rightarrow> 'w services \<Rightarrow> runtime_context \<Rightarrow> exn + string" where
  "planning_prompt pt srv c = rbind (registered_definitions srv c) (\<lambda>ds. Inr (lines_of [
     ''Create a concise execution plan for the original user task.'', ''Original task: '' @ rc_input_text c, capabilities pt ds,
     ''Return JSON only with this shape: {'' @ dq @ ''id'' @ dq @ '':'' @ dq @ ''plan-id'' @ dq @ '','' @ dq @ ''title'' @ dq @ '':'' @ dq @
       ''title'' @ dq @ '','' @ dq @ ''steps'' @ dq @ '':[{'' @ dq @ ''id'' @ dq @ '':'' @ dq @ ''step-id'' @ dq @ '','' @ dq @ ''description'' @ dq @
       '':'' @ dq @ ''atomic action'' @ dq @ '','' @ dq @ ''executor'' @ dq @ '':'' @ dq @ ''react'' @ dq @ '','' @ dq @ ''dependencies'' @ dq @ '':[]}]}'',
     ''Use stable alphanumeric step ids. Steps must be atomic, executable through the available tools, dependency-ordered, and free of cycles. '' @
       ''Use executor '' @ quoted ''react'' @ '' for steps that may need tools or iterative observation, and '' @ quoted ''model'' @
       '' for direct tool-free generation. Use one step when decomposition is unnecessary.'']))"

definition replanning_prompt :: "plan_texts \<Rightarrow> 'w services \<Rightarrow> runtime_context \<Rightarrow> execution_plan \<Rightarrow> string \<Rightarrow> exn + string" where
  "replanning_prompt pt srv c plan completed_id = (case find (\<lambda>q. ps_id q = completed_id) (pl_steps plan) of
     None \<Rightarrow> Inl (OtherError ''RuntimeError'' ''coroutine raised StopIteration'')
   | Some step \<Rightarrow> rbind (registered_definitions srv c) (\<lambda>ds. Inr (lines_of [
       ''Update the execution plan after one completed step.'', ''Original task: '' @ rc_input_text c, ''Current plan: '' @ pt_plan pt plan,
       ''Just completed step: '' @ pt_step pt step, capabilities pt ds,
       ''Return JSON only as {'' @ dq @ ''steps'' @ dq @ '':[...]}. The steps array represents all remaining work and replaces every not-yet-executed step.'',
       ''Do not include completed, failed, cancelled, or skipped steps; the runtime preserves that immutable history. '' @
         ''Return an empty steps array when the original task is complete.'',
       ''Each new step must use pending status, have a unique stable id, and may depend on preserved historical step ids. '' @
         ''Dependencies must be valid and acyclic. Use executor '' @ quoted ''react'' @ '' for steps that may need tools or iterative observation, and '' @
         quoted ''model'' @ '' for direct tool-free generation.''])))"

definition result_line :: "plan_texts \<Rightarrow> plan_step \<Rightarrow> string" where
  "result_line pt q = ''- ['' @ ps_id q @ ''] '' @ ps_description q @ '': '' @
     (case ps_result q of None \<Rightarrow> [] | Some JNull \<Rightarrow> [] | Some j \<Rightarrow> pt_str pt j)"

fun render_results :: "plan_texts \<Rightarrow> plan_step list \<Rightarrow> int \<Rightarrow> string list" where
  "render_results pt [] remaining = []"
| "render_results pt (q # qs) remaining = (let line = result_line pt q;
     shown = (if remaining < int (length line) then take (nat (max (remaining - 1) 0)) line @ [pt_ellipsis pt] else line) in
     shown # (if remaining - int (length shown) \<le> 0 then [] else render_results pt qs (remaining - int (length shown))))"

definition bounded_results :: "plan_texts \<Rightarrow> execution_plan \<Rightarrow> string" where
  "bounded_results pt plan = lines_of (render_results pt (pl_steps plan) 12000)"

definition summary_prompt :: "plan_texts \<Rightarrow> runtime_context \<Rightarrow> execution_plan \<Rightarrow> string" where
  "summary_prompt pt c plan = lines_of [''The execution plan is complete. Deliver the final result to the user.'',
     ''Original task: '' @ rc_input_text c, ''Plan: '' @ pl_title plan, ''Step results:'' @ [newline] @ bounded_results pt plan,
     ''Synthesize the completed work into one clear final answer. Do not return a todo list or another plan.'']"

definition deterministic_summary :: "plan_texts \<Rightarrow> execution_plan \<Rightarrow> string" where
  "deterministic_summary pt plan = pl_title plan @ [newline, newline] @ bounded_results pt plan"

subsection \<open>Plans in a run\<close>

definition steps_by_id :: "plan_step list \<Rightarrow> (string, plan_step) dict" where
  "steps_by_id ps = fold (\<lambda>q d. dict_set (ps_id q) q d) ps []"

definition step_event :: "step_status \<Rightarrow> step_status \<Rightarrow> event_type option" where
  "step_event old new = (if old = StepWaiting \<and> new = StepRunning then Some STEP_RESUMED else (case new of
     StepRunning \<Rightarrow> Some STEP_STARTED | StepWaiting \<Rightarrow> Some STEP_WAITING | StepCompleted \<Rightarrow> Some STEP_COMPLETED
   | StepFailed \<Rightarrow> Some STEP_FAILED | StepCancelled \<Rightarrow> Some STEP_CANCELLED | StepSkipped \<Rightarrow> Some STEP_SKIPPED | StepPending \<Rightarrow> None))"

definition announce_step :: "'w services \<Rightarrow> plan_texts \<Rightarrow> execution_plan \<Rightarrow> execution_plan \<Rightarrow> plan_step \<Rightarrow> ('w, unit) run_task" where
  "announce_step srv pt previous plan step = (case dict_get (steps_by_id (pl_steps previous)) (ps_id step) of
     None \<Rightarrow> pret ()
   | Some old \<Rightarrow> if ps_status old = ps_status step then pret ()
       else (case step_event (ps_status old) (ps_status step) of None \<Rightarrow> pret ()
         | Some t \<Rightarrow> emit_event t [(''plan_id'', JStr (pl_id plan)), (''step'', pt_step_json pt step), (''plan'', cd_plan (srv_codec srv) plan)]))"

definition update_execution_plan :: "'w services \<Rightarrow> plan_texts \<Rightarrow> execution_plan \<Rightarrow> bool \<Rightarrow> ('w, unit) run_task" where
  "update_execution_plan srv pt plan emit_updated = pbind pget (\<lambda>s. let previous = rc_plan (rt_context s) in
     pthen (case previous of None \<Rightarrow> pret ()
       | Some p \<Rightarrow> if pl_id p \<noteq> pl_id plan then praise (ValueError ''a running context cannot replace its plan identity'')
           else if pl_revision plan \<le> pl_revision p then praise (ValueError ''an updated plan must have a newer revision'') else pret ())
     (pthen (set_context (\<lambda>c. c\<lparr>rc_plan := Some plan\<rparr>))
     (pthen (save_context_snapshot srv)
     (pthen (if previous = None \<or> emit_updated
       then emit_event (if previous = None then PLAN_CREATED else PLAN_UPDATED) [(''plan'', cd_plan (srv_codec srv) plan)] else pret ())
     (case previous of None \<Rightarrow> pret () | Some p \<Rightarrow> peach (announce_step srv pt p plan) (pl_steps plan))))))"

definition require_plan :: "runtime_context \<Rightarrow> exn + execution_plan" where
  "require_plan c = (case rc_plan c of None \<Rightarrow> Inl (ValueError ''PlanningStrategy requires an ExecutionPlan'') | Some p \<Rightarrow> Inr p)"

definition step_with_status :: "execution_plan \<Rightarrow> step_status \<Rightarrow> plan_step option" where
  "step_with_status plan st = find (\<lambda>q. ps_status q = st) (pl_steps plan)"

text \<open>Sorting of texts by code points.\<close>

fun text_le :: "string \<Rightarrow> string \<Rightarrow> bool" where
  "text_le [] t = True"
| "text_le (c # cs) [] = False"
| "text_le (c # cs) (d # ds) = ((of_char c :: nat) < of_char d \<or> c = d \<and> text_le cs ds)"

fun insert_text :: "string \<Rightarrow> string list \<Rightarrow> string list" where
  "insert_text t [] = [t]"
| "insert_text t (u # us) = (if text_le t u then t # u # us else u # insert_text t us)"

definition supported_executor :: "string option \<Rightarrow> bool" where
  "supported_executor x \<longleftrightarrow> x \<in> {None, Some ''model'', Some ''react''}"

definition validate_executors :: "execution_plan \<Rightarrow> exn + unit" where
  "validate_executors plan = (let unsupported = remdups (filter (\<lambda>x. \<not> supported_executor (Some x)) (List.map_filter ps_executor (pl_steps plan))) in
     if unsupported \<noteq> []
     then Inl (ValueError (''unsupported plan step executors: '' @ join_with '', '' (foldr insert_text unsupported []) @
       ''; built-in PlanningStrategy supports '' @ quoted ''model'' @ '' or '' @ quoted ''react''))
     else Inr ())"

subsection \<open>Answers of the model\<close>

definition parse_json_object :: "wire \<Rightarrow> string \<Rightarrow> exn + json" where
  "parse_json_object w content = rbind (wr_loads w (react_candidate content)) (\<lambda>payload. case payload of
     JObj _ \<Rightarrow> Inr payload | _ \<Rightarrow> Inl (TypeError ''model response must be a JSON object''))"

definition parse_generated_plan :: "plan_texts \<Rightarrow> wire \<Rightarrow> string \<Rightarrow> string \<Rightarrow> exn + execution_plan" where
  "parse_generated_plan pt w content provider = rbind (parse_json_object w content) (\<lambda>payload. rbind (pt_parse_plan pt payload) (\<lambda>plan.
     if pl_status plan \<noteq> PlanCreated then Inl (ValueError ''generated plan must start in created status'')
     else if list_ex (\<lambda>q. ps_status q \<noteq> StepPending) (pl_steps plan) then Inl (ValueError ''generated plan steps must start in pending status'')
     else Inr (plan\<lparr>pl_metadata := merge_metadata (pl_metadata plan) [(''generated'', JBool True), (''provider'', JStr provider)]\<rparr>)))"

definition parse_replanned_steps :: "plan_texts \<Rightarrow> wire \<Rightarrow> string \<Rightarrow> exn + plan_step list" where
  "parse_replanned_steps pt w content = rbind (parse_json_object w content) (\<lambda>payload. case json_get payload ''steps'' of
     Some (JList js) \<Rightarrow> rbind (parse_all (pt_parse_step pt) js) (\<lambda>steps.
       if list_ex (\<lambda>q. ps_status q \<noteq> StepPending) steps then Inl (ValueError ''updated plan steps must start in pending status'') else Inr steps)
   | _ \<Rightarrow> Inl (TypeError ''updated plan response must contain a JSON steps array''))"

text \<open>\<open>int(value)\<close> of a JSON value; a text is decimal digits, with single underscores between them, and a sign.\<close>

fun digits_value :: "bool \<Rightarrow> int \<Rightarrow> string \<Rightarrow> int option" where
  "digits_value digit acc [] = (if digit then Some acc else None)"
| "digits_value digit acc (c # cs) = (let n = (of_char c :: nat) in
     if 48 \<le> n \<and> n \<le> 57 then digits_value True (10 * acc + int n - 48) cs
     else if c = CHR ''_'' \<and> digit then digits_value False acc cs else None)"

definition int_text :: "string \<Rightarrow> int option" where
  "int_text t = (case t of
     CHR ''-'' # cs \<Rightarrow> map_option uminus (digits_value False 0 cs)
   | CHR ''+'' # cs \<Rightarrow> digits_value False 0 cs
   | _ \<Rightarrow> digits_value False 0 t)"

definition py_int :: "json \<Rightarrow> exn + int" where
  "py_int j = (case j of JInt n \<Rightarrow> Inr n | JBool b \<Rightarrow> Inr (if b then 1 else 0)
     | JFloat x \<Rightarrow> Inr (if x < 0 then \<lceil>x\<rceil> else \<lfloor>x\<rfloor>)
     | JStr t \<Rightarrow> (case int_text (strip t) of None \<Rightarrow> Inl (ValueError ''invalid literal for int()'')
         | Some n \<Rightarrow> if 4300 < length (filter (\<lambda>c. (of_char c :: nat) \<in> {48..57}) t)
             then Inl (ValueError ''Exceeds the limit for integer string conversion'') else Inr n)
     | _ \<Rightarrow> Inl (TypeError ''int() argument must be a string or a number''))"

abbreviation historical :: "step_status \<Rightarrow> bool" where
  "historical st \<equiv> st \<in> {StepCompleted, StepFailed, StepCancelled, StepSkipped}"

text \<open>\<open>ExecutionPlan.model_validate\<close> of a payload whose steps are \<open>PlanStep\<close> objects, which are not validated again.\<close>

definition validate_plan :: "nat \<Rightarrow> execution_plan \<Rightarrow> exn + execution_plan" where
  "validate_plan frames p =
     (if \<not> (name_pattern ''_.-'' (pl_id p) \<and> pl_title p \<noteq> [] \<and> pl_steps p \<noteq> [] \<and> 1 \<le> pl_revision p) then Inl ValidationError
      else (case validate_graph frames p of Inl e \<Rightarrow> Inl (if is_value_error e then ValidationError else e) | Inr _ \<Rightarrow> Inr p))"

definition merge_replanned_steps :: "nat \<Rightarrow> execution_plan \<Rightarrow> plan_step list \<Rightarrow> exn + execution_plan" where
  "merge_replanned_steps frames plan future = (let history = filter (\<lambda>q. historical (ps_status q)) (pl_steps plan) in
     if \<not> list_ex (\<lambda>q. ps_status q = StepCompleted) history
     then Inl (ValueError ''updated plan requires at least one completed historical step'')
     else rbind (case dict_get (pl_metadata plan) ''replan_count'' of None \<Rightarrow> Inr 0 | Some j \<Rightarrow> py_int j) (\<lambda>n.
       rbind (validate_plan frames (plan\<lparr>pl_steps := history @ future, pl_status := (if future \<noteq> [] then PlanRunning else PlanCompleted),
         pl_revision := pl_revision plan + 1, pl_metadata := dict_set ''replan_count'' (JInt (n + 1)) (pl_metadata plan)\<rparr>)) (\<lambda>updated.
       if list_ex (\<lambda>(a, b). a \<noteq> b) (zip history (pl_steps updated)) then Inl (ValueError ''updated plan changed settled step history'')
       else Inr updated)))"

text \<open>Equality of steps as Python compares them: numbers by value.\<close>

definition step_eq :: "plan_step \<Rightarrow> plan_step \<Rightarrow> bool" where
  "step_eq a b \<longleftrightarrow> ps_id a = ps_id b \<and> ps_description a = ps_description b \<and> ps_executor a = ps_executor b \<and>
     ps_dependencies a = ps_dependencies b \<and> ps_status a = ps_status b \<and> ps_success a = ps_success b \<and>
     json_eq (case ps_result a of None \<Rightarrow> JNull | Some j \<Rightarrow> j) (case ps_result b of None \<Rightarrow> JNull | Some j \<Rightarrow> j) \<and>
     ps_attachments a = ps_attachments b \<and> ps_error a = ps_error b \<and> jobj_eq (ps_metadata a) (ps_metadata b)"

definition future_steps_unchanged :: "execution_plan \<Rightarrow> plan_step list \<Rightarrow> bool" where
  "future_steps_unchanged plan future = list_all2 step_eq (filter (\<lambda>q. ps_status q = StepPending) (pl_steps plan)) future"

subsection \<open>The state of the strategy\<close>

abbreviation phase_planning :: string where "phase_planning \<equiv> ''planning''"

abbreviation phase_executing :: string where "phase_executing \<equiv> ''executing''"

abbreviation phase_updating :: string where "phase_updating \<equiv> ''updating''"

abbreviation phase_summarizing :: string where "phase_summarizing \<equiv> ''summarizing''"

definition plan_state :: "runtime_context \<Rightarrow> exn + jobj" where
  "plan_state c = (case dict_get (rc_supervision c) plan_key of None \<Rightarrow> Inl KeyError | Some (JObj d) \<Rightarrow> Inr d
     | Some _ \<Rightarrow> Inl (OtherError ''AttributeError'' ''get''))"

text \<open>\<open>supervision_data.get(_STATE_KEY, {})\<close>.\<close>

definition plan_state_or_empty :: "runtime_context \<Rightarrow> exn + jobj" where
  "plan_state_or_empty c = (if dict_get (rc_supervision c) plan_key = None then Inr [] else plan_state c)"

definition in_phase :: "string \<Rightarrow> jobj \<Rightarrow> bool" where
  "in_phase ph d \<longleftrightarrow> dict_get d ''phase'' = Some (JStr ph)"

definition default_plan_state :: "string \<Rightarrow> ('w, unit) run_task" where
  "default_plan_state ph = set_context (\<lambda>c. if dict_get (rc_supervision c) plan_key = None
     then c\<lparr>rc_supervision := dict_set plan_key (JObj [(''phase'', JStr ph)]) (rc_supervision c)\<rparr> else c)"

definition change_plan_state :: "(jobj \<Rightarrow> jobj) \<Rightarrow> ('w, unit) run_task" where
  "change_plan_state f = on_context (pbind pget (\<lambda>c. pbind (plift (plan_state c)) (\<lambda>d.
     pput (\<lambda>c. c\<lparr>rc_supervision := dict_set plan_key (JObj (f d)) (rc_supervision c)\<rparr>))))"

abbreviation put_plan :: "string \<Rightarrow> json \<Rightarrow> ('w, unit) run_task" where
  "put_plan k j \<equiv> change_plan_state (dict_set k j)"

abbreviation pop_plan :: "string \<Rightarrow> ('w, unit) run_task" where
  "pop_plan k \<equiv> change_plan_state (dict_pop k)"

abbreviation add_user_message :: "string \<Rightarrow> ('w, unit) run_task" where
  "add_user_message t \<equiv> set_context (\<lambda>c. c\<lparr>rc_messages := rc_messages c @ [user_message t]\<rparr>)"

definition react_entry :: "jobj \<Rightarrow> jobj" where
  "react_entry d = (case dict_get d ''react'' of Some (JObj r) \<Rightarrow> r | _ \<Rightarrow> [])"

definition active_react_step :: "runtime_context \<Rightarrow> exn + plan_step option" where
  "active_react_step c = rbind (plan_state_or_empty c) (\<lambda>d. Inr (if \<not> in_phase phase_executing d then None
     else (case rc_plan c of None \<Rightarrow> None | Some plan \<Rightarrow> (case step_with_status plan StepRunning of None \<Rightarrow> None
       | Some q \<Rightarrow> if ps_executor q = Some ''react'' then Some q else None))))"

definition react_step_data :: "runtime_context \<Rightarrow> plan_step \<Rightarrow> jobj \<Rightarrow> jobj" where
  "react_step_data c step react = [(''plan_id'', case rc_plan c of None \<Rightarrow> JNull | Some p \<Rightarrow> JStr (pl_id p)), (''step_id'', JStr (ps_id step)),
     (''iteration'', case dict_get react ''iteration'' of None \<Rightarrow> JInt 0 | Some j \<Rightarrow> j)]"

subsection \<open>Overridden methods\<close>

definition plan_before :: "('w, unit) run_task" where
  "plan_before = pbind pget (\<lambda>s. pbind (plift (active_react_step (rt_context s))) (\<lambda>active. case active of None \<Rightarrow> pret ()
     | Some step \<Rightarrow> pbind (plift (plan_state (rt_context s))) (\<lambda>d.
         let other = dict_get (react_entry d) ''step_id'' \<noteq> Some (JStr (ps_id step));
           react = (if other then [(''step_id'', JStr (ps_id step)), (''iteration'', JInt 0)] else react_entry d) in
         pthen (if other then put_plan ''react'' (JObj react) else pret ())
         (pbind (plift (int_entry react ''iteration'')) (\<lambda>n. let react' = dict_set ''iteration'' (JInt (n + 1)) react in
          pthen (put_plan ''react'' (JObj react')) (emit_event REACT_ITERATION_STARTED (react_step_data (rt_context s) step react')))))))"

definition plan_react_event :: "event_type \<Rightarrow> jobj \<Rightarrow> ('w, unit) run_task" where
  "plan_react_event t data = pbind pget (\<lambda>s. pbind (plift (active_react_step (rt_context s))) (\<lambda>active. case active of None \<Rightarrow> pret ()
     | Some step \<Rightarrow> pbind (plift (plan_state (rt_context s))) (\<lambda>d.
         emit_event t (react_step_data (rt_context s) step (react_entry d) @ data))))"

definition plan_actions :: "tool_call list \<Rightarrow> ('w, unit) run_task" where
  "plan_actions calls = plan_react_event REACT_ACTION_BATCH_SELECTED
     [(''actions'', JList (map (\<lambda>c. JObj [(''call_id'', JStr (tc_id c)), (''tool_name'', JStr (tc_name c))]) calls))]"

definition plan_observed :: "tool_observation list \<Rightarrow> ('w, unit) run_task" where
  "plan_observed observed = plan_react_event REACT_OBSERVATION_BATCH_RECORDED
     [(''observations'', JList (map (\<lambda>(c, r). JObj [(''call_id'', JStr (tc_id c)), (''tool_name'', JStr (tc_name c)),
        (''status'', JStr (status_value (trs_status r))), (''error_code'', opt_json JStr (trs_error_code r))]) observed))]"

definition plan_iteration_completed :: "model_response \<Rightarrow> bool \<Rightarrow> ('w, unit) run_task" where
  "plan_iteration_completed response had_actions = plan_react_event REACT_ITERATION_COMPLETED
     [(''had_actions'', JBool had_actions), (''finish_reason'', opt_json JStr (mr_finish_reason response))]"

definition plan_definitions :: "'w services \<Rightarrow> runtime_context \<Rightarrow> exn + tool_definition list" where
  "plan_definitions srv c = rbind (plan_state_or_empty c) (\<lambda>d. case dict_get d ''phase'' of
     Some (JList _) \<Rightarrow> Inl (TypeError ''unhashable type'') | Some (JObj _) \<Rightarrow> Inl (TypeError ''unhashable type'')
   | ph \<Rightarrow> if ph \<in> {Some (JStr phase_planning), Some (JStr phase_updating), Some (JStr phase_summarizing)} then Inr []
       else registered_definitions srv c)"

definition fail_planning :: "'w services \<Rightarrow> planning_strategy \<Rightarrow> string \<Rightarrow> ('w, unit) run_task" where
  "fail_planning srv pc err = pthen (pbind pget (\<lambda>s. case rc_plan (rt_context s) of None \<Rightarrow> pret ()
     | Some plan \<Rightarrow> if pl_status plan \<in> {PlanFailed, PlanCancelled} then pret ()
         else pbind (plift (fail_plan plan err)) (\<lambda>p. update_execution_plan srv (pc_texts pc) p False))) (fail_execution err)"

definition plan_wait :: "'w services \<Rightarrow> planning_strategy \<Rightarrow> ('w, unit) run_task" where
  "plan_wait srv pc = pbind pget (\<lambda>s. pbind (plift (require_plan (rt_context s))) (\<lambda>plan. case step_with_status plan StepRunning of
     None \<Rightarrow> fail_planning srv pc ''planning strategy cannot suspend without an active step''
   | Some q \<Rightarrow> pbind (plift (wait_step plan (ps_id q))) (\<lambda>p. update_execution_plan srv (pc_texts pc) p False)))"

fun status_text :: "run_status \<Rightarrow> string" where
  "status_text Created = ''created''"
| "status_text Running = ''running''"
| "status_text Waiting = ''waiting''"
| "status_text Completed = ''completed''"
| "status_text Failed = ''failed''"
| "status_text Cancelled = ''cancelled''"
| "status_text Interrupted = ''interrupted''"
| "status_text LimitReached = ''limit_reached''"

text \<open>\<open>context.error or default\<close>.\<close>

definition error_or :: "runtime_context \<Rightarrow> string \<Rightarrow> string" where
  "error_or c t = (case rc_error c of None \<Rightarrow> t | Some e \<Rightarrow> if e = [] then t else e)"

definition settle_terminal_plan :: "'w services \<Rightarrow> planning_strategy \<Rightarrow> ('w, unit) run_task" where
  "settle_terminal_plan srv pc = pbind pget (\<lambda>s. let c = rt_context s in case rc_plan c of None \<Rightarrow> pret ()
     | Some plan \<Rightarrow> if pl_status plan \<in> {PlanCompleted, PlanFailed, PlanCancelled} then pret ()
         else if rc_state c = Cancelled
         then pbind (plift (cancel_plan plan (error_or c ''run cancelled''))) (\<lambda>p. update_execution_plan srv (pc_texts pc) p False)
         else if rc_state c \<in> {Failed, Interrupted, LimitReached}
         then pbind (plift (fail_plan plan (error_or c (''run ended with '' @ status_text (rc_state c))))) (\<lambda>p. update_execution_plan srv (pc_texts pc) p False)
         else pret ())"

definition finish_plan :: "'w services \<Rightarrow> planning_strategy \<Rightarrow> execution_plan \<Rightarrow> ('w, unit) run_task" where
  "finish_plan srv pc plan = (if \<not> pc_summarize pc then complete_response (deterministic_summary (pc_texts pc) plan)
     else pthen (set_context (\<lambda>c. c\<lparr>rc_supervision := dict_set plan_key (JObj [(''phase'', JStr phase_summarizing)]) (rc_supervision c)\<rparr>))
       (pthen (set_context (\<lambda>c. c\<lparr>rc_messages := rc_messages c @ [user_message (summary_prompt (pc_texts pc) c plan)]\<rparr>)) (save_context_snapshot srv)))"

definition handle_no_ready_step :: "'w services \<Rightarrow> planning_strategy \<Rightarrow> execution_plan \<Rightarrow> ('w, unit) run_task" where
  "handle_no_ready_step srv pc plan = (if pl_status plan = PlanCompleted then finish_plan srv pc plan
     else fail_planning srv pc ''execution plan has no ready or active step'')"

text \<open>\<open>except (ValueError, TypeError, json.JSONDecodeError)\<close>.\<close>

definition caught_in_answer :: "exn \<Rightarrow> bool" where
  "caught_in_answer e \<longleftrightarrow> is_value_error e \<or> exn_name e = ''TypeError''"

definition invalid_answer :: "'w services \<Rightarrow> planning_strategy \<Rightarrow> string \<Rightarrow> exn \<Rightarrow> ('w, unit) run_task" where
  "invalid_answer srv pc text e = (if caught_in_answer e then fail_planning srv pc (text @ cd_str (srv_codec srv) e) else praise e)"

definition accept_generated_plan :: "'w services \<Rightarrow> planning_strategy \<Rightarrow> string \<Rightarrow> ('w, unit) run_task" where
  "accept_generated_plan srv pc content = (case rbind (parse_generated_plan (pc_texts pc) (srv_wire srv) content (srv_provider srv)) (\<lambda>plan.
       rbind (validate_executors plan) (\<lambda>_. Inr plan)) of
     Inl e \<Rightarrow> invalid_answer srv pc ''model generated an invalid execution plan: '' e
   | Inr plan \<Rightarrow> pthen (update_execution_plan srv (pc_texts pc) plan True) (put_plan ''phase'' (JStr phase_executing)))"

definition review_plan :: "planning_strategy \<Rightarrow> wire \<Rightarrow> execution_plan \<Rightarrow> string \<Rightarrow> exn + plan_step list \<times> bool \<times> execution_plan" where
  "review_plan pc w plan content = rbind (parse_replanned_steps (pc_texts pc) w content) (\<lambda>future.
     let changed = \<not> future_steps_unchanged plan future in
     rbind (if changed then merge_replanned_steps (pt_frames (pc_texts pc)) plan future else Inr plan) (\<lambda>updated.
     rbind (validate_executors updated) (\<lambda>_. Inr (future, changed, updated))))"

definition accept_replan :: "'w services \<Rightarrow> planning_strategy \<Rightarrow> string \<Rightarrow> ('w, unit) run_task" where
  "accept_replan srv pc content = pbind pget (\<lambda>s. pbind (plift (require_plan (rt_context s))) (\<lambda>plan.
     case review_plan pc (srv_wire srv) plan content of
       Inl e \<Rightarrow> invalid_answer srv pc ''model generated an invalid updated execution plan: '' e
     | Inr (future, changed, updated) \<Rightarrow> pbind (plift (plan_state (rt_context s))) (\<lambda>d.
         pthen (emit_event PLAN_REVIEWED [(''plan_id'', JStr (pl_id plan)), (''revision'', JInt (pl_revision plan)), (''changed'', JBool changed),
           (''completed_step_id'', case dict_get d ''completed_step_id'' of None \<Rightarrow> JNull | Some j \<Rightarrow> j),
           (''proposed_steps'', JList (map (pt_step_json (pc_texts pc)) future))])
         (pthen (if changed then update_execution_plan srv (pc_texts pc) updated True else pret ())
         (pthen (put_plan ''phase'' (JStr phase_executing))
         (pthen (pop_plan ''completed_step_id'')
         (if pl_status updated = PlanCompleted then finish_plan srv pc updated else pret ())))))))"

definition complete_active_step :: "'w services \<Rightarrow> execution_plan \<Rightarrow> plan_step \<Rightarrow> jobj \<Rightarrow> react_result option \<Rightarrow> string \<Rightarrow> exn + execution_plan" where
  "complete_active_step srv plan q d react content = (case react of
     Some r \<Rightarrow> complete_step plan (ps_id q) (Some (JStr (ra_result r))) (Some (ra_success r)) (ra_attachments r)
       [(''react_iterations'', case dict_get (react_entry d) ''iteration'' of None \<Rightarrow> JInt 0 | Some j \<Rightarrow> j)]
   | None \<Rightarrow> complete_step plan (ps_id q) (Some (JStr content)) None [] [])"

definition after_step :: "'w services \<Rightarrow> planning_strategy \<Rightarrow> plan_step \<Rightarrow> execution_plan \<Rightarrow> ('w, unit) run_task" where
  "after_step srv pc q completed = pthen (update_execution_plan srv (pc_texts pc) completed False)
     (if pc_replan pc
      then pthen (put_plan ''phase'' (JStr phase_updating)) (pthen (put_plan ''completed_step_id'' (JStr (ps_id q)))
        (pbind pget (\<lambda>s. pbind (plift (replanning_prompt (pc_texts pc) srv (rt_context s) completed (ps_id q))) (\<lambda>prompt.
         pthen (add_user_message prompt) (save_context_snapshot srv)))))
      else if pl_status completed \<noteq> PlanCompleted then pret () else finish_plan srv pc completed)"

definition accept_step_result :: "'w services \<Rightarrow> planning_strategy \<Rightarrow> string \<Rightarrow> ('w, unit) run_task" where
  "accept_step_result srv pc content = pbind pget (\<lambda>s. pbind (plift (require_plan (rt_context s))) (\<lambda>plan.
     case step_with_status plan StepRunning of
       None \<Rightarrow> fail_planning srv pc ''planning strategy received a step result without an active step''
     | Some q \<Rightarrow> if ps_executor q \<noteq> Some ''react''
         then pbind (plift (complete_active_step srv plan q [] None content)) (after_step srv pc q)
         else (case rbind (parse_json_object (srv_wire srv) content) (wr_parse_react (srv_wire srv)) of
             Inl e \<Rightarrow> invalid_answer srv pc ''model generated an invalid ReAct step result: '' e
           | Inr r \<Rightarrow> pbind (plift (plan_state (rt_context s))) (\<lambda>d.
               pbind (plift (complete_active_step srv plan q d (Some r) content)) (\<lambda>completed.
               pthen (pop_plan ''react'') (after_step srv pc q completed))))))"

definition plan_complete :: "'w services \<Rightarrow> planning_strategy \<Rightarrow> string \<Rightarrow> ('w, unit) run_task" where
  "plan_complete srv pc content = pthen (default_plan_state phase_executing) (pbind pget (\<lambda>s. pbind (plift (plan_state (rt_context s))) (\<lambda>d.
     if in_phase phase_planning d then accept_generated_plan srv pc content
     else if in_phase phase_updating d then accept_replan srv pc content
     else if in_phase phase_summarizing d then complete_response content
     else accept_step_result srv pc content)))"

definition planning_hooks :: "'w services \<Rightarrow> planning_strategy \<Rightarrow> 'w hooks" where
  "planning_hooks srv pc = (model_tool_hooks srv)\<lparr>hk_before := plan_before, hk_actions := plan_actions, hk_observed := plan_observed,
     hk_completed := plan_iteration_completed, hk_definitions := plan_definitions srv, hk_complete := plan_complete srv pc,
     hk_fail := fail_planning srv pc, hk_wait := plan_wait srv pc\<rparr>"

subsection \<open>One turn\<close>

definition planned_turn :: "'w services \<Rightarrow> planning_strategy \<Rightarrow> ('w, unit) run_task" where
  "planned_turn srv pc = pthen (advance_turn srv (planning_hooks srv pc)) (settle_terminal_plan srv pc)"

definition resume_waiting_step :: "'w services \<Rightarrow> planning_strategy \<Rightarrow> execution_plan \<Rightarrow> ('w, execution_plan) run_task" where
  "resume_waiting_step srv pc plan = (case step_with_status plan StepWaiting of None \<Rightarrow> pret plan
     | Some q \<Rightarrow> pbind (plift (resume_step plan (ps_id q))) (\<lambda>p. pthen (update_execution_plan srv (pc_texts pc) p False) (pret p)))"

definition run_plan_step :: "'w services \<Rightarrow> planning_strategy \<Rightarrow> plan_step \<Rightarrow> ('w, unit) run_task" where
  "run_plan_step srv pc q = pbind pget (\<lambda>s. if ps_executor q \<noteq> Some ''react'' then planned_turn srv pc
     else pbind (plift (rbind (plan_state (rt_context s)) (\<lambda>d. int_entry (react_entry d) ''iteration''))) (\<lambda>n.
       if pc_max_iterations pc \<le> n \<and> dict_get (rc_supervision (rt_context s)) batch_key = None
       then fail_planning srv pc (''ReAct iteration limit reached for step '' @ quoted (ps_id q) @ '' ('' @ str_int (pc_max_iterations pc) @ '')'')
       else planned_turn srv pc))"

definition start_ready_step :: "'w services \<Rightarrow> planning_strategy \<Rightarrow> execution_plan \<Rightarrow> plan_step \<Rightarrow> ('w, unit) run_task" where
  "start_ready_step srv pc plan q = pbind (plift (start_step plan (ps_id q))) (\<lambda>p.
     pthen (update_execution_plan srv (pc_texts pc) p False)
     (pthen (set_context (\<lambda>c. c\<lparr>rc_messages := rc_messages c @ [user_message
        (if ps_executor q = Some ''react'' then react_step_prompt (pc_texts pc) c p q else step_prompt (pc_texts pc) c p q)]\<rparr>))
     (pthen (save_context_snapshot srv) (run_plan_step srv pc q))))"

definition execute_plan :: "'w services \<Rightarrow> planning_strategy \<Rightarrow> execution_plan \<Rightarrow> ('w, unit) run_task" where
  "execute_plan srv pc plan = pbind (resume_waiting_step srv pc plan) (\<lambda>plan. case step_with_status plan StepRunning of
     Some q \<Rightarrow> run_plan_step srv pc q
   | None \<Rightarrow> (case ready_steps plan of [] \<Rightarrow> handle_no_ready_step srv pc plan | q # _ \<Rightarrow> start_ready_step srv pc plan q))"

definition request_plan :: "'w services \<Rightarrow> planning_strategy \<Rightarrow> ('w, unit) run_task" where
  "request_plan srv pc = pbind pget (\<lambda>s. pbind (plift (plan_state (rt_context s))) (\<lambda>d.
     if \<not> in_phase phase_planning d then fail_planning srv pc ''planning state is inconsistent with the missing plan''
     else pthen (if json_true (dict_get d ''prompt_added'') then pret ()
         else pbind (plift (planning_prompt (pc_texts pc) srv (rt_context s))) (\<lambda>prompt.
           pthen (add_user_message prompt) (pthen (put_plan ''prompt_added'' (JBool True)) (save_context_snapshot srv))))
       (planned_turn srv pc)))"

definition planning_advance :: "'w services \<Rightarrow> planning_strategy \<Rightarrow> ('w, unit) run_task" where
  "planning_advance srv pc = pbind pget (\<lambda>s. let c = rt_context s in
     pthen (default_plan_state (if rc_plan c = None \<and> rc_planning_requested c then phase_planning else phase_executing))
     (case rc_plan c of
        None \<Rightarrow> if \<not> rc_planning_requested c then praise (ValueError ''PlanningStrategy requires an ExecutionPlan'') else request_plan srv pc
      | Some plan \<Rightarrow> pthen (plift (validate_executors plan)) (pbind pget (\<lambda>s. pbind (plift (plan_state (rt_context s))) (\<lambda>d.
          if in_phase phase_summarizing d \<or> in_phase phase_updating d then planned_turn srv pc else execute_plan srv pc plan)))))"

end
