(* ===== verification/Plan_Turns.thy ===== *)
theory Plan_Turns
  imports Turns Planning
begin

text \<open>
  The planning strategy meets the contracts of theory \<open>Turns\<close>: its overridden methods keep a segment, and
  each of its turns takes a step, finishes a suspended batch or announces the summary, once.
\<close>

lemma quiet_plan_types [simp]: "PLAN_UPDATED \<notin> set terminal_types" "PLAN_REVIEWED \<notin> set terminal_types" "STEP_STARTED \<notin> set terminal_types"
  "STEP_RESUMED \<notin> set terminal_types" "STEP_WAITING \<notin> set terminal_types" "STEP_COMPLETED \<notin> set terminal_types"
  "STEP_FAILED \<notin> set terminal_types" "STEP_CANCELLED \<notin> set terminal_types" "STEP_SKIPPED \<notin> set terminal_types"
  by (simp_all add: terminal_types_def permanent_terminal_types_def)

lemma step_event_quiet: "step_event a b = Some t \<Longrightarrow> t \<notin> set terminal_types"
  by (auto simp: step_event_def split: if_splits step_status.splits)

subsection \<open>Steady parts\<close>

lemma steady_announce_step: "steady (announce_step srv pt p plan q)"
  unfolding announce_step_def by (auto intro!: steady_rules dest: step_event_quiet split: option.split)

lemma steady_update: "keeps_runs (srv_others srv) \<Longrightarrow> steady (update_execution_plan srv pt plan b)"
  unfolding update_execution_plan_def Let_def
  by (auto intro!: steady_rules steady_save steady_announce_step split: option.split)

lemma steady_change_plan [steady_rules]: "steady (change_plan_state f)"
  by (rule steadyI) (auto simp: change_plan_state_def on_context_def pbind_app seg_context split: sum.splits)

lemma steady_default_plan [steady_rules]: "steady (default_plan_state ph)"
  unfolding default_plan_state_def by (rule steady_context) (simp add: plain_change_def)

lemma steady_plan_event [steady_rules]: "t \<notin> set terminal_types \<Longrightarrow> steady (plan_react_event t d)"
  unfolding plan_react_event_def by (auto intro!: steady_rules split: option.split)

lemma steady_plan_before: "steady plan_before"
  unfolding plan_before_def by (auto simp: Let_def intro!: steady_rules split: option.split)

lemma steady_summary_phase [steady_rules]: "steady (set_context (\<lambda>c. c\<lparr>rc_supervision := dict_set plan_key j (rc_supervision c)\<rparr>))"
  by (rule steady_context) (simp add: plain_change_def)

lemma steady_settle_plan: "keeps_runs (srv_others srv) \<Longrightarrow> steady (settle_terminal_plan srv pc)"
  unfolding settle_terminal_plan_def Let_def by (auto intro!: steady_rules steady_update split: option.split)

lemma steady_resume_step: "keeps_runs (srv_others srv) \<Longrightarrow> steady (resume_waiting_step srv pc plan)"
  unfolding resume_waiting_step_def by (auto intro!: steady_rules steady_update split: option.split)

subsection \<open>The contract of the overridden methods\<close>

lemma closes_fail_planning:
  assumes "keeps_runs (srv_others srv)" "\<not> blank t"
  shows "closes (fail_planning srv pc t)"
proof -
  have "steady (pbind pget (\<lambda>s. case rc_plan (rt_context s) of None \<Rightarrow> pret ()
     | Some plan \<Rightarrow> if pl_status plan \<in> {PlanFailed, PlanCancelled} then pret ()
         else pbind (plift (fail_plan plan t)) (\<lambda>p. update_execution_plan srv (pc_texts pc) p False)))"
    using assms(1) by (auto intro!: steady_rules steady_update split: option.split)
  then show ?thesis unfolding fail_planning_def by (rule closes_then) (rule closes_fail [OF assms(2)])
qed

lemma idles_fail: "\<not> blank t \<Longrightarrow> idles (fail_execution t)"
  unfolding fail_execution_def
proof (rule idles_bind [OF idles_steady [OF steady_error]])
  show "idles (pbind pget (\<lambda>s. if rc_state (rt_context s) = Running then enter_state Failed else pret ()))" for u :: unit
    by (auto simp: idles_def leads_def pbind_app)
qed

lemma idles_fail_planning:
  assumes "keeps_runs (srv_others srv)" "\<not> blank t"
  shows "idles (fail_planning srv pc t)"
proof -
  have "steady (pbind pget (\<lambda>s. case rc_plan (rt_context s) of None \<Rightarrow> pret ()
     | Some plan \<Rightarrow> if pl_status plan \<in> {PlanFailed, PlanCancelled} then pret ()
         else pbind (plift (fail_plan plan t)) (\<lambda>p. update_execution_plan srv (pc_texts pc) p False)))"
    using assms(1) by (auto intro!: steady_rules steady_update split: option.split)
  then show ?thesis unfolding fail_planning_def by (intro idles_bind idles_fail assms(2) idles_steady)
qed

lemma idles_plan_wait: "keeps_runs (srv_others srv) \<Longrightarrow> idles (plan_wait srv pc)"
  unfolding plan_wait_def
  by (auto intro!: idles_bind idles_steady [OF steady_basic(4)] idles_steady [OF steady_basic(3)] idles_fail_planning
      idles_steady [OF steady_update] split: option.split)

lemma rests_finish: "keeps_runs (srv_others srv) \<Longrightarrow> rests (finish_plan srv pc plan)"
  unfolding finish_plan_def by (auto intro!: rests_closes [OF closes_complete] rests_steady steady_rules steady_save)

lemma rests_invalid: "keeps_runs (srv_others srv) \<Longrightarrow> \<not> blank t \<Longrightarrow> rests (invalid_answer srv pc t e)"
  unfolding invalid_answer_def by (auto intro!: rests_closes closes_fail_planning closes_raise)

lemma rests_after_step:
  assumes runs: "keeps_runs (srv_others srv)"
  shows "rests (after_step srv pc q completed)"
  unfolding after_step_def
  by (rule rests_bind [OF steady_update [OF runs]])
    (auto intro!: rests_finish [OF runs] rests_steady steady_rules steady_save [OF runs])

lemma rests_step_result:
  assumes runs: "keeps_runs (srv_others srv)"
  shows "rests (accept_step_result srv pc content)"
  unfolding accept_step_result_def
  by (auto intro!: rests_bind [OF steady_basic(4)] rests_bind [OF steady_basic(3)] rests_bind [OF steady_change_plan]
      rests_closes [OF closes_fail_planning [OF runs]] rests_after_step [OF runs] rests_invalid [OF runs] split: option.split sum.split)

lemma rests_replan:
  assumes runs: "keeps_runs (srv_others srv)"
  shows "rests (accept_replan srv pc content)"
  unfolding accept_replan_def
  by (auto intro!: rests_bind [OF steady_basic(4)] rests_bind [OF steady_basic(3)] rests_bind [OF steady_change_plan] rests_bind [OF steady_emit]
      rests_bind [OF steady_basic(1)] rests_bind [OF steady_update [OF runs]] rests_invalid [OF runs] rests_finish [OF runs]
      rests_steady [OF steady_basic(1)] split: sum.split prod.split)

lemma rests_generated:
  assumes runs: "keeps_runs (srv_others srv)"
  shows "rests (accept_generated_plan srv pc content)"
  unfolding accept_generated_plan_def
  by (auto intro!: rests_invalid [OF runs] rests_bind [OF steady_update [OF runs]] rests_steady [OF steady_change_plan] split: sum.split)

lemma rests_plan_complete: "keeps_runs (srv_others srv) \<Longrightarrow> rests (plan_complete srv pc t)"
  unfolding plan_complete_def
  by (auto intro!: rests_bind [OF steady_default_plan] rests_bind [OF steady_basic(4)] rests_bind [OF steady_basic(3)] rests_generated rests_replan
      rests_closes [OF closes_complete] rests_step_result)

interpretation planning: turn_hooks srv "planning_hooks srv pc"
  by unfold_locales (simp_all add: planning_hooks_def steady_plan_before plan_actions_def plan_observed_def plan_iteration_completed_def
      steady_plan_event idles_plan_wait rests_plan_complete closes_fail_planning)

subsection \<open>The contract of the strategy\<close>

abbreviation stepped :: "'w runtime \<Rightarrow> int \<Rightarrow> bool \<Rightarrow> 'w runtime \<Rightarrow> bool" where
  "stepped s0 n b s \<equiv> over s0 n s \<and> (rc_state (rt_context s) = Running \<longrightarrow> b) \<or> over s0 (n + 1) s"

abbreviation turn_failed :: "'w runtime \<Rightarrow> int \<Rightarrow> exn \<Rightarrow> 'w runtime \<Rightarrow> bool" where
  "turn_failed s0 n \<equiv> \<lambda>_ s. at_step s0 n s \<or> at_step s0 (n + 1) s"

definition steps :: "'w runtime \<Rightarrow> int \<Rightarrow> bool \<Rightarrow> ('w, unit) run_task \<Rightarrow> bool" where
  "steps s0 n b m \<longleftrightarrow> leads (live s0 n b) m (turn_failed s0 n) (\<lambda>_. stepped s0 n b)"

lemma leads_disj: "leads P m E Q \<Longrightarrow> leads P' m E Q \<Longrightarrow> leads (\<lambda>s. P s \<or> P' s) m E Q"
  by (auto simp: leads_def)

lemma steps_closes: "closes m \<Longrightarrow> steps s0 n b m"
  unfolding steps_def by (rule leads_conseq [OF closesD]) (auto intro: closed_over [OF conjI])

lemma steps_bind: "steady m \<Longrightarrow> (\<And>x. steps s0 n b (f x)) \<Longrightarrow> steps s0 n b (pbind m f)"
  unfolding steps_def by (rule leads_bind [where M = "\<lambda>_. live s0 n b", OF leads_conseq [OF steady_live]]) auto

lemma steps_raise: "steps s0 n b (praise e)"
  unfolding steps_def by (rule leads_raise) (auto dest: live_at)

lemma steps_planned:
  assumes good: "good_services sha my srv"
  shows "steps s0 n b (planned_turn srv pc)"
  unfolding steps_def planned_turn_def
proof (rule leads_bind)
  show "leads (live s0 n b) (advance_turn srv (planning_hooks srv pc)) (turn_failed s0 n) (\<lambda>_ s. b \<and> over s0 n s \<or> over s0 (n + 1) s)"
    by (rule leads_conseq [OF planning.turn_advances [OF good]]) auto
  have settled: "leads (over s0 m) (settle_terminal_plan srv pc) (\<lambda>_. at_step s0 m) (\<lambda>_. over s0 m)" for m
    by (rule steady_over [OF steady_settle_plan [OF others [OF good]]])
  show "leads (\<lambda>s. b \<and> over s0 n s \<or> over s0 (n + 1) s) (settle_terminal_plan srv pc) (turn_failed s0 n) (\<lambda>_. stepped s0 n b)"
  proof (rule leads_disj)
    show "leads (\<lambda>s. b \<and> over s0 n s) (settle_terminal_plan srv pc) (turn_failed s0 n) (\<lambda>_. stepped s0 n b)"
    proof (cases b)
      case True
      show ?thesis by (rule leads_conseq [OF settled [of n]]) (use True in auto)
    qed (simp add: leads_def)
    show "leads (over s0 (n + 1)) (settle_terminal_plan srv pc) (turn_failed s0 n) (\<lambda>_. stepped s0 n b)"
      by (rule leads_conseq [OF settled]) auto
  qed
qed

lemma steps_run_step:
  assumes good: "good_services sha my srv"
  shows "steps s0 n b (run_plan_step srv pc q)"
  unfolding run_plan_step_def
  by (rule steps_bind [OF steady_basic(4)])
    (auto intro!: steps_planned [OF good] steps_bind [OF steady_basic(3)] steps_closes [OF closes_fail_planning [OF others [OF good]]])

lemma steps_start_step:
  assumes good: "good_services sha my srv"
  shows "steps s0 n b (start_ready_step srv pc plan q)"
  unfolding start_ready_step_def
  by (intro steps_bind steady_basic steady_update [OF others [OF good]] plain_changes save_steady [OF good] steps_run_step [OF good])

lemma steps_request:
  assumes good: "good_services sha my srv"
  shows "steps s0 n b (request_plan srv pc)"
  unfolding request_plan_def
  by (rule steps_bind [OF steady_basic(4)], rule steps_bind [OF steady_basic(3)])
    (auto intro!: steps_closes [OF closes_fail_planning [OF others [OF good]]] steps_bind steps_planned [OF good] steady_rules save_steady [OF good])

lemma finish_turned:
  assumes runs: "keeps_runs (srv_others srv)"
  shows "leads (live s0 n b) (finish_plan srv pc plan) (turn_failed s0 n) (\<lambda>_. turned s0 n b True)"
proof (cases "pc_summarize pc")
  case False
  with steps_closes [OF closes_complete, of s0 n b "deterministic_summary (pc_texts pc) plan"] show ?thesis
    by (auto simp: finish_plan_def steps_def turned_def elim: leads_conseq)
next
  case True
  let ?phase = "set_context (\<lambda>c. c\<lparr>rc_supervision := dict_set plan_key (JObj [(''phase'', JStr phase_summarizing)]) (rc_supervision c)\<rparr>) :: ('a, unit) run_task"
  let ?rest = "pthen (set_context (\<lambda>c. c\<lparr>rc_messages := rc_messages c @ [user_message (summary_prompt (pc_texts pc) c plan)]\<rparr>)) (save_context_snapshot srv)"
  let ?P = "\<lambda>s :: 'a runtime. live s0 n b s \<and> \<not> spare (rt_context s)"
  have phase: "leads (live s0 n b) ?phase (turn_failed s0 n) (\<lambda>_. ?P)"
  proof (rule leadsI)
    fix s u s' assume s: "live s0 n b s" and r: "?phase s = (Inr u, s')"
    from leadsD(2) [OF steady_live [OF steady_summary_phase] s r] r show "?P s'" by (auto simp: on_context_def spare_def)
  qed (simp add: on_context_def)
  have rest: "leads ?P ?rest (turn_failed s0 n) (\<lambda>_. turned s0 n b True)"
  proof (rule leadsI)
    have st: "steady ?rest" by (intro steady_rules steady_save [OF runs])
    fix s s' assume s: "?P s"
    show "at_step s0 n s' \<or> at_step s0 (n + 1) s'" if "?rest s = (Inl e, s')" for e
      using leadsD(1) [OF steady_live [OF st] conjunct1 [OF s] that] by simp
    fix u assume r: "?rest s = (Inr u, s')"
    have "rc_supervision (rt_context s') = rc_supervision (rt_context s)"
      using r by (auto simp: pbind_app on_context_def dest: keepsD [OF same_context_save])
    with s leadsD(2) [OF steady_live [OF st] conjunct1 [OF s] r] show "turned s0 n b True s'"
      by (auto simp: turned_def live_def at_step_def view_def spare_def)
  qed
  from leads_bind [OF phase rest] True show ?thesis by (simp add: finish_plan_def)
qed

lemma execute_plan_turned:
  assumes good: "good_services sha my srv"
  shows "leads (live s0 n b) (execute_plan srv pc plan) (turn_failed s0 n) (\<lambda>_. turned s0 n b True)"
proof -
  note runs = others [OF good]
  have stepped: "leads (live s0 n b) m (turn_failed s0 n) (\<lambda>_. turned s0 n b True)" if "steps s0 n b m" for m :: "('a, unit) run_task"
    using that unfolding steps_def by (rule leads_conseq) (auto simp: turned_def)
  have none: "leads (live s0 n b) (handle_no_ready_step srv pc p) (turn_failed s0 n) (\<lambda>_. turned s0 n b True)" for p
    unfolding handle_no_ready_step_def
    by (auto intro!: finish_turned [OF runs] stepped [OF steps_closes [OF closes_fail_planning [OF runs]]])
  show ?thesis unfolding execute_plan_def
    by (rule leads_bind [OF leads_conseq [OF steady_live [OF steady_resume_step [OF runs]]], where M = "\<lambda>_. live s0 n b"])
      (auto intro!: none stepped [OF steps_run_step [OF good]] stepped [OF steps_start_step [OF good]] split: option.split list.split)
qed

lemma default_plan_spare: "default_plan_state ph s = (r, s') \<Longrightarrow> ph \<noteq> phase_summarizing \<Longrightarrow> spare (rt_context s') = spare (rt_context s)"
  by (cases "dict_get (rc_supervision (rt_context s)) plan_key") (auto simp: default_plan_state_def on_context_def spare_def)

lemma in_summary: "plan_state c = Inr d \<Longrightarrow> in_phase phase_summarizing d = (\<not> spare c)"
  by (auto simp: plan_state_def spare_def in_phase_def split: option.splits json.splits)

lemma planning_advance_ok:
  assumes good: "good_services sha my srv"
  shows "leads (\<lambda>s. live s0 n b s \<and> spare (rt_context s) = c) (planning_advance srv pc) (turn_failed s0 n) (\<lambda>_. turned s0 n b c)"
  unfolding planning_advance_def Let_def
proof (rule leads_get, rule leads_bind)
  fix s assume s: "live s0 n b s \<and> spare (rt_context s) = c"
  let ?ph = "if rc_plan (rt_context s) = None \<and> rc_planning_requested (rt_context s) then phase_planning else phase_executing"
  let ?P = "\<lambda>s. live s0 n b s \<and> spare (rt_context s) = c"
  show "leads ((=) s) (default_plan_state ?ph) (turn_failed s0 n) (\<lambda>_. ?P)"
  proof (rule leadsI)
    fix t s' assume "s = t"
    show "at_step s0 n s' \<or> at_step s0 (n + 1) s'" if "default_plan_state ?ph t = (Inl e, s')" for e
      using that by (simp add: default_plan_state_def on_context_def)
    fix u assume r: "default_plan_state ?ph t = (Inr u, s')"
    have "?ph \<noteq> phase_summarizing" by simp
    from default_plan_spare [OF r this] leadsD(2) [OF steady_live [OF steady_default_plan] _ r] s \<open>s = t\<close> show "?P s'" by blast
  qed
  have stepped: "leads ?P m (turn_failed s0 n) (\<lambda>_. turned s0 n b c)" if "steps s0 n b m" for m
    using that unfolding steps_def by (rule leads_conseq) (auto simp: turned_def)
  have run: "leads ((=) t) (if in_phase phase_summarizing d \<or> in_phase phase_updating d then planned_turn srv pc else execute_plan srv pc plan)
      (turn_failed s0 n) (\<lambda>_. turned s0 n b c)" if t: "?P t" and d: "plan_state (rt_context t) = Inr d" for t d plan
  proof (cases "in_phase phase_summarizing d \<or> in_phase phase_updating d")
    case True
    with leads_from [where P = ?P, OF stepped [OF steps_planned [OF good]] t] show ?thesis by simp
  next
    case False
    with in_summary [OF d] t have "c" by auto
    with False leads_from [OF execute_plan_turned [OF good] conjunct1 [OF t]] show ?thesis by simp
  qed
  have plan: "leads ?P (pthen (plift (validate_executors plan)) (pbind pget (\<lambda>s. pbind (plift (plan_state (rt_context s))) (\<lambda>d.
          if in_phase phase_summarizing d \<or> in_phase phase_updating d then planned_turn srv pc else execute_plan srv pc plan))))
      (turn_failed s0 n) (\<lambda>_. turned s0 n b c)" for plan
  proof (rule leads_bind [where M = "\<lambda>_. ?P"])
    show "leads ?P (plift (validate_executors plan)) (turn_failed s0 n) (\<lambda>_. ?P)" by (rule leads_lift) (auto dest: live_at)
    show "leads ?P (pbind pget (\<lambda>s. pbind (plift (plan_state (rt_context s))) (\<lambda>d.
          if in_phase phase_summarizing d \<or> in_phase phase_updating d then planned_turn srv pc else execute_plan srv pc plan)))
      (turn_failed s0 n) (\<lambda>_. turned s0 n b c)" for u :: unit
    proof (rule leads_get)
      fix t assume t: "?P t"
      show "leads ((=) t) (pbind (plift (plan_state (rt_context t))) (\<lambda>d.
          if in_phase phase_summarizing d \<or> in_phase phase_updating d then planned_turn srv pc else execute_plan srv pc plan))
        (turn_failed s0 n) (\<lambda>_. turned s0 n b c)"
      proof (cases "plan_state (rt_context t)")
        case (Inl e)
        with t show ?thesis by (auto simp: leads_def pbind_app dest: live_at)
      next
        case (Inr d)
        with run [OF t Inr] show ?thesis by (simp add: leads_def pbind_app)
      qed
    qed
  qed
  show "leads ?P (case rc_plan (rt_context s) of
        None \<Rightarrow> if \<not> rc_planning_requested (rt_context s) then praise (ValueError ''PlanningStrategy requires an ExecutionPlan'') else request_plan srv pc
      | Some plan \<Rightarrow> pthen (plift (validate_executors plan)) (pbind pget (\<lambda>s. pbind (plift (plan_state (rt_context s))) (\<lambda>d.
          if in_phase phase_summarizing d \<or> in_phase phase_updating d then planned_turn srv pc else execute_plan srv pc plan))))
      (turn_failed s0 n) (\<lambda>_. turned s0 n b c)" for u :: unit
    using plan stepped [OF steps_request [OF good]] stepped [OF steps_raise] by (auto split: option.split)
qed

interpretation planning_strategy: bounded_strategy srv "planning_advance srv pc"
  by unfold_locales (rule planning_advance_ok)

end
