(* ===== verification/Settlement.thy ===== *)
theory Settlement
  imports Engine Plan_Turns
begin

text \<open>
  What \<open>AgentRuntime.execute\<close> leaves behind. A segment that starts ends with a settled run: its last state
  is stored, announced once, checkpointed exactly when it waits, and within the budgets of its profile.
\<close>

subsection \<open>The segment begins\<close>

text \<open>What every program before the loop keeps, whether or not the run is stored yet.\<close>

definition follows :: "'w runtime \<Rightarrow> 'w runtime \<Rightarrow> bool" where
  "follows s s' \<longleftrightarrow> rc_run_id (rt_context s') = rc_run_id (rt_context s) \<and> rc_profile (rt_context s') = rc_profile (rt_context s) \<and>
     rc_conversation_id (rt_context s') = rc_conversation_id (rt_context s) \<and> rt_conversations s' = rt_conversations s \<and>
     rt_checkpoints s' = rt_checkpoints s \<and> quiet_log (run_log s) (run_log s') \<and> rc_step_count (rt_context s') = rc_step_count (rt_context s) \<and>
     rc_tool_call_count (rt_context s') = rc_tool_call_count (rt_context s) \<and> suspended s' = suspended s \<and> rt_scope s' = rt_scope s \<and>
     (stored (rc_run_id (rt_context s)) s \<longrightarrow> stored (rc_run_id (rt_context s)) s') \<and>
     (clear_text (rc_error (rt_context s)) \<longrightarrow> clear_text (rc_error (rt_context s')))"

lemma quiet_log_trans: "quiet_log a b \<Longrightarrow> quiet_log b c \<Longrightarrow> quiet_log a c"
  by (auto simp: quiet_log_def)

interpretation following: kept_relation follows
  by unfold_locales (auto simp: follows_def intro: quiet_log_trans)

named_theorems following_rules \<open>programs that keep the identity, the counters and the log of a run\<close>

lemmas [following_rules] = following.basic following.bind following.each

lemma following_emit [following_rules]: "t \<notin> set terminal_types \<Longrightarrow> keeps follows (emit_event t d)"
  by (simp add: keeps_def emit_event_eq follows_def suspended_def stored_def quiet_log_snoc)

lemma following_runs: "keeps_runs (srv_others srv) \<Longrightarrow> run_op m \<Longrightarrow> keeps follows (on_runs srv m)"
  by (auto simp: keeps_def on_runs_def follows_def suspended_def stored_def keeps_runs_def run_op_def split: prod.split) (metis snd_conv)

lemma following_enter [following_rules]: "keeps follows (enter_state st)"
  by (auto simp: keeps_def enter_state_eq follows_def suspended_def stored_def split: sum.split)

lemma following_context: "(\<And>c. rc_run_id (f c) = rc_run_id c \<and> rc_profile (f c) = rc_profile c \<and> rc_conversation_id (f c) = rc_conversation_id c \<and>
     rc_step_count (f c) = rc_step_count c \<and> rc_tool_call_count (f c) = rc_tool_call_count c \<and>
     dict_get (rc_supervision (f c)) batch_key = dict_get (rc_supervision c) batch_key \<and>
     (clear_text (rc_error c) \<longrightarrow> clear_text (rc_error (f c)))) \<Longrightarrow> keeps follows (set_context f)"
  by (simp add: keeps_def on_context_def follows_def suspended_def stored_def)

lemma following_save:
  assumes "keeps_runs (srv_others srv)"
  shows "keeps follows (save_context_snapshot srv)"
  unfolding save_context_snapshot_def Let_def
  by (intro following_rules following_runs [OF assms] run_op_bind run_ops; simp add: case_prod_unfold; intro following_runs [OF assms] run_ops)

lemma following_created [following_rules]: "keeps follows (announce_created srv)"
  unfolding announce_created_def by (auto simp: Let_def intro!: following_rules split: option.split)

lemma same_context_created: "keeps same_context (announce_created srv)"
  unfolding announce_created_def
  by (auto simp: Let_def intro!: contexts.basic contexts.bind contexts.each same_context_emit split: option.split)

lemma following_new_run: "keeps_runs (srv_others srv) \<Longrightarrow> keeps follows (store_new_run srv)"
  unfolding store_new_run_def by (intro following_rules following_runs run_op_bind run_ops)

lemma following_announce: "keeps_runs (srv_others srv) \<Longrightarrow> keeps follows (announce_start srv)"
  unfolding announce_start_def by (intro following_rules following_context following_save) simp_all

lemma following_answer [following_rules]: "keeps follows (take_answer srv p a)" "keeps follows (announce_answer srv p a)"
  unfolding take_answer_def answer_pending_def announce_answer_def
  by (auto intro!: following_rules following_context split: resume_answer.split)

lemma following_resume: "keeps_runs (srv_others srv) \<Longrightarrow> keeps follows (prepare_resume srv input confirmation)"
  unfolding prepare_resume_def by (auto intro!: following_rules following_context following_save split: option.split)

lemma following_segment: "keeps_runs (srv_others (xn_services x)) \<Longrightarrow> keeps follows (enter_segment x)"
  unfolding enter_segment_def create_stored_run_def Let_def
  by (auto intro!: following_rules following_new_run following_announce following_resume split: run_status.split)

text \<open>The run is stored when the segment starts, and the state is \<open>Running\<close>.\<close>

lemma new_run_stored: "keeps_runs (srv_others srv) \<Longrightarrow> store_new_run srv s = (Inr u, s') \<Longrightarrow> stored (rc_run_id (rt_context s)) s'"
  by (auto simp: store_new_run_def on_runs_def pbind_app utc_now_def create_run_def construct_def new_run_def stored_def has_run_def
      split: prod.splits if_splits)

definition is_running :: "'w runtime \<Rightarrow> bool" where
  "is_running s \<longleftrightarrow> rc_state (rt_context s) = Running"

lemma running_same: "is_running s \<Longrightarrow> keeps same_context m \<Longrightarrow> m s = (r, s') \<Longrightarrow> is_running s'"
  by (auto simp: is_running_def dest: keepsD)

lemma announce_running: "is_running s \<Longrightarrow> announce_start srv s = (r, s') \<Longrightarrow> is_running s'"
  unfolding announce_start_def
  by (auto simp: pbind_app on_context_def is_running_def emit_event_eq split: prod.splits sum.splits dest!: keepsD [OF same_context_save])

lemma answer_same: "keeps same_context (announce_answer srv p a)"
  unfolding announce_answer_def by (auto intro!: contexts.basic contexts.bind same_context_emit split: resume_answer.split)

lemma resume_running:
  assumes r: "prepare_resume srv input confirmation s = (Inr u, s')"
  shows "is_running s'"
proof -
  obtain p a s1 s2 s3 s4 where s2: "enter_state Running s1 = (Inr (), s2)" and rest: "save_context_snapshot srv s2 = (Inr (), s3)"
    "announce_answer srv p a s3 = (Inr (), s4)" "emit_event RUN_RESUMED [(''provider'', JStr (srv_provider srv)), (''from'', JStr ''waiting'')] s4 = (Inr u, s')"
    using r by (auto simp: prepare_resume_def result_iffs split: option.splits)
  have "is_running s2" using s2 by (auto simp: enter_state_eq transition_to_def is_running_def split: if_splits)
  from running_same [OF running_same [OF running_same [OF this same_context_save rest(1)] answer_same rest(2)] same_context_emit rest(3)]
  show ?thesis .
qed

lemma segment_running:
  assumes others: "keeps_runs (srv_others (xn_services x))" and old: "rc_state (rt_context s) = Waiting \<Longrightarrow> stored (rc_run_id (rt_context s)) s"
    and r: "enter_segment x s = (Inr u, s')"
  shows "is_running s' \<and> stored (rc_run_id (rt_context s)) s'"
proof (cases "rc_state (rt_context s) = Waiting")
  case True
  have "follows s s'" using following_segment [OF others] r by (rule keepsD)
  with True old r show ?thesis by (auto simp: follows_def enter_segment_def Let_def pbind_app dest: resume_running)
next
  case False
  let ?srv = "xn_services x"
  define st where "st = rc_state (rt_context s)"
  have "st = Created \<or> st = Running" using r False by (cases st) (auto simp: enter_segment_def pbind_app st_def)
  then obtain s1 s2 s3 where s: "store_new_run ?srv s = (Inr (), s1)" "announce_created ?srv s1 = (Inr (), s2)"
    "s3 = s2 \<and> st = Running \<or> enter_state Running s2 = (Inr (), s3)" "announce_start ?srv s3 = (Inr u, s')"
    using r by (auto simp: enter_segment_def create_stored_run_def result_iffs st_def) blast
  have s1: "follows s s1" "stored (rc_run_id (rt_context s)) s1" "rt_context s1 = rt_context s"
    using keepsD [OF following_new_run [OF others] s(1)] new_run_stored [OF others s(1)] s(1)
    by (auto simp: store_new_run_def pbind_app dest: keepsD [OF same_context_runs])
  have s2: "follows s1 s2" "rt_context s2 = rt_context s1" using keepsD [OF following_created s(2)] keepsD [OF same_context_created s(2)] by simp_all
  have s3: "follows s2 s3" "is_running s3" using s(3) s2 s1 keepsD [OF following_enter, of Running s2 "Inr ()" s3]
    by (auto simp: is_running_def st_def following.R_refl enter_state_eq transition_to_def split: if_splits)
  have "follows s1 s'" using following.R_trans [OF following.R_trans [OF s2(1) s3(1)] keepsD [OF following_announce [OF others] s(4)]] .
  with s1 announce_running [OF s3(2) s(4)] show ?thesis by (simp add: follows_def)
qed

text \<open>Factories whose resources settle.\<close>

definition calm_resources :: "'w resource_spec list \<Rightarrow> bool" where
  "calm_resources specs \<longleftrightarrow> (\<forall>sp \<in> set specs. \<forall>c w m. fst (sp_factory sp c w) = Inr m \<longrightarrow> settles m)"

lemma calm_made: "calm_resources specs \<Longrightarrow> make_scope specs = Inr sc \<Longrightarrow> calm sc"
  by (auto simp: calm_resources_def make_scope_def calm_def split: if_splits dest!: map_of_SomeD)

text \<open>What the caller provides: usable services and a context whose counters are within the budgets.\<close>

definition fit :: "(bytes \<Rightarrow> string) \<Rightarrow> 'w execution \<Rightarrow> 'w runtime \<Rightarrow> bool" where
  "fit sha x s \<longleftrightarrow> good_services sha (xn_memories x) (xn_services x) \<and> calm_resources (xn_resources x) \<and>
     0 \<le> rc_step_count (rt_context s) \<and> rc_step_count (rt_context s) \<le> step_limit s \<and> 0 \<le> rc_tool_call_count (rt_context s) \<and>
     rc_tool_call_count (rt_context s) \<le> ap_max_tool_calls (rc_profile (rt_context s)) \<and>
     (rc_state (rt_context s) = Waiting \<longrightarrow> stored (rc_run_id (rt_context s)) s) \<and> clear_text (rc_error (rt_context s))"

lemma segment_begins:
  assumes fit: "fit sha x s" and r: "begin_segment x s = (Inr u, s1)"
  shows "live s1 (rc_step_count (rt_context s)) (suspended s) s1 \<and> follows (s\<lparr>rt_scope := rt_scope s1\<rparr>) s1"
proof -
  obtain sc where sc: "make_scope (xn_resources x) = Inr sc" "enter_segment x (s\<lparr>rt_scope := sc\<rparr>) = (Inr u, s1)"
    using r by (auto simp: begin_segment_def result_iffs)
  have others: "keeps_runs (srv_others (xn_services x))" using fit by (simp add: fit_def good_services_def)
  have f: "follows (s\<lparr>rt_scope := sc\<rparr>) s1" using following_segment [OF others] sc(2) by (rule keepsD)
  have run: "is_running s1 \<and> stored (rc_run_id (rt_context s)) s1"
    using segment_running [OF others _ sc(2)] fit by (simp add: fit_def stored_def)
  have "calm sc" using calm_made sc(1) fit by (auto simp: fit_def)
  with f run fit show ?thesis by (auto simp: live_def seg_def view_def follows_def is_running_def suspended_def fit_def)
qed

subsection \<open>The segment ends\<close>

definition settled :: "'w runtime \<Rightarrow> 'w runtime \<Rightarrow> bool" where
  "settled s0 s \<longleftrightarrow> seg s0 s \<and> \<not> is_running s \<and> rc_step_count (rt_context s) \<le> step_limit s0"

lemma interrupt_settles:
  assumes others: "keeps_runs (srv_others srv)" and s: "seg s0 s" and n: "rc_step_count (rt_context s) \<le> step_limit s0"
  shows "\<exists>s'. interrupt_run srv s = (Inr (), s') \<and> settled s0 s' \<and> rc_state (rt_context s') \<noteq> Waiting"
proof -
  let ?k = "rc_run_id (rt_context s)" and ?rs = "srv_others srv (rt_turn s) (rt_runs s)"
  have "has_run ?k ?rs" using s others by (auto simp: seg_def stored_def keeps_runs_def)
  then obtain r where r: "dict_get (rs_runs ?rs) ?k = Some r" by (auto simp: has_run_def)
  let ?s = "s\<lparr>rt_runs := ?rs, rt_turn := Suc (rt_turn s)\<rparr>"
  have on: "on_runs srv (is_cancel_requested ?k) s = (Inr (rn_cancel_requested r), ?s)"
    using r by (simp add: on_runs_def is_cancel_requested_def get_run_def pbind_app)
  have seg: "seg s0 ?s" using steadyD [OF steady_runs [OF others run_ops(6)] s on] by simp
  show ?thesis using on seg n s
    by (auto simp: interrupt_run_def pbind_app on_context_def enter_state_eq transition_to_def settled_def is_running_def seg_def stored_def
        clear_text_def split: if_splits)
qed

lemma outcome_settles:
  assumes others: "keeps_runs (srv_others srv)" and s: "seg s0 s" "rc_step_count (rt_context s) \<le> step_limit s0"
    and res: "\<forall>u. res = Inr u \<longrightarrow> \<not> is_running s"
  shows "\<exists>s'. absorb_outcome srv res s = (Inr (), s') \<and> settled s0 s' \<and> (res = Inl CancelledError \<longrightarrow> rc_state (rt_context s') \<noteq> Waiting)"
proof (cases res)
  case (Inr u)
  with s res show ?thesis by (simp add: absorb_outcome_def settled_def)
next
  case (Inl e)
  show ?thesis
  proof (cases "e = CancelledError")
    case True
    with Inl interrupt_settles [OF others s] show ?thesis by (simp add: absorb_outcome_def)
  next
    case False
    with Inl s show ?thesis
      by (auto simp: absorb_outcome_def fail_execution_def pbind_app on_context_def enter_state_eq transition_to_def settled_def is_running_def
          seg_def stored_def clear_text_def)
  qed
qed

lemma close_returns:
  assumes "calm (rt_scope s)"
  shows "\<exists>fs s'. close_scope cd err s = (Inr fs, s')"
proof -
  let ?t = "s\<lparr>rt_scope := (rt_scope s)\<lparr>sc_state := ScopeClosed\<rparr>\<rparr>"
  have "set (rev (sc_order (rt_scope s))) \<subseteq> set (dict_keys (sc_acquired (rt_scope ?t)))" "exits_settle (rt_scope ?t)"
    using assms by (auto simp: calm_def exits_settle_def settles_def)
  from release_all_ok [OF this, of cd err] show ?thesis by (auto simp: close_scope_def pbind_app)
qed

lemma segment_closes:
  assumes s: "settled s0 s"
  shows "\<exists>s'. close_segment x err s = (Inr (), s') \<and> settled s0 s' \<and> rc_state (rt_context s') = rc_state (rt_context s)"
proof -
  have "calm (rt_scope s)" using s by (simp add: settled_def seg_def)
  then obtain fs s1 where s1: "close_scope (srv_codec (xn_services x)) err s = (Inr fs, s1)" using close_returns by blast
  let ?f = "set_context (\<lambda>c. c\<lparr>rc_resource_failures := rc_resource_failures c @ fs\<rparr>)"
  obtain s2 where s2: "?f s1 = (Inr (), s2)" by (simp add: on_context_def)
  have "seg s0 s" using s by (simp add: settled_def)
  then have "seg s0 s1 \<and> view s1 = view s" using steadyD [OF steady_close _ s1] by blast
  moreover from this have "seg s0 s2 \<and> view s2 = view s1" using steadyD [OF plain_changes(10) _ s2] by blast
  ultimately have "settled s0 s2 \<and> rc_state (rt_context s2) = rc_state (rt_context s)"
    using s by (auto simp: settled_def view_def is_running_def seg_def)
  with s1 s2 show ?thesis by (auto simp: close_segment_def pbind_app)
qed

subsection \<open>The run is settled\<close>

text \<open>The stored run says what the context says.\<close>

definition reflects :: "runtime_context \<Rightarrow> run \<Rightarrow> bool" where
  "reflects c r \<longleftrightarrow> rn_id r = rc_run_id c \<and> rn_status r = rc_state c \<and> rn_step_count r = rc_step_count c \<and>
     rn_tool_call_count r = rc_tool_call_count c \<and> rn_usage r = rc_usage c \<and> rn_output r = rc_output c \<and> rn_error r = rc_error c \<and>
     rn_attachments r = rc_attachments c \<and> rn_artifacts r = rc_artifacts c"

definition returns :: "('s, 'e, 'a) prog \<Rightarrow> bool" where
  "returns m \<longleftrightarrow> leads (\<lambda>_. True) m (\<lambda>_ _. False) (\<lambda>_ _. True)"

lemma returns_bind: "returns m \<Longrightarrow> (\<And>x. returns (f x)) \<Longrightarrow> returns (pbind m f)"
  unfolding returns_def by (rule leads_bind)

lemma returns_basic: "returns (pret x)" "returns pget" "returns (emit_event t d)"
  by (simp_all add: returns_def leads_def emit_event_eq)

lemma returns_each: "(\<And>x. returns (f x)) \<Longrightarrow> returns (peach f xs)"
  by (induction xs) (auto intro!: returns_bind returns_basic)

lemma returnsD: "returns m \<Longrightarrow> \<exists>r s'. m s = (Inr r, s')"
  unfolding returns_def leads_def by (cases "m s"; cases "fst (m s)") (auto dest: spec [of _ s])

lemma save_reflects:
  assumes others: "keeps_runs (srv_others srv)" and s: "stored (rc_run_id (rt_context s)) s"
  shows "\<exists>s' r. save_context_snapshot srv s = (Inr (), s') \<and> s' = s\<lparr>rt_runs := rt_runs s', rt_turn := rt_turn s'\<rparr> \<and>
    dict_get (rs_runs (rt_runs s')) (rc_run_id (rt_context s)) = Some r \<and> reflects (rt_context s) r"
proof -
  let ?k = "rc_run_id (rt_context s)" and ?rs = "srv_others srv (rt_turn s) (rt_runs s)"
  have h: "has_run ?k ?rs" using s others by (simp add: stored_def keeps_runs_def)
  then obtain r where r: "dict_get (rs_runs ?rs) ?k = Some r" "rn_id r = ?k" by (auto simp: has_run_def)
  let ?rs' = "srv_others srv (Suc (rt_turn s)) (?rs\<lparr>clock_reads := Suc (clock_reads ?rs)\<rparr>)"
  have "has_run ?k (?rs\<lparr>clock_reads := Suc (clock_reads ?rs)\<rparr>)" using h by (simp add: has_run_def)
  then have "has_run ?k ?rs'" using others unfolding keeps_runs_def by blast
  then obtain r' where r': "dict_get (rs_runs ?rs') ?k = Some r'" by (auto simp: has_run_def)
  show ?thesis using r r'
    by (simp add: save_context_snapshot_def on_runs_def pbind_app get_run_def utc_now_def save_run_def snapshot_def Let_def reflects_def)
qed

text \<open>The conversation of the run: its turn is the active one, and it is released unless the run waits.\<close>

definition conversation_ready :: "'w runtime \<Rightarrow> bool" where
  "conversation_ready s \<longleftrightarrow> (case rc_conversation_id (rt_context s) of None \<Rightarrow> True
     | Some k \<Rightarrow> \<exists>cs cv. rt_conversations s = Some cs \<and> dict_get (cs_conversations cs) k = Some cv \<and>
         cv_active_run_id cv = Some (rc_run_id (rt_context s)) \<and> turn_index (rc_run_id (rt_context s)) (turns_of k cs) \<noteq> None)"

definition conversation_settled :: "'w runtime \<Rightarrow> bool" where
  "conversation_settled s \<longleftrightarrow> (case rc_conversation_id (rt_context s) of None \<Rightarrow> True
     | Some k \<Rightarrow> \<exists>cs cv t. rt_conversations s = Some cs \<and> dict_get (cs_conversations cs) k = Some cv \<and>
         cv_active_run_id cv = (if rc_state (rt_context s) = Waiting then Some (rc_run_id (rt_context s)) else None) \<and>
         t \<in> set (turns_of k cs) \<and> ct_run_id t = rc_run_id (rt_context s) \<and> ct_status t = rc_state (rt_context s))"

lemma conversation_ready_cong: "rt_context s' = rt_context s \<or> seg s s' \<Longrightarrow> rt_conversations s' = rt_conversations s \<Longrightarrow>
   conversation_ready s' = conversation_ready s"
  unfolding conversation_ready_def seg_def by (auto split: option.split)

lemma conversation_finishes:
  assumes ready: "conversation_ready s" and st: "rc_state (rt_context s) \<notin> {Created, Running}"
  shows "\<exists>s'. finish_conversation s = (Inr (), s') \<and> s' = s\<lparr>rt_conversations := rt_conversations s'\<rparr> \<and> conversation_settled s'"
proof (cases "rc_conversation_id (rt_context s)")
  case None
  then show ?thesis by (simp add: finish_conversation_def conversation_settled_def)
next
  case (Some k)
  let ?r = "rc_run_id (rt_context s)"
  from Some ready obtain cs cv i where cs: "rt_conversations s = Some cs" "dict_get (cs_conversations cs) k = Some cv"
    "cv_active_run_id cv = Some ?r" "turn_index ?r (turns_of k cs) = Some i" by (auto simp: conversation_ready_def)
  have i: "i < length (turns_of k cs)" "ct_run_id (turns_of k cs ! i) = ?r" using turn_index_Some [OF cs(4)] by auto
  let ?t = "finished_turn (turns_of k cs ! i) (rc_state (rt_context s)) (rc_output (rt_context s)) (clock_stream cs (clock_reads cs))"
  have t: "ct_run_id ?t = ?r" "ct_status ?t = rc_state (rt_context s)" using i by (simp_all add: finished_turn_def)
  have "?t \<in> set ((turns_of k cs)[i := ?t])" using i(1) by (simp add: set_update_memI)
  with t st Some cs show ?thesis
    by (auto simp: finish_conversation_def finish_turn_eq conversation_settled_def Let_def turns_of_def)
qed

definition checkpoint_settled :: "'w runtime \<Rightarrow> bool" where
  "checkpoint_settled s \<longleftrightarrow> (case dict_get (rt_checkpoints s) (rc_run_id (rt_context s)) of
     None \<Rightarrow> rc_state (rt_context s) \<noteq> Waiting
   | Some cp \<Rightarrow> rc_state (rt_context s) = Waiting \<and> restore cp = rt_context s)"

lemma settled_cong:
  assumes "rt_context s' = rt_context s"
  shows "rt_checkpoints s' = rt_checkpoints s \<Longrightarrow> checkpoint_settled s' = checkpoint_settled s"
    and "rt_conversations s' = rt_conversations s \<Longrightarrow> conversation_settled s' = conversation_settled s"
  unfolding checkpoint_settled_def conversation_settled_def assms by (auto split: option.split)

lemma checkpoint_stored:
  assumes s: "settled s0 s"
  shows "\<exists>s'. store_checkpoint s = (Inr (), s') \<and> s' = s\<lparr>rt_checkpoints := rt_checkpoints s'\<rparr> \<and> checkpoint_settled s'"
proof (cases "rc_state (rt_context s) = Waiting")
  case True
  with s obtain p where "rc_pending_input (rt_context s) = Some p" "0 \<le> rc_step_count (rt_context s)" "0 \<le> rc_tool_call_count (rt_context s)"
    by (auto simp: settled_def seg_def)
  with True show ?thesis
    by (simp add: store_checkpoint_def pbind_app save_checkpoint_def checkpoint_from_context_def construct_def valid_checkpoint_def
        checkpoint_settled_def restore_def Let_def)
next
  case False
  then show ?thesis by (simp add: store_checkpoint_def pbind_app delete_checkpoint_def checkpoint_settled_def dict_get_pop Let_def)
qed

text \<open>The plan of a run that ended early is closed.\<close>

definition plan_settled :: "runtime_context \<Rightarrow> bool" where
  "plan_settled c \<longleftrightarrow> (\<forall>p. rc_plan c = Some p \<longrightarrow> rc_state c \<in> {Failed, Cancelled, Interrupted, LimitReached} \<longrightarrow>
     pl_status p \<in> {PlanCompleted, PlanFailed, PlanCancelled})"

lemma announce_step_returns: "returns (announce_step srv pt p plan q)"
  unfolding announce_step_def by (auto intro!: returns_basic split: option.split)

lemma same_context_steps: "keeps same_context (peach (announce_step srv pt p plan) qs)"
  by (rule contexts.each) (auto simp: announce_step_def intro!: contexts.basic same_context_emit split: option.split)

lemma update_returns:
  assumes others: "keeps_runs (srv_others srv)" and s: "stored (rc_run_id (rt_context s)) s" and p: "rc_plan (rt_context s) = Some p"
    and plan: "pl_id plan = pl_id p" "pl_revision plan = pl_revision p + 1"
  shows "\<exists>s'. update_execution_plan srv pt plan False s = (Inr (), s') \<and> rt_context s' = (rt_context s)\<lparr>rc_plan := Some plan\<rparr>"
proof -
  let ?s = "s\<lparr>rt_context := (rt_context s)\<lparr>rc_plan := Some plan\<rparr>\<rparr>"
  have "stored (rc_run_id (rt_context ?s)) ?s" using s by (simp add: stored_def)
  from save_reflects [OF others this] obtain s1 where s1: "save_context_snapshot srv ?s = (Inr (), s1)" by blast
  have "returns (peach (announce_step srv pt p plan) (pl_steps plan))" by (rule returns_each [OF announce_step_returns])
  from returnsD [OF this, of s1] obtain s2 where s2: "peach (announce_step srv pt p plan) (pl_steps plan) s1 = (Inr (), s2)" by auto
  have "rt_context s2 = rt_context ?s" using keepsD [OF same_context_save s1] keepsD [OF same_context_steps s2] by simp
  with p plan s1 s2 show ?thesis by (simp add: update_execution_plan_def pbind_app on_context_def Let_def)
qed

lemma plan_settles:
  assumes others: "keeps_runs (srv_others srv)" and s: "settled s0 s"
  shows "\<exists>s'. settle_terminal_plan srv pc s = (Inr (), s') \<and> settled s0 s' \<and> rc_state (rt_context s') = rc_state (rt_context s) \<and>
    plan_settled (rt_context s')"
proof -
  let ?c = "rt_context s"
  have "\<exists>s'. settle_terminal_plan srv pc s = (Inr (), s') \<and> plan_settled (rt_context s')"
  proof (cases "\<exists>p. rc_plan ?c = Some p \<and> pl_status p \<notin> {PlanCompleted, PlanFailed, PlanCancelled} \<and> rc_state ?c \<in> {Failed, Cancelled, Interrupted, LimitReached}")
    case False
    then have "settle_terminal_plan srv pc s = (Inr (), s)" "plan_settled ?c"
      by (auto simp: settle_terminal_plan_def plan_settled_def pbind_app Let_def split: option.split)
    then show ?thesis by blast
  next
    case True
    then obtain p where p: "rc_plan ?c = Some p" "pl_status p \<notin> {PlanCompleted, PlanFailed, PlanCancelled}"
      "rc_state ?c \<in> {Failed, Cancelled, Interrupted, LimitReached}" by blast
    have st: "stored (rc_run_id ?c) s" and clear: "clear_text (rc_error ?c)" using s by (auto simp: settled_def seg_def)
    have ok: "\<not> blank (error_or ?c t)" if "\<not> blank t" for t using clear that by (auto simp: error_or_def clear_text_def split: option.split)
    obtain q where q: "(rc_state ?c = Cancelled \<and> cancel_plan p (error_or ?c ''run cancelled'') = Inr q) \<or>
        (rc_state ?c \<noteq> Cancelled \<and> fail_plan p (error_or ?c (''run ended with '' @ status_text (rc_state ?c))) = Inr q)"
      using ok [of "''run cancelled''"] ok [of "''run ended with '' @ status_text (rc_state ?c)"] by (auto simp: cancel_plan_def fail_plan_def)
    then have q': "pl_id q = pl_id p" "pl_revision q = pl_revision p + 1" "pl_status q \<in> {PlanFailed, PlanCancelled}"
      by (auto simp: cancel_plan_def fail_plan_def split: if_splits)
    from update_returns [OF others st p(1) q'(1,2), of "pc_texts pc"] obtain s' where
      s': "update_execution_plan srv (pc_texts pc) q False s = (Inr (), s')" "rt_context s' = ?c\<lparr>rc_plan := Some q\<rparr>" by blast
    have "settle_terminal_plan srv pc s = (Inr (), s')" using p q s'(1) by (auto simp: settle_terminal_plan_def pbind_app Let_def)
    with s'(2) q'(3) show ?thesis by (auto simp: plan_settled_def)
  qed
  then obtain s' where s': "settle_terminal_plan srv pc s = (Inr (), s')" "plan_settled (rt_context s')" by blast
  have "seg s0 s" using s by (simp add: settled_def)
  from steadyD [OF steady_settle_plan [OF others] this s'(1)] s have "settled s0 s'" "rc_state (rt_context s') = rc_state ?c"
    by (auto simp: settled_def view_def is_running_def seg_def)
  with s' show ?thesis by blast
qed

text \<open>What the stores hold once a segment has ended.\<close>

definition stores_settled :: "'w runtime \<Rightarrow> bool" where
  "stores_settled s \<longleftrightarrow> (\<exists>r. dict_get (rs_runs (rt_runs s)) (rc_run_id (rt_context s)) = Some r \<and> reflects (rt_context s) r) \<and>
     checkpoint_settled s \<and> conversation_settled s"

definition settle_hook :: "'w services \<Rightarrow> 'w strategy \<Rightarrow> bool" where
  "settle_hook srv sg \<longleftrightarrow> sg_settle sg = None \<or> (\<exists>pc. sg_settle sg = Some (settle_terminal_plan srv pc))"

lemma hook_settles:
  assumes others: "keeps_runs (srv_others srv)" and sg: "settle_hook srv sg" and s: "settled s0 s"
  shows "\<exists>s'. (case sg_settle sg of Some m \<Rightarrow> m | None \<Rightarrow> pret ()) s = (Inr (), s') \<and> settled s0 s' \<and>
    rc_state (rt_context s') = rc_state (rt_context s) \<and> (sg_settle sg \<noteq> None \<longrightarrow> plan_settled (rt_context s'))"
  using sg plan_settles [OF others s] s unfolding settle_hook_def by auto

lemma run_settled:
  assumes others: "keeps_runs (srv_others (xn_services x))" and s: "settled s0 s" and conv: "conversation_ready s"
  shows "\<exists>s' r t. settle_stores x s = (Inr r, s') \<and> rt_context s' = rt_context s \<and> stores_settled s' \<and>
    build_result (srv_codec (xn_services x)) (rt_context s) = Inr r \<and> terminal_event (rc_state (rt_context s)) = Some t \<and>
    run_log s' = run_log s @ [(t, final_data (srv_codec (xn_services x)) (rt_context s))]"
proof -
  let ?c = "rt_context s" and ?cd = "srv_codec (xn_services x)"
  have st: "rc_state ?c \<notin> {Created, Running}" using s by (auto simp: settled_def seg_def is_running_def)
  then obtain r where r: "build_result ?cd ?c = Inr r" by (cases "rc_state ?c") (auto simp: build_result_def)
  from st obtain t where t: "terminal_event (rc_state ?c) = Some t" by (cases "rc_state ?c") auto
  from checkpoint_stored [OF s] obtain s1 where s1: "store_checkpoint s = (Inr (), s1)" "s1 = s\<lparr>rt_checkpoints := rt_checkpoints s1\<rparr>" "checkpoint_settled s1"
    by blast
  have c1: "rt_context s1 = ?c" "rt_runs s1 = rt_runs s" "run_log s1 = run_log s" "rt_conversations s1 = rt_conversations s"
    by (subst s1(2), simp)+
  have "conversation_ready s1" using conv conversation_ready_cong [of s1 s] c1 by simp
  from conversation_finishes [OF this] st c1 obtain s2 where s2: "finish_conversation s1 = (Inr (), s2)"
    "s2 = s1\<lparr>rt_conversations := rt_conversations s2\<rparr>" "conversation_settled s2" by auto
  have c2: "rt_context s2 = ?c" "rt_runs s2 = rt_runs s" "run_log s2 = run_log s" "rt_checkpoints s2 = rt_checkpoints s1"
    by (subst s2(2), simp add: c1)+
  have "stored (rc_run_id (rt_context s2)) s2" using s c2 by (simp add: settled_def seg_def stored_def)
  from save_reflects [OF others this] c2 obtain s3 run where s3: "save_context_snapshot (xn_services x) s2 = (Inr (), s3)"
    "s3 = s2\<lparr>rt_runs := rt_runs s3, rt_turn := rt_turn s3\<rparr>" "dict_get (rs_runs (rt_runs s3)) (rc_run_id ?c) = Some run" "reflects ?c run" by auto
  have c3: "rt_context s3 = ?c" "run_log s3 = run_log s" "rt_checkpoints s3 = rt_checkpoints s1" "rt_conversations s3 = rt_conversations s2"
    by (subst s3(2), simp add: c2)+
  let ?s = "emitted t (final_data ?cd ?c) s3"
  have "finalize_run (xn_services x) s2 = (Inr (), ?s)" using s3(1) t c3 by (simp add: finalize_run_def pbind_app emit_event_eq)
  then have "settle_stores x s = (Inr r, ?s)" using r s1(1) s2(1) by (simp add: settle_stores_def pbind_app)
  moreover have "stores_settled ?s"
    using s1(3) s2(3) s3(3,4) c1 c2 c3 settled_cong(1) [of ?s s1] settled_cong(2) [of ?s s2] by (simp add: stores_settled_def)
  ultimately show ?thesis using r t c3 by (intro exI [of _ ?s] exI [of _ r] exI [of _ t]) simp
qed

text \<open>Everything after the \<open>try\<close> statement.\<close>

definition quiet_then :: "(event_type \<times> jobj) list \<Rightarrow> event_type \<Rightarrow> (event_type \<times> jobj) list \<Rightarrow> bool" where
  "quiet_then l t l' \<longleftrightarrow> (\<exists>es d. l' = l @ es @ [(t, d)] \<and> list_all (\<lambda>(t, d). t \<notin> set terminal_types) es)"

definition ended :: "'w execution \<Rightarrow> bool \<Rightarrow> 'w runtime \<Rightarrow> exn + agent_result \<Rightarrow> 'w runtime \<Rightarrow> bool" where
  "ended x planned s0 res s \<longleftrightarrow> stores_settled s \<and> (planned \<longrightarrow> plan_settled (rt_context s)) \<and> rc_run_id (rt_context s) = rc_run_id (rt_context s0) \<and>
     rc_profile (rt_context s) = rc_profile (rt_context s0) \<and> rc_conversation_id (rt_context s) = rc_conversation_id (rt_context s0) \<and>
     rc_step_count (rt_context s) \<le> step_limit s0 \<and> rc_tool_call_count (rt_context s) \<le> ap_max_tool_calls (rc_profile (rt_context s0)) \<and>
     (\<exists>t. terminal_event (rc_state (rt_context s)) = Some t \<and> quiet_then (run_log s0) t (run_log s)) \<and>
     (case res of Inr r \<Rightarrow> build_result (srv_codec (xn_services x)) (rt_context s) = Inr r
      | Inl e \<Rightarrow> e = CancelledError \<and> rc_state (rt_context s) \<noteq> Waiting)"

lemma segment_concludes:
  assumes others: "keeps_runs (srv_others (xn_services x))" and sg: "settle_hook (xn_services x) sg" and s: "seg s0 s"
    "rc_step_count (rt_context s) \<le> step_limit s0" and res: "\<forall>u. res = Inr u \<longrightarrow> \<not> is_running s" and conv: "conversation_ready s0"
  shows "\<exists>r s'. conclude x sg res s = (r, s') \<and> ended x (sg_settle sg \<noteq> None) s0 r s'"
proof -
  define err where "err = (case res of Inl e \<Rightarrow> Some e | Inr _ \<Rightarrow> None)"
  from outcome_settles [OF others s res] obtain s1 where s1: "absorb_outcome (xn_services x) res s = (Inr (), s1)" "settled s0 s1"
    "res = Inl CancelledError \<longrightarrow> rc_state (rt_context s1) \<noteq> Waiting" by blast
  from segment_closes [OF s1(2)] obtain s2 where s2: "close_segment x err s1 = (Inr (), s2)" "settled s0 s2"
    "rc_state (rt_context s2) = rc_state (rt_context s1)" by blast
  from hook_settles [OF others sg s2(2)] obtain s3 where s3: "(case sg_settle sg of Some m \<Rightarrow> m | None \<Rightarrow> pret ()) s2 = (Inr (), s3)" "settled s0 s3"
    "rc_state (rt_context s3) = rc_state (rt_context s2)" "sg_settle sg \<noteq> None \<longrightarrow> plan_settled (rt_context s3)" by blast
  have seg: "seg s0 s3" using s3(2) by (simp add: settled_def)
  then have "conversation_ready s3" using conv conversation_ready_cong [of s3 s0] by (simp add: seg_def)
  from run_settled [OF others s3(2) this] obtain s4 r t where s4: "settle_stores x s3 = (Inr r, s4)" "rt_context s4 = rt_context s3" "stores_settled s4"
    "build_result (srv_codec (xn_services x)) (rt_context s3) = Inr r" "terminal_event (rc_state (rt_context s3)) = Some t"
    "run_log s4 = run_log s3 @ [(t, final_data (srv_codec (xn_services x)) (rt_context s3))]" by blast
  have "quiet_log (run_log s0) (run_log s3)" using seg by (simp add: seg_def)
  with s4(6) have q: "quiet_then (run_log s0) t (run_log s4)" by (auto simp: quiet_log_def quiet_then_def)
  have "settle_run x sg s2 = (Inr r, s4)" using s3(1) s4(1) by (simp add: settle_run_def pbind_app)
  then have c: "conclude x sg res s = (if err = Some CancelledError then Inl CancelledError else Inr r, s4)"
    using s1(1) s2(1) by (simp add: conclude_def ptry_app pbind_app err_def Let_def)
  have e: "err = Some CancelledError \<longleftrightarrow> res = Inl CancelledError" by (simp add: err_def split: sum.split)
  have "ended x (sg_settle sg \<noteq> None) s0 (if err = Some CancelledError then Inl CancelledError else Inr r) s4"
    using s4(2-5) s3(2-4) s2(3) s1(3) seg q e by (auto simp: ended_def seg_def settled_def)
  with c show ?thesis by blast
qed

subsection \<open>An execution\<close>

context bounded_strategy
begin

lemma segment_ends:
  assumes good: "good_services sha my (xn_services x)" and srv: "srv = xn_services x" and sg: "sg_advance sg = adv" and s: "live s1 n b s1"
    and n: "n \<le> step_limit s1" and fuel: "2 * nat (step_limit s1 - n) + 3 < fuel"
  shows "\<exists>res s2. run_segment x sg fuel s1 = Some (res, s2) \<and> seg s1 s2 \<and> rc_step_count (rt_context s2) \<le> step_limit s1 \<and>
    (\<forall>u. res = Inr u \<longrightarrow> \<not> is_running s2)"
proof -
  let ?m = "pthen (start_scope (srv_codec (xn_services x))) (initialize_memories (srv_codec (xn_services x)) (xn_memories x))"
  have lead: "leads (live s1 n b) ?m (\<lambda>_. at_step s1 n) (\<lambda>_. live s1 n b)"
    by (rule steady_live [OF steady_bind [OF steady_start steady_initialize]])
  obtain r s' where r: "?m s1 = (r, s')" by (cases "?m s1")
  show ?thesis
  proof (cases r)
    case (Inl e)
    with leadsD(1) [OF lead s] r have "at_step s1 n s'" by blast
    with Inl r n show ?thesis by (auto simp: run_segment_def at_step_def)
  next
    case (Inr y)
    with leadsD(2) [OF lead s] r have at: "at_step s1 n s'" using live_at by blast
    then have "turns_left s1 s' < fuel" using fuel by (simp add: turns_left_def at_step_def)
    from loop_ends [OF good [folded srv] sg at n this] obtain q s2 m where
      "run_loop fuel srv sg s' = Some (q, s2)" "at_step s1 m s2" "m \<le> step_limit s1" "\<forall>u. q = Inr u \<longrightarrow> rc_state (rt_context s2) \<noteq> Running" by auto
    with Inr r srv show ?thesis by (auto simp: run_segment_def at_step_def is_running_def)
  qed
qed

end

text \<open>The strategies of the library.\<close>

definition reference_strategy :: "'w services \<Rightarrow> 'w strategy \<Rightarrow> bool" where
  "reference_strategy srv sg \<longleftrightarrow> sg_settle sg = None \<and> sg_advance sg = model_tool_advance srv \<or>
     sg_settle sg = None \<and> (\<exists>k. sg_advance sg = react_advance srv k) \<or>
     (\<exists>pc. sg_settle sg = Some (settle_terminal_plan srv pc) \<and> sg_advance sg = planning_advance srv pc)"

lemma execute_ends:
  assumes fit: "fit sha x s" and sg: "reference_strategy (xn_services x) (active_strategy (xn_runtime x) (rt_context s))"
    and conv: "conversation_ready s" and started: "begin_segment x s = (Inr u, s1)"
    and fuel: "2 * nat (step_limit s - rc_step_count (rt_context s)) + 3 < fuel"
  shows "\<exists>res s'. execute_run x fuel s = Some (res, s') \<and> ended x (sg_settle (active_strategy (xn_runtime x) (rt_context s)) \<noteq> None) s res s'"
proof -
  let ?sg = "active_strategy (xn_runtime x) (rt_context s)" and ?n = "rc_step_count (rt_context s)"
  have good: "good_services sha (xn_memories x) (xn_services x)" using fit by (simp add: fit_def)
  then have others: "keeps_runs (srv_others (xn_services x))" by (rule good_servicesD)
  from segment_begins [OF fit started] have live: "live s1 ?n (suspended s) s1" and f: "follows (s\<lparr>rt_scope := rt_scope s1\<rparr>) s1" by auto
  have lim: "step_limit s1 = step_limit s" using f by (simp add: follows_def)
  have n: "?n \<le> step_limit s1" "2 * nat (step_limit s1 - ?n) + 3 < fuel" using fit fuel lim by (simp_all add: fit_def)
  have "\<exists>res s2. run_segment x ?sg fuel s1 = Some (res, s2) \<and> seg s1 s2 \<and> rc_step_count (rt_context s2) \<le> step_limit s1 \<and>
    (\<forall>u. res = Inr u \<longrightarrow> \<not> is_running s2)"
    using sg model_tool_strategy.segment_ends [OF good refl _ live n] react_strategy.segment_ends [OF good refl _ live n]
      planning_strategy.segment_ends [OF good refl _ live n] unfolding reference_strategy_def by blast
  then obtain res s2 where s2: "run_segment x ?sg fuel s1 = Some (res, s2)" "seg s1 s2" "rc_step_count (rt_context s2) \<le> step_limit s1"
    "\<forall>u. res = Inr u \<longrightarrow> \<not> is_running s2" by blast
  have "conversation_ready s1" using conv f by (simp add: conversation_ready_def follows_def split: option.splits)
  moreover have "settle_hook (xn_services x) ?sg" using sg by (auto simp: reference_strategy_def settle_hook_def)
  ultimately obtain r s' where r: "conclude x ?sg res s2 = (r, s')" "ended x (sg_settle ?sg \<noteq> None) s1 r s'"
    using segment_concludes [OF others _ s2(2-4), of ?sg] by blast
  have "quiet_log (run_log s) (run_log s1)" using f by (simp add: follows_def)
  then have "quiet_then (run_log s) t (run_log s')" if "quiet_then (run_log s1) t (run_log s')" for t
    using that by (auto simp: quiet_log_def quiet_then_def)
  with r(2) f have "ended x (sg_settle ?sg \<noteq> None) s r s'" by (auto simp: ended_def follows_def)
  with started s2(1) r(1) show ?thesis by (simp add: execute_run_def)
qed

subsection \<open>A new run starts\<close>

lemma announce_returns: "returns (announce_created srv)"
  unfolding announce_created_def by (auto simp: Let_def intro!: returns_bind returns_basic returns_each split: option.split)

text \<open>Nobody else stores a run under an id that is not taken.\<close>

definition creates_none :: "(nat \<Rightarrow> run_store \<Rightarrow> run_store) \<Rightarrow> bool" where
  "creates_none others \<longleftrightarrow> (\<forall>n rs k. dict_get (rs_runs rs) k = None \<longrightarrow> dict_get (rs_runs (others n rs)) k = None)"

definition startable :: "'w execution \<Rightarrow> 'w runtime \<Rightarrow> bool" where
  "startable x s \<longleftrightarrow> rc_state (rt_context s) = Created \<and> creates_none (srv_others (xn_services x)) \<and>
     dict_get (rs_runs (rt_runs s)) (rc_run_id (rt_context s)) = None \<and> valid_run (new_run (rt_context s) 0 0) \<and>
     distinct (map sp_name (xn_resources x)) \<and> \<not> isl (make_memory_manager (xn_memories x))"

text \<open>Once a new run is stored, its segment starts.\<close>

lemma stored_run_enters:
  assumes others: "keeps_runs (srv_others (xn_services x))" and st: "rc_state (rt_context s) = Created"
    and s1: "store_new_run (xn_services x) s = (Inr (), s1)"
  shows "\<exists>s'. enter_segment x s = (Inr (), s')"
proof -
  let ?srv = "xn_services x"
  have c1: "rt_context s1 = rt_context s" "stored (rc_run_id (rt_context s)) s1"
    using s1 new_run_stored [OF others s1] keepsD [OF same_context_runs] by (auto simp: store_new_run_def pbind_app)
  obtain s2 where s2: "announce_created ?srv s1 = (Inr (), s2)" using returnsD [OF announce_returns, of ?srv s1] by auto
  have c2: "rt_context s2 = rt_context s" "stored (rc_run_id (rt_context s)) s2"
    using keepsD [OF same_context_created s2] keepsD [OF following_created s2] c1 by (auto simp: follows_def)
  let ?s3 = "s2\<lparr>rt_context := (rt_context s2)\<lparr>rc_state := Running, rc_provider_name := Some (srv_provider ?srv)\<rparr>\<rparr>"
  have "stored (rc_run_id (rt_context ?s3)) ?s3" using c2 by (simp add: stored_def)
  from save_reflects [OF others this] obtain s4 where s4: "save_context_snapshot ?srv ?s3 = (Inr (), s4)" by blast
  have "enter_segment x s = (Inr (), emitted RUN_STARTED [(''provider'', JStr (srv_provider ?srv))] s4)"
    using st s1 s2 c2 s4
    by (simp add: enter_segment_def pbind_app create_stored_run_def enter_state_eq transition_to_def announce_start_def on_context_def emit_event_eq)
  then show ?thesis by blast
qed

lemma new_run_begins:
  assumes fit: "fit sha x s" and ok: "startable x s"
  shows "\<exists>s1. begin_segment x s = (Inr (), s1)"
proof -
  let ?srv = "xn_services x"
  have others: "keeps_runs (srv_others ?srv)" using fit by (simp add: fit_def good_services_def)
  obtain sc where sc: "make_scope (xn_resources x) = Inr sc" using ok by (simp add: startable_def make_scope_def)
  obtain m where m: "make_memory_manager (xn_memories x) = Inr m" using ok by (cases "make_memory_manager (xn_memories x)") (auto simp: startable_def)
  let ?s = "s\<lparr>rt_scope := sc\<rparr>"
  have v: "valid_run (new_run (rt_context s) t1 t2)" for t1 t2 using ok by (simp add: startable_def valid_run_def new_run_def)
  have "dict_get (rs_runs (srv_others ?srv (rt_turn s) (rt_runs s))) (rc_run_id (rt_context s)) = None"
    using ok by (simp add: startable_def creates_none_def)
  with v obtain s1 where s1: "store_new_run ?srv ?s = (Inr (), s1)"
    by (simp add: store_new_run_def on_runs_def pbind_app utc_now_def create_run_def construct_def) (simp add: new_run_def)
  obtain s2 where "enter_segment x ?s = (Inr (), s2)" using stored_run_enters [OF others _ s1] ok by (auto simp: startable_def)
  with sc m show ?thesis by (simp add: begin_segment_def pbind_app)
qed

subsection \<open>Properties\<close>

text \<open>The example: a run of a conversation, a model that answers at once, a tool that counts, one resource.\<close>

definition ex_context_request :: context_request where
  "ex_context_request = \<lparr>cq_run_id = Some 9, cq_conversation_id = Some 1, cq_turn_sequence = Some 1, cq_history = [], cq_skills = [],
     cq_enabled_tools = Some [''mail''], cq_plan = None, cq_planning_requested = False, cq_attachments = [], cq_metadata = []\<rparr>"

definition ex_wire :: wire where
  "ex_wire = \<lparr>wr_request = (\<lambda>_. []), wr_response = (\<lambda>_. JNull), wr_decision = (\<lambda>_. []), wr_confirmation = (\<lambda>_. JNull), wr_text = trs_tool_name,
     wr_isoformat = (\<lambda>_. []), wr_parse_call = (\<lambda>_. Inl KeyError), wr_parse_response = (\<lambda>_. Inl KeyError), wr_parse_result = (\<lambda>_. Inl KeyError),
     wr_parse_confirmation = (\<lambda>_. Inl KeyError), wr_parse_request = (\<lambda>_. Inl KeyError), wr_parse_text = (\<lambda>_. Inl KeyError),
     wr_uuid = (\<lambda>_. None), wr_identity = tc_id, wr_uuid5 = length, wr_float_size = (\<lambda>_. 1), wr_loads = (\<lambda>_. Inl KeyError),
     wr_parse_react = (\<lambda>_. Inl KeyError)\<rparr>"

definition ex_counter :: "nat runtime tool" where
  "ex_counter = \<lparr>tl_definition = tl_definition ex_tool, tl_permissions = {}, tl_timeout = 30, tl_validate = None, tl_mode = Some ModeUnsafe,
     tl_confirmation = None, tl_invoke = (\<lambda>args s. (Inr (Returned JNull), s\<lparr>rt_world := rt_world s + 1\<rparr>)), tl_invoke_with_context = None\<rparr>"

definition ex_services :: "nat services" where
  "ex_services = \<lparr>srv_provider = ''fake'', srv_complete = (\<lambda>rq w. (Inr \<lparr>mr_content = Some ''hi'', mr_tool_calls = [],
       mr_finish_reason = None, mr_usage = no_usage, mr_metadata = []\<rparr>, w + 1)), srv_registry = Some [(''mail'', ex_counter)], srv_executor = None,
     srv_supervisor = default_supervisor (\<lambda>_. []), srv_others = (\<lambda>_ rs. rs), srv_codec = ex_codec, srv_wire = ex_wire\<rparr>"

definition ex_execution :: "nat execution" where
  "ex_execution = \<lparr>xn_services = ex_services, xn_runtime = \<lparr>ar_strategy = \<lparr>sg_advance = model_tool_advance ex_services, sg_settle = None\<rparr>,
       ar_planning = None\<rparr>, xn_resources = [ex_spec ''a''], xn_memories = ex_memories, xn_resume_input = None, xn_confirmation = None\<rparr>"

definition ex_start :: "nat runtime" where
  "ex_start = ex_segment\<lparr>rt_context := (case create_context 0 ex_profile ''hello'' ex_context_request of Inr c \<Rightarrow> c | Inl _ \<Rightarrow> ex_runtime),
     rt_conversations := Some ex_c2\<rparr>"

lemma ex_start_context: "rc_state (rt_context ex_start) = Created" "rc_run_id (rt_context ex_start) = 9" "rc_step_count (rt_context ex_start) = 0"
  "rc_tool_call_count (rt_context ex_start) = 0" "rc_profile (rt_context ex_start) = ex_profile" "rc_conversation_id (rt_context ex_start) = Some 1"
  "rc_turn_sequence (rt_context ex_start) = Some 1" "rt_conversations ex_start = Some ex_c2" "rt_runs ex_start = ex_runs"
  "rc_error (rt_context ex_start) = None"
proof -
  have "\<not> blank ''hello''" by code_simp
  then show "rc_state (rt_context ex_start) = Created" "rc_run_id (rt_context ex_start) = 9" "rc_step_count (rt_context ex_start) = 0"
    "rc_tool_call_count (rt_context ex_start) = 0" "rc_profile (rt_context ex_start) = ex_profile" "rc_conversation_id (rt_context ex_start) = Some 1"
    "rc_turn_sequence (rt_context ex_start) = Some 1" "rt_conversations ex_start = Some ex_c2" "rt_runs ex_start = ex_runs"
    "rc_error (rt_context ex_start) = None"
    by (simp_all add: ex_start_def create_context_def ex_context_request_def unique_ids_def ex_segment_def)
qed

lemma ex_reference: "reference_strategy (xn_services ex_execution) (active_strategy (xn_runtime ex_execution) (rt_context s))"
  by (simp add: reference_strategy_def active_strategy_def ex_execution_def)

lemma ex_well_behaved: "well_behaved cd sha my (executor_of ex_services)"
  unfolding well_behaved_def
  by (auto simp: executor_of_def ex_services_def run_transport_def ex_counter_def intro!: r_into_rtranclp act_world split: option.split if_splits)

lemma ex_fit: "fit ex_sha ex_execution ex_start"
proof -
  have "good_services ex_sha ex_memories ex_services"
    using default_supervisor_bounded ex_well_behaved by (simp add: good_services_def keeps_runs_def ex_services_def)
  moreover have "calm_resources [ex_spec ''a'']" by (simp add: calm_resources_def ex_spec_def ex_manager_def settles_def)
  ultimately show ?thesis by (simp add: fit_def ex_execution_def ex_start_context ex_profile_def)
qed

lemma ex_startable: "startable ex_execution ex_start"
  by (simp add: startable_def ex_start_context creates_none_def ex_execution_def ex_services_def ex_runs_def create_run_def ex_run_def
      make_memory_manager_def ex_memories_def valid_run_def new_run_def valid_usage_def no_usage_def)

lemma ex_conversation_ready: "conversation_ready ex_start"
proof -
  have "map_option cv_active_run_id (dict_get (cs_conversations ex_c2) 1) = Some (Some 9)" "turn_index 9 (turns_of 1 ex_c2) = Some 0" by code_simp+
  then show ?thesis by (auto simp: conversation_ready_def ex_start_context)
qed

text \<open>
  C27. A new run is always settled: for every model, tool and supervisor that meets the contract, and whatever
  other tasks do to the stored runs, \<open>AgentRuntime.execute\<close> ends within its step budget with the run stored
  in its final state, exactly one final event after everything else the run logged, and a result of that
  status (or the cancellation raised again, and then the run is not left waiting).
\<close>

theorem new_run_settles:
  assumes "fit sha x s" "startable x s" "conversation_ready s"
    and "reference_strategy (xn_services x) (active_strategy (xn_runtime x) (rt_context s))"
    and "2 * nat (ap_max_steps (rc_profile (rt_context s)) - rc_step_count (rt_context s)) + 3 < fuel"
  shows "\<exists>res s' r t. execute_run x fuel s = Some (res, s') \<and> dict_get (rs_runs (rt_runs s')) (rc_run_id (rt_context s)) = Some r \<and>
    reflects (rt_context s') r \<and> terminal_event (rn_status r) = Some t \<and> quiet_then (run_log s) t (run_log s') \<and>
    (case res of Inr a \<Rightarrow> run_to_result_status (rn_status r) = Some (ag_status a) | Inl e \<Rightarrow> e = CancelledError \<and> rn_status r \<noteq> Waiting)"
proof -
  from new_run_begins [OF assms(1,2)] obtain s1 where "begin_segment x s = (Inr (), s1)" by blast
  from execute_ends [OF assms(1,4,3) this assms(5)] obtain res s' p where e: "execute_run x fuel s = Some (res, s')" "ended x p s res s'" by blast
  then obtain r where "dict_get (rs_runs (rt_runs s')) (rc_run_id (rt_context s)) = Some r" "reflects (rt_context s') r"
    by (auto simp: ended_def stores_settled_def)
  with e show ?thesis by (auto simp: ended_def reflects_def build_result_def split: sum.splits option.splits)
qed

theorem new_run_settles_witness:
  "\<exists>res s' r t. execute_run ex_execution 24 ex_start = Some (res, s') \<and> dict_get (rs_runs (rt_runs s')) 9 = Some r \<and>
     terminal_event (rn_status r) = Some t \<and> quiet_then [] t (run_log s')"
proof -
  have "run_log ex_start = []" by (simp add: run_log_def log_of_def ex_start_def ex_segment_def empty_events_def)
  with new_run_settles [OF ex_fit ex_startable ex_conversation_ready ex_reference, of 24] show ?thesis
    by (auto simp: ex_start_context ex_profile_def)
qed

text \<open>
  C28. Budgets: when a segment ends, started or resumed, its run has used at most the steps and tool calls of
  its profile, in the stored run as well.
\<close>

theorem segment_within_budget:
  assumes "fit sha x s" "begin_segment x s = (Inr u, s1)" "conversation_ready s"
    and "reference_strategy (xn_services x) (active_strategy (xn_runtime x) (rt_context s))"
    and "2 * nat (ap_max_steps (rc_profile (rt_context s)) - rc_step_count (rt_context s)) + 3 < fuel"
  shows "\<exists>res s' r. execute_run x fuel s = Some (res, s') \<and> dict_get (rs_runs (rt_runs s')) (rc_run_id (rt_context s)) = Some r \<and>
    rn_step_count r \<le> ap_max_steps (rc_profile (rt_context s)) \<and> rn_tool_call_count r \<le> ap_max_tool_calls (rc_profile (rt_context s))"
  using execute_ends [OF assms(1,4,3,2,5)] by (auto simp: ended_def stores_settled_def reflects_def)

lemma ex_begins: "\<exists>s1. begin_segment ex_execution ex_start = (Inr (), s1)"
  by (rule new_run_begins [OF ex_fit ex_startable])

theorem segment_within_budget_witness:
  "\<exists>res s' r. execute_run ex_execution 24 ex_start = Some (res, s') \<and> dict_get (rs_runs (rt_runs s')) 9 = Some r \<and>
     rn_step_count r \<le> 10 \<and> rn_tool_call_count r \<le> 50"
proof -
  from ex_begins obtain s1 where "begin_segment ex_execution ex_start = (Inr (), s1)" by blast
  from segment_within_budget [OF ex_fit this ex_conversation_ready ex_reference, of 24] show ?thesis
    by (simp add: ex_start_context ex_profile_def)
qed

text \<open>
  C29. Round trip of suspension through a whole segment: after it, the checkpoint store has a checkpoint of
  the run exactly when the run waits, and restoring it gives back the context the segment ended with.
\<close>

theorem segment_checkpoint_exact:
  assumes "fit sha x s" "begin_segment x s = (Inr u, s1)" "conversation_ready s"
    and "reference_strategy (xn_services x) (active_strategy (xn_runtime x) (rt_context s))"
    and "2 * nat (ap_max_steps (rc_profile (rt_context s)) - rc_step_count (rt_context s)) + 3 < fuel"
  shows "\<exists>res s'. execute_run x fuel s = Some (res, s') \<and>
    (case dict_get (rt_checkpoints s') (rc_run_id (rt_context s)) of None \<Rightarrow> rc_state (rt_context s') \<noteq> Waiting
     | Some cp \<Rightarrow> rc_state (rt_context s') = Waiting \<and> restore cp = rt_context s')"
  using execute_ends [OF assms(1,4,3,2,5)] by (auto simp: ended_def stores_settled_def checkpoint_settled_def)

theorem segment_checkpoint_exact_witness:
  "\<exists>res s'. execute_run ex_execution 24 ex_start = Some (res, s') \<and>
    (case dict_get (rt_checkpoints s') 9 of None \<Rightarrow> rc_state (rt_context s') \<noteq> Waiting
     | Some cp \<Rightarrow> rc_state (rt_context s') = Waiting \<and> restore cp = rt_context s')"
proof -
  from ex_begins obtain s1 where "begin_segment ex_execution ex_start = (Inr (), s1)" by blast
  from segment_checkpoint_exact [OF ex_fit this ex_conversation_ready ex_reference, of 24] show ?thesis
    by (simp add: ex_start_context ex_profile_def)
qed

text \<open>
  The conversation follows its run: when a segment of a conversation's active run ends, the run's turn
  has the run's final status, and the conversation is free for the next run unless this one waits.
\<close>

theorem segment_releases_conversation:
  assumes "fit sha x s" "begin_segment x s = (Inr u, s1)" "conversation_ready s"
    and "reference_strategy (xn_services x) (active_strategy (xn_runtime x) (rt_context s))"
    and "2 * nat (ap_max_steps (rc_profile (rt_context s)) - rc_step_count (rt_context s)) + 3 < fuel"
    and "rc_conversation_id (rt_context s) = Some k"
  shows "\<exists>res s' cs cv t. execute_run x fuel s = Some (res, s') \<and> rt_conversations s' = Some cs \<and> dict_get (cs_conversations cs) k = Some cv \<and>
    cv_active_run_id cv = (if rc_state (rt_context s') = Waiting then Some (rc_run_id (rt_context s)) else None) \<and>
    t \<in> set (turns_of k cs) \<and> ct_run_id t = rc_run_id (rt_context s) \<and> ct_status t = rc_state (rt_context s')"
proof -
  from execute_ends [OF assms(1,4,3,2,5)] obtain res s' p where "execute_run x fuel s = Some (res, s')" "ended x p s res s'" by blast
  moreover from this(2) assms(6) have "conversation_settled s'" "rc_conversation_id (rt_context s') = Some k"
    "rc_run_id (rt_context s') = rc_run_id (rt_context s)" by (simp_all add: ended_def stores_settled_def)
  ultimately show ?thesis unfolding conversation_settled_def by fastforce
qed

theorem segment_releases_conversation_witness:
  "\<exists>res s' cs cv t. execute_run ex_execution 24 ex_start = Some (res, s') \<and> rt_conversations s' = Some cs \<and> dict_get (cs_conversations cs) 1 = Some cv \<and>
    cv_active_run_id cv = (if rc_state (rt_context s') = Waiting then Some 9 else None) \<and> t \<in> set (turns_of 1 cs) \<and> ct_run_id t = 9 \<and> ct_status t = rc_state (rt_context s')"
proof -
  from ex_begins obtain s1 where "begin_segment ex_execution ex_start = (Inr (), s1)" by blast
  from segment_releases_conversation [OF ex_fit this ex_conversation_ready ex_reference, of 24 1] show ?thesis
    by (simp add: ex_start_context ex_profile_def cong: if_cong)
qed

end
