(* ===== verification/Plan_History.thy ===== *)
theory Plan_History
  imports Settlement
begin

text \<open>
  The plan of a run through a whole segment. Whatever the model answers, the plan a run carries stays
  well formed and respects its dependencies, keeps its identity, and never loses or changes a settled step.
\<close>

subsection \<open>Programs that leave the plan alone\<close>

abbreviation same_plan :: "'w runtime \<Rightarrow> 'w runtime \<Rightarrow> bool" where
  "same_plan s s' \<equiv> rc_plan (rt_context s') = rc_plan (rt_context s) \<and>
     dict_get (rc_supervision (rt_context s')) plan_key = dict_get (rc_supervision (rt_context s)) plan_key"

interpretation plans: kept_relation same_plan
  by unfold_locales simp_all

named_theorems planless \<open>programs that leave the plan alone\<close>

lemmas [planless] = plans.basic plans.bind plans.each

lemma planless_context: "keeps same_context m \<Longrightarrow> keeps same_plan m"
  by (simp add: keeps_def)

lemmas [planless] = planless_context [OF same_context_emit] planless_context [OF same_context_runs] planless_context [OF same_context_save]

definition other_change :: "runtime_context \<Rightarrow> runtime_context \<Rightarrow> bool" where
  "other_change c c' \<longleftrightarrow> rc_plan c' = rc_plan c \<and> dict_get (rc_supervision c') plan_key = dict_get (rc_supervision c) plan_key"

lemma planless_on_context: "(\<And>c. other_change c (snd (h c))) \<Longrightarrow> keeps same_plan (on_context h)"
  by (simp add: keeps_def on_context_def other_change_def split: prod.split) (metis snd_conv)

lemma planless_set [planless]: "(\<And>c. rc_plan (f c) = rc_plan c \<and> dict_get (rc_supervision (f c)) plan_key = dict_get (rc_supervision c) plan_key) \<Longrightarrow>
   keeps same_plan (set_context f)"
  by (rule planless_on_context) (simp add: other_change_def)

lemma planless_try [planless]: "keeps same_plan m \<Longrightarrow> (\<And>r. keeps same_plan (h r)) \<Longrightarrow> keeps same_plan (ptry m h)"
  by (simp add: keeps_def ptry_app split: prod.split) (metis snd_conv)

lemma planless_put [planless]: "(\<And>s. same_plan s (f s)) \<Longrightarrow> keeps same_plan (pput f)"
  by (simp add: keeps_def)

lemma planless_world [planless]: "keeps same_plan (on_world m)" and planless_content [planless]: "keeps same_plan (on_content n)"
  by (simp_all add: keeps_def on_world_def on_content_def split: prod.split)

lemma planless_enter [planless]: "keeps same_plan (enter_state st)"
  unfolding enter_state_def by (rule planless_on_context) (simp add: pbind_app other_change_def split: sum.split)

lemma planless_hook: "quiet_hook h \<Longrightarrow> keeps same_plan (on_context h)"
proof (rule planless_on_context)
  fix c assume "quiet_hook h"
  then have o: "own_data c (snd (h c))" by (simp add: quiet_hook_def)
  then obtain d where "snd (h c) = c\<lparr>rc_supervision := d\<rparr>" unfolding own_data_def by blast
  then have "rc_plan (snd (h c)) = rc_plan c" by simp
  with own_dataD [OF o] show "other_change c (snd (h c))" by (simp add: other_change_def)
qed

lemma planless_resource [planless]: "keeps same_plan (get_resource cd name expected)"
  unfolding get_resource_def acquire_resource_def emit_failure_def
  by (auto simp: Let_def intro!: planless split: option.split sum.split)

lemma planless_artifact [planless]: "keeps same_plan (create_run_artifact cd sha name media payload metadata)"
  unfolding create_run_artifact_def by (auto simp: Let_def intro!: planless)

lemma planless_search [planless]: "keeps same_plan (search_memories cd my q)"
  unfolding search_memories_def by (auto simp: Let_def intro!: planless split: option.split sum.split)

lemma tool_action_plan: "(tool_action cd sha my)\<^sup>*\<^sup>* s s' \<Longrightarrow> same_plan s s'"
proof (induction rule: rtranclp_induct)
  case (step s1 s2)
  from step(2) have "same_plan s1 s2"
    by cases (auto dest: keepsD [OF planless_resource] keepsD [OF planless_artifact] keepsD [OF planless_search])
  with step(3) show ?case by simp
qed simp

lemma planless_tool: "well_behaved cd sha my (executor_of srv) \<Longrightarrow> keeps same_plan (call_tool srv call confirmation)"
  unfolding keeps_def
  by (auto simp: call_tool_def Let_def dest!: execute_tool_actions tool_action_plan split: option.split)

lemma planless_decision [planless]: "keeps same_plan (apply_decision srv am d)"
  unfolding keeps_def
  by (auto simp: apply_decision_eq after_decision_def Let_def emitted_def split: option.split sum.split)

lemma planless_cancel [planless]: "keeps same_plan (cancel_if_requested srv)"
  unfolding cancel_if_requested_def by (auto intro!: planless)

lemma planless_answers [planless]: "keeps same_plan (fail_execution t)" "keeps same_plan (complete_response t)" "keeps same_plan (append_tool_message srv call r)"
  unfolding fail_execution_def complete_response_def append_tool_message_def by (auto intro!: planless)

lemma planless_block [planless]: "keeps same_plan (block_call srv call d)"
  unfolding block_call_def by (auto intro!: planless split: option.split)

lemma planless_admit: "bounded_supervisor (srv_supervisor srv) \<Longrightarrow> keeps same_plan (admit_call srv call)"
  unfolding admit_call_def bounded_supervisor_def by (auto simp: Let_def intro!: planless planless_hook)

lemma planless_observe: "bounded_supervisor (srv_supervisor srv) \<Longrightarrow> keeps same_plan (observe_result srv call r)"
  unfolding observe_result_def bounded_supervisor_def by (auto simp: Let_def intro!: planless planless_hook)

lemma planless_accept [planless]: "keeps same_plan (accept_response srv r)"
  unfolding accept_response_def by (auto intro!: planless)

subsection \<open>A turn\<close>

text \<open>Programs that, as long as they find the invariant \<open>I\<close>, keep a relation, and the invariant unless they raise.\<close>

definition guarded :: "('s \<Rightarrow> 's \<Rightarrow> bool) \<Rightarrow> ('s \<Rightarrow> bool) \<Rightarrow> ('s, 'e, 'a) prog \<Rightarrow> bool" where
  "guarded R I m \<longleftrightarrow> (\<forall>s. I s \<longrightarrow> R s (snd (m s)) \<and> (\<forall>x. fst (m s) = Inr x \<longrightarrow> I (snd (m s))))"

lemma guardedD: "guarded R I m \<Longrightarrow> I s \<Longrightarrow> m s = (r, s') \<Longrightarrow> R s s' \<and> (r = Inr x \<longrightarrow> I s')"
  by (metis fst_conv guarded_def snd_conv)

locale plan_relation = kept_relation R for R :: "'w runtime \<Rightarrow> 'w runtime \<Rightarrow> bool" +
  fixes I :: "'w runtime \<Rightarrow> bool"
  assumes same_plan_related: "same_plan s s' \<Longrightarrow> R s s'" and same_plan_inv: "same_plan s s' \<Longrightarrow> I s \<Longrightarrow> I s'"
begin

lemma planless_guarded: "keeps same_plan m \<Longrightarrow> guarded R I m"
  unfolding keeps_def guarded_def by (blast intro: same_plan_related same_plan_inv)

lemma guarded_basic: "guarded R I (pret x)" "guarded R I (praise e)" "guarded R I (plift r)" "guarded R I pget"
  by (simp_all add: guarded_def R_refl)

lemma guarded_bind:
  assumes m: "guarded R I m" and f: "\<And>x. guarded R I (f x)"
  shows "guarded R I (pbind m f)"
  unfolding guarded_def
proof (intro allI impI)
  fix s assume s: "I s"
  obtain r s1 where r: "m s = (r, s1)" by (cases "m s")
  show "R s (snd (pbind m f s)) \<and> (\<forall>x. fst (pbind m f s) = Inr x \<longrightarrow> I (snd (pbind m f s)))"
  proof (cases r)
    case (Inr x)
    from guardedD [OF m s r, of x] Inr have s1: "R s s1" "I s1" by auto
    have "pbind m f s = f x s1" using r Inr by (simp add: pbind_app)
    with f s1 R_trans [OF s1(1)] show ?thesis by (simp add: guarded_def)
  qed (use r guardedD [OF m s r] in \<open>simp add: pbind_app\<close>)
qed

lemma guarded_try:
  assumes m: "keeps same_plan m" and h: "\<And>r. guarded R I (h r)"
  shows "guarded R I (ptry m h)"
  unfolding guarded_def
proof (intro allI impI)
  fix s assume s: "I s"
  obtain r s1 where r: "m s = (r, s1)" by (cases "m s")
  from keepsD [OF m r] have s1: "R s s1" "I s1" using same_plan_related same_plan_inv s by blast+
  have "ptry m h s = h r s1" using r by (simp add: ptry_app)
  with h s1 R_trans [OF s1(1)] show "R s (snd (ptry m h s)) \<and> (\<forall>x. fst (ptry m h s) = Inr x \<longrightarrow> I (snd (ptry m h s)))" by (simp add: guarded_def)
qed

end

locale plan_turn = plan_relation +
  fixes srv :: "'w services" and hk :: "'w hooks"
  assumes before_keeps: "guarded R I (hk_before hk)" and actions_keep: "guarded R I (hk_actions hk calls)"
    and observed_keeps: "guarded R I (hk_observed hk os)" and completed_keeps: "guarded R I (hk_completed hk r b)"
    and wait_keeps: "guarded R I (hk_wait hk)" and complete_keeps: "guarded R I (hk_complete hk t)" and fail_keeps: "guarded R I (hk_fail hk t)"
begin

lemmas turn_rules = guarded_basic guarded_bind guarded_try before_keeps actions_keep observed_keeps completed_keeps wait_keeps complete_keeps fail_keeps

lemma finish_keeps: "guarded R I (finish_batch srv hk response observed)"
  unfolding finish_batch_def by (auto intro!: turn_rules planless_guarded [OF planless_context [OF same_context_save]])

lemma suspend_keeps: "guarded R I (suspend_batch srv hk response observed call rest r)"
proof -
  have "guarded R I (emit_event t d :: ('w, unit) run_task)" for t d by (rule planless_guarded) (rule planless)
  moreover have "guarded R I (enter_state st :: ('w, unit) run_task)" for st by (rule planless_guarded) (rule planless)
  moreover have "guarded R I (save_context_snapshot srv)" by (rule planless_guarded) (rule planless)
  moreover have "guarded R I (set_context (\<lambda>c. c\<lparr>rc_pending_input := p\<rparr>))" for p by (rule planless_guarded, rule planless) simp
  moreover have "guarded R I (set_context (\<lambda>c. c\<lparr>rc_supervision := dict_set batch_key j (rc_supervision c)\<rparr>))" for j
    by (rule planless_guarded, rule planless) simp
  ultimately show ?thesis unfolding suspend_batch_def by (auto simp: Let_def intro!: turn_rules split: option.split json.split)
qed

lemma batch_keeps:
  assumes good: "good_services sha my srv"
  shows "guarded R I (execute_tool_batch srv hk response confirmations observed calls)"
proof (induction calls arbitrary: observed)
  case (Cons call calls)
  have rules: "guarded R I (cancel_if_requested srv)" "guarded R I (admit_call srv call)" "guarded R I (call_tool srv call c)"
    "guarded R I (observe_result srv call r)" for c r
    using planless_cancel planless_admit [OF bounded [OF good]] planless_tool [OF tools [OF good]] planless_observe [OF bounded [OF good]]
    by (blast intro: planless_guarded)+
  show ?case unfolding execute_tool_batch.simps Let_def by (auto intro!: turn_rules rules suspend_keeps Cons.IH)
qed (simp add: finish_keeps)

lemma read_planless: "keeps same_plan (on_context (read_batch w raw))"
proof (rule planless_on_context)
  show "other_change c (snd (read_batch w raw c))" for c
    using model_tool.read_batch_context [where w = w and raw = raw and c = c] by (auto simp: other_change_def dict_simps)
qed

lemma resume_keeps:
  assumes good: "good_services sha my srv"
  shows "guarded R I (resume_action_batch srv hk)"
proof -
  have "guarded R I (set_context (\<lambda>c. c\<lparr>rc_supervision := dict_pop batch_key (rc_supervision c)\<rparr>))"
    by (rule planless_guarded, rule planless) (simp add: dict_simps)
  then show ?thesis unfolding resume_action_batch_def
    by (auto simp: Let_def simp del: execute_tool_batch.simps intro!: turn_rules read_planless batch_keeps [OF good] finish_keeps split: sum.split prod.split option.split)
qed

lemma act_keeps: "good_services sha my srv \<Longrightarrow> guarded R I (act_on_response srv hk response)"
  unfolding act_on_response_def by (auto simp: Let_def intro!: turn_rules batch_keeps planless_guarded [OF planless_cancel])

lemma turn_keeps:
  assumes good: "good_services sha my srv"
  shows "guarded R I (advance_turn srv hk)"
proof -
  have "guarded R I (set_context (\<lambda>c. c\<lparr>rc_step_count := rc_step_count c + 1\<rparr>))" by (rule planless_guarded, rule planless) simp
  moreover have "guarded R I (emit_event t d :: ('w, unit) run_task)" for t d by (rule planless_guarded) (rule planless)
  moreover have "guarded R I (accept_response srv r)" for r by (rule planless_guarded) (rule planless)
  ultimately show ?thesis unfolding advance_turn_def by (auto intro!: turn_rules planless_world resume_keeps [OF good] act_keeps [OF good] split: sum.split)
qed

end

subsection \<open>Accepted plans\<close>

text \<open>More frames never change an accepted graph, so that every accepted graph is acyclic.\<close>

lemma for_each_more:
  assumes "\<And>x s s'. f x s = Inr s' \<Longrightarrow> g x s = Inr s'"
  shows "for_each f xs s = Inr s' \<Longrightarrow> for_each g xs s = Inr s'"
proof (induction xs arbitrary: s)
  case (Cons x xs)
  then obtain s1 where "f x s = Inr s1" "for_each f xs s1 = Inr s'" by (cases "f x s") auto
  with Cons.IH assms show ?case by simp
qed simp

lemma visit_more: "visit frames deps x st = Inr st' \<Longrightarrow> visit (frames + k) deps x st = Inr st'"
proof (induction frames arbitrary: x st st')
  case (Suc frames)
  obtain v w where st: "st = (v, w)" by (cases st)
  have more: "for_each (visit (frames + k) deps) ds (insert x v, w) = Inr r" if "for_each (visit frames deps) ds (insert x v, w) = Inr r" for ds r
    using for_each_more [OF Suc.IH that] .
  show ?case
  proof (cases "x \<in> v \<or> x \<in> w \<or> dict_get deps x = None")
    case False
    then obtain ds where ds: "dict_get deps x = Some ds" by auto
    with False Suc.prems obtain r where "for_each (visit frames deps) ds (insert x v, w) = Inr r"
      by (cases "for_each (visit frames deps) ds (insert x v, w)") (auto simp: st)
    with more [OF this] False ds Suc.prems show ?thesis by (simp add: st)
  qed (use Suc.prems st in auto)
qed simp

lemma assert_acyclic_more: "assert_acyclic frames ps = Inr () \<Longrightarrow> assert_acyclic (frames + k) ps = Inr ()"
proof -
  let ?d = "dependencies_of ps"
  assume "assert_acyclic frames ps = Inr ()"
  then obtain st where "for_each (visit frames ?d) (dict_keys ?d) ({}, {}) = Inr st"
    by (cases "for_each (visit frames ?d) (dict_keys ?d) ({}, {})") (auto simp: assert_acyclic_def Let_def)
  from for_each_more [OF visit_more this] show ?thesis by (simp add: assert_acyclic_def Let_def)
qed

lemma validated_graph:
  assumes "validate_graph frames p = Inr u"
  shows "distinct (map ps_id (pl_steps p))" "known_dependencies (pl_steps p)" "acyclic (plan_edges (pl_steps p))"
proof -
  from assms show d: "distinct (map ps_id (pl_steps p))" and k: "known_dependencies (pl_steps p)"
    by (auto simp: validate_graph_def Let_def known_dependencies_def list_ex_iff split: if_splits)
  from assms have "assert_acyclic frames (pl_steps p) = Inr ()" by (auto simp: validate_graph_def Let_def split: if_splits)
  from assert_acyclic_more [OF this, of "Suc (length (pl_steps p))"] assert_acyclic_eq [OF d k, of "frames + Suc (length (pl_steps p))"]
  show "acyclic (plan_edges (pl_steps p))" by (auto split: if_splits)
qed

lemma make_plan_well_formed: "make_plan frames p = Inr q \<Longrightarrow> q = p \<and> well_formed p"
  by (auto simp: make_plan_def well_formed_def dest: validated_graph split: if_splits sum.splits)

lemma validate_plan_well_formed: "validate_plan frames p = Inr q \<Longrightarrow> list_all valid_step (pl_steps p) \<Longrightarrow> q = p \<and> well_formed p"
  by (auto simp: validate_plan_def well_formed_def dest: validated_graph split: if_splits sum.splits)

subsection \<open>Replanning\<close>

text \<open>
  What pydantic guarantees of the plans and steps it parses: their validators have run.
\<close>

definition checked_texts :: "plan_texts \<Rightarrow> bool" where
  "checked_texts pt \<longleftrightarrow> (\<forall>j p. pt_parse_plan pt j = Inr p \<longrightarrow> make_plan (pt_frames pt) p = Inr p) \<and>
     (\<forall>j q. pt_parse_step pt j = Inr q \<longrightarrow> valid_step q)"

text \<open>A later plan of the same run: it is valid, and every settled step is still there as it was.\<close>

definition continues :: "execution_plan \<Rightarrow> execution_plan \<Rightarrow> bool" where
  "continues p p' \<longleftrightarrow> plan_inv p' \<and> pl_id p' = pl_id p \<and> pl_revision p \<le> pl_revision p' \<and>
     (\<forall>q \<in> set (pl_steps p). historical (ps_status q) \<longrightarrow> q \<in> set (pl_steps p'))"

lemma move_continues:
  assumes inv: "plan_inv p" and m: "plan_move p p'"
  shows "continues p p'"
proof -
  have w: "well_formed p" using inv by (simp add: plan_inv_def)
  from plan_move_moves [OF w m] have mv: "moves_to p p'" .
  then have l: "list_all2 (step_moves (ready_step (pl_steps p))) (pl_steps p) (pl_steps p')" by (simp add: moves_to_def)
  have "q \<in> set (pl_steps p')" if q: "q \<in> set (pl_steps p)" "historical (ps_status q)" for q
    using list_all2_related(1) [OF l q(1)] q(2) by (auto simp: step_moves_def)
  with mv plan_move_inv [OF inv m] show ?thesis by (simp add: continues_def moves_to_def)
qed

lemma merge_continues:
  assumes inv: "plan_inv p" and m: "merge_replanned_steps frames p future = Inr p'"
    and f: "list_all valid_step future" "list_all (\<lambda>q. ps_status q = StepPending) future"
  shows "continues p p' \<and> pl_steps p' = filter (\<lambda>q. historical (ps_status q)) (pl_steps p) @ future"
proof -
  let ?h = "filter (\<lambda>q. historical (ps_status q)) (pl_steps p)"
  from m obtain x where x: "validate_plan frames x = Inr p'" "pl_steps x = ?h @ future" "pl_id x = pl_id p" "pl_revision x = pl_revision p + 1"
    by (auto simp: rbind_Inr_iff merge_replanned_steps_def Let_def split: if_splits)
  have "list_all valid_step (pl_steps x)" using inv f x(2) by (auto simp: plan_inv_def well_formed_def list_all_iff)
  from validate_plan_well_formed [OF x(1) this] have p': "p' = x" "well_formed x" by auto
  have "depends_settled (pl_steps x) q" if q: "q \<in> set (pl_steps x)" "ps_status q \<noteq> StepPending" for q
  proof -
    have "q \<in> set ?h" using q f(2) x(2) by (auto simp: list_all_iff)
    then have "depends_settled (pl_steps p) q" using inv q(2) by (simp add: plan_inv_def)
    then show ?thesis unfolding depends_settled_def x(2) by fastforce
  qed
  with p' have "plan_inv x" by (simp add: plan_inv_def)
  with p' x show ?thesis by (auto simp: continues_def)
qed

lemma parse_all_valid: "parse_all f js = Inr xs \<Longrightarrow> (\<And>j x. f j = Inr x \<Longrightarrow> P x) \<Longrightarrow> list_all P xs"
  by (induction js arbitrary: xs) (auto simp: rbind_Inr_iff)

lemma replanned_steps:
  assumes "checked_texts pt" "parse_replanned_steps pt w content = Inr future"
  shows "list_all valid_step future" "list_all (\<lambda>q. ps_status q = StepPending) future"
proof -
  from assms(2) obtain js where js: "parse_all (pt_parse_step pt) js = Inr future" "\<not> list_ex (\<lambda>q. ps_status q \<noteq> StepPending) future"
  proof -
    let ?steps = "\<lambda>js. rbind (parse_all (pt_parse_step pt) js) (\<lambda>steps.
       if list_ex (\<lambda>q. ps_status q \<noteq> StepPending) steps then Inl (ValueError ''updated plan steps must start in pending status'') else Inr steps)"
    have key: "(case x of Some (JList js) \<Rightarrow> ?steps js | _ \<Rightarrow> Inl e) = Inr future \<Longrightarrow> \<exists>js. ?steps js = Inr future" for x e
      by (cases x; cases "the x") auto
    from assms(2) [unfolded parse_replanned_steps_def, THEN iffD1 [OF rbind_Inr_iff]] obtain js where "?steps js = Inr future"
      by (elim exE conjE) (drule key, blast)
    then show ?thesis by (intro that [of js]) (auto simp: rbind_Inr_iff split: if_splits)
  qed
  from parse_all_valid [OF js(1)] assms(1) show "list_all valid_step future" by (auto simp: checked_texts_def)
  from js(2) show "list_all (\<lambda>q. ps_status q = StepPending) future" by (simp add: list_ex_iff list_all_iff)
qed

lemma review_continues:
  assumes t: "checked_texts (pc_texts pc)" and inv: "plan_inv p" and r: "review_plan pc w p content = Inr (future, changed, p')"
  shows "if changed then continues p p' \<and> pl_steps p' = filter (\<lambda>q. historical (ps_status q)) (pl_steps p) @ future else p' = p"
proof -
  from r have f: "parse_replanned_steps (pc_texts pc) w content = Inr future"
    and m: "(if changed then merge_replanned_steps (pt_frames (pc_texts pc)) p future else Inr p) = Inr p'"
    by (auto simp: rbind_Inr_iff review_plan_def Let_def)
  from m merge_continues [OF inv _ replanned_steps [OF t f]] show ?thesis by (cases changed) auto
qed

lemma generated_inv:
  assumes "checked_texts pt" "parse_generated_plan pt w content provider = Inr p"
  shows "plan_inv p"
proof -
  from assms(2) obtain j q where q: "pt_parse_plan pt j = Inr q" "list_all (\<lambda>x. ps_status x = StepPending) (pl_steps q)"
    "\<exists>md. p = q\<lparr>pl_metadata := md\<rparr>"
    by (auto simp: rbind_Inr_iff parse_generated_plan_def list_ex_iff list_all_iff split: if_splits)
  from q(1) assms(1) have "well_formed q" by (auto simp: checked_texts_def dest: make_plan_well_formed)
  with q(2,3) show ?thesis by (auto simp: plan_inv_def well_formed_def list_all_iff)
qed

subsection \<open>The plan of a run\<close>

definition plan_kept :: "'w runtime \<Rightarrow> 'w runtime \<Rightarrow> bool" where
  "plan_kept s s' \<longleftrightarrow> (case rc_plan (rt_context s) of
     None \<Rightarrow> (\<forall>p'. rc_plan (rt_context s') = Some p' \<longrightarrow> plan_inv p')
   | Some p \<Rightarrow> plan_inv p \<longrightarrow> (\<exists>p'. rc_plan (rt_context s') = Some p' \<and> continues p p'))"

lemma continues_refl: "plan_inv p \<Longrightarrow> continues p p" and continues_trans: "continues p p' \<Longrightarrow> continues p' p'' \<Longrightarrow> continues p p''"
  by (auto simp: continues_def)

lemma plan_kept_trans: "plan_kept s s' \<Longrightarrow> plan_kept s' s'' \<Longrightarrow> plan_kept s s''"
proof (cases "rc_plan (rt_context s)")
  case None
  assume "plan_kept s s'" "plan_kept s' s''"
  with None show ?thesis by (cases "rc_plan (rt_context s')") (auto simp: plan_kept_def continues_def)
next
  case (Some p)
  assume a: "plan_kept s s'" "plan_kept s' s''"
  show ?thesis unfolding plan_kept_def Some option.case
  proof
    assume "plan_inv p"
    with a(1) Some obtain p' where p': "rc_plan (rt_context s') = Some p'" "continues p p'" by (auto simp: plan_kept_def)
    then have "plan_inv p'" by (simp add: continues_def)
    with a(2) p' obtain p'' where "rc_plan (rt_context s'') = Some p''" "continues p' p''" by (auto simp: plan_kept_def)
    with continues_trans [OF p'(2)] show "\<exists>p'. rc_plan (rt_context s'') = Some p' \<and> continues p p'" by blast
  qed
qed

lemma plan_kept_same: "same_plan s s' \<Longrightarrow> plan_kept s s'"
  by (auto simp: plan_kept_def intro: continues_refl split: option.split)

text \<open>A plan is only awaited as long as there is none.\<close>

definition phase_ok :: "'w runtime \<Rightarrow> bool" where
  "phase_ok s \<longleftrightarrow> (\<forall>d. dict_get (rc_supervision (rt_context s)) plan_key = Some (JObj d) \<longrightarrow> in_phase phase_planning d \<longrightarrow> rc_plan (rt_context s) = None)"

interpretation kept: plan_relation plan_kept phase_ok
  by unfold_locales (auto simp: phase_ok_def intro: plan_kept_same plan_kept_trans)

abbreviation sound :: "('w, 'a) run_task \<Rightarrow> bool" where
  "sound m \<equiv> guarded plan_kept phase_ok m"

lemmas sound_rules = kept.guarded_basic kept.guarded_bind
lemmas sound_planless = kept.planless_guarded

text \<open>Programs that are sound when they start with the plan \<open>pre\<close>.\<close>

definition sound_from :: "execution_plan option \<Rightarrow> ('w, 'a) run_task \<Rightarrow> bool" where
  "sound_from pre m \<longleftrightarrow> (\<forall>s. phase_ok s \<longrightarrow> rc_plan (rt_context s) = pre \<longrightarrow>
     plan_kept s (snd (m s)) \<and> (\<forall>x. fst (m s) = Inr x \<longrightarrow> phase_ok (snd (m s))))"

lemma from_sound: "sound m \<Longrightarrow> sound_from pre m"
  by (simp add: guarded_def sound_from_def)

lemma from_basic: "sound_from pre (pret x)" "sound_from pre (praise e)"
  by (rule from_sound, rule kept.guarded_basic)+

text \<open>Programs that keep the plan itself.\<close>

definition tame :: "('w, 'a) run_task \<Rightarrow> bool" where
  "tame m \<longleftrightarrow> (\<forall>s. rc_plan (rt_context (snd (m s))) = rc_plan (rt_context s) \<and> (phase_ok s \<longrightarrow> phase_ok (snd (m s))))"

lemma tame_planless: "keeps same_plan m \<Longrightarrow> tame m"
  by (simp add: keeps_def tame_def phase_ok_def)

lemma tame_sound: "tame m \<Longrightarrow> sound m"
  by (auto simp: tame_def guarded_def plan_kept_def intro: continues_refl split: option.split)

lemma from_tame:
  assumes m: "tame m" and f: "\<And>x. sound_from pre (f x)"
  shows "sound_from pre (pbind m f)"
  unfolding sound_from_def
proof (intro allI impI)
  fix s :: "'a runtime" assume s: "phase_ok s" "rc_plan (rt_context s) = pre"
  obtain r s1 where r: "m s = (r, s1)" by (cases "m s")
  with m s have s1: "phase_ok s1" "rc_plan (rt_context s1) = pre" unfolding tame_def by (metis snd_conv)+
  have k: "plan_kept s s1" using s(2) s1(2) by (auto simp: plan_kept_def intro: continues_refl split: option.split)
  show "plan_kept s (snd (pbind m f s)) \<and> (\<forall>x. fst (pbind m f s) = Inr x \<longrightarrow> phase_ok (snd (pbind m f s)))"
  proof (cases r)
    case (Inr x)
    with r have "pbind m f s = f x s1" by (simp add: pbind_app)
    with f s1 plan_kept_trans [OF k] show ?thesis by (simp add: sound_from_def)
  qed (use r k in \<open>simp add: pbind_app\<close>)
qed

lemma from_then:
  assumes m: "sound_from pre m" and f: "\<And>x. sound (f x)"
  shows "sound_from pre (pbind m f)"
  unfolding sound_from_def
proof (intro allI impI)
  fix s :: "'a runtime" assume s: "phase_ok s" "rc_plan (rt_context s) = pre"
  obtain r s1 where r: "m s = (r, s1)" by (cases "m s")
  with m s have s1: "plan_kept s s1" "\<forall>x. r = Inr x \<longrightarrow> phase_ok s1" unfolding sound_from_def by (metis fst_conv snd_conv)+
  show "plan_kept s (snd (pbind m f s)) \<and> (\<forall>x. fst (pbind m f s) = Inr x \<longrightarrow> phase_ok (snd (pbind m f s)))"
  proof (cases r)
    case (Inr x)
    with r have "pbind m f s = f x s1" by (simp add: pbind_app)
    with f Inr s1(2) plan_kept_trans [OF s1(1)] show ?thesis by (simp add: guarded_def)
  qed (use r s1 in \<open>simp add: pbind_app\<close>)
qed

lemma from_lift: "(\<And>x. r = Inr x \<Longrightarrow> sound_from pre (f x)) \<Longrightarrow> sound_from pre (pbind (plift r) f)"
  using from_basic by (cases r) (auto simp: sound_from_def pbind_app)

lemma sound_get: "(\<And>s. phase_ok s \<Longrightarrow> sound_from (rc_plan (rt_context s)) (f s)) \<Longrightarrow> sound (pbind pget f)"
  by (auto simp: guarded_def sound_from_def pbind_app)

text \<open>A new plan.\<close>

lemma update_cases:
  assumes "update_execution_plan srv pt q b s = (r, s')"
  shows "s' = s \<and> (\<exists>e. r = Inl e) \<or> rc_plan (rt_context s') = Some q \<and>
    dict_get (rc_supervision (rt_context s')) plan_key = dict_get (rc_supervision (rt_context s)) plan_key"
proof -
  let ?pre = "rc_plan (rt_context s)"
  let ?check = "case ?pre of None \<Rightarrow> pret () | Some p \<Rightarrow> if pl_id p \<noteq> pl_id q then praise (ValueError ''a running context cannot replace its plan identity'')
           else if pl_revision q \<le> pl_revision p then praise (ValueError ''an updated plan must have a newer revision'') else pret ()"
  let ?rest = "pthen (save_context_snapshot srv) (pthen (if ?pre = None \<or> b
       then emit_event (if ?pre = None then PLAN_CREATED else PLAN_UPDATED) [(''plan'', cd_plan (srv_codec srv) q)] else pret ())
     (case ?pre of None \<Rightarrow> pret () | Some p \<Rightarrow> peach (announce_step srv pt p q) (pl_steps q)))"
  let ?s = "s\<lparr>rt_context := (rt_context s)\<lparr>rc_plan := Some q\<rparr>\<rparr>"
  have eq: "update_execution_plan srv pt q b s = (case ?check s of (Inl e, s1) \<Rightarrow> (Inl e, s1)
     | (Inr u, s1) \<Rightarrow> pthen (set_context (\<lambda>c. c\<lparr>rc_plan := Some q\<rparr>)) ?rest s1)"
    unfolding update_execution_plan_def Let_def pbind_app [of pget] by (simp only: pbind_app) (simp split: prod.split sum.split)
  have "keeps same_plan ?rest" by (auto simp: announce_step_def intro!: planless split: option.split)
  then have "same_plan ?s (snd (?rest ?s))" by (simp add: keeps_def)
  moreover have "pthen (set_context (\<lambda>c. c\<lparr>rc_plan := Some q\<rparr>)) ?rest s = ?rest ?s" by (simp add: pbind_app on_context_def)
  moreover have "(\<exists>e. ?check s = (Inl e, s)) \<or> ?check s = (Inr (), s)" by (auto split: option.split)
  ultimately show ?thesis using assms eq by auto
qed

lemma from_update: "(plan_inv p \<Longrightarrow> continues p q) \<Longrightarrow> sound_from (Some p) (update_execution_plan srv pt q b)"
proof -
  assume q: "plan_inv p \<Longrightarrow> continues p q"
  show ?thesis unfolding sound_from_def
  proof (intro allI impI)
    fix s :: "'a runtime" assume s: "phase_ok s" "rc_plan (rt_context s) = Some p"
    obtain r s' where r: "update_execution_plan srv pt q b s = (r, s')" by (cases "update_execution_plan srv pt q b s")
    from update_cases [OF r] s q have "plan_kept s s'" "phase_ok s'" by (auto simp: plan_kept_def phase_ok_def intro: continues_refl)
    with r show "plan_kept s (snd (update_execution_plan srv pt q b s)) \<and>
      (\<forall>x. fst (update_execution_plan srv pt q b s) = Inr x \<longrightarrow> phase_ok (snd (update_execution_plan srv pt q b s)))" by simp
  qed
qed

lemma from_move: "plan_move p q \<Longrightarrow> sound_from (Some p) (update_execution_plan srv pt q b)"
  by (rule from_update) (rule move_continues)

text \<open>Changes of the strategy's state.\<close>

lemma tame_change:
  assumes "\<And>d. in_phase phase_planning (f d) \<Longrightarrow> in_phase phase_planning d"
  shows "tame (change_plan_state f)"
  unfolding tame_def
proof (intro allI conjI impI)
  fix s :: "'a runtime"
  show "rc_plan (rt_context (snd (change_plan_state f s))) = rc_plan (rt_context s)"
    by (simp add: change_plan_state_def on_context_def pbind_app split: sum.split)
  assume "phase_ok s"
  with assms show "phase_ok (snd (change_plan_state f s))"
    by (auto simp: change_plan_state_def on_context_def pbind_app phase_ok_def plan_state_def split: sum.split option.splits json.splits)
qed

lemma in_phase_put: "in_phase ph (dict_set k j d) = (if k = ''phase'' then j = JStr ph else in_phase ph d)"
  "k \<noteq> ''phase'' \<Longrightarrow> in_phase ph (dict_pop k d) = in_phase ph d"
  by (auto simp: in_phase_def dict_simps)

lemma tame_put: "k \<noteq> ''phase'' \<or> j \<noteq> JStr phase_planning \<Longrightarrow> tame (put_plan k j)"
  by (rule tame_change) (auto simp: in_phase_put split: if_splits)

lemma tame_pop: "k \<noteq> ''phase'' \<Longrightarrow> tame (pop_plan k)"
  by (rule tame_change) (simp add: in_phase_put)

lemma tame_default: "tame (default_plan_state phase_executing)"
  unfolding tame_def by (auto simp: default_plan_state_def on_context_def phase_ok_def in_phase_def)

lemma from_default:
  assumes k: "sound_from pre k"
  shows "sound_from pre (pthen (default_plan_state (if pre = None \<and> b then phase_planning else phase_executing)) k)"
  unfolding sound_from_def
proof (intro allI impI)
  let ?ph = "if pre = None \<and> b then phase_planning else phase_executing"
  fix s :: "'a runtime" assume s: "phase_ok s" "rc_plan (rt_context s) = pre"
  obtain s1 where s1: "default_plan_state ?ph s = (Inr (), s1)" by (simp add: default_plan_state_def on_context_def)
  then have p: "rc_plan (rt_context s1) = pre" "phase_ok s1"
    using s by (auto simp: default_plan_state_def on_context_def phase_ok_def in_phase_def split: if_splits)
  then have "plan_kept s s1" using s(2) by (auto simp: plan_kept_def intro: continues_refl split: option.split)
  with k p s1 plan_kept_trans show "plan_kept s (snd (pthen (default_plan_state ?ph) k s)) \<and>
    (\<forall>x. fst (pthen (default_plan_state ?ph) k s) = Inr x \<longrightarrow> phase_ok (snd (pthen (default_plan_state ?ph) k s)))"
    by (simp add: pbind_app sound_from_def) blast
qed

lemma sound_plan_event: "sound (plan_react_event t d)"
  unfolding plan_react_event_def by (rule sound_planless) (auto intro!: planless split: option.split)

lemma sound_before: "sound plan_before"
proof -
  have "sound (put_plan ''react'' j)" for j by (rule tame_sound, rule tame_put) simp
  moreover have "sound (emit_event t d)" for t d by (rule sound_planless) (rule planless)
  ultimately show ?thesis unfolding plan_before_def by (auto simp: Let_def intro!: sound_rules split: option.split)
qed

subsection \<open>The planning strategy keeps its plan\<close>

lemma sound_fail: "sound (fail_planning srv pc t)"
proof -
  have "sound (pbind pget (\<lambda>s. case rc_plan (rt_context s) of None \<Rightarrow> pret ()
     | Some plan \<Rightarrow> if pl_status plan \<in> {PlanFailed, PlanCancelled} then pret ()
         else pbind (plift (fail_plan plan t)) (\<lambda>p. update_execution_plan srv (pc_texts pc) p False)))"
    by (rule sound_get) (auto intro!: from_basic from_lift from_move intro: plan_move.intros split: option.split)
  then show ?thesis unfolding fail_planning_def by (rule kept.guarded_bind) (rule sound_planless, rule planless)
qed

lemma sound_settle: "sound (settle_terminal_plan srv pc)"
  unfolding settle_terminal_plan_def Let_def
  by (rule sound_get) (auto intro!: from_basic from_lift from_move intro: plan_move.intros split: option.split)

lemma require_plan_eq: "require_plan c = Inr p \<longleftrightarrow> rc_plan c = Some p"
  by (auto simp: require_plan_def split: option.splits)

lemma sound_wait: "sound (plan_wait srv pc)"
  unfolding plan_wait_def
  by (rule sound_get)
    (auto simp: require_plan_eq intro!: from_lift from_move from_sound [OF sound_fail] intro: plan_move.intros split: option.split)

lemma sound_summary: "sound (set_context (\<lambda>c. c\<lparr>rc_supervision := dict_set plan_key (JObj [(''phase'', JStr phase_summarizing)]) (rc_supervision c)\<rparr>))"
  by (rule tame_sound) (simp add: tame_def on_context_def phase_ok_def in_phase_def)

lemma sound_finish: "sound (finish_plan srv pc plan)"
proof -
  have "sound (set_context (\<lambda>c. c\<lparr>rc_messages := rc_messages c @ [user_message (summary_prompt (pc_texts pc) c plan)]\<rparr>))"
    by (rule sound_planless, rule planless) simp
  then show ?thesis unfolding finish_plan_def
    by (auto intro!: sound_rules sound_summary sound_planless [OF planless_answers(2)] sound_planless [OF planless_context [OF same_context_save]])
qed

lemma sound_invalid: "sound (invalid_answer srv pc t e)"
  unfolding invalid_answer_def by (auto intro!: sound_fail sound_rules)

lemma sound_prompt: "sound (pthen (add_user_message t) (save_context_snapshot srv))"
  by (rule sound_planless) (auto intro!: planless)

lemma from_after_step:
  assumes "plan_move p q"
  shows "sound_from (Some p) (after_step srv pc x q)"
  unfolding after_step_def
proof (rule from_then [OF from_move [OF assms]])
  have "sound (put_plan ''phase'' (JStr phase_updating))" "sound (put_plan ''completed_step_id'' j)" for j
    by (rule tame_sound, rule tame_put, simp)+
  then show "sound (if pc_replan pc
      then pthen (put_plan ''phase'' (JStr phase_updating)) (pthen (put_plan ''completed_step_id'' (JStr (ps_id x)))
        (pbind pget (\<lambda>s. pbind (plift (replanning_prompt (pc_texts pc) srv (rt_context s) q (ps_id x))) (\<lambda>prompt.
         pthen (add_user_message prompt) (save_context_snapshot srv)))))
      else if pl_status q \<noteq> PlanCompleted then pret () else finish_plan srv pc q)" for u
    by (auto intro!: sound_prompt sound_finish kept.guarded_basic
        kept.guarded_bind [where m = "put_plan k j" for k j] kept.guarded_bind [where m = pget] kept.guarded_bind [where m = "plift r" for r])
qed

lemma sound_step_result: "sound (accept_step_result srv pc content)"
  unfolding accept_step_result_def
proof (rule sound_get, rule from_lift)
  fix s :: "'a runtime" and plan assume "require_plan (rt_context s) = Inr plan"
  then have p: "rc_plan (rt_context s) = Some plan" by (simp add: require_plan_eq)
  have c: "plan_move plan q" if "complete_active_step srv plan x d r content = Inr q" for x d r q
    using that by (auto simp: complete_active_step_def intro: move_complete split: option.splits)
  have pop: "tame (pop_plan ''react'')" by (rule tame_pop) simp
  show "sound_from (rc_plan (rt_context s)) (case step_with_status plan StepRunning of
       None \<Rightarrow> fail_planning srv pc ''planning strategy received a step result without an active step''
     | Some q \<Rightarrow> if ps_executor q \<noteq> Some ''react''
         then pbind (plift (complete_active_step srv plan q [] None content)) (after_step srv pc q)
         else (case rbind (parse_json_object (srv_wire srv) content) (wr_parse_react (srv_wire srv)) of
             Inl e \<Rightarrow> invalid_answer srv pc ''model generated an invalid ReAct step result: '' e
           | Inr r \<Rightarrow> pbind (plift (plan_state (rt_context s))) (\<lambda>d.
               pbind (plift (complete_active_step srv plan q d (Some r) content)) (\<lambda>completed.
               pthen (pop_plan ''react'') (after_step srv pc q completed)))))" unfolding p
    by (auto intro!: from_sound [OF sound_fail] from_sound [OF sound_invalid] from_lift from_tame [OF pop]
        from_after_step c split: option.split sum.split)
qed

lemma sound_replan:
  assumes t: "checked_texts (pc_texts pc)"
  shows "sound (accept_replan srv pc content)"
  unfolding accept_replan_def
proof (rule sound_get, rule from_lift)
  fix s :: "'a runtime" and plan assume "require_plan (rt_context s) = Inr plan"
  then have p: "rc_plan (rt_context s) = Some plan" by (simp add: require_plan_eq)
  have u: "sound_from (Some plan) (if changed then update_execution_plan srv (pc_texts pc) q True else pret ())"
    if "review_plan pc (srv_wire srv) plan content = Inr (future, changed, q)" for future changed q
    using review_continues [OF t _ that] by (auto intro!: from_update from_basic)
  have "sound (put_plan ''phase'' (JStr phase_executing))" by (rule tame_sound, rule tame_put) simp
  moreover have "sound (pop_plan ''completed_step_id'')" by (rule tame_sound, rule tame_pop) simp
  ultimately have rest: "sound (pthen (put_plan ''phase'' (JStr phase_executing)) (pthen (pop_plan ''completed_step_id'')
         (if pl_status q = PlanCompleted then finish_plan srv pc q else pret ())))" for q
    using sound_finish by (auto intro!: sound_rules)
  have event: "tame (emit_event t d)" for t d by (rule tame_planless) (rule planless)
  show "sound_from (rc_plan (rt_context s)) (case review_plan pc (srv_wire srv) plan content of
       Inl e \<Rightarrow> invalid_answer srv pc ''model generated an invalid updated execution plan: '' e
     | Inr (future, changed, updated) \<Rightarrow> pbind (plift (plan_state (rt_context s))) (\<lambda>d.
         pthen (emit_event PLAN_REVIEWED [(''plan_id'', JStr (pl_id plan)), (''revision'', JInt (pl_revision plan)), (''changed'', JBool changed),
           (''completed_step_id'', case dict_get d ''completed_step_id'' of None \<Rightarrow> JNull | Some j \<Rightarrow> j),
           (''proposed_steps'', JList (map (pt_step_json (pc_texts pc)) future))])
         (pthen (if changed then update_execution_plan srv (pc_texts pc) updated True else pret ())
         (pthen (put_plan ''phase'' (JStr phase_executing))
         (pthen (pop_plan ''completed_step_id'')
         (if pl_status updated = PlanCompleted then finish_plan srv pc updated else pret ()))))))" unfolding p
  proof (cases "review_plan pc (srv_wire srv) plan content")
    case (Inr a)
    obtain future changed q where a: "a = (future, changed, q)" by (cases a) auto
    show "sound_from (Some plan) (case review_plan pc (srv_wire srv) plan content of
       Inl e \<Rightarrow> invalid_answer srv pc ''model generated an invalid updated execution plan: '' e
     | Inr (future, changed, updated) \<Rightarrow> pbind (plift (plan_state (rt_context s))) (\<lambda>d.
         pthen (emit_event PLAN_REVIEWED [(''plan_id'', JStr (pl_id plan)), (''revision'', JInt (pl_revision plan)), (''changed'', JBool changed),
           (''completed_step_id'', case dict_get d ''completed_step_id'' of None \<Rightarrow> JNull | Some j \<Rightarrow> j),
           (''proposed_steps'', JList (map (pt_step_json (pc_texts pc)) future))])
         (pthen (if changed then update_execution_plan srv (pc_texts pc) updated True else pret ())
         (pthen (put_plan ''phase'' (JStr phase_executing))
         (pthen (pop_plan ''completed_step_id'')
         (if pl_status updated = PlanCompleted then finish_plan srv pc updated else pret ()))))))"
      unfolding Inr a sum.case prod.case by (rule from_lift, rule from_tame [OF event], rule from_then [OF u [OF Inr [unfolded a]] rest])
  qed (simp add: from_sound [OF sound_invalid])
qed

lemma sound_generated:
  assumes t: "checked_texts (pc_texts pc)"
  shows "sound_from None (accept_generated_plan srv pc content)"
proof (cases "rbind (parse_generated_plan (pc_texts pc) (srv_wire srv) content (srv_provider srv)) (\<lambda>plan. rbind (validate_executors plan) (\<lambda>_. Inr plan))")
  case (Inr q)
  then have q: "plan_inv q" using generated_inv [OF t] by (auto simp: rbind_Inr_iff)
  let ?put = "put_plan ''phase'' (JStr phase_executing) :: ('a, unit) run_task"
  let ?m = "pthen (update_execution_plan srv (pc_texts pc) q True) ?put"
  have "plan_kept s s' \<and> (r = Inr u \<longrightarrow> phase_ok s')" if s: "phase_ok s" "rc_plan (rt_context s) = None" and r: "?m s = (r, s')" for s r s' u
  proof -
    obtain r1 s1 where r1: "update_execution_plan srv (pc_texts pc) q True s = (r1, s1)" by (cases "update_execution_plan srv (pc_texts pc) q True s")
    from update_cases [OF r1] s(2) q have k: "\<forall>p. rc_plan (rt_context s1) = Some p \<longrightarrow> plan_inv p" by auto
    show ?thesis
    proof (cases r1)
      case (Inr v)
      with r r1 have p: "?put s1 = (r, s')" by (simp add: pbind_app)
      then have "rc_plan (rt_context s') = rc_plan (rt_context s1)" "r = Inr u \<longrightarrow> phase_ok s'"
        by (auto simp: change_plan_state_def on_context_def pbind_app phase_ok_def in_phase_def split: sum.splits)
      with k s(2) show ?thesis by (simp add: plan_kept_def)
    qed (use r r1 s(2) k in \<open>auto simp: pbind_app plan_kept_def\<close>)
  qed
  then have "sound_from None ?m" unfolding sound_from_def by (metis prod.collapse)
  with Inr show ?thesis by (simp add: accept_generated_plan_def)
qed (simp add: accept_generated_plan_def from_sound [OF sound_invalid])

lemma sound_complete:
  assumes t: "checked_texts (pc_texts pc)"
  shows "sound (plan_complete srv pc content)"
proof -
  have "sound (pbind pget (\<lambda>s. pbind (plift (plan_state (rt_context s))) (\<lambda>d.
     if in_phase phase_planning d then accept_generated_plan srv pc content
     else if in_phase phase_updating d then accept_replan srv pc content
     else if in_phase phase_summarizing d then complete_response content
     else accept_step_result srv pc content)))"
  proof (rule sound_get, rule from_lift)
    fix s :: "'a runtime" and d assume s: "phase_ok s" and d: "plan_state (rt_context s) = Inr d"
    from d have "dict_get (rc_supervision (rt_context s)) plan_key = Some (JObj d)" by (auto simp: plan_state_def split: option.splits json.splits)
    with s have "in_phase phase_planning d \<Longrightarrow> rc_plan (rt_context s) = None" by (simp add: phase_ok_def)
    with sound_generated [OF t] sound_replan [OF t] sound_step_result
    show "sound_from (rc_plan (rt_context s)) (if in_phase phase_planning d then accept_generated_plan srv pc content
     else if in_phase phase_updating d then accept_replan srv pc content
     else if in_phase phase_summarizing d then complete_response content else accept_step_result srv pc content)"
      by (auto intro!: from_sound [OF sound_planless [OF planless_answers(2)]] from_sound [OF sound_replan [OF t]] from_sound [OF sound_step_result])
  qed
  then show ?thesis unfolding plan_complete_def by (rule kept.guarded_bind [OF tame_sound [OF tame_default]])
qed

text \<open>The contract of the parsers is a condition of every turn.\<close>

abbreviation planned_inv :: "planning_strategy \<Rightarrow> 'w runtime \<Rightarrow> bool" where
  "planned_inv pc s \<equiv> checked_texts (pc_texts pc) \<and> phase_ok s"

lemma guarded_given: "guarded R (\<lambda>s. b \<and> I s) m \<longleftrightarrow> (b \<longrightarrow> guarded R I m)"
  by (auto simp: guarded_def)

interpretation planned: plan_turn plan_kept "planned_inv pc" srv "planning_hooks srv pc"
  by unfold_locales (simp_all add: guarded_given kept.same_plan_related kept.same_plan_inv planning_hooks_def sound_before plan_actions_def
      plan_observed_def plan_iteration_completed_def sound_plan_event sound_wait sound_complete sound_fail)

lemma sound_turn:
  assumes good: "good_services sha my srv" and t: "checked_texts (pc_texts pc)"
  shows "sound (planned_turn srv pc)"
  using planned.turn_keeps [OF good, of pc] t unfolding planned_turn_def by (auto simp: guarded_given intro!: sound_rules sound_settle)

lemma sound_run_step:
  assumes good: "good_services sha my srv" and t: "checked_texts (pc_texts pc)"
  shows "sound (run_plan_step srv pc q)"
  unfolding run_plan_step_def by (auto intro!: sound_rules sound_turn [OF good t] sound_fail)

lemma sound_start:
  assumes good: "good_services sha my srv" and t: "checked_texts (pc_texts pc)"
  shows "sound_from (Some plan) (start_ready_step srv pc plan q)"
  unfolding start_ready_step_def
proof (rule from_lift, rule from_then)
  show "sound_from (Some plan) (update_execution_plan srv (pc_texts pc) p False)" if "start_step plan (ps_id q) = Inr p" for p
    by (rule from_move [OF move_start [OF that]])
  have "sound (set_context (\<lambda>c. c\<lparr>rc_messages := rc_messages c @ [f c]\<rparr>))" for f by (rule sound_planless, rule planless) simp
  then show "sound (pthen (set_context (\<lambda>c. c\<lparr>rc_messages := rc_messages c @ [user_message
        (if ps_executor q = Some ''react'' then react_step_prompt (pc_texts pc) c p q else step_prompt (pc_texts pc) c p q)]\<rparr>))
     (pthen (save_context_snapshot srv) (run_plan_step srv pc q)))" for p
    by (intro sound_rules sound_run_step [OF good t] sound_planless [OF planless_context [OF same_context_save]])
qed

lemma sound_resume: "sound_from (Some plan) (resume_waiting_step srv pc plan)"
  unfolding resume_waiting_step_def
  by (auto intro!: from_basic from_lift from_then from_move kept.guarded_basic intro: move_resume split: option.split)

lemma resumed_plan:
  assumes "resume_waiting_step srv pc plan s = (Inr p, s')" "rc_plan (rt_context s) = Some plan"
  shows "rc_plan (rt_context s') = Some p"
proof (cases "step_with_status plan StepWaiting")
  case (Some q)
  with assms(1) obtain u where u: "update_execution_plan srv (pc_texts pc) p False s = (Inr u, s')"
    by (auto simp: resume_waiting_step_def pbind_app split: sum.splits prod.splits)
  from update_cases [OF u] show ?thesis by auto
qed (use assms in \<open>simp add: resume_waiting_step_def\<close>)

lemma from_resumed:
  assumes f: "\<And>p. sound_from (Some p) (f p)"
  shows "sound_from (Some plan) (pbind (resume_waiting_step srv pc plan) f)"
  unfolding sound_from_def
proof (intro allI impI)
  let ?m = "resume_waiting_step srv pc plan"
  fix s :: "'a runtime" assume s: "phase_ok s" "rc_plan (rt_context s) = Some plan"
  obtain r s1 where r: "?m s = (r, s1)" by (cases "?m s")
  from sound_resume [of plan srv pc] s r have s1: "plan_kept s s1" "\<forall>x. r = Inr x \<longrightarrow> phase_ok s1" unfolding sound_from_def by (metis fst_conv snd_conv)+
  show "plan_kept s (snd (pbind ?m f s)) \<and> (\<forall>x. fst (pbind ?m f s) = Inr x \<longrightarrow> phase_ok (snd (pbind ?m f s)))"
  proof (cases r)
    case (Inr p)
    with r have "pbind ?m f s = f p s1" "rc_plan (rt_context s1) = Some p" using resumed_plan [OF _ s(2)] by (auto simp: pbind_app)
    with f [of p] Inr s1(2) plan_kept_trans [OF s1(1)] show ?thesis by (simp add: sound_from_def)
  qed (use r s1 in \<open>simp add: pbind_app\<close>)
qed

lemma from_execute:
  assumes good: "good_services sha my srv" and t: "checked_texts (pc_texts pc)"
  shows "sound_from (Some plan) (execute_plan srv pc plan)"
  unfolding execute_plan_def
  by (rule from_resumed)
    (auto simp: handle_no_ready_step_def intro!: from_sound [OF sound_run_step [OF good t]] from_sound [OF sound_finish] from_sound [OF sound_fail]
      sound_start [OF good t] split: option.split list.split)

lemma sound_request:
  assumes good: "good_services sha my srv" and t: "checked_texts (pc_texts pc)"
  shows "sound (request_plan srv pc)"
proof -
  have "sound (add_user_message x)" for x by (rule sound_planless, rule planless) simp
  moreover have "sound (put_plan ''prompt_added'' j)" for j by (rule tame_sound, rule tame_put) simp
  moreover have "sound (save_context_snapshot srv)" by (rule sound_planless) (rule planless)
  ultimately show ?thesis unfolding request_plan_def by (auto intro!: sound_rules sound_fail sound_turn [OF good t])
qed

lemma from_get: "(\<And>s. rc_plan (rt_context s) = pre \<Longrightarrow> sound_from pre (f s)) \<Longrightarrow> sound_from pre (pbind pget f)"
  by (auto simp: sound_from_def pbind_app)

lemma sound_advance:
  assumes good: "good_services sha my srv" and t: "checked_texts (pc_texts pc)"
  shows "sound (planning_advance srv pc)"
  unfolding planning_advance_def Let_def
proof (rule sound_get, rule from_default)
  fix s :: "'a runtime"
  show "sound_from (rc_plan (rt_context s)) (case rc_plan (rt_context s) of
        None \<Rightarrow> if \<not> rc_planning_requested (rt_context s) then praise (ValueError ''PlanningStrategy requires an ExecutionPlan'') else request_plan srv pc
      | Some plan \<Rightarrow> pthen (plift (validate_executors plan)) (pbind pget (\<lambda>s. pbind (plift (plan_state (rt_context s))) (\<lambda>d.
          if in_phase phase_summarizing d \<or> in_phase phase_updating d then planned_turn srv pc else execute_plan srv pc plan))))"
    by (auto intro!: from_basic from_sound [OF sound_request [OF good t]] from_sound [OF sound_turn [OF good t]] from_execute [OF good t] from_lift from_get
        split: option.split)
qed

subsection \<open>A segment keeps its plan\<close>

lemma update_kept:
  assumes p: "rc_plan (rt_context s) = Some p" and r: "\<And>q. r = Inr q \<Longrightarrow> plan_move p q"
  shows "plan_kept s (snd (pbind (plift r) (\<lambda>q. update_execution_plan srv pt q b) s))"
proof (cases r)
  case (Inr q)
  obtain v s' where v: "update_execution_plan srv pt q b s = (v, s')" by (cases "update_execution_plan srv pt q b s")
  from update_cases [OF v] p r [OF Inr] have "plan_kept s s'" by (auto simp: plan_kept_def intro: move_continues continues_refl)
  with v Inr show ?thesis by (simp add: pbind_app)
qed (simp add: pbind_app plan_kept_same)

lemma settle_kept: "keeps plan_kept (settle_terminal_plan srv pc)"
  unfolding keeps_def
proof
  fix s :: "'a runtime"
  have get: "pbind pget g s = g s s" for g :: "'a runtime \<Rightarrow> ('a, unit) run_task" by (simp add: pbind_app)
  show "plan_kept s (snd (settle_terminal_plan srv pc s))"
  proof (cases "rc_plan (rt_context s)")
    case (Some p)
    show ?thesis unfolding settle_terminal_plan_def Let_def get Some option.case
      by (auto intro!: plan_kept_same update_kept [OF Some] intro: plan_move.intros)
  qed (simp add: settle_terminal_plan_def get Let_def plan_kept_same)
qed

lemma planless_begin: "keeps same_plan (begin_segment x)"
proof -
  have "keeps same_plan (take_answer srv p a)" for srv :: "'a services" and p a
    unfolding take_answer_def answer_pending_def by (auto intro!: planless split: resume_answer.split)
  moreover have "keeps same_plan (announce_answer srv p a)" for srv :: "'a services" and p a
    unfolding announce_answer_def by (auto intro!: planless split: resume_answer.split)
  ultimately have "keeps same_plan (prepare_resume srv i cf)" for srv :: "'a services" and i cf
    unfolding prepare_resume_def by (auto intro!: planless split: option.split)
  moreover have "keeps same_plan (create_stored_run srv)" "keeps same_plan (announce_start srv)" for srv :: "'a services"
    unfolding create_stored_run_def store_new_run_def announce_created_def announce_start_def
    by (auto simp: Let_def intro!: planless split: option.split)
  ultimately show ?thesis unfolding begin_segment_def enter_segment_def by (auto intro!: planless split: run_status.split)
qed

lemma planless_gate: "bounded_supervisor (srv_supervisor srv) \<Longrightarrow> keeps same_plan (turn_gate srv)"
  unfolding turn_gate_def bounded_supervisor_def by (auto intro!: planless planless_hook)

lemma planless_release [planless]: "keeps same_plan (close_scope cd err)"
  unfolding close_scope_def release_resource_def emit_failure_def by (auto simp: Let_def intro!: planless split: option.split sum.split)

lemma planless_open [planless]: "keeps same_plan (start_scope cd)" "keeps same_plan (initialize_memories cd my)"
  unfolding start_scope_def initialize_memories_def by (auto simp: Let_def intro!: planless split: option.split sum.split)

lemma planless_stores [planless]: "keeps same_plan (settle_stores x)"
proof -
  have "keeps same_plan finish_conversation"
    by (auto simp: keeps_def finish_conversation_def Let_def split: option.split prod.split sum.split)
  then show ?thesis unfolding settle_stores_def store_checkpoint_def finalize_run_def by (auto simp: Let_def intro!: planless split: option.split)
qed

lemma planless_outcome: "keeps same_plan (absorb_outcome srv res)" "keeps same_plan (close_segment x err)"
  unfolding absorb_outcome_def interrupt_run_def close_segment_def by (auto intro!: planless split: sum.split)

lemma kept_try:
  assumes m: "keeps plan_kept m" and h: "\<And>r. keeps plan_kept (h r)"
  shows "keeps plan_kept (ptry m h)"
  unfolding keeps_def
proof
  fix s :: "'a runtime"
  obtain r s1 where r: "m s = (r, s1)" by (cases "m s")
  have "ptry m h s = h r s1" using r by (simp add: ptry_app)
  moreover have "plan_kept s1 (snd (h r s1))" using h by (simp add: keeps_def)
  ultimately show "plan_kept s (snd (ptry m h s))" using plan_kept_trans [OF keepsD [OF m r]] by simp
qed

lemma kept_planless: "keeps same_plan m \<Longrightarrow> keeps plan_kept m"
  by (simp add: keeps_def plan_kept_same)

lemma conclude_kept:
  assumes sg: "\<And>m. sg_settle sg = Some m \<Longrightarrow> keeps plan_kept m"
  shows "keeps plan_kept (conclude x sg res)"
proof -
  have "keeps plan_kept (settle_run x sg)" unfolding settle_run_def
    using sg by (auto intro!: kept.bind kept.basic kept_planless [OF planless_stores] split: option.split)
  then show ?thesis unfolding conclude_def Let_def
    by (auto intro!: kept_try kept.bind kept.basic kept_planless [OF planless_outcome(1)] kept_planless [OF planless_outcome(2)])
qed

lemma loop_kept:
  assumes sg: "sound (sg_advance sg)" and sv: "bounded_supervisor (srv_supervisor srv)"
  shows "phase_ok s \<Longrightarrow> run_loop fuel srv sg s = Some (r, s') \<Longrightarrow> plan_kept s s'"
proof (induction fuel arbitrary: s)
  case 0
  then show ?case by (auto simp: plan_kept_same split: if_splits)
next
  case (Suc n)
  have turn: "sound (run_turn srv sg)" unfolding run_turn_def
    using sg by (auto intro!: sound_rules sound_planless [OF planless_gate [OF sv]])
  show ?case
  proof (cases "rc_state (rt_context s) = Running")
    case True
    obtain q s1 where q: "run_turn srv sg s = (q, s1)" by (cases "run_turn srv sg s")
    from guardedD [OF turn Suc.prems(1) q] have s1: "plan_kept s s1" "\<And>x. q = Inr x \<Longrightarrow> phase_ok s1" by auto
    from Suc.prems(2) True q have "s' = s1 \<or> (\<exists>x. q = Inr x \<and> run_loop n srv sg s1 = Some (r, s'))"
      by (auto split: sum.splits if_splits)
    with s1 Suc.IH plan_kept_trans [OF s1(1)] show ?thesis by blast
  qed (use Suc.prems(2) in \<open>simp add: plan_kept_same\<close>)
qed

lemma execution_kept:
  assumes good: "good_services sha my (xn_services x)" and sg: "sound (sg_advance (active_strategy (xn_runtime x) (rt_context s)))"
    "\<And>m. sg_settle (active_strategy (xn_runtime x) (rt_context s)) = Some m \<Longrightarrow> keeps plan_kept m"
    and s: "phase_ok s" and r: "execute_run x fuel s = Some (res, s')"
  shows "plan_kept s s'"
proof -
  let ?sg = "active_strategy (xn_runtime x) (rt_context s)" and ?cd = "srv_codec (xn_services x)"
  obtain b s1 where b: "begin_segment x s = (b, s1)" by (cases "begin_segment x s")
  from keepsD [OF planless_begin b] have s1: "plan_kept s s1" "phase_ok s1" using kept.same_plan_related kept.same_plan_inv s by blast+
  show ?thesis
  proof (cases b)
    case (Inr u)
    with r b obtain q s2 where q: "run_segment x ?sg fuel s1 = Some (q, s2)" "conclude x ?sg q s2 = (res, s')"
      by (auto simp: execute_run_def Let_def split: option.splits)
    let ?m = "pthen (start_scope ?cd) (initialize_memories ?cd (xn_memories x))"
    have m: "keeps same_plan ?m" by (intro planless)
    obtain c s3 where c: "?m s1 = (c, s3)" by (cases "?m s1")
    from keepsD [OF m c] have s3: "plan_kept s1 s3" "phase_ok s3" using kept.same_plan_related kept.same_plan_inv s1(2) by blast+
    from q(1) c have "s2 = s3 \<or> run_loop fuel (xn_services x) ?sg s3 = Some (q, s2)" by (auto simp: run_segment_def Let_def split: sum.splits)
    then have "plan_kept s3 s2" using loop_kept [OF sg(1) bounded [OF good] s3(2)] by (auto simp: plan_kept_same)
    moreover have "plan_kept s2 s'" using keepsD [OF conclude_kept [OF sg(2)] q(2)] .
    ultimately show ?thesis using s1(1) s3(1) plan_kept_trans by blast
  qed (use r b s1 in \<open>simp add: execute_run_def Let_def\<close>)
qed

subsection \<open>Results in a prompt\<close>

lemma rendered_size:
  "0 < n \<Longrightarrow> (\<Sum>t\<leftarrow>render_results pt qs n. int (length t)) \<le> n \<and> length (render_results pt qs n) \<le> length qs \<and> [] \<notin> set (render_results pt qs n)"
proof (induction qs arbitrary: n)
  case (Cons q qs)
  let ?line = "result_line pt q"
  let ?shown = "if n < int (length ?line) then take (nat (max (n - 1) 0)) ?line @ [pt_ellipsis pt] else ?line"
  have l: "int (length ?shown) \<le> n" "?shown \<noteq> []" using Cons.prems by (auto simp: result_line_def)
  show ?case
  proof (cases "n - int (length ?shown) \<le> 0")
    case False
    with Cons.IH [of "n - int (length ?shown)"] l show ?thesis by (simp add: Let_def)
  qed (use l in \<open>auto simp: Let_def\<close>)
qed simp

lemma join_length: "length (join_with [c] ts) = sum_list (map length ts) + (length ts - 1)"
  by (induction "[c]" ts rule: join_with.induct) auto

lemma int_sum_lengths: "(\<Sum>t\<leftarrow>ts. int (length t)) = int (sum_list (map length ts))"
  by (induction ts) simp_all

lemma nonempty_sum: "[] \<notin> set ts \<Longrightarrow> length ts \<le> sum_list (map length ts)"
proof (induction ts)
  case (Cons t ts)
  then show ?case by (cases t) auto
qed simp

subsection \<open>Properties\<close>

text \<open>The example: the run of theory \<open>Settlement\<close> with a plan of two steps.\<close>

definition ex_texts :: plan_texts where
  "ex_texts = \<lparr>pt_dumps = (\<lambda>_. []), pt_str = (\<lambda>_. []), pt_plan = pl_title, pt_step = ps_description, pt_step_json = (\<lambda>q. JStr (ps_id q)),
     pt_parse_plan = (\<lambda>_. make_plan 10 ex_plan), pt_parse_step = (\<lambda>_. Inr (ex_step ''c'' [''a''])), pt_ellipsis = CHR ''.'', pt_frames = 10\<rparr>"

definition ex_planning :: planning_strategy where
  "ex_planning = \<lparr>pc_summarize = True, pc_replan = True, pc_max_iterations = 5, pc_texts = ex_texts\<rparr>"

definition ex_planned :: "nat execution" where
  "ex_planned = ex_execution\<lparr>xn_runtime := (xn_runtime ex_execution)\<lparr>ar_planning := Some \<lparr>sg_advance = planning_advance ex_services ex_planning,
     sg_settle = Some (settle_terminal_plan ex_services ex_planning)\<rparr>\<rparr>\<rparr>"

definition ex_plan_start :: "nat runtime" where
  "ex_plan_start = ex_start\<lparr>rt_context := (rt_context ex_start)\<lparr>rc_plan := Some ex_plan\<rparr>\<rparr>"

lemma ex_plan_start_context: "rc_plan (rt_context ex_plan_start) = Some ex_plan" "plan_inv ex_plan" "phase_ok ex_plan_start"
  "ap_max_steps (rc_profile (rt_context ex_plan_start)) = 10" "rc_step_count (rt_context ex_plan_start) = 0"
proof -
  have "rc_supervision (rt_context ex_start) = []"
    using ex_start_context(1) by (auto simp: ex_start_def create_context_def ex_segment_def ex_runtime_def split: sum.splits if_splits)
  then show "phase_ok ex_plan_start" by (simp add: phase_ok_def ex_plan_start_def)
  show "plan_inv ex_plan" by (rule plan_run_inv [OF ex_plan_runs(1)])
qed (simp_all add: ex_plan_start_def ex_start_context ex_profile_def)

lemma ex_planned_fit: "fit ex_sha ex_planned ex_plan_start" "conversation_ready ex_plan_start" "startable ex_planned ex_plan_start"
proof -
  show "fit ex_sha ex_planned ex_plan_start" using ex_fit by (simp add: fit_def ex_plan_start_def ex_planned_def stored_def)
  show "conversation_ready ex_plan_start"
    using ex_conversation_ready unfolding conversation_ready_def ex_plan_start_def by (simp add: ex_start_context)
  show "startable ex_planned ex_plan_start"
    using ex_startable by (simp add: startable_def ex_plan_start_def ex_planned_def new_run_def valid_run_def)
qed

lemma ex_checked: "checked_texts (pc_texts ex_planning)"
proof -
  have "valid_step (ex_step ''c'' [''a''])" by code_simp
  then show ?thesis using ex_plan_facts(1) by (simp add: checked_texts_def ex_planning_def ex_texts_def)
qed

lemma ex_active: "active_strategy (xn_runtime ex_planned) (rt_context ex_plan_start) =
   \<lparr>sg_advance = planning_advance (xn_services ex_planned) ex_planning, sg_settle = Some (settle_terminal_plan (xn_services ex_planned) ex_planning)\<rparr>"
  by (simp add: active_strategy_def ex_planned_def ex_plan_start_def ex_execution_def)

text \<open>
  C37. A planned run never loses its history, whatever the model answers: a segment with the planning
  strategy ends within its step budget, and then the plan is the same plan at a later revision, well formed
  and with its dependencies respected, every step that was completed, failed, cancelled or skipped before is
  still in it unchanged, and the plan is closed unless the run completed or waits.
\<close>

theorem planned_history_kept:
  assumes "fit sha x s" "begin_segment x s = (Inr u, s1)" "conversation_ready s"
    and sg: "active_strategy (xn_runtime x) (rt_context s) =
      \<lparr>sg_advance = planning_advance (xn_services x) pc, sg_settle = Some (settle_terminal_plan (xn_services x) pc)\<rparr>"
    and "2 * nat (ap_max_steps (rc_profile (rt_context s)) - rc_step_count (rt_context s)) + 3 < fuel"
    and t: "checked_texts (pc_texts pc)" and s: "phase_ok s" and p: "rc_plan (rt_context s) = Some p" "plan_inv p"
  shows "\<exists>res s' p'. execute_run x fuel s = Some (res, s') \<and> rc_plan (rt_context s') = Some p' \<and> plan_inv p' \<and> pl_id p' = pl_id p \<and>
    pl_revision p \<le> pl_revision p' \<and> (\<forall>q \<in> set (pl_steps p). historical (ps_status q) \<longrightarrow> q \<in> set (pl_steps p')) \<and>
    (rc_state (rt_context s') \<in> {Failed, Cancelled, Interrupted, LimitReached} \<longrightarrow> pl_status p' \<in> {PlanCompleted, PlanFailed, PlanCancelled})"
proof -
  have good: "good_services sha (xn_memories x) (xn_services x)" using assms(1) by (simp add: fit_def)
  have ref: "reference_strategy (xn_services x) (active_strategy (xn_runtime x) (rt_context s))" by (auto simp: sg reference_strategy_def)
  from execute_ends [OF assms(1) ref assms(3,2,5)] obtain res s' where e: "execute_run x fuel s = Some (res, s')" "plan_settled (rt_context s')"
    by (auto simp: sg ended_def)
  have "plan_kept s s'"
    by (rule execution_kept [OF good _ _ s e(1)]) (auto simp: sg sound_advance [OF good t] settle_kept)
  with p obtain p' where "rc_plan (rt_context s') = Some p'" "continues p p'" by (auto simp: plan_kept_def)
  with e show ?thesis by (auto simp: continues_def plan_settled_def)
qed

theorem planned_history_kept_witness:
  "\<exists>res s' p'. execute_run ex_planned 24 ex_plan_start = Some (res, s') \<and> rc_plan (rt_context s') = Some p' \<and> plan_inv p' \<and> pl_id p' = pl_id ex_plan"
proof -
  have fuel: "2 * nat (ap_max_steps (rc_profile (rt_context ex_plan_start)) - rc_step_count (rt_context ex_plan_start)) + 3 < 24"
    by (simp add: ex_plan_start_context)
  from new_run_begins [OF ex_planned_fit(1,3)] obtain s1 where "begin_segment ex_planned ex_plan_start = (Inr (), s1)" by blast
  from planned_history_kept [OF ex_planned_fit(1) this ex_planned_fit(2) ex_active fuel ex_checked ex_plan_start_context(3,1,2)]
  show ?thesis by blast
qed

text \<open>
  C38. Replanning: when a review of the plan is accepted, the new plan is the unchanged plan, or it consists of
  exactly the settled steps of the old one, in their order, followed by the proposed steps, all of them pending,
  and it is again a valid plan whose dependencies are known and acyclic.
\<close>

theorem review_exact:
  assumes "checked_texts (pc_texts pc)" "plan_inv p" "review_plan pc w p content = Inr (future, changed, p')"
  shows "if changed then pl_steps p' = filter (\<lambda>q. historical (ps_status q)) (pl_steps p) @ future \<and> plan_inv p' \<and>
      list_all (\<lambda>q. ps_status q = StepPending) future \<and> pl_id p' = pl_id p \<and> pl_revision p < pl_revision p'
    else p' = p"
proof -
  from assms(3) have f: "parse_replanned_steps (pc_texts pc) w content = Inr future" by (auto simp: review_plan_def Let_def rbind_Inr_iff)
  have "changed \<Longrightarrow> pl_revision p < pl_revision p'"
    using assms(3) by (auto simp: review_plan_def merge_replanned_steps_def validate_plan_def Let_def rbind_Inr_iff split: if_splits sum.splits)
  with review_continues [OF assms] replanned_steps(2) [OF assms(1) f] show ?thesis by (cases changed) (simp_all add: continues_def)
qed

text \<open>The example: the first step is done, and the model proposes another one that needs its result.\<close>

definition ex_plan2 :: execution_plan where
  "ex_plan2 = projr (complete_step ex_plan1 ''a'' None None [] [])"

definition ex_review_wire :: wire where
  "ex_review_wire = ex_wire\<lparr>wr_loads := (\<lambda>_. Inr (JObj [(''steps'', JList [JNull])]))\<rparr>"

lemma ex_review:
  "\<exists>p'. review_plan ex_planning ex_review_wire ex_plan2 [] = Inr ([ex_step ''c'' [''a'']], True, p')" "complete_step ex_plan1 ''a'' None None [] [] = Inr ex_plan2"
proof -
  have "fst (snd (projr (review_plan ex_planning ex_review_wire ex_plan2 [])))" "fst (projr (review_plan ex_planning ex_review_wire ex_plan2 [])) = [ex_step ''c'' [''a'']]"
    "\<not> isl (review_plan ex_planning ex_review_wire ex_plan2 [])" by code_simp+
  then show "\<exists>p'. review_plan ex_planning ex_review_wire ex_plan2 [] = Inr ([ex_step ''c'' [''a'']], True, p')"
    by (cases "review_plan ex_planning ex_review_wire ex_plan2 []") auto
  show "complete_step ex_plan1 ''a'' None None [] [] = Inr ex_plan2" by code_simp
qed

theorem review_exact_witness:
  "\<exists>p'. review_plan ex_planning ex_review_wire ex_plan2 [] = Inr ([ex_step ''c'' [''a'']], True, p') \<and>
     pl_steps p' = filter (\<lambda>q. historical (ps_status q)) (pl_steps ex_plan2) @ [ex_step ''c'' [''a'']] \<and> plan_inv p'"
proof -
  have "plan_inv ex_plan2" by (rule plan_move_inv [OF plan_run_inv [OF ex_plan_runs(2)] move_complete [OF ex_review(2)]])
  with ex_review(1) review_exact [OF ex_checked] show ?thesis by fastforce
qed

text \<open>
  The results of a plan that go into a prompt are bounded: the lines have at most 12000 characters
  together, so that with the separators the text has fewer than 24000, whatever the number and the size of
  the results.
\<close>

theorem bounded_results_fit:
  "length (bounded_results pt plan) \<le> 12000 + (length (pl_steps plan) - 1) \<and> length (bounded_results pt plan) < 24000"
proof -
  let ?ts = "render_results pt (pl_steps plan) 12000"
  from rendered_size [of 12000 pt "pl_steps plan"] have r: "(\<Sum>t\<leftarrow>?ts. int (length t)) \<le> 12000" "length ?ts \<le> length (pl_steps plan)" "[] \<notin> set ?ts"
    by auto
  then have "sum_list (map length ?ts) \<le> 12000" by (simp add: int_sum_lengths)
  with r(2) nonempty_sum [OF r(3)] show ?thesis by (auto simp: bounded_results_def join_length)
qed

end
