(* ===== verification/Flow_Sequential.thy ===== *)
theory Flow_Sequential
  imports Flow_Service Flow_Budget
begin

text \<open>
  \<open>flows/sequential.py\<close>: \<open>SequentialFlowStrategy\<close>, which invokes every bound agent once, in
  declaration order, over the lifecycle service and the budget policy.

  The agent invoker is application code behind the protocols of \<open>flows/protocol.py\<close>, so it is a
  parameter. Awaiting one of its calls yields an outcome and leaves the repository in whatever
  state the other clients have brought it to in the meantime; the call gets the remaining time of
  the Flow's deadline, under which \<open>asyncio.timeout\<close> runs it. \<open>TimedOut\<close> is \<open>TimeoutError\<close>, raised by
  the deadline or by the invoker itself, \<open>WasCancelled\<close> is \<open>asyncio.CancelledError\<close>, and \<open>Raised\<close> is
  any other exception, by its class name and text.
\<close>

subsection \<open>The invoker and the strategy\<close>

datatype 'a transport = Returned 'a | TimedOut | WasCancelled | Raised string string

record invoker =
  ivk_invoke :: "seconds option \<Rightarrow> agent_invocation_request \<Rightarrow> flow_repo \<Rightarrow>
    agent_invocation_result transport \<times> flow_repo"
  ivk_resume :: "seconds option \<Rightarrow> agent_invocation_resume \<Rightarrow> flow_repo \<Rightarrow>
    agent_invocation_result transport \<times> flow_repo"
  ivk_cancel :: "(agent_invocation_cancel \<Rightarrow> flow_repo \<Rightarrow> unit transport \<times> flow_repo) option"

text \<open>The strategy's collaborators; \<open>sq_digest\<close> is SHA-256 over canonical JSON.\<close>

record sequential =
  sq_digest :: "json \<Rightarrow> string"
  sq_lease :: "flow_lease option"
  sq_invoker :: invoker

definition await :: "(flow_repo \<Rightarrow> 'a transport \<times> flow_repo) \<Rightarrow> 'a transport repo_prog" where
  "await m = (\<lambda>r. case m r of (t, r') \<Rightarrow> (Inr t, r'))"

text \<open>\<open>str(exc)\<close>; the text of the classes without one here is never used by this module.\<close>

fun exn_text :: "exn \<Rightarrow> string" where
  "exn_text (ValueError t) = t"
| "exn_text (FlowWorkBlockedError t) = t"
| "exn_text (OtherError n t) = t"
| "exn_text _ = []"

subsection \<open>Results\<close>

text \<open>\<open>_flow_result\<close>.\<close>

definition flow_result_of :: "flow_run_state \<Rightarrow> exn + flow_result" where
  "flow_result_of st =
     rbind (if fs_status st = Waiting
            then case active_invocation st of None \<Rightarrow> Inl AssertionError
              | Some a \<Rightarrow> (case inv_result a of None \<Rightarrow> Inl AssertionError
                 | Some r \<Rightarrow> Inr (ar_pending_input r, Some (inv_id a)))
            else Inr (None, None)) (\<lambda>(pending, waiting).
     construct valid_flow_result
       \<lparr>fr_run_id = fs_run_id st, fr_status = fs_status st, fr_output = fs_output st,
        fr_usage = state_usage st,
        fr_artifacts = concat (map (\<lambda>i. case inv_result i of None \<Rightarrow> [] | Some r \<Rightarrow> ar_artifacts r)
          (fs_invocations st)),
        fr_invocation_count = int (length (fs_invocations st)),
        fr_model_call_count = model_call_count st, fr_tool_call_count = tool_call_count st,
        fr_waiting_invocation_id = waiting, fr_pending_input = pending, fr_error = fs_error st\<rparr>)"

text \<open>\<open>x or default\<close> of an optional string.\<close>

definition str_or :: "string option \<Rightarrow> string \<Rightarrow> string" where
  "str_or x d = (case x of None \<Rightarrow> d | Some s \<Rightarrow> if s = [] then d else s)"

text \<open>\<open>_handoff\<close>.\<close>

definition handoff_of :: "agent_invocation_result option \<Rightarrow> exn + agent_handoff option" where
  "handoff_of result = (case result of None \<Rightarrow> Inr None
     | Some r \<Rightarrow> rbind (construct valid_handoff
         \<lparr>ho_source_agent_key = ar_agent_key r,
          ho_summary = str_or (ar_output r) ''Agent completed without textual output.'',
          ho_data = ar_metadata r, ho_artifacts = ar_artifacts r\<rparr>) (\<lambda>h. Inr (Some h)))"

subsection \<open>Endings\<close>

definition terminal_after_race :: "uuid \<Rightarrow> flow_result option repo_prog" where
  "terminal_after_race run_id = pbind (svc_get run_id) (\<lambda>current.
     if terminal (fs_status current)
     then pbind (plift (flow_result_of current)) (\<lambda>res. pret (Some res)) else pret None)"

definition propagate_cancellation :: "sequential \<Rightarrow> agent_invocation \<Rightarrow> string \<Rightarrow> unit repo_prog" where
  "propagate_cancellation sq i reason =
     pbind (plift (construct valid_cancel \<lparr>cn_flow_run_id = inv_flow_run_id i, cn_invocation_id = inv_id i,
       cn_agent_key = inv_agent_key i, cn_reason = reason\<rparr>)) (\<lambda>request.
     case ivk_cancel (sq_invoker sq) of
       None \<Rightarrow> record_cancellation_propagation_failure (sq_lease sq) (inv_flow_run_id i) i
                ''CancellationNotSupported''
     | Some f \<Rightarrow> pbind (await (f request)) (\<lambda>t. case t of
         Returned u \<Rightarrow> pret ()
       | WasCancelled \<Rightarrow> praise CancelledError
       | TimedOut \<Rightarrow> record_cancellation_propagation_failure (sq_lease sq) (inv_flow_run_id i) i ''TimeoutError''
       | Raised n _ \<Rightarrow> record_cancellation_propagation_failure (sq_lease sq) (inv_flow_run_id i) i n))"

text \<open>\<open>violation.model_dump(mode="json")\<close>.\<close>

definition violation_json :: "budget_exceeded \<Rightarrow> json" where
  "violation_json v = JObj [(''kind'', JStr (budget_kind_value (be_kind v))),
     (''limit'', JFloat (be_limit v)), (''actual'', JFloat (be_actual v))]"

definition reach_budget_limit :: "sequential \<Rightarrow> uuid \<Rightarrow> budget_exceeded \<Rightarrow> flow_result repo_prog" where
  "reach_budget_limit sq run_id violation =
     pbind (svc_get run_id) (\<lambda>current.
     if terminal (fs_status current) then plift (flow_result_of current)
     else pbind (svc_reach_limit (sq_lease sq) run_id (violation_message violation)
            [(''budget'', violation_json violation)]) (\<lambda>limited.
          pbind (case active_invocation current of
              Some a \<Rightarrow> (if inv_status a = Waiting
                then propagate_cancellation sq a (violation_message violation) else pret ())
            | None \<Rightarrow> pret ()) (\<lambda>_.
          plift (flow_result_of limited))))"

definition timeout_limit :: "sequential \<Rightarrow> flow_run_state \<Rightarrow> flow_result repo_prog" where
  "timeout_limit sq st =
     pbind utc_now (\<lambda>now.
     pbind (plift (consumption st now)) (\<lambda>c.
     case timeout_seconds (fs_budget st) of None \<Rightarrow> praise AssertionError
     | Some t \<Rightarrow> reach_budget_limit sq (fs_run_id st)
         \<lparr>be_kind = TimeoutSeconds, be_limit = t, be_actual = max t (fc_elapsed_seconds c)\<rparr>))"

definition transport_failure ::
  "sequential \<Rightarrow> uuid \<Rightarrow> string \<Rightarrow> string \<Rightarrow> string \<Rightarrow> string \<Rightarrow> flow_result repo_prog" where
  "transport_failure sq run_id agent_key operation ename etext =
     pbind (terminal_after_race run_id) (\<lambda>t. case t of Some res \<Rightarrow> pret res
     | None \<Rightarrow> pbind (svc_fail (sq_lease sq) run_id (''Agent '' @ [CHR 0x27] @ agent_key @ [CHR 0x27] @
           '' '' @ operation @ '' raised '' @ ename @ '': '' @ etext)) (\<lambda>failed.
         plift (flow_result_of failed)))"

definition handle_outcome ::
  "sequential \<Rightarrow> flow_run_state \<Rightarrow> agent_invocation_result \<Rightarrow> flow_result option repo_prog" where
  "handle_outcome sq st result =
     (if ar_status result = ACompleted then pret None
      else if ar_status result = AWaiting
      then pbind (plift (flow_result_of st)) (\<lambda>res. pret (Some res))
      else let err = str_or (ar_error result)
             (''Agent '' @ [CHR 0x27] @ ar_agent_key result @ [CHR 0x27] @ '' did not complete'') in
        pbind (if ar_status result = AFailed then svc_fail (sq_lease sq) (fs_run_id st) err
               else if ar_status result = ACancelled then svc_cancel (sq_lease sq) (fs_run_id st) err
               else if ar_status result = AInterrupted then svc_interrupt (sq_lease sq) (fs_run_id st) err
               else svc_reach_limit (sq_lease sq) (fs_run_id st) err []) (\<lambda>ended.
        pbind (plift (flow_result_of ended)) (\<lambda>res. pret (Some res))))"

subsection \<open>The loop\<close>

definition within_deadline :: "flow_run_state \<Rightarrow>
    (seconds option \<Rightarrow> flow_repo \<Rightarrow> agent_invocation_result transport \<times> flow_repo) \<Rightarrow>
    agent_invocation_result transport repo_prog" where
  "within_deadline st operation = pbind utc_now (\<lambda>now. await (operation (remaining_seconds st now)))"

text \<open>
  What follows a transport call, in \<open>_advance\<close> and in \<open>_resume_waiting\<close>: the result is \<open>Inl\<close> when
  the Flow's turn ends and \<open>Inr\<close> with the settled aggregate when the loop goes on.
\<close>

definition settle_outcome :: "sequential \<Rightarrow> flow_run_state \<Rightarrow> string \<Rightarrow> string \<Rightarrow> string \<Rightarrow>
    agent_invocation_result transport \<Rightarrow>
    (flow_result + flow_run_state \<times> agent_invocation_result) repo_prog" where
  "settle_outcome sq st agent_key operation cancelled_text outcome = (case outcome of
     TimedOut \<Rightarrow> pbind (timeout_limit sq st) (\<lambda>res. pret (Inl res))
   | WasCancelled \<Rightarrow> pbind (svc_interrupt (sq_lease sq) (fs_run_id st) cancelled_text) (\<lambda>_. praise CancelledError)
   | Raised n t \<Rightarrow> pbind (transport_failure sq (fs_run_id st) agent_key operation n t) (\<lambda>res. pret (Inl res))
   | Returned result \<Rightarrow> ptry (svc_settle_invocation (sq_lease sq) (fs_run_id st) result) (\<lambda>settled.
       case settled of
         Inl e \<Rightarrow>
           (if e = InvalidFlowTransitionError
            then pbind (terminal_after_race (fs_run_id st)) (\<lambda>t. case t of Some res \<Rightarrow> pret (Inl res)
                 | None \<Rightarrow> praise e)
            else if is_value_error e
            then pbind (transport_failure sq (fs_run_id st) agent_key
                   (operation @ '' returned an invalid result'') (exn_name e) (exn_text e)) (\<lambda>res. pret (Inl res))
            else praise e)
       | Inr st' \<Rightarrow> pbind utc_now (\<lambda>now. pbind (plift (after_transport st' now)) (\<lambda>v. case v of
           Some violation \<Rightarrow> pbind (reach_budget_limit sq (fs_run_id st') violation) (\<lambda>res. pret (Inl res))
         | None \<Rightarrow> pbind (handle_outcome sq st' result) (\<lambda>t. case t of Some res \<Rightarrow> pret (Inl res)
             | None \<Rightarrow> pret (Inr (st', result)))))))"

text \<open>One pass of the \<open>while\<close> loop of \<open>_advance\<close>.\<close>

definition advance_step :: "sequential \<Rightarrow> flow_definition \<Rightarrow> flow_input \<Rightarrow> flow_run_state \<Rightarrow>
    agent_invocation_result option \<Rightarrow>
    (flow_result + flow_run_state \<times> agent_invocation_result) repo_prog" where
  "advance_step sq d inp st previous =
     pbind utc_now (\<lambda>now. pbind (plift (before_transport st now True)) (\<lambda>v. case v of
       Some violation \<Rightarrow> pbind (reach_budget_limit sq (fs_run_id st) violation) (\<lambda>res. pret (Inl res))
     | None \<Rightarrow> (let binding = fd_agents d ! length (fs_invocations st) in
         pbind (plift (handoff_of previous)) (\<lambda>h.
         pbind (plift (construct valid_invocation_input
           \<lparr>ii_prompt = fi_prompt inp, ii_handoff = h, ii_attachments = fi_attachments inp\<rparr>)) (\<lambda>ii.
         pbind uuid4 (\<lambda>iid.
         pbind (plift (construct valid_request
           \<lparr>rq_flow_run_id = fs_run_id st, rq_invocation_id = iid,
            rq_sequence = int (length (fs_invocations st)) + 1, rq_agent_key = fa_key binding,
            rq_definition_id = ap_id (fa_definition binding),
            rq_definition_version = ad_version (fa_definition binding),
            rq_definition_fingerprint = agent_fingerprint (sq_digest sq) (fa_definition binding),
            rq_input = ii\<rparr>)) (\<lambda>request.
         pbind (svc_begin_invocation (sq_digest sq) (sq_lease sq) (fs_run_id st) request d) (\<lambda>st1.
         pbind (within_deadline st1 (\<lambda>left. ivk_invoke (sq_invoker sq) left request)) (\<lambda>outcome.
         settle_outcome sq st1 (fa_key binding) ''invoke'' ''Sequential Flow execution cancelled'' outcome)))))))))"

text \<open>The end of \<open>_advance\<close>.\<close>

definition finish_flow :: "sequential \<Rightarrow> flow_run_state \<Rightarrow> agent_invocation_result option \<Rightarrow> flow_result repo_prog" where
  "finish_flow sq st previous = (case previous of None \<Rightarrow> praise AssertionError
     | Some p \<Rightarrow> pbind (svc_complete (sq_lease sq) (fs_run_id st) (str_or (ar_output p) [])) (\<lambda>completed.
         plift (flow_result_of completed)))"

text \<open>
  \<open>_advance\<close>. The fuel bounds the number of passes; \<open>None\<close> means that it ran out.
  \<open>advance_ok\<close> shows that one unit per bound agent is enough.
\<close>

fun advance :: "nat \<Rightarrow> sequential \<Rightarrow> flow_definition \<Rightarrow> flow_input \<Rightarrow> flow_run_state \<Rightarrow>
    agent_invocation_result option \<Rightarrow> flow_repo \<Rightarrow> ((exn + flow_result) \<times> flow_repo) option" where
  "advance fuel sq d inp st previous r =
     (if length (fs_invocations st) < length (fd_agents d)
      then (case fuel of 0 \<Rightarrow> None
        | Suc n \<Rightarrow> (case advance_step sq d inp st previous r of
            (Inl e, r') \<Rightarrow> Some (Inl e, r')
          | (Inr (Inl res), r') \<Rightarrow> Some (Inr res, r')
          | (Inr (Inr (st', p)), r') \<Rightarrow> advance n sq d inp st' (Some p) r'))
      else Some (finish_flow sq st previous r))"

declare advance.simps [simp del]

subsection \<open>Entry points\<close>

definition require_supported :: "flow_definition \<Rightarrow> exn + unit" where
  "require_supported d = guard (fd_strategy d = ''sequential'') UnsupportedFlowStrategyError"

definition require_definition :: "(json \<Rightarrow> string) \<Rightarrow> flow_run_state \<Rightarrow> flow_definition \<Rightarrow> exn + unit" where
  "require_definition digest st d =
     guard (fs_definition_id st = fd_id d \<and> fs_definition_version st = fd_version d \<and>
        fs_definition_fingerprint st = flow_fingerprint digest d)
       (ValueError ''FlowDefinition does not match this Flow Run'')"

definition seq_begin :: "sequential \<Rightarrow> flow_definition \<Rightarrow> uuid option \<Rightarrow> flow_run_state repo_prog" where
  "seq_begin sq d run_id =
     pbind (plift (require_supported d)) (\<lambda>_.
     pbind utc_now (\<lambda>now.
     pbind (svc_create (sq_digest sq) d run_id (Some now)) (\<lambda>st.
     svc_start (sq_lease sq) (fs_run_id st))))"

definition seq_run :: "sequential \<Rightarrow> flow_definition \<Rightarrow> flow_input \<Rightarrow> uuid option \<Rightarrow> flow_repo \<Rightarrow>
    ((exn + flow_result) \<times> flow_repo) option" where
  "seq_run sq d inp run_id r = (case seq_begin sq d run_id r of
     (Inl e, r') \<Rightarrow> Some (Inl e, r')
   | (Inr st, r') \<Rightarrow> advance (length (fd_agents d)) sq d inp st None r')"

text \<open>
  \<open>_resume_waiting\<close> up to the call of \<open>_advance\<close>: \<open>Inl\<close> when the turn ends before it, otherwise the
  input, the settled aggregate and the result to hand off.
\<close>

definition resume_settle :: "sequential \<Rightarrow> flow_definition \<Rightarrow> uuid \<Rightarrow> string option \<Rightarrow>
    tool_confirmation option \<Rightarrow>
    (flow_result + flow_input \<times> flow_run_state \<times> agent_invocation_result) repo_prog" where
  "resume_settle sq d run_id user_input confirmation =
     pbind (plift (require_supported d)) (\<lambda>_.
     pbind (svc_get run_id) (\<lambda>waiting.
     pbind (plift (require_definition (sq_digest sq) waiting d)) (\<lambda>_.
     pbind utc_now (\<lambda>now. pbind (plift (before_transport waiting now False)) (\<lambda>v. case v of
       Some violation \<Rightarrow> pbind (reach_budget_limit sq (fs_run_id waiting) violation) (\<lambda>res. pret (Inl res))
     | None \<Rightarrow> (case active_invocation waiting of
         None \<Rightarrow> praise (ValueError ''Flow Run has no waiting AgentInvocation'')
       | Some active \<Rightarrow>
         pbind (plift (construct valid_flow_input \<lparr>fi_prompt = ii_prompt (inv_input active),
           fi_attachments = ii_attachments (inv_input active)\<rparr>)) (\<lambda>inp.
         pbind (svc_resume_invocation (sq_lease sq) run_id (inv_id active)) (\<lambda>_.
         pbind (plift (construct valid_resume \<lparr>rs_flow_run_id = run_id, rs_invocation_id = inv_id active,
           rs_agent_key = inv_agent_key active, rs_user_input = user_input,
           rs_confirmation = confirmation\<rparr>)) (\<lambda>request.
         pbind (within_deadline waiting (\<lambda>left. ivk_resume (sq_invoker sq) left request)) (\<lambda>outcome.
         pbind (settle_outcome sq waiting (inv_agent_key active) ''resume''
           ''Sequential Flow resume cancelled'' outcome) (\<lambda>settled.
         case settled of Inl res \<Rightarrow> pret (Inl res)
         | Inr (st, result) \<Rightarrow> pret (Inr (inp, st, result)))))))))))))"

definition resume_waiting :: "sequential \<Rightarrow> flow_definition \<Rightarrow> uuid \<Rightarrow> string option \<Rightarrow>
    tool_confirmation option \<Rightarrow> flow_repo \<Rightarrow> ((exn + flow_result) \<times> flow_repo) option" where
  "resume_waiting sq d run_id user_input confirmation r =
     (case resume_settle sq d run_id user_input confirmation r of
        (Inl e, r') \<Rightarrow> Some (Inl e, r')
      | (Inr (Inl res), r') \<Rightarrow> Some (Inr res, r')
      | (Inr (Inr (inp, st, result)), r') \<Rightarrow> advance (length (fd_agents d)) sq d inp st (Some result) r')"

definition seq_resume :: "sequential \<Rightarrow> flow_definition \<Rightarrow> uuid \<Rightarrow> string \<Rightarrow> flow_repo \<Rightarrow>
    ((exn + flow_result) \<times> flow_repo) option" where
  "seq_resume sq d run_id user_input = resume_waiting sq d run_id (Some user_input) None"

definition seq_confirm :: "sequential \<Rightarrow> flow_definition \<Rightarrow> uuid \<Rightarrow> tool_confirmation \<Rightarrow> flow_repo \<Rightarrow>
    ((exn + flow_result) \<times> flow_repo) option" where
  "seq_confirm sq d run_id confirmation = resume_waiting sq d run_id None (Some confirmation)"

definition seq_cancel :: "sequential \<Rightarrow> uuid \<Rightarrow> string \<Rightarrow> flow_result repo_prog" where
  "seq_cancel sq run_id reason =
     (if blank reason then praise (ValueError ''Flow cancellation reason must not be blank'')
      else if 1000 < length reason
      then praise (ValueError ''Flow cancellation reason must not exceed 1000 characters'')
      else pbind (svc_get run_id) (\<lambda>current.
        if fs_status current = Cancelled then plift (flow_result_of current)
        else if terminal (fs_status current) then praise InvalidFlowTransitionError
        else pbind (svc_cancel (sq_lease sq) run_id reason) (\<lambda>cancelled.
          pbind (case active_invocation current of Some a \<Rightarrow> propagate_cancellation sq a reason
            | None \<Rightarrow> pret ()) (\<lambda>_.
          plift (flow_result_of cancelled)))))"

subsection \<open>A program logic for clients of the service\<close>

text \<open>
  \<open>svc_ok digest P m Q\<close>: from a repository that satisfies the service's invariant and \<open>P\<close>, with
  distinct fresh identifiers, the program \<open>m\<close> only performs operations of the service, and if it
  returns a value then \<open>Q\<close> holds of the value and the repository.
\<close>

definition svc_ok :: "(json \<Rightarrow> string) \<Rightarrow> (flow_repo \<Rightarrow> bool) \<Rightarrow> 'a repo_prog \<Rightarrow> ('a \<Rightarrow> flow_repo \<Rightarrow> bool) \<Rightarrow> bool" where
  "svc_ok digest P m Q \<longleftrightarrow> (\<forall>r res r'. svc_inv r \<and> inj (uuid_stream r) \<and> P r \<and> m r = (res, r') \<longrightarrow>
     (svc_step digest)\<^sup>*\<^sup>* r r' \<and> (\<forall>x. res = Inr x \<longrightarrow> Q x r'))"

lemma svc_okI:
  assumes "\<And>r res r'. svc_inv r \<Longrightarrow> inj (uuid_stream r) \<Longrightarrow> P r \<Longrightarrow> m r = (res, r') \<Longrightarrow>
      (svc_step digest)\<^sup>*\<^sup>* r r' \<and> (\<forall>x. res = Inr x \<longrightarrow> Q x r')"
  shows "svc_ok digest P m Q"
  using assms unfolding svc_ok_def by blast

lemma svc_okD:
  assumes "svc_ok digest P m Q" "svc_inv r" "inj (uuid_stream r)" "P r" "m r = (res, r')"
  shows "(svc_step digest)\<^sup>*\<^sup>* r r'" "res = Inr x \<Longrightarrow> Q x r'"
  using assms unfolding svc_ok_def by blast+

lemma svc_steps_streams:
  assumes "(svc_step digest)\<^sup>*\<^sup>* r r'" and "svc_inv r"
  shows "uuid_stream r' = uuid_stream r \<and> uuid_draws r \<le> uuid_draws r'"
  using assms(1)
proof (induction rule: rtranclp_induct)
  case (step y z)
  then have "svc_evolves digest y z" using assms(2) svc_steps_inv svc_step_good by blast
  with step.IH show ?case by (auto simp: svc_evolves_def)
qed simp

lemma svc_steps_state:
  assumes "(svc_step digest)\<^sup>*\<^sup>* r r'" and "svc_inv r" and "dict_get (repo_states r) k = Some st"
  shows "\<exists>st'. dict_get (repo_states r') k = Some st' \<and> (flow_step digest)\<^sup>*\<^sup>* st st'"
  using assms(1)
proof (induction rule: rtranclp_induct)
  case base
  with assms(3) show ?case by blast
next
  case (step y z)
  then obtain a where a: "dict_get (repo_states y) k = Some a" "(flow_step digest)\<^sup>*\<^sup>* st a" by blast
  have "svc_evolves digest y z" using step assms(2) svc_steps_inv svc_step_good by blast
  then obtain b where "dict_get (repo_states z) k = Some b" "b = a \<or> flow_step digest a b"
    using a(1) unfolding svc_evolves_def by blast
  with a(2) show ?case by (auto intro: rtranclp.rtrancl_into_rtrancl)
qed

lemma terminal_no_step: "terminal (fs_status st) \<Longrightarrow> \<not> flow_step digest st st'"
  using flow_step_frame [of digest st st']
  by (cases rule: run_status.exhaust [of "fs_status st"]) (auto simp: flow_edge_def)

lemma terminal_stable:
  assumes "(svc_step digest)\<^sup>*\<^sup>* r r'" and "svc_inv r"
    and "dict_get (repo_states r) k = Some st" and "terminal (fs_status st)"
  shows "dict_get (repo_states r') k = Some st"
proof -
  from svc_steps_state [OF assms(1-3)] obtain st' where
    "dict_get (repo_states r') k = Some st'" "(flow_step digest)\<^sup>*\<^sup>* st st'" by blast
  moreover from this(2) have "st' = st"
    by (cases rule: converse_rtranclpE) (use assms(4) terminal_no_step in blast)+
  ultimately show ?thesis by simp
qed

lemma svc_ok_then:
  assumes "(svc_step digest)\<^sup>*\<^sup>* r s" "svc_inv r" "inj (uuid_stream r)"
    and "svc_ok digest R g Q" "R s" "g s = (res, r')"
  shows "(svc_step digest)\<^sup>*\<^sup>* r r' \<and> (\<forall>x. res = Inr x \<longrightarrow> Q x r')"
proof -
  have "svc_inv s" "inj (uuid_stream s)"
    using svc_steps_inv [OF assms(1,2)] svc_steps_streams [OF assms(1,2)] assms(3) by auto
  with assms(4-6) have "(svc_step digest)\<^sup>*\<^sup>* s r' \<and> (\<forall>x. res = Inr x \<longrightarrow> Q x r')"
    unfolding svc_ok_def by blast
  with assms(1) show ?thesis by auto
qed

lemma svc_ok_bind:
  assumes "svc_ok digest P m R" and "\<And>x. svc_ok digest (R x) (f x) Q"
  shows "svc_ok digest P (pbind m f) Q"
proof (rule svc_okI)
  fix r res r'
  assume inv: "svc_inv r" "inj (uuid_stream r)" "P r" and run: "pbind m f r = (res, r')"
  obtain a s where ms: "m r = (a, s)" by fastforce
  note one = svc_okD [OF assms(1) inv ms]
  show "(svc_step digest)\<^sup>*\<^sup>* r r' \<and> (\<forall>x. res = Inr x \<longrightarrow> Q x r')"
  proof (cases a)
    case (Inl e)
    with run ms one show ?thesis by (auto simp: pbind_app)
  next
    case (Inr x)
    have "f x s = (res, r')" using run ms Inr by (simp add: pbind_app)
    with svc_ok_then [OF one(1) inv(1,2) assms(2) one(2) [OF Inr]] show ?thesis .
  qed
qed

lemma svc_ok_try:
  assumes "svc_ok digest P m R" and "\<And>x. svc_ok digest (R x) (h (Inr x)) Q"
    and "\<And>e. svc_ok digest (\<lambda>_. True) (h (Inl e)) Q"
  shows "svc_ok digest P (ptry m h) Q"
proof (rule svc_okI)
  fix r res r'
  assume inv: "svc_inv r" "inj (uuid_stream r)" "P r" and run: "ptry m h r = (res, r')"
  obtain a s where ms: "m r = (a, s)" by fastforce
  note one = svc_okD [OF assms(1) inv ms]
  have h: "h a s = (res, r')" using run ms by (simp add: ptry_app)
  show "(svc_step digest)\<^sup>*\<^sup>* r r' \<and> (\<forall>x. res = Inr x \<longrightarrow> Q x r')"
  proof (cases a)
    case (Inl e)
    from svc_ok_then [OF one(1) inv(1,2) assms(3) TrueI h [unfolded Inl]] show ?thesis .
  next
    case (Inr x)
    from svc_ok_then [OF one(1) inv(1,2) assms(2) one(2) [OF Inr] h [unfolded Inr]] show ?thesis .
  qed
qed

lemma svc_ok_basic:
  "(\<And>r. P r \<Longrightarrow> Q x r) \<Longrightarrow> svc_ok digest P (pret x) Q"
  "svc_ok digest P (praise e) Q"
  "(\<And>r x. P r \<Longrightarrow> y = Inr x \<Longrightarrow> Q x r) \<Longrightarrow> svc_ok digest P (plift y) Q"
  by (auto simp: svc_ok_def)

lemma svc_ok_conseq:
  "svc_ok digest P m Q \<Longrightarrow> (\<And>r. P' r \<Longrightarrow> P r) \<Longrightarrow> (\<And>x r. Q x r \<Longrightarrow> Q' x r) \<Longrightarrow> svc_ok digest P' m Q'"
  unfolding svc_ok_def by blast

text \<open>Quiet programs keep what depends only on what is stored.\<close>

definition stored_only :: "(flow_repo \<Rightarrow> bool) \<Rightarrow> bool" where
  "stored_only P \<longleftrightarrow> (\<forall>r r'. same_store r r' \<longrightarrow> P r \<longrightarrow> P r')"

lemma svc_ok_quiet: "quiet m \<Longrightarrow> stored_only P \<Longrightarrow> svc_ok digest P m (\<lambda>_. P)"
  by (rule svc_okI) (auto simp: stored_only_def dest!: quietD intro: does_read)

abbreviation holds :: "uuid \<Rightarrow> flow_run_state \<Rightarrow> flow_repo \<Rightarrow> bool" where
  "holds k st r \<equiv> dict_get (repo_states r) k = Some st"

lemma stored_only_simps [simp]: "stored_only (\<lambda>_. b)" "stored_only (holds k st)"
  "stored_only P \<Longrightarrow> stored_only Q \<Longrightarrow> stored_only (\<lambda>r. P r \<and> Q r)"
  by (auto simp: stored_only_def same_store_def)

lemma run_id_kept:
  "start t cur = Inr st \<Longrightarrow> fs_run_id st = fs_run_id cur"
  "begin_invocation digest ts q d cur = Inr st \<Longrightarrow> fs_run_id st = fs_run_id cur"
  "settle_invocation tt a cur = Inr st \<Longrightarrow> fs_run_id st = fs_run_id cur"
  "resume_invocation tt iid cur = Inr st \<Longrightarrow> fs_run_id st = fs_run_id cur"
  "complete t outp cur = Inr st \<Longrightarrow> fs_run_id st = fs_run_id cur"
  "terminate_state tt s err cur = Inr st \<Longrightarrow> fs_run_id st = fs_run_id cur"
  by (auto elim!: startE begin_invocationE settle_invocationE resume_invocationE completeE terminate_stateE)

text \<open>A transition of the service leaves its aggregate stored under the run's key.\<close>

lemma svc_transition_stores:
  assumes inv: "svc_inv r" and run: "svc_transition lease k next_of drafts r = (Inr st, r')"
    and q: "\<And>cur. quiet (next_of cur)"
    and keeps: "\<And>cur st r1. next_of cur r = (Inr st, r1) \<Longrightarrow> fs_run_id st = fs_run_id cur \<and> F st"
  shows "holds k st r' \<and> fs_run_id st = k \<and> F st"
  using run q
proof (rule svc_transition_Inr)
  fix cur r1 ds tok es
  assume cur: "holds k cur r" and nxt: "next_of cur r = (Inr st, r1)"
    and c: "repo_commit st (fs_revision cur) ds tok r1 = (Inr es, r')"
  from keeps [OF nxt] repo_inv_state [OF svc_inv_repo [OF inv] cur]
  have k: "fs_run_id st = k" and F: "F st" by auto
  from repo_commit_writes(1) [OF c] have "holds k st r'" by (simp add: k)
  with k F cur show ?thesis by blast
qed

lemma svc_ok_transition:
  assumes steps: "\<And>r res r'. P r \<Longrightarrow> svc_inv r \<Longrightarrow> inj (uuid_stream r) \<Longrightarrow>
      svc_transition lease k next_of drafts r = (res, r') \<Longrightarrow> svc_step digest r r'"
    and q: "\<And>cur. quiet (next_of cur)"
    and keeps: "\<And>cur st r r1. next_of cur r = (Inr st, r1) \<Longrightarrow> fs_run_id st = fs_run_id cur \<and> F st"
  shows "svc_ok digest P (svc_transition lease k next_of drafts)
    (\<lambda>st r. holds k st r \<and> fs_run_id st = k \<and> F st)"
proof (rule svc_okI)
  fix r res r'
  assume inv: "svc_inv r" "inj (uuid_stream r)" "P r"
    and run: "svc_transition lease k next_of drafts r = (res, r')"
  have "svc_step digest r r'" using inv run steps by blast
  moreover have "holds k st r' \<and> fs_run_id st = k \<and> F st" if "res = Inr st" for st
    using svc_transition_stores [OF inv(1) run [unfolded that] q, of F] keeps by blast
  ultimately show "(svc_step digest)\<^sup>*\<^sup>* r r' \<and>
      (\<forall>x. res = Inr x \<longrightarrow> holds k x r' \<and> fs_run_id x = k \<and> F x)" by blast
qed

lemma svc_ok_start: "svc_ok digest (\<lambda>_. True) (svc_start lease k)
    (\<lambda>st r. holds k st r \<and> fs_run_id st = k \<and> fs_status st = Running)"
  unfolding svc_start_def
  by (rule svc_ok_transition)
    (auto simp: svc_start_def [symmetric] pbind_Inr_iff intro: does_start elim!: startE)

lemma svc_ok_settle: "valid_result a \<Longrightarrow> svc_ok digest (\<lambda>_. True) (svc_settle_invocation lease k a)
    (\<lambda>st r. holds k st r \<and> fs_run_id st = k \<and> (ar_status a = AWaiting \<longrightarrow> fs_status st = Waiting) \<and>
       (ar_status a \<noteq> AWaiting \<longrightarrow> fs_status st = Running \<and> fs_active_invocation_id st = None))"
  unfolding svc_settle_invocation_def
  by (rule svc_ok_transition)
    (auto simp: svc_settle_invocation_def [symmetric] pbind_Inr_iff intro: does_settle
      elim!: settle_invocationE)

lemma svc_ok_resume: "svc_ok digest (\<lambda>_. True) (svc_resume_invocation lease k iid)
    (\<lambda>st r. holds k st r \<and> fs_run_id st = k \<and> fs_status st = Running)"
  unfolding svc_resume_invocation_def
  by (rule svc_ok_transition)
    (auto simp: svc_resume_invocation_def [symmetric] pbind_Inr_iff intro: does_resume
      elim!: resume_invocationE)

lemma svc_ok_complete: "svc_ok digest (\<lambda>_. True) (svc_complete lease k outp)
    (\<lambda>st r. holds k st r \<and> fs_run_id st = k \<and> fs_status st = Completed \<and> fs_output st = Some outp)"
  unfolding svc_complete_def
  by (rule svc_ok_transition)
    (auto simp: svc_complete_def [symmetric] pbind_Inr_iff intro: does_complete elim!: completeE)

lemma svc_terminate_eq: "error_status s \<Longrightarrow> svc_terminate lease k s err md =
    svc_transition lease k (\<lambda>cur. pbind utc_now2 (\<lambda>ts. plift (terminate_state ts s err cur))) (svc_terminate_drafts s md)"
  by (simp only: svc_terminate_def termination_dispatch)

lemma svc_ok_terminate:
  assumes s: "error_status s"
  shows "svc_ok digest (\<lambda>_. True) (svc_terminate lease k s err md)
    (\<lambda>st r. holds k st r \<and> fs_run_id st = k \<and> fs_status st = s \<and> fs_error st = Some err)"
  unfolding svc_terminate_eq [OF s]
  by (rule svc_ok_transition)
    (auto simp: pbind_Inr_iff intro: does_terminate [OF s, unfolded svc_terminate_eq [OF s]]
      elim!: terminate_stateE)

lemma svc_ok_create: "svc_ok digest (\<lambda>_. True) (svc_create digest d run_id now)
    (\<lambda>st r. holds (fs_run_id st) st r)"
proof (rule svc_okI)
  fix r res r'
  assume run: "svc_create digest d run_id now r = (res, r')"
  then have "\<forall>st. res = Inr st \<longrightarrow> holds (fs_run_id st) st r'"
    by (cases rule: svc_create_cases) (auto elim!: repo_createE)
  with run show "(svc_step digest)\<^sup>*\<^sup>* r r' \<and> (\<forall>st. res = Inr st \<longrightarrow> holds (fs_run_id st) st r')"
    by (blast intro: does_create)
qed

lemma svc_ok_record: "svc_ok digest (\<lambda>_. True) (record_cancellation_propagation_failure lease k i n) (\<lambda>_ _. True)"
  by (rule svc_okI) (blast intro: does_record)

text \<open>The identifier of a new request is fresh, because stored ones were drawn before it.\<close>

lemma fresh_draw:
  assumes inv: "svc_inv r" and fresh: "inj (uuid_stream r)" and "holds k st r"
  shows "uuid_stream r (uuid_draws r) \<notin> set (map inv_id (fs_invocations st))"
proof
  assume "uuid_stream r (uuid_draws r) \<in> set (map inv_id (fs_invocations st))"
  with svc_inv_state [OF inv assms(3)] obtain i where "i < uuid_draws r" "uuid_stream r (uuid_draws r) = uuid_stream r i"
    by (auto simp: state_ok_def drawn_def)
  with fresh show False by (auto dest: injD)
qed

lemma svc_ok_begin:
  assumes build: "\<And>iid q. build iid = Inr q \<Longrightarrow> valid_request q \<and> rq_invocation_id q = iid \<and> R q"
    and rest: "\<And>q st. R q \<Longrightarrow> svc_ok digest (\<lambda>r. holds k st r \<and> fs_run_id st = k \<and>
        int (length (fs_invocations st)) = rq_sequence q) (f q st) Q"
  shows "svc_ok digest (\<lambda>_. True) (pbind uuid4 (\<lambda>iid. pbind (plift (build iid)) (\<lambda>q.
      pbind (svc_begin_invocation digest lease k q d) (f q)))) Q"
proof (rule svc_okI)
  fix r r' :: flow_repo and res
  let ?iid = "uuid_stream r (uuid_draws r)" and ?r0 = "r\<lparr>uuid_draws := Suc (uuid_draws r)\<rparr>"
  assume inv: "svc_inv r" "inj (uuid_stream r)" and run: "pbind uuid4 (\<lambda>iid. pbind (plift (build iid)) (\<lambda>q.
      pbind (svc_begin_invocation digest lease k q d) (f q))) r = (res, r')"
  have same: "same_store r ?r0" by (simp add: same_store_def)
  then have s0: "svc_step digest r ?r0" and inv0: "svc_inv ?r0" using inv(1) by (blast intro: does_read svc_inv_same)+
  show "(svc_step digest)\<^sup>*\<^sup>* r r' \<and> (\<forall>x. res = Inr x \<longrightarrow> Q x r')"
  proof (cases "build ?iid")
    case (Inl e)
    with run s0 show ?thesis by (auto simp: pbind_app uuid4_def)
  next
    case (Inr q)
    obtain a s where beg: "svc_begin_invocation digest lease k q d ?r0 = (a, s)" by fastforce
    have q: "valid_request q" "rq_invocation_id q = ?iid" "R q" using build [OF Inr] by auto
    have "svc_step digest ?r0 s"
      by (rule does_begin [OF q(1) _ _ beg]) (use q(2) fresh_draw [OF inv] in \<open>auto simp: drawn_def\<close>)
    with s0 have steps: "(svc_step digest)\<^sup>*\<^sup>* r s" by auto
    show ?thesis
    proof (cases a)
      case (Inl e)
      with run beg Inr steps show ?thesis by (auto simp: pbind_app uuid4_def)
    next
      case st: (Inr st)
      have "holds k st s \<and> fs_run_id st = k \<and> int (length (fs_invocations st)) = rq_sequence q"
        using beg [unfolded st svc_begin_invocation_def]
        by (rule svc_transition_stores [OF inv0]) (auto simp: pbind_Inr_iff elim!: begin_invocationE)
      moreover have "f q st s = (res, r')" using run beg Inr st by (simp add: pbind_app uuid4_def)
      ultimately show ?thesis using svc_ok_then [OF steps inv rest [OF q(3)]] by blast
    qed
  qed
qed

subsection \<open>The strategy only performs service operations, and its results describe the stored run\<close>

text \<open>
  What the strategy relies on of the invoker and of the other clients that act while it awaits: they
  go through the service, and an invocation's result is a validated object.
\<close>

definition good_invoker :: "(json \<Rightarrow> string) \<Rightarrow> invoker \<Rightarrow> bool" where
  "good_invoker digest iv \<longleftrightarrow>
     (\<forall>left q r t r'. ivk_invoke iv left q r = (t, r') \<longrightarrow>
        (svc_step digest)\<^sup>*\<^sup>* r r' \<and> (\<forall>a. t = Returned a \<longrightarrow> valid_result a)) \<and>
     (\<forall>left q r t r'. ivk_resume iv left q r = (t, r') \<longrightarrow>
        (svc_step digest)\<^sup>*\<^sup>* r r' \<and> (\<forall>a. t = Returned a \<longrightarrow> valid_result a)) \<and>
     (\<forall>f q r t r'. ivk_cancel iv = Some f \<longrightarrow> f q r = (t, r') \<longrightarrow> (svc_step digest)\<^sup>*\<^sup>* r r')"

abbreviation good_strategy :: "sequential \<Rightarrow> bool" where
  "good_strategy sq \<equiv> good_invoker (sq_digest sq) (sq_invoker sq)"

text \<open>The result is the summary of the stored aggregate.\<close>

definition reports :: "flow_result \<Rightarrow> flow_repo \<Rightarrow> bool" where
  "reports res r \<longleftrightarrow> (\<exists>st. holds (fr_run_id res) st r \<and> flow_result_of st = Inr res)"

lemma flow_result_run: "flow_result_of st = Inr res \<Longrightarrow> fr_run_id res = fs_run_id st \<and> fr_status res = fs_status st"
  by (auto simp: flow_result_of_def rbind_Inr_iff)

lemma reportsI: "holds k st r \<Longrightarrow> fs_run_id st = k \<Longrightarrow> flow_result_of st = Inr res \<Longrightarrow> reports res r"
  using flow_result_run [of st res] by (auto simp: reports_def)


lemma svc_ok_weaken: "svc_ok digest P m Q \<Longrightarrow> (\<And>r. P' r \<Longrightarrow> P r) \<Longrightarrow> svc_ok digest P' m Q"
  by (rule svc_ok_conseq)

lemma svc_ok_True: "svc_ok digest P m Q \<Longrightarrow> (\<And>r. P r) \<Longrightarrow> svc_ok digest P' m Q"
  by (rule svc_ok_conseq)

text \<open>Reading the clock, getting the aggregate and lifting a result, with what holds of the store.\<close>

lemma svc_ok_clock:
  "stored_only P \<Longrightarrow> (\<And>t. svc_ok digest P (f t) Q) \<Longrightarrow> svc_ok digest P (pbind utc_now f) Q"
  by (rule svc_ok_bind [OF svc_ok_quiet]) simp_all

lemma svc_ok_lift: "(\<And>x. y = Inr x \<Longrightarrow> svc_ok digest P (f x) Q) \<Longrightarrow> svc_ok digest P (pbind (plift y) f) Q"
  by (cases y) (auto simp: svc_ok_def pbind_app)

lemma svc_ok_get:
  assumes "\<And>st. svc_ok digest (\<lambda>r. P r \<and> holds k st r \<and> fs_run_id st = k) (f st) Q"
  shows "svc_ok digest P (pbind (svc_get k) f) Q"
proof (rule svc_okI)
  fix r res r'
  assume inv: "svc_inv r" "inj (uuid_stream r)" "P r" and run: "pbind (svc_get k) f r = (res, r')"
  show "(svc_step digest)\<^sup>*\<^sup>* r r' \<and> (\<forall>x. res = Inr x \<longrightarrow> Q x r')"
  proof (cases "dict_get (repo_states r) k")
    case None
    with run show ?thesis by (auto simp: svc_get_def pbind_app repo_get_eq)
  next
    case (Some st)
    with run have "f st r = (res, r')" by (simp add: svc_get_def pbind_app repo_get_eq)
    moreover have "fs_run_id st = k" using repo_inv_state [OF svc_inv_repo [OF inv(1)] Some] by simp
    ultimately show ?thesis using assms [of st] inv Some unfolding svc_ok_def by blast
  qed
qed

text \<open>Awaiting code that acts through the service.\<close>

lemma svc_ok_await:
  assumes "\<And>r t r'. m r = (t, r') \<Longrightarrow> (svc_step digest)\<^sup>*\<^sup>* r r' \<and> V t"
    and "\<And>r r'. P r \<Longrightarrow> svc_inv r \<Longrightarrow> (svc_step digest)\<^sup>*\<^sup>* r r' \<Longrightarrow> P' r'"
  shows "svc_ok digest P (await m) (\<lambda>t r. V t \<and> P' r)"
proof (rule svc_okI)
  fix r res r'
  assume inv: "svc_inv r" "P r" and "await m r = (res, r')"
  then obtain t where "m r = (t, r')" "res = Inr t" by (auto simp: await_def split: prod.splits)
  with assms inv show "(svc_step digest)\<^sup>*\<^sup>* r r' \<and> (\<forall>x. res = Inr x \<longrightarrow> V x \<and> P' r')" by blast
qed

lemma svc_ok_reports:
  "svc_ok digest (\<lambda>r. P r \<and> holds k st r \<and> fs_run_id st = k) (plift (flow_result_of st)) reports"
  by (rule svc_ok_basic) (blast intro: reportsI)

lemma ok_terminal_after_race:
  "svc_ok digest (\<lambda>_. True) (terminal_after_race k) (\<lambda>t r. \<forall>res. t = Some res \<longrightarrow> reports res r)"
  unfolding terminal_after_race_def
  by (rule svc_ok_get) (auto intro!: svc_ok_lift svc_ok_basic reportsI)

text \<open>Cancelling the invocation of a closed run leaves the run as it is.\<close>

lemma svc_ok_keep_terminal:
  assumes "svc_ok digest (\<lambda>_. True) m Q" and "terminal (fs_status st)"
  shows "svc_ok digest (holds k st) m (\<lambda>_. holds k st)"
  using assms(1) terminal_stable [OF _ _ _ assms(2)] unfolding svc_ok_def by blast

lemma ok_propagate:
  assumes "good_strategy sq"
  shows "svc_ok (sq_digest sq) (\<lambda>_. True) (propagate_cancellation sq i reason) (\<lambda>_ _. True)"
proof -
  have "svc_ok (sq_digest sq) (\<lambda>_. True) (await (f q)) (\<lambda>t r. True \<and> True)"
    if "ivk_cancel (sq_invoker sq) = Some f" for f q
    by (rule svc_ok_await) (use assms that in \<open>auto simp: good_invoker_def\<close>)
  then show ?thesis unfolding propagate_cancellation_def
    by (auto intro!: svc_ok_lift svc_ok_record svc_ok_bind [where R = "\<lambda>_ _. True"] svc_ok_basic
        split: option.split transport.split)
qed

lemma ok_reach_budget_limit:
  assumes "good_strategy sq"
  shows "svc_ok (sq_digest sq) (\<lambda>_. True) (reach_budget_limit sq k v) reports"
proof -
  have close: "svc_ok (sq_digest sq) (\<lambda>r. holds k st r \<and> fs_run_id st = k \<and> fs_status st = LimitReached \<and> B)
      (pbind (case active_invocation cur of
          Some a \<Rightarrow> (if inv_status a = Waiting then propagate_cancellation sq a (violation_message v) else pret ())
        | None \<Rightarrow> pret ()) (\<lambda>_. plift (flow_result_of st))) reports" (is "svc_ok _ ?P (pbind ?m _) _") for st cur B
  proof (cases "fs_run_id st = k \<and> fs_status st = LimitReached")
    case True
    have "svc_ok (sq_digest sq) (\<lambda>_. True) ?m (\<lambda>_ _. True)"
      by (auto intro: ok_propagate [OF assms] svc_ok_basic split: option.split)
    then have "svc_ok (sq_digest sq) (holds k st) ?m (\<lambda>_. holds k st)"
      by (rule svc_ok_keep_terminal) (simp add: True)
    then show ?thesis
      by (rule svc_ok_bind [OF svc_ok_weaken]) (use True in \<open>auto intro!: svc_ok_basic reportsI\<close>)
  qed (auto simp: svc_ok_def)
  show ?thesis
    unfolding reach_budget_limit_def svc_reach_limit_def
    by (rule svc_ok_get)
      (auto intro!: svc_ok_reports [where P = "\<lambda>_. True", simplified] svc_ok_bind [OF svc_ok_weaken [OF svc_ok_terminate]] close)
qed

lemma ok_timeout_limit:
  "good_strategy sq \<Longrightarrow> svc_ok (sq_digest sq) (\<lambda>_. True) (timeout_limit sq st) reports"
  unfolding timeout_limit_def
  by (auto intro!: svc_ok_clock svc_ok_lift svc_ok_basic ok_reach_budget_limit split: option.split)

lemma ok_transport_failure:
  "svc_ok digest (\<lambda>_. True) (transport_failure sq k key op n t) reports"
proof -
  have "svc_ok digest P (pbind (svc_fail lease k err) (\<lambda>st. plift (flow_result_of st))) reports" for P lease err
    unfolding svc_fail_def
    by (rule svc_ok_bind [OF svc_ok_weaken [OF svc_ok_terminate]]) (auto intro!: svc_ok_basic reportsI)
  then show ?thesis unfolding transport_failure_def
    by (intro svc_ok_bind [OF ok_terminal_after_race]) (auto intro!: svc_ok_basic split: option.split)
qed

lemma ok_ended:
  assumes "error_status s"
  shows "svc_ok digest P (pbind (svc_terminate l k s e md) (\<lambda>ended.
      pbind (plift (flow_result_of ended)) (\<lambda>res. pret (Some res))))
     (\<lambda>t r. (\<exists>y. t = Some y) \<and> (\<forall>res. t = Some res \<longrightarrow> reports res r))"
  by (rule svc_ok_bind [OF svc_ok_weaken [OF svc_ok_terminate [OF assms]]])
    (auto intro!: svc_ok_lift svc_ok_basic reportsI)

lemma ok_handle_outcome:
  "svc_ok digest (\<lambda>r. holds k st r \<and> fs_run_id st = k) (handle_outcome sq st a)
     (\<lambda>t r. (t = None \<longrightarrow> ar_status a = ACompleted \<and> holds k st r) \<and> (\<forall>res. t = Some res \<longrightarrow> reports res r))"
proof (cases "fs_run_id st = k")
  case True
  then show ?thesis
    by (cases "ar_status a")
      (auto simp: handle_outcome_def Let_def svc_fail_def svc_cancel_def svc_interrupt_def svc_reach_limit_def
        intro!: svc_ok_lift svc_ok_basic reportsI ok_ended)
qed (auto simp: svc_ok_def)

text \<open>A property that no service operation destroys can be carried along.\<close>

lemma svc_ok_frame:
  assumes "\<And>r r'. svc_inv r \<Longrightarrow> (svc_step digest)\<^sup>*\<^sup>* r r' \<Longrightarrow> P r \<Longrightarrow> P r'" and "svc_ok digest (\<lambda>_. True) m Q"
  shows "svc_ok digest P m (\<lambda>x r. Q x r \<and> P r)"
  using assms unfolding svc_ok_def by blast

definition at_least :: "uuid \<Rightarrow> nat \<Rightarrow> flow_repo \<Rightarrow> bool" where
  "at_least k n r \<longleftrightarrow> (\<exists>st. holds k st r \<and> n \<le> length (fs_invocations st))"

lemma flow_steps_length: "(flow_step digest)\<^sup>*\<^sup>* st st' \<Longrightarrow> length (fs_invocations st) \<le> length (fs_invocations st')"
proof (induction rule: rtranclp_induct)
  case (step y z)
  from flow_step_history [OF step.hyps(2)] have "length (fs_invocations y) \<le> length (fs_invocations z)"
    by (metis le_add1 length_append length_map)
  with step.IH show ?case by simp
qed simp

lemma at_least_stable: "svc_inv r \<Longrightarrow> (svc_step digest)\<^sup>*\<^sup>* r r' \<Longrightarrow> at_least k n r \<Longrightarrow> at_least k n r'"
  unfolding at_least_def by (meson svc_steps_state flow_steps_length le_trans)

lemma svc_ok_at_least:
  "svc_ok digest (\<lambda>_. True) m Q \<Longrightarrow> svc_ok digest (at_least k n) m (\<lambda>x r. Q x r \<and> at_least k n r)"
  by (rule svc_ok_frame) (rule at_least_stable)

text \<open>What a turn ends with, and what the loop goes on with.\<close>

definition turn :: "uuid \<Rightarrow> nat \<Rightarrow> flow_result + flow_run_state \<times> agent_invocation_result \<Rightarrow> flow_repo \<Rightarrow> bool" where
  "turn k n x r \<longleftrightarrow> (case x of Inl res \<Rightarrow> reports res r
     | Inr (st, a) \<Rightarrow> holds k st r \<and> fs_run_id st = k \<and> n \<le> length (fs_invocations st) \<and>
         valid_result a \<and> ar_status a = ACompleted)"

lemma turn_Inl: "svc_ok digest P m reports \<Longrightarrow> svc_ok digest P (pbind m (\<lambda>res. pret (Inl res))) (turn k n)"
  by (erule svc_ok_bind) (auto intro!: svc_ok_basic simp: turn_def)

lemma ok_settled:
  assumes sq: "good_strategy sq" and a: "valid_result a"
  shows "svc_ok (sq_digest sq) (\<lambda>r. holds k st r \<and> fs_run_id st = k \<and> at_least k n r)
    (pbind utc_now (\<lambda>now. pbind (plift (after_transport st now)) (\<lambda>v. case v of
           Some violation \<Rightarrow> pbind (reach_budget_limit sq (fs_run_id st) violation) (\<lambda>res. pret (Inl res))
         | None \<Rightarrow> pbind (handle_outcome sq st a) (\<lambda>t. case t of Some res \<Rightarrow> pret (Inl res)
             | None \<Rightarrow> pret (Inr (st, a)))))) (turn k n)" (is "svc_ok _ ?P _ _")
proof (cases "n \<le> length (fs_invocations st) \<and> fs_run_id st = k")
  case True
  have "svc_ok (sq_digest sq) ?P (pbind (handle_outcome sq st a) (\<lambda>t. case t of Some res \<Rightarrow> pret (Inl res)
      | None \<Rightarrow> pret (Inr (st, a)))) (turn k n)"
    by (rule svc_ok_bind [OF svc_ok_weaken [OF ok_handle_outcome]])
      (use True a in \<open>auto intro!: svc_ok_basic simp: turn_def split: option.split\<close>)
  moreover have "svc_ok (sq_digest sq) ?P (pbind (reach_budget_limit sq (fs_run_id st) v) (\<lambda>res. pret (Inl res))) (turn k n)" for v
    by (rule turn_Inl [OF svc_ok_weaken [OF ok_reach_budget_limit [OF sq]]]) simp
  moreover have "stored_only ?P"
    unfolding at_least_def by (auto simp: stored_only_def same_store_def)
  ultimately show ?thesis
    by (intro svc_ok_clock svc_ok_lift) (simp_all split: option.split)
next
  case False
  then show ?thesis by (auto simp: svc_ok_def at_least_def)
qed

lemma ok_settle_outcome:
  assumes sq: "good_strategy sq" and t: "\<And>a. t = Returned a \<Longrightarrow> valid_result a"
  shows "svc_ok (sq_digest sq) (at_least (fs_run_id st) n) (settle_outcome sq st key op nt t) (turn (fs_run_id st) n)"
proof (cases t)
  case (Returned a)
  let ?k = "fs_run_id st"
  have a: "valid_result a" using t Returned by simp
  note settle = svc_ok_at_least [OF svc_ok_settle [OF a, of "sq_digest sq" "sq_lease sq" ?k]]
  show ?thesis
    unfolding settle_outcome_def Returned transport.case
  proof (rule svc_ok_try [OF settle], goal_cases)
    case (1 x)
    show ?case unfolding sum.case by (rule svc_ok_weaken [OF ok_settled [OF sq a]]) blast
  next
    case (2 e)
    show ?case unfolding sum.case
      by (auto intro!: turn_Inl ok_transport_failure svc_ok_basic svc_ok_bind [OF ok_terminal_after_race]
          simp: turn_def split: option.split)
  qed
next
  case TimedOut
  show ?thesis unfolding settle_outcome_def TimedOut transport.case
    by (rule turn_Inl [OF svc_ok_weaken [OF ok_timeout_limit [OF sq]]]) simp
next
  case WasCancelled
  show ?thesis unfolding settle_outcome_def WasCancelled transport.case svc_interrupt_def
    by (rule svc_ok_bind [OF svc_ok_weaken [OF svc_ok_terminate]]) (simp_all add: svc_ok_basic)
next
  case (Raised m x)
  show ?thesis unfolding settle_outcome_def Raised transport.case
    by (rule turn_Inl [OF svc_ok_weaken [OF ok_transport_failure]]) simp
qed

lemma ok_within_deadline:
  assumes "\<And>left r t r'. op left r = (t, r') \<Longrightarrow> (svc_step digest)\<^sup>*\<^sup>* r r' \<and> (\<forall>a. t = Returned a \<longrightarrow> valid_result a)"
  shows "svc_ok digest (at_least k n) (within_deadline st op)
    (\<lambda>t r. (\<forall>a. t = Returned a \<longrightarrow> valid_result a) \<and> at_least k n r)"
  unfolding within_deadline_def
  by (rule svc_ok_clock)
    (auto simp: stored_only_def at_least_def same_store_def intro!: svc_ok_await assms
      intro: at_least_stable [unfolded at_least_def])

lemma ok_advance_step:
  assumes sq: "good_strategy sq"
  shows "svc_ok (sq_digest sq) (\<lambda>_. True) (advance_step sq d inp st p)
    (turn (fs_run_id st) (Suc (length (fs_invocations st))))"
proof -
  let ?k = "fs_run_id st" and ?n = "Suc (length (fs_invocations st))"
  have invoke: "ivk_invoke (sq_invoker sq) left q r = (t, r') \<Longrightarrow>
      (svc_step (sq_digest sq))\<^sup>*\<^sup>* r r' \<and> (\<forall>a. t = Returned a \<longrightarrow> valid_result a)" for left q r t r'
    using sq by (simp add: good_invoker_def)
  have outcome: "svc_ok (sq_digest sq) (\<lambda>r. (\<forall>a. t = Returned a \<longrightarrow> valid_result a) \<and> at_least ?k ?n r)
      (settle_outcome sq st1 key op nt t) (turn ?k ?n)" if "fs_run_id st1 = ?k" for st1 key op nt t
  proof (cases "\<forall>a. t = Returned a \<longrightarrow> valid_result a")
    case True
    then have "svc_ok (sq_digest sq) (at_least (fs_run_id st1) ?n) (settle_outcome sq st1 key op nt t)
        (turn (fs_run_id st1) ?n)" by (intro ok_settle_outcome [OF sq]) simp
    then show ?thesis unfolding that by (rule svc_ok_weaken) simp
  qed (auto simp: svc_ok_def)
  have rest: "svc_ok (sq_digest sq) (\<lambda>r. holds ?k st1 r \<and> fs_run_id st1 = ?k \<and>
      int (length (fs_invocations st1)) = rq_sequence q)
    (pbind (within_deadline st1 (\<lambda>left. ivk_invoke (sq_invoker sq) left q)) (\<lambda>t.
       settle_outcome sq st1 key op nt t)) (turn ?k ?n)"
    if "rq_sequence q = int ?n" for q st1 key op nt
  proof (cases "fs_run_id st1 = ?k \<and> length (fs_invocations st1) = ?n")
    case True
    have "svc_ok (sq_digest sq) (at_least ?k ?n) (pbind (within_deadline st1 (\<lambda>left. ivk_invoke (sq_invoker sq) left q)) (\<lambda>t.
        settle_outcome sq st1 key op nt t)) (turn ?k ?n)"
      by (rule svc_ok_bind [OF ok_within_deadline [OF invoke] outcome]) (simp_all add: True)
    then show ?thesis by (rule svc_ok_weaken) (auto simp: at_least_def True)
  qed (use that in \<open>auto simp: svc_ok_def\<close>)
  show ?thesis
    unfolding advance_step_def Let_def
  proof (rule svc_ok_clock, simp, rule svc_ok_lift, goal_cases)
    case (1 now v)
    show ?case
    proof (cases v)
      case None
      show ?thesis unfolding None option.case
        by (rule svc_ok_lift, rule svc_ok_lift, rule svc_ok_begin [where R = "\<lambda>q. rq_sequence q = int ?n"],
            simp, erule rest)
    next
      case (Some violation)
      show ?thesis unfolding Some option.case by (rule turn_Inl [OF ok_reach_budget_limit [OF sq]])
    qed
  qed
qed

lemma ok_finish_flow: "svc_ok digest (\<lambda>_. True) (finish_flow sq st p) reports"
  unfolding finish_flow_def
  by (cases p) (auto intro!: svc_ok_basic svc_ok_bind [OF svc_ok_complete] reportsI)

text \<open>Progress of the loop: one unit of fuel per agent is enough, and every ending is a report.\<close>

lemma advance_ok:
  assumes sq: "good_strategy sq" and "svc_inv r" and "inj (uuid_stream r)"
    and "length (fd_agents d) \<le> fuel + length (fs_invocations st)"
  shows "\<exists>res r'. advance fuel sq d inp st p r = Some (res, r') \<and> (svc_step (sq_digest sq))\<^sup>*\<^sup>* r r' \<and>
    (\<forall>x. res = Inr x \<longrightarrow> reports x r')"
  using assms(2-4)
proof (induction fuel arbitrary: st p r)
  case 0
  obtain res r' where f: "finish_flow sq st p r = (res, r')" by fastforce
  with svc_okD [OF ok_finish_flow 0(1,2) TrueI f] 0(3) show ?case
    by (auto simp: advance.simps)
next
  case (Suc n)
  show ?case
  proof (cases "length (fs_invocations st) < length (fd_agents d)")
    case False
    obtain res r' where f: "finish_flow sq st p r = (res, r')" by fastforce
    with svc_okD [OF ok_finish_flow Suc(2,3) TrueI f] False show ?thesis by (auto simp: advance.simps)
  next
    case True
    obtain a r1 where step: "advance_step sq d inp st p r = (a, r1)" by fastforce
    note one = svc_okD [OF ok_advance_step [OF sq] Suc(2,3) TrueI step]
    show ?thesis
    proof (cases a)
      case (Inl e)
      with step True one(1) show ?thesis by (auto simp: advance.simps)
    next
      case (Inr x)
      show ?thesis
      proof (cases x)
        case (Inl res)
        with step True one Inr show ?thesis by (fastforce simp: advance.simps turn_def)
      next
        case x: (Inr sa)
        obtain st' q where sa: "sa = (st', q)" by fastforce
        have len: "Suc (length (fs_invocations st)) \<le> length (fs_invocations st')"
          using one(2) [OF Inr] x sa by (simp add: turn_def)
        have "svc_inv r1" "inj (uuid_stream r1)"
          using svc_steps_inv [OF one(1) Suc(2)] svc_steps_streams [OF one(1) Suc(2)] Suc(3) by auto
        from Suc.IH [OF this, of st' "Some q"] Suc(4) len obtain res r' where
          "advance n sq d inp st' (Some q) r1 = Some (res, r')" "(svc_step (sq_digest sq))\<^sup>*\<^sup>* r1 r'"
          "\<forall>x. res = Inr x \<longrightarrow> reports x r'" by auto
        with step True one(1) Inr x sa show ?thesis
          by (auto simp: advance.simps [of "Suc n"] intro: rtranclp_trans)
      qed
    qed
  qed
qed

lemma ok_seq_begin: "svc_ok (sq_digest sq) (\<lambda>_. True) (seq_begin sq d run_id) (\<lambda>st r. holds (fs_run_id st) st r)"
  unfolding seq_begin_def
  by (rule svc_ok_lift, rule svc_ok_clock, simp, rule svc_ok_bind [OF svc_ok_create])
    (rule svc_ok_conseq [OF svc_ok_start]; simp)

lemma ok_resume_settle:
  assumes sq: "good_strategy sq"
  shows "svc_ok (sq_digest sq) (\<lambda>_. True) (resume_settle sq d k ui cf)
    (\<lambda>x r. \<forall>res. x = Inl res \<longrightarrow> reports res r)"
proof -
  have resume: "ivk_resume (sq_invoker sq) left q r = (t, r') \<Longrightarrow>
      (svc_step (sq_digest sq))\<^sup>*\<^sup>* r r' \<and> (\<forall>a. t = Returned a \<longrightarrow> valid_result a)" for left q r t r'
    using sq by (simp add: good_invoker_def)
  have outcome: "svc_ok (sq_digest sq) (\<lambda>r. (\<forall>a. t = Returned a \<longrightarrow> valid_result a) \<and> at_least k 0 r)
      (pbind (settle_outcome sq w key op nt t) (\<lambda>s. case s of Inl res \<Rightarrow> pret (Inl res)
         | Inr (st, result) \<Rightarrow> pret (Inr (inp, st, result)))) (\<lambda>x r. \<forall>res. x = Inl res \<longrightarrow> reports res r)"
    if k: "fs_run_id w = k" for w key op nt t inp
  proof (cases "\<forall>a. t = Returned a \<longrightarrow> valid_result a")
    case True
    then have "svc_ok (sq_digest sq) (at_least (fs_run_id w) 0) (settle_outcome sq w key op nt t)
        (turn (fs_run_id w) 0)" by (intro ok_settle_outcome [OF sq]) simp
    then show ?thesis unfolding k
      by (rule svc_ok_bind [OF svc_ok_weaken]) (auto intro!: svc_ok_basic simp: turn_def split: sum.split)
  qed (auto simp: svc_ok_def)
  show ?thesis
    unfolding resume_settle_def
  proof (rule svc_ok_lift, rule svc_ok_get, rule svc_ok_lift, rule svc_ok_clock, goal_cases)
    case (2 u w v now)
    show ?case
    proof (rule svc_ok_lift, goal_cases)
      case (1 x)
      show ?case
      proof (cases x)
        case (Some violation)
        show ?thesis unfolding Some option.case
          by (rule svc_ok_bind [OF svc_ok_weaken [OF ok_reach_budget_limit [OF sq]]]) (auto intro: svc_ok_basic)
      next
        case None
        show ?thesis
        proof (cases "active_invocation w")
          case act: (Some i)
          show ?thesis
          proof (cases "fs_run_id w = k")
            case True
            show ?thesis unfolding None act option.case
              apply (rule svc_ok_lift)
              apply (rule svc_ok_bind [OF svc_ok_weaken [OF svc_ok_resume] svc_ok_lift])
               apply simp
              apply (rule svc_ok_bind [OF svc_ok_weaken [OF ok_within_deadline [OF resume]] outcome [OF True]])
              apply (auto simp: at_least_def)
              done
          qed (auto simp: svc_ok_def)
        qed (simp add: None svc_ok_basic)
      qed
    qed
  qed simp
qed

lemma ok_seq_cancel:
  assumes sq: "good_strategy sq"
  shows "svc_ok (sq_digest sq) (\<lambda>_. True) (seq_cancel sq k reason) reports"
proof -
  have close: "svc_ok (sq_digest sq) (\<lambda>r. holds k st r \<and> fs_run_id st = k \<and> fs_status st = Cancelled \<and> B)
      (pbind (case active_invocation cur of Some a \<Rightarrow> propagate_cancellation sq a reason | None \<Rightarrow> pret ())
        (\<lambda>_. plift (flow_result_of st))) reports" (is "svc_ok _ _ (pbind ?m _) _") for st cur B
  proof (cases "fs_run_id st = k \<and> fs_status st = Cancelled")
    case True
    have "svc_ok (sq_digest sq) (\<lambda>_. True) ?m (\<lambda>_ _. True)"
      by (auto intro: ok_propagate [OF sq] svc_ok_basic split: option.split)
    then have "svc_ok (sq_digest sq) (holds k st) ?m (\<lambda>_. holds k st)"
      by (rule svc_ok_keep_terminal) (simp add: True)
    then show ?thesis
      by (rule svc_ok_bind [OF svc_ok_weaken]) (use True in \<open>auto intro!: svc_ok_basic reportsI\<close>)
  qed (auto simp: svc_ok_def)
  have "svc_ok (sq_digest sq) (\<lambda>_. True) (pbind (svc_get k) (\<lambda>current.
        if fs_status current = Cancelled then plift (flow_result_of current)
        else if terminal (fs_status current) then praise InvalidFlowTransitionError
        else pbind (svc_cancel (sq_lease sq) k reason) (\<lambda>cancelled.
          pbind (case active_invocation current of Some a \<Rightarrow> propagate_cancellation sq a reason
            | None \<Rightarrow> pret ()) (\<lambda>_. plift (flow_result_of cancelled))))) reports"
    unfolding svc_cancel_def
    by (rule svc_ok_get)
      (auto intro!: svc_ok_basic reportsI svc_ok_bind [OF svc_ok_weaken [OF svc_ok_terminate]] close)
  then show ?thesis by (simp add: seq_cancel_def svc_ok_basic)
qed

subsection \<open>A concrete strategy\<close>

text \<open>An invoker whose agents complete at once, and refuse malformed requests.\<close>

definition ex_done :: "uuid \<Rightarrow> uuid \<Rightarrow> string \<Rightarrow> agent_invocation_result" where
  "ex_done k iid key = \<lparr>ar_flow_run_id = k, ar_invocation_id = iid, ar_agent_key = key, ar_status = ACompleted,
     ar_output = Some ''done'', ar_usage = no_usage, ar_artifacts = [], ar_pending_input = None,
     ar_error = None, ar_metadata = []\<rparr>"

definition ex_invoker :: invoker where
  "ex_invoker = \<lparr>
     ivk_invoke = (\<lambda>left q r. (if valid_key (rq_agent_key q)
       then Returned (ex_done (rq_flow_run_id q) (rq_invocation_id q) (rq_agent_key q))
       else Raised ''ValueError'' ''key'', r)),
     ivk_resume = (\<lambda>left q r. (if valid_key (rs_agent_key q)
       then Returned (ex_done (rs_flow_run_id q) (rs_invocation_id q) (rs_agent_key q))
       else Raised ''ValueError'' ''key'', r)),
     ivk_cancel = None\<rparr>"

definition ex_strategy :: sequential where
  "ex_strategy = \<lparr>sq_digest = ex_digest, sq_lease = None, sq_invoker = ex_invoker\<rparr>"

lemma ex_done_valid: "valid_key key \<Longrightarrow> valid_result (ex_done k iid key)"
  by (simp add: valid_result_def ex_done_def valid_usage_def no_usage_def)

lemma ex_strategy_good: "good_strategy ex_strategy" "sq_digest ex_strategy = ex_digest"
  by (auto simp: ex_strategy_def good_invoker_def ex_invoker_def ex_done_valid)

lemma svc_reachable_steps: "svc_reachable digest r \<Longrightarrow> (svc_step digest)\<^sup>*\<^sup>* r r' \<Longrightarrow> svc_reachable digest r'"
  unfolding svc_reachable_def by (meson rtranclp_trans)

lemma ex_fresh: "inj (uuid_stream ex_s4)"
  using svc_steps_streams [OF ex_svc_steps(4) svc_inv_empty] by (simp add: empty_repo_def)

definition ex_input :: flow_input where
  "ex_input = \<lparr>fi_prompt = ''hello'', fi_attachments = []\<rparr>"

subsection \<open>Properties of the strategy\<close>

text \<open>
  C9. Running a Flow always comes to an end, within one pass of the loop per bound agent: whatever the
  agents answer or raise, and whatever other clients do to the repository through the service
  meanwhile, the strategy returns or raises; it has then only performed service operations, and a
  returned result is exactly the summary of the aggregate that is stored at that moment.
\<close>

theorem sequential_run_reports:
  assumes sq: "good_strategy sq" and r: "svc_reachable (sq_digest sq) r" and fresh: "inj (uuid_stream r)"
  shows "\<exists>res r'. seq_run sq d inp run_id r = Some (res, r') \<and> svc_reachable (sq_digest sq) r' \<and>
    (\<forall>x. res = Inr x \<longrightarrow> (\<exists>st. dict_get (repo_states r') (fr_run_id x) = Some st \<and> flow_result_of st = Inr x))"
proof -
  obtain a r1 where b: "seq_begin sq d run_id r = (a, r1)" by fastforce
  note one = svc_okD [OF ok_seq_begin svc_reachable_inv [OF r] fresh TrueI b]
  have r1: "svc_reachable (sq_digest sq) r1" using r one(1) by (rule svc_reachable_steps)
  show ?thesis
  proof (cases a)
    case (Inl e)
    with b r1 show ?thesis by (simp add: seq_run_def)
  next
    case (Inr st)
    have "inj (uuid_stream r1)" using svc_steps_streams [OF one(1) svc_reachable_inv [OF r]] fresh by simp
    from advance_ok [OF sq svc_reachable_inv [OF r1] this, of d "length (fd_agents d)" st inp None]
    show ?thesis using b Inr r1 by (auto simp: seq_run_def reports_def dest: svc_reachable_steps)
  qed
qed

theorem sequential_run_reports_witness:
  "\<exists>res r'. seq_run ex_strategy ex_definition ex_input (Some 8) ex_s4 = Some (res, r') \<and>
     svc_reachable ex_digest r' \<and> (\<forall>x. res = Inr x \<longrightarrow> (\<exists>st. dict_get (repo_states r') (fr_run_id x) = Some st))"
  using sequential_run_reports [OF ex_strategy_good(1), of ex_s4 ex_definition ex_input "Some 8"]
    ex_svc_reachable(4) ex_fresh ex_strategy_good(2) by auto

text \<open>
  The same for resuming a waiting Flow with user input or with a tool confirmation, and for
  cancelling a Flow.
\<close>

theorem sequential_resume_reports:
  assumes sq: "good_strategy sq" and r: "svc_reachable (sq_digest sq) r" and fresh: "inj (uuid_stream r)"
  shows "(\<exists>res r'. seq_resume sq d k ui r = Some (res, r') \<and> svc_reachable (sq_digest sq) r' \<and>
      (\<forall>x. res = Inr x \<longrightarrow> reports x r')) \<and>
    (\<exists>res r'. seq_confirm sq d k cf r = Some (res, r') \<and> svc_reachable (sq_digest sq) r' \<and>
      (\<forall>x. res = Inr x \<longrightarrow> reports x r')) \<and>
    (case seq_cancel sq k reason r of (res, r') \<Rightarrow> svc_reachable (sq_digest sq) r' \<and>
      (\<forall>x. res = Inr x \<longrightarrow> reports x r'))"
proof -
  have "\<exists>res r'. resume_waiting sq d k a b r = Some (res, r') \<and> svc_reachable (sq_digest sq) r' \<and>
      (\<forall>x. res = Inr x \<longrightarrow> reports x r')" for a b
  proof -
    obtain x r1 where b: "resume_settle sq d k a b r = (x, r1)" by fastforce
    note one = svc_okD [OF ok_resume_settle [OF sq] svc_reachable_inv [OF r] fresh TrueI b]
    have r1: "svc_reachable (sq_digest sq) r1" using r one(1) by (rule svc_reachable_steps)
    have f1: "inj (uuid_stream r1)" using svc_steps_streams [OF one(1) svc_reachable_inv [OF r]] fresh by simp
    show ?thesis
    proof (cases "\<exists>inp st res. x = Inr (Inr (inp, st, res))")
      case True
      then obtain inp st res where x: "x = Inr (Inr (inp, st, res))" by blast
      from advance_ok [OF sq svc_reachable_inv [OF r1] f1, of d "length (fd_agents d)" st inp "Some res"]
      show ?thesis using b x r1 by (auto simp: resume_waiting_def dest: svc_reachable_steps)
    next
      case False
      with b one(2) r1 show ?thesis
        by (auto simp: resume_waiting_def split: sum.splits)
    qed
  qed
  moreover obtain res r' where c: "seq_cancel sq k reason r = (res, r')" by fastforce
  note two = svc_okD [OF ok_seq_cancel [OF sq] svc_reachable_inv [OF r] fresh TrueI c]
  then have "svc_reachable (sq_digest sq) r'" using svc_reachable_steps [OF r] by blast
  ultimately show ?thesis using two(2) c by (simp add: seq_resume_def seq_confirm_def)
qed

theorem sequential_resume_reports_witness:
  "\<exists>res r'. seq_resume ex_strategy ex_definition 7 ''yes'' ex_s4 = Some (res, r') \<and>
     svc_reachable ex_digest r' \<and> (\<forall>x. res = Inr x \<longrightarrow> reports x r')"
  using sequential_resume_reports [OF ex_strategy_good(1), of ex_s4 ex_definition 7 "''yes''"]
    ex_svc_reachable(4) ex_fresh ex_strategy_good(2) by metis

lemma svc_resume_succeeds:
  assumes inv: "svc_inv r" and cur: "holds k cur r" and w: "fs_status cur = Waiting"
    and a: "active_invocation cur = Some a" and tok: "execution_token_for lease k = Inr tok"
    and ent: "entitled r k tok (clock_stream r (clock_reads r + 2))"
  shows "\<exists>st r'. svc_resume_invocation lease k (inv_id a) r = (Inr st, r') \<and> holds k st r' \<and>
    fs_status st = Running \<and> fs_active_invocation_id st = Some (inv_id a)"
proof -
  note curD = svc_invD [OF inv cur] repo_inv_state [OF svc_inv_repo [OF inv] cur]
  let ?tt = "(clock_stream r (clock_reads r), clock_stream r (Suc (clock_reads r)))"
  let ?r1 = "r\<lparr>clock_reads := Suc (Suc (clock_reads r))\<rparr>"
  let ?next = "\<lambda>current. pbind utc_now2 (\<lambda>ts. plift (resume_invocation ts (inv_id a) current))"
  from resume_invocation_succeeds [of cur ?tt] curD w a obtain st where
    st: "resume_invocation ?tt (inv_id a) cur = Inr st" "fs_status st = Running"
      "fs_active_invocation_id st = Some (inv_id a)" by auto
  have step: "flow_step (\<lambda>_. []) cur st" using st(1) by (rule step_resume)
  have "flow_inv st" using curD st(1) by (blast intro: resume_invocation_inv)
  then obtain b where b: "active_invocation st = Some b"
    using st(3) by (auto simp: flow_inv_def valid_state_def)
  have "?next cur r = (Inr st, ?r1)" using st(1) by (simp add: pbind_app utc_now2_def utc_now_def)
  moreover have "same_store r ?r1" by (simp add: same_store_def)
  moreover have "entitled r k tok (next_time ?r1)" using ent by simp
  moreover have "validate_flow_replacement cur st (fs_revision cur) = Inr ()" "fs_run_id st = k"
    using flow_step_frame [OF step] curD(2) by (auto simp: validate_flow_replacement_Inr same_identity_def)
  ultimately show ?thesis
    using svc_transition_succeeds [OF svc_inv_repo [OF inv] cur, where next_of = ?next and st = st and
        drafts = "\<lambda>_ st. case active_invocation st of None \<Rightarrow> Inl AssertionError
       | Some i \<Rightarrow> Inr [\<lparr>dr_type = AGENT_INVOCATION_RESUMED,
             dr_data = invocation_data i @ [(''revision'', EvInt (fs_revision st))]\<rparr>,
           \<lparr>dr_type = FLOW_RESUMED,
             dr_data = [(''invocation_id'', EvUuid (inv_id i)), (''revision'', EvInt (fs_revision st))]\<rparr>]"]
      tok b st(2,3) unfolding svc_resume_invocation_def by fastforce
qed

text \<open>The example's run 7 waits and can be resumed.\<close>

definition ex_resumable :: "flow_repo \<Rightarrow> bool" where
  "ex_resumable r \<longleftrightarrow> (case dict_get (repo_states r) 7 of None \<Rightarrow> False
     | Some st \<Rightarrow> (case active_invocation st of None \<Rightarrow> False
       | Some a \<Rightarrow> fs_status st = Waiting \<and> valid_invocation_input (inv_input a) \<and>
           require_supported ex_definition = Inr () \<and>
           require_definition (sq_digest ex_strategy) st ex_definition = Inr () \<and>
           before_transport st (clock_stream r (clock_reads r)) False = Inr None \<and>
           execution_token_for (sq_lease ex_strategy) 7 = Inr None \<and>
           entitled r 7 None (clock_stream r (clock_reads r + 3))))"

text \<open>
  The resume is committed before its payload is validated: resuming a waiting Flow with an empty
  text passes the budget gate, commits the transition to running, and only then raises
  \<open>ValidationError\<close> from the request's constructor. The run is left running with an open
  invocation that nobody executes, and no later resume or confirmation is possible.
\<close>

theorem resume_empty_input_strands:
  assumes r: "svc_reachable digest r" and cur: "dict_get (repo_states r) k = Some cur"
    and w: "fs_status cur = Waiting" and a: "active_invocation cur = Some a"
    and "valid_invocation_input (inv_input a)" and "require_supported d = Inr ()"
    and "require_definition (sq_digest sq) cur d = Inr ()"
    and "before_transport cur (clock_stream r (clock_reads r)) False = Inr None"
    and tok: "execution_token_for (sq_lease sq) k = Inr tok"
    and ent: "entitled r k tok (clock_stream r (clock_reads r + 3))"
  shows "\<exists>st r'. seq_resume sq d k [] r = Some (Inl ValidationError, r') \<and>
    dict_get (repo_states r') k = Some st \<and> fs_status st = Running \<and>
    fs_active_invocation_id st = Some (inv_id a) \<and>
    (\<forall>ts iid. resume_invocation ts iid st = Inl InvalidFlowTransitionError)"
proof -
  let ?r0 = "r\<lparr>clock_reads := Suc (clock_reads r)\<rparr>"
  have same: "same_store r ?r0" by simp
  have inv: "svc_inv ?r0" using svc_inv_same [OF svc_reachable_inv [OF r] same] .
  have "clock_stream ?r0 (clock_reads ?r0 + 2) = clock_stream r (clock_reads r + 3)"
    by (simp add: numeral_eq_Suc)
  with ent entitled_same [OF same] have "entitled ?r0 k tok (clock_stream ?r0 (clock_reads ?r0 + 2))" by simp
  moreover have "holds k cur ?r0" using cur by simp
  ultimately obtain st r' where res: "svc_resume_invocation (sq_lease sq) k (inv_id a) ?r0 = (Inr st, r')"
    "holds k st r'" "fs_status st = Running" "fs_active_invocation_id st = Some (inv_id a)"
    using svc_resume_succeeds [OF inv _ w a tok] by blast
  have "valid_flow_input \<lparr>fi_prompt = ii_prompt (inv_input a), fi_attachments = ii_attachments (inv_input a)\<rparr>"
    using assms(5) by (simp add: valid_invocation_input_def valid_flow_input_def)
  with assms(6-8) cur a res(1) have "seq_resume sq d k [] r = Some (Inl ValidationError, r')"
    by (simp add: seq_resume_def resume_waiting_def resume_settle_def pbind_app svc_get_def repo_get_eq
        utc_now_def construct_def valid_resume_def)
  with res show ?thesis by (auto simp: resume_invocation_def)
qed

theorem resume_empty_input_strands_witness:
  "\<exists>st r'. seq_resume ex_strategy ex_definition 7 [] ex_s4 = Some (Inl ValidationError, r') \<and>
     dict_get (repo_states r') 7 = Some st \<and> fs_status st = Running"
proof -
  have "ex_resumable ex_s4" by code_simp
  then obtain st a where "dict_get (repo_states ex_s4) 7 = Some st" "fs_status st = Waiting"
    "active_invocation st = Some a" "valid_invocation_input (inv_input a)"
    "require_supported ex_definition = Inr ()"
    "require_definition (sq_digest ex_strategy) st ex_definition = Inr ()"
    "before_transport st (clock_stream ex_s4 (clock_reads ex_s4)) False = Inr None"
    "execution_token_for (sq_lease ex_strategy) 7 = Inr None"
    "entitled ex_s4 7 None (clock_stream ex_s4 (clock_reads ex_s4 + 3))"
    by (auto simp: ex_resumable_def split: option.splits)
  from resume_empty_input_strands [OF ex_svc_reachable(4) this] show ?thesis by blast
qed

subsection \<open>The undisturbed run\<close>

text \<open>A run that nobody has leased: its owner may write without a token.\<close>

abbreviation free :: "uuid \<Rightarrow> flow_repo \<Rightarrow> bool" where
  "free k r \<equiv> dict_get (repo_leases r) k = None"

lemma svc_transition_free:
  assumes inv: "svc_inv r" and cur: "holds k cur r" and free: "free k r"
    and nxt: "next_of cur r = (Inr st, r1)" and q: "\<And>cur. quiet (next_of cur)"
    and ds: "drafts cur st = Inr ds" "ds \<noteq> []" and step: "flow_step digest cur st"
  shows "\<exists>r'. svc_transition None k next_of drafts r = (Inr st, r') \<and> holds k st r' \<and> free k r'"
proof -
  have same: "same_store r r1" using q nxt by (rule quietD)
  have rep: "validate_flow_replacement cur st (fs_revision cur) = Inr ()" "fs_run_id st = k"
    using flow_step_frame [OF step] repo_inv_state [OF svc_inv_repo [OF inv] cur]
    by (auto simp: validate_flow_replacement_Inr same_identity_def)
  have "execution_token_for None k = Inr None" "entitled r k None (next_time r1)"
    using free by (simp_all add: execution_token_for_def entitled_def)
  from svc_transition_succeeds [where next_of = next_of and drafts = drafts,
      OF svc_inv_repo [OF inv] cur nxt same ds this rep]
  obtain r' where run: "svc_transition None k next_of drafts r = (Inr st, r')" "holds k st r'" by blast
  from run(1) q have "repo_leases r' = repo_leases r"
    by (rule svc_transition_Inr) (auto elim!: repo_commit_Inr simp: same_store_def)
  with run free show ?thesis by simp
qed

definition unlimited :: "flow_budget \<Rightarrow> bool" where
  "unlimited b \<longleftrightarrow> max_input_tokens b = None \<and> max_output_tokens b = None \<and> max_total_tokens b = None \<and>
     max_model_calls b = None \<and> max_tool_calls b = None \<and> timeout_seconds b = None"

text \<open>The state at the head of the loop before the \<open>n\<close>-th agent.\<close>

definition at_agent :: "(json \<Rightarrow> string) \<Rightarrow> flow_definition \<Rightarrow> uuid \<Rightarrow> nat \<Rightarrow> flow_run_state \<Rightarrow>
    agent_invocation_result option \<Rightarrow> flow_repo \<Rightarrow> bool" where
  "at_agent digest d k n st p r \<longleftrightarrow> svc_inv r \<and> inj (uuid_stream r) \<and> free k r \<and> holds k st r \<and>
     fs_run_id st = k \<and> fs_status st = Running \<and> fs_active_invocation_id st = None \<and>
     same_definition digest st d \<and> fs_budget st = fd_budget d \<and>
     map inv_agent_key (fs_invocations st) = map fa_key (take n (fd_agents d)) \<and>
     n \<le> length (fd_agents d) \<and> list_all (\<lambda>i. inv_status i = Completed) (fs_invocations st) \<and>
     0 \<le> model_call_count st \<and> 0 \<le> tool_call_count st \<and>
     (case p of None \<Rightarrow> n = 0 | Some a \<Rightarrow> 0 < n \<and> valid_result a \<and> ar_status a = ACompleted)"

lemma at_agent_gates:
  assumes "at_agent digest d k n st p r" and "unlimited (fd_budget d)"
    and "int (length (fd_agents d)) \<le> max_invocations (fd_budget d)"
  shows "n < length (fd_agents d) \<Longrightarrow> before_transport st now True = Inr None"
    and "after_transport st now = Inr None" and "length (fs_invocations st) = n"
proof -
  have inv: "flow_inv st" using assms(1) svc_invD unfolding at_agent_def by blast
  then have "fs_deadline_at st = None"
    using assms(1,2) by (auto simp: at_agent_def unlimited_def flow_inv_def valid_state_def)
  then have dl: "\<not> past_deadline st now" by (simp add: past_deadline_def)
  show len: "length (fs_invocations st) = n"
    using assms(1) unfolding at_agent_def by (metis length_map length_take min.absorb2)
  have counts: "0 \<le> model_call_count st" "0 \<le> tool_call_count st" "fs_budget st = fd_budget d"
    using assms(1) by (simp_all add: at_agent_def)
  show "after_transport st now = Inr None"
    using after_transport_None [OF inv counts(1,2)] dl counts(3) assms(2) by (simp add: limits_ok_def unlimited_def)
  show "before_transport st now True = Inr None" if "n < length (fd_agents d)"
    using before_transport_None [OF inv counts(1,2), of now True] dl counts(3) assms(2,3) len that
    by (simp add: limits_ok_def unlimited_def)
qed

lemma create_state_succeeds:
  assumes "valid_flow_definition d" and "\<And>j. sha256_pattern (digest j)"
  shows "\<exists>st. create_state digest d k t = Inr st"
  using assms
  by (cases "timeout_seconds (fd_budget d)")
    (simp_all add: create_state_def construct_def valid_state_def flow_fingerprint_def
      valid_flow_definition_def valid_budget_def)

lemma seq_begin_succeeds:
  assumes inv: "svc_inv r" and fresh: "inj (uuid_stream r)" and new: "dict_get (repo_states r) k = None"
    and d: "valid_flow_definition d" "fd_strategy d = ''sequential''" and dig: "\<And>j. sha256_pattern (digest j)"
    and sq: "sq_digest sq = digest" "sq_lease sq = None"
  shows "\<exists>st r'. seq_begin sq d (Some k) r = (Inr st, r') \<and> at_agent digest d k 0 st None r'"
proof -
  let ?r0 = "r\<lparr>clock_reads := Suc (clock_reads r)\<rparr>"
  obtain st0 where st0: "create_state digest d k (next_time r) = Inr st0"
    using create_state_succeeds [of d digest k "next_time r"] d(1) dig by blast
  then have k: "fs_run_id st0 = k" "fs_revision st0 = 1" "fs_status st0 = Created" "fs_invocations st0 = []"
    "fs_active_invocation_id st0 = None" "same_definition digest st0 d" "fs_budget st0 = fd_budget d"
    by (auto simp: create_state_def same_definition_def)
  obtain es r1 where c: "svc_create digest d (Some k) (Some (next_time r)) ?r0 = (Inr st0, r1)"
    "holds k st0 r1" "repo_leases r1 = repo_leases r"
    using st0 k(1,2) new
    by (auto simp: svc_create_def pbind_app run_id_or_new_def repo_create_def materialize_events_eq
        simp del: materialize_events.simps)
  have "svc_inv ?r0" by (rule svc_inv_same [OF inv]) simp
  from svc_create_inv [OF this c(1)] have inv1: "svc_inv r1" .
  have leaseless: "free k r"
    using repo_inv_lease [OF svc_inv_repo [OF inv], of k] new by (cases "dict_get (repo_leases r) k") (auto simp: lease_ok_def)
  let ?st = "evolve (next_time r1) (st0\<lparr>fs_status := Running\<rparr>)"
  have start: "start (next_time r1) st0 = Inr ?st" using k(3) by (simp add: start_def)
  have "\<exists>r'. svc_start None k r1 = (Inr ?st, r') \<and> holds k ?st r' \<and> free k r'"
    unfolding svc_start_def
    by (rule svc_transition_free [OF inv1 c(2) _ _ _ _ _ step_start [OF start, of digest]])
      (use c(3) leaseless start in \<open>auto simp: pbind_app utc_now_def\<close>)
  then obtain r' where s: "svc_start None k r1 = (Inr ?st, r')" "holds k ?st r'" "free k r'" by blast
  have "(svc_step digest)\<^sup>*\<^sup>* r ?r0" "(svc_step digest)\<^sup>*\<^sup>* ?r0 r1" "(svc_step digest)\<^sup>*\<^sup>* r1 r'"
    by (auto intro: r_into_rtranclp does_read [OF same_store_clock] does_create [OF c(1)] does_start [OF s(1)])
  then have steps: "(svc_step digest)\<^sup>*\<^sup>* r r'" by (meson rtranclp_trans)
  have "at_agent digest d k 0 ?st None r'"
    using svc_steps_inv [OF steps inv] svc_steps_streams [OF steps inv] fresh s(2,3) k
    by (simp add: at_agent_def same_definition_def model_call_count_def tool_call_count_def)
  moreover have "seq_begin sq d (Some k) r = (Inr ?st, r')"
    using c(1) s(1) sq k(1) d(2)
    by (simp add: seq_begin_def pbind_app require_supported_def utc_now_def)
  ultimately show ?thesis by blast
qed

text \<open>What an agent answers when all goes well.\<close>

definition completes :: "invoker \<Rightarrow> bool" where
  "completes iv \<longleftrightarrow> (\<forall>left q r. valid_request q \<longrightarrow> (\<exists>a. ivk_invoke iv left q r = (Returned a, r) \<and>
     valid_result a \<and> ar_status a = ACompleted \<and> ar_flow_run_id a = rq_flow_run_id q \<and>
     ar_invocation_id a = rq_invocation_id q \<and> ar_agent_key a = rq_agent_key q \<and>
     0 \<le> result_count (Some a) ''model_calls'' \<and> 0 \<le> result_count (Some a) ''tool_calls''))"

lemma handoff_succeeds:
  "(case p of None \<Rightarrow> True | Some a \<Rightarrow> valid_result a) \<Longrightarrow> \<exists>h. handoff_of p = Inr h \<and> opt_all valid_handoff h"
  by (cases p) (auto simp: handoff_of_def construct_def valid_handoff_def valid_result_def str_or_def split: option.split)

text \<open>The counts of a list of invocations in which one result replaces an absent one.\<close>

lemma settled_count:
  assumes inv: "flow_inv st" and s: "settle_invocation tt a st = Inr st'"
    and none: "\<And>i. active_invocation st = Some i \<Longrightarrow> inv_result i = None"
  shows "sum_list (map (\<lambda>i. result_count (inv_result i) key) (fs_invocations st')) =
    sum_list (map (\<lambda>i. result_count (inv_result i) key) (fs_invocations st)) + result_count (Some a) key"
  using s
proof (rule settle_invocationE)
  fix i i'
  assume i: "active_invocation st = Some i" and i': "settle (fst tt) a i = Inr i'"
    and st': "st' = evolve (snd tt) (st\<lparr>fs_status := (if ar_status a = AWaiting then Waiting else Running),
        fs_invocations := replace_by inv_id (inv_id i) i' (fs_invocations st),
        fs_active_invocation_id := (if ar_status a = AWaiting then Some (inv_id i) else None)\<rparr>)"
  have d: "distinct (map inv_id (fs_invocations st))" using inv by (simp add: flow_inv_def valid_state_def)
  have "inv_result i' = Some a" using i' by (auto elim!: settleE)
  with none [OF i] show ?thesis
    using replace_by_same [OF d active_in [OF i, THEN conjunct1] refl,
        of "\<lambda>i. result_count (inv_result i) key" i']
    by (simp add: st' result_count_def)
qed

lemma settled_shape:
  assumes inv: "flow_inv st" and s: "settle_invocation tt a st = Inr st'" and c: "ar_status a = ACompleted"
    and rest: "list_all (\<lambda>i. fs_active_invocation_id st = Some (inv_id i) \<or> inv_status i = Completed) (fs_invocations st)"
  shows "map inv_agent_key (fs_invocations st') = map inv_agent_key (fs_invocations st)"
    and "list_all (\<lambda>i. inv_status i = Completed) (fs_invocations st')"
    and "fs_status st' = Running" "fs_active_invocation_id st' = None"
proof -
  from s obtain i i' where i: "active_invocation st = Some i" and i': "settle (fst tt) a i = Inr i'"
    and st': "st' = evolve (snd tt) (st\<lparr>fs_status := Running,
        fs_invocations := replace_by inv_id (inv_id i) i' (fs_invocations st), fs_active_invocation_id := None\<rparr>)"
    by (rule settle_invocationE) (use c in auto)
  show "fs_status st' = Running" "fs_active_invocation_id st' = None" by (simp_all add: st')
  have d: "distinct (map inv_id (fs_invocations st))" using inv by (simp add: flow_inv_def valid_state_def)
  have same: "inv_agent_key i' = inv_agent_key i" "inv_status i' = Completed" using i' c by (auto elim!: settleE)
  have uniq: "x = i" if "x \<in> set (fs_invocations st)" "inv_id x = inv_id i" for x
    using d that active_in [OF i] by (simp add: distinct_map inj_on_def)
  show "map inv_agent_key (fs_invocations st') = map inv_agent_key (fs_invocations st)"
    using uniq same by (simp add: st', intro replace_by_map) auto
  show "list_all (\<lambda>i. inv_status i = Completed) (fs_invocations st')"
    using rest same active_in [OF i] by (auto simp: st' list_all_iff dest!: set_replace_by)
qed

text \<open>Beginning the next agent's invocation.\<close>

lemma begin_succeeds:
  assumes d: "valid_flow_definition d" and n: "n < length (fd_agents d)"
    and st: "fs_status st = Running" "fs_active_invocation_id st = None" "same_definition digest st d"
      "length (fs_invocations st) = n" "int n + 1 \<le> max_invocations (fs_budget st)"
    and q: "valid_request q" "rq_flow_run_id q = fs_run_id st" "rq_sequence q = int n + 1"
      "rq_agent_key q = fa_key (fd_agents d ! n)" "rq_definition_id q = ap_id (fa_definition (fd_agents d ! n))"
      "rq_definition_version q = ad_version (fa_definition (fd_agents d ! n))"
      "rq_definition_fingerprint q = agent_fingerprint digest (fa_definition (fd_agents d ! n))"
  shows "\<exists>st1 i. begin_invocation digest ts q d st = Inr st1 \<and>
    st1 = evolve (snd (snd ts)) (st\<lparr>fs_invocations := fs_invocations st @ [i], fs_active_invocation_id := Some (inv_id i)\<rparr>) \<and>
    inv_id i = rq_invocation_id q \<and> inv_agent_key i = rq_agent_key q \<and> inv_status i = Running \<and>
    inv_result i = None \<and> inv_flow_run_id i = fs_run_id st"
proof -
  have "flow_agent_of d (rq_agent_key q) = Inr (fa_definition (fd_agents d ! n))"
    using d n q(4) by (simp add: flow_agent_of_def find_agent_distinct valid_flow_definition_def)
  then have "\<exists>st1. begin_invocation digest ts q d st = Inr st1"
    using st q by (simp add: begin_invocation_def construct_def valid_invocation_def valid_request_def)
  then obtain st1 where st1: "begin_invocation digest ts q d st = Inr st1" by blast
  then show ?thesis by (rule begin_invocationE) (use st1 in blast)
qed

lemma settle_succeeds:
  assumes "fs_status st = Running" and "active_invocation st = Some i" and "inv_status i = Running"
    and "matches_result i a"
  shows "\<exists>st'. settle_invocation tt a st = Inr st'"
  using assms by (simp add: settle_invocation_def settle_def check_result_identity_def matches_result_def Let_def)

text \<open>The request for the \<open>n\<close>-th agent, and the state while that agent works.\<close>

definition request_for :: "(json \<Rightarrow> string) \<Rightarrow> flow_definition \<Rightarrow> uuid \<Rightarrow> nat \<Rightarrow> uuid \<Rightarrow>
    agent_invocation_input \<Rightarrow> agent_invocation_request" where
  "request_for digest d k n iid ii = (let b = fd_agents d ! n in
     \<lparr>rq_flow_run_id = k, rq_invocation_id = iid, rq_sequence = int n + 1, rq_agent_key = fa_key b,
      rq_definition_id = ap_id (fa_definition b), rq_definition_version = ad_version (fa_definition b),
      rq_definition_fingerprint = agent_fingerprint digest (fa_definition b), rq_input = ii\<rparr>)"

definition agent_works :: "(json \<Rightarrow> string) \<Rightarrow> flow_definition \<Rightarrow> uuid \<Rightarrow> nat \<Rightarrow> flow_run_state \<Rightarrow>
    agent_invocation \<Rightarrow> flow_repo \<Rightarrow> bool" where
  "agent_works digest d k n st i r \<longleftrightarrow> svc_inv r \<and> inj (uuid_stream r) \<and> free k r \<and> holds k st r \<and>
     fs_run_id st = k \<and> fs_status st = Running \<and> active_invocation st = Some i \<and> inv_status i = Running \<and>
     inv_result i = None \<and> same_definition digest st d \<and> fs_budget st = fd_budget d \<and>
     map inv_agent_key (fs_invocations st) = map fa_key (take (Suc n) (fd_agents d)) \<and> n < length (fd_agents d) \<and>
     list_all (\<lambda>i. fs_active_invocation_id st = Some (inv_id i) \<or> inv_status i = Completed) (fs_invocations st) \<and>
     0 \<le> model_call_count st \<and> 0 \<le> tool_call_count st"

lemma request_for_valid:
  assumes "valid_flow_definition d" "list_all (\<lambda>a. valid_key (ap_id (fa_definition a))) (fd_agents d)"
    and "\<And>j. sha256_pattern (digest j)" "valid_invocation_input ii" "n < length (fd_agents d)"
  shows "valid_request (request_for digest d k n iid ii)"
proof -
  have "fd_agents d ! n \<in> set (fd_agents d)" using assms(5) by simp
  then show ?thesis using assms
    by (auto simp: valid_request_def request_for_def Let_def valid_flow_definition_def list_all_iff
        valid_agent_definition_def valid_version_def agent_fingerprint_def)
qed

lemma begin_next:
  fixes r :: flow_repo
  defines "iid \<equiv> uuid_stream r (uuid_draws r)"
  assumes at: "at_agent digest d k n st p r" and n: "n < length (fd_agents d)" and d: "valid_flow_definition d"
      "int (length (fd_agents d)) \<le> max_invocations (fd_budget d)" "length (fs_invocations st) = n"
    and q: "valid_request (request_for digest d k n iid ii)"
    and r1: "same_store r r1" "uuid_draws r1 = Suc (uuid_draws r)"
  shows "\<exists>st1 i r2. svc_begin_invocation digest None k (request_for digest d k n iid ii) d r1 = (Inr st1, r2) \<and>
    agent_works digest d k n st1 i r2 \<and> inv_id i = iid \<and> inv_agent_key i = fa_key (fd_agents d ! n) \<and> inv_flow_run_id i = k"
proof -
  note atD = at [unfolded at_agent_def]
  let ?q = "request_for digest d k n iid ii"
  let ?ts = "(next_time r1, clock_stream r1 (Suc (clock_reads r1)), clock_stream r1 (Suc (Suc (clock_reads r1))))"
  obtain st1 i where st1: "begin_invocation digest ?ts ?q d st = Inr st1"
    and st1_eq: "st1 = evolve (snd (snd ?ts)) (st\<lparr>fs_invocations := fs_invocations st @ [i], fs_active_invocation_id := Some (inv_id i)\<rparr>)"
    and i: "inv_id i = iid" "inv_agent_key i = fa_key (fd_agents d ! n)" "inv_status i = Running" "inv_result i = None"
      "inv_flow_run_id i = k"
    using begin_succeeds [OF d(1) n, of st digest ?q ?ts] atD q n d(2,3) by (auto simp: request_for_def Let_def)
  have fresh: "iid \<notin> set (map inv_id (fs_invocations st))" unfolding iid_def using fresh_draw atD by blast
  have s1: "flow_step digest st st1" using q st1 by (rule step_begin)
  have inv_st1: "flow_inv st1" using begin_invocation_inv [OF _ q _ st1] fresh svc_invD atD
    by (auto simp: request_for_def Let_def)
  have "active_invocation st1 \<noteq> None"
    using inv_st1 by (simp add: flow_inv_def valid_state_def st1_eq)
  then obtain j where j: "active_invocation st1 = Some j" by blast
  have act: "active_invocation st1 = Some i"
    using active_in [OF j] fresh i(1) j by (auto simp: st1_eq)
  have inv1: "svc_inv r1" using svc_inv_same [OF _ r1(1)] atD by blast
  have "\<exists>r2. svc_begin_invocation digest None k ?q d r1 = (Inr st1, r2) \<and> holds k st1 r2 \<and> free k r2"
    unfolding svc_begin_invocation_def
    by (rule svc_transition_free [OF inv1 _ _ _ quiet_clock_lift(3) _ _ s1])
      (use atD r1 st1 act in \<open>auto simp: same_store_def pbind_app utc_now3_def utc_now2_def utc_now_def\<close>)
  then obtain r2 where beg: "svc_begin_invocation digest None k ?q d r1 = (Inr st1, r2)" "holds k st1 r2" "free k r2" by blast
  have "svc_step digest r1 r2"
    by (rule does_begin [OF q _ _ beg(1)])
      (use fresh atD r1 in \<open>auto simp: same_store_def drawn_def iid_def request_for_def Let_def\<close>)
  with does_read [OF r1(1)] have steps: "(svc_step digest)\<^sup>*\<^sup>* r r2"
    by (meson converse_rtranclp_into_rtranclp r_into_rtranclp)
  have "agent_works digest d k n st1 i r2"
    using svc_steps_inv [OF steps] svc_steps_streams [OF steps] atD beg(2,3) act i n flow_step_frame [OF s1]
    by (auto simp: agent_works_def st1_eq same_definition_def take_Suc_conv_app_nth list_all_iff
        model_call_count_def tool_call_count_def result_count_def)
  with beg(1) i show ?thesis by blast
qed

lemma settle_next:
  assumes w: "agent_works digest d k n st i r" and a: "valid_result a" "ar_status a = ACompleted" "matches_result i a"
      "0 \<le> result_count (Some a) ''model_calls''" "0 \<le> result_count (Some a) ''tool_calls''"
  shows "\<exists>st' r'. svc_settle_invocation None k a r = (Inr st', r') \<and> at_agent digest d k (Suc n) st' (Some a) r'"
proof -
  note wD = w [unfolded agent_works_def]
  let ?tt = "(next_time r, clock_stream r (Suc (clock_reads r)))"
  have inv: "flow_inv st" using svc_invD wD by blast
  obtain st' where st': "settle_invocation ?tt a st = Inr st'"
    using settle_succeeds [OF _ _ _ a(3), of st ?tt] wD by blast
  have s: "flow_step digest st st'" using a(1) st' by (rule step_settle)
  have "fs_invocations st' \<noteq> []"
    using st' active_in [of st i] wD by (auto elim!: settle_invocationE)
  then have "\<exists>r'. svc_settle_invocation None k a r = (Inr st', r') \<and> holds k st' r' \<and> free k r'"
    unfolding svc_settle_invocation_def
    by (intro svc_transition_free [OF _ _ _ _ quiet_clock_lift(2) _ _ s])
      (use wD st' in \<open>auto simp: pbind_app utc_now2_def utc_now_def settle_drafts_def Let_def\<close>)
  then obtain r' where set: "svc_settle_invocation None k a r = (Inr st', r')" "holds k st' r'" "free k r'" by blast
  have steps: "(svc_step digest)\<^sup>*\<^sup>* r r'" using does_settle [OF a(1) set(1)] by blast
  have "0 \<le> model_call_count st'" "0 \<le> tool_call_count st'"
    using settled_count [OF inv st'] wD a(4,5) by (simp_all add: model_call_count_def tool_call_count_def)
  then have "at_agent digest d k (Suc n) st' (Some a) r'"
    using svc_steps_inv [OF steps] svc_steps_streams [OF steps] wD set(2,3) a(1,2) flow_step_frame [OF s]
      settled_shape [OF inv st' a(2)]
    by (simp add: at_agent_def same_definition_def same_identity_def)
  with set(1) show ?thesis by blast
qed

lemma at_agent_clock: "at_agent digest d k n st p r \<Longrightarrow> at_agent digest d k n st p (r\<lparr>clock_reads := Suc (clock_reads r)\<rparr>)"
  using svc_inv_same [OF _ same_store_clock, of r] by (simp add: at_agent_def)

lemma agent_works_clock:
  "agent_works digest d k n st i r \<Longrightarrow> agent_works digest d k n st i (r\<lparr>clock_reads := Suc (clock_reads r)\<rparr>)"
  using svc_inv_same [OF _ same_store_clock, of r] by (simp add: agent_works_def)

lemma advance_step_succeeds:
  assumes at: "at_agent digest d k n st p r" and n: "n < length (fd_agents d)"
    and d: "valid_flow_definition d" "unlimited (fd_budget d)"
      "int (length (fd_agents d)) \<le> max_invocations (fd_budget d)"
      "list_all (\<lambda>a. valid_key (ap_id (fa_definition a))) (fd_agents d)"
    and dig: "\<And>j. sha256_pattern (digest j)" and inp: "valid_flow_input inp"
    and sq: "sq_digest sq = digest" "sq_lease sq = None" "completes (sq_invoker sq)"
  shows "\<exists>st' a r'. advance_step sq d inp st p r = (Inr (Inr (st', a)), r') \<and> at_agent digest d k (Suc n) st' (Some a) r'"
proof -
  note gate = at_agent_gates [OF at d(2,3)]
  let ?iid = "uuid_stream r (uuid_draws r)" and ?r1 = "r\<lparr>clock_reads := Suc (clock_reads r), uuid_draws := Suc (uuid_draws r)\<rparr>"
  obtain h where h: "handoff_of p = Inr h" "opt_all valid_handoff h"
    using handoff_succeeds [of p] at by (auto simp: at_agent_def split: option.splits)
  let ?ii = "\<lparr>ii_prompt = fi_prompt inp, ii_handoff = h, ii_attachments = fi_attachments inp\<rparr>"
  let ?q = "request_for digest d k n ?iid ?ii"
  have ii: "valid_invocation_input ?ii" using inp h(2) by (simp add: valid_invocation_input_def valid_flow_input_def)
  have q: "valid_request ?q" using request_for_valid d(1,4) dig ii n by blast
  obtain st1 i r2 where beg: "svc_begin_invocation digest None k ?q d ?r1 = (Inr st1, r2)"
    and w: "agent_works digest d k n st1 i r2" and i: "inv_id i = ?iid" "inv_agent_key i = fa_key (fd_agents d ! n)"
      "inv_flow_run_id i = k"
    using begin_next [OF at n d(1,3) gate(3) q, of ?r1] by (auto simp: same_store_def)
  let ?r3 = "r2\<lparr>clock_reads := Suc (clock_reads r2)\<rparr>"
  obtain a where a: "ivk_invoke (sq_invoker sq) (remaining_seconds st1 (next_time r2)) ?q ?r3 = (Returned a, ?r3)"
    "valid_result a" "ar_status a = ACompleted" "ar_flow_run_id a = k" "ar_invocation_id a = ?iid"
    "ar_agent_key a = fa_key (fd_agents d ! n)"
    "0 \<le> result_count (Some a) ''model_calls''" "0 \<le> result_count (Some a) ''tool_calls''"
    using sq(3) q unfolding completes_def by (fastforce simp: request_for_def Let_def)
  have m: "matches_result i a" using a i by (simp add: matches_result_def)
  obtain st2 r4 where set: "svc_settle_invocation None k a ?r3 = (Inr st2, r4)"
    and at2: "at_agent digest d k (Suc n) st2 (Some a) r4"
    using settle_next [OF agent_works_clock [OF w] a(2,3) m a(7,8)] by blast
  have k: "fs_run_id st1 = k" "fs_run_id st2 = k" "fs_run_id st = k"
    using w at2 at by (simp_all add: at_agent_def agent_works_def)
  let ?r5 = "r4\<lparr>clock_reads := Suc (clock_reads r4)\<rparr>"
  have "settle_outcome sq st1 (fa_key (fd_agents d ! n)) op nt (Returned a) ?r3 = (Inr (Inr (st2, a)), ?r5)" for op nt
    using set at_agent_gates(2) [OF at2 d(2,3)] sq(2) k a(3)
    by (simp add: settle_outcome_def ptry_app pbind_app utc_now_def handle_outcome_def)
  moreover have "within_deadline st1 (\<lambda>left. ivk_invoke (sq_invoker sq) left ?q) r2 = (Inr (Returned a), ?r3)"
    using a(1) by (simp add: within_deadline_def pbind_app utc_now_def await_def)
  ultimately have "advance_step sq d inp st p r = (Inr (Inr (st2, a)), ?r5)"
    using gate(1) [OF n] gate(3) h(1) ii q beg sq k
    by (simp add: advance_step_def pbind_app utc_now_def uuid4_def construct_def request_for_def Let_def)
  with at_agent_clock [OF at2] show ?thesis by blast
qed

lemma complete_succeeds:
  assumes "fs_status st = Running" "fs_active_invocation_id st = None" "fs_invocations st \<noteq> []"
    "list_all (\<lambda>i. inv_status i = Completed) (fs_invocations st)"
  shows "complete t outp st = Inr (evolve t (st\<lparr>fs_status := Completed, fs_output := Some outp, fs_error := None\<rparr>))"
  using assms by (auto simp: complete_def list_ex_iff list_all_iff)

lemma finish_succeeds:
  assumes at: "at_agent digest d k (length (fd_agents d)) st p r" and d: "valid_flow_definition d"
    and sq: "sq_lease sq = None"
  shows "\<exists>res st' r'. finish_flow sq st p r = (Inr res, r') \<and> holds k st' r' \<and>
    flow_result_of st' = Inr res \<and> fs_status st' = Completed \<and>
    map inv_agent_key (fs_invocations st') = map fa_key (fd_agents d)"
proof -
  note atD = at [unfolded at_agent_def]
  have ne: "fd_agents d \<noteq> []" using d by (simp add: valid_flow_definition_def)
  with atD obtain a where p: "p = Some a" by (cases p) auto
  have invs: "fs_invocations st \<noteq> []" using atD ne by (metis map_is_Nil_conv take_all order_refl)
  let ?out = "str_or (ar_output a) []"
  let ?st = "evolve (next_time r) (st\<lparr>fs_status := Completed, fs_output := Some ?out, fs_error := None\<rparr>)"
  have c: "complete (next_time r) ?out st = Inr ?st" using complete_succeeds atD invs by blast
  have "\<exists>r'. svc_complete None k ?out r = (Inr ?st, r') \<and> holds k ?st r' \<and> free k r'"
    unfolding svc_complete_def
    by (rule svc_transition_free [OF _ _ _ _ quiet_clock_lift(1) _ _ step_complete [OF c, of digest]])
      (use atD c in \<open>auto simp: pbind_app utc_now_def\<close>)
  then obtain r' where r': "svc_complete None k ?out r = (Inr ?st, r')" "holds k ?st r'" by blast
  obtain res where "flow_result_of ?st = Inr res"
    using atD by (simp add: flow_result_of_def construct_def valid_flow_result_def model_call_count_def tool_call_count_def)
  with r' sq atD p show ?thesis by (auto simp: finish_flow_def pbind_app)
qed

lemma advance_completes:
  assumes "at_agent digest d k n st p r" and "length (fd_agents d) \<le> fuel + n"
    and d: "valid_flow_definition d" "unlimited (fd_budget d)"
      "int (length (fd_agents d)) \<le> max_invocations (fd_budget d)"
      "list_all (\<lambda>a. valid_key (ap_id (fa_definition a))) (fd_agents d)"
    and dig: "\<And>j. sha256_pattern (digest j)" and inp: "valid_flow_input inp"
    and sq: "sq_digest sq = digest" "sq_lease sq = None" "completes (sq_invoker sq)"
  shows "\<exists>res st' r'. advance fuel sq d inp st p r = Some (Inr res, r') \<and> holds k st' r' \<and>
    flow_result_of st' = Inr res \<and> fs_status st' = Completed \<and>
    map inv_agent_key (fs_invocations st') = map fa_key (fd_agents d)"
  using assms(1,2)
proof (induction fuel arbitrary: n st p r)
  case (Suc fuel)
  show ?case
  proof (cases "n < length (fd_agents d)")
    case True
    obtain st1 a r1 where step: "advance_step sq d inp st p r = (Inr (Inr (st1, a)), r1)"
      and at1: "at_agent digest d k (Suc n) st1 (Some a) r1"
      using advance_step_succeeds [OF Suc.prems(1) True d dig inp sq] by blast
    have "length (fs_invocations st) = n" using at_agent_gates(3) [OF Suc.prems(1) d(2,3)] .
    with Suc.IH [OF at1] Suc.prems(2) step True show ?thesis by (simp add: advance.simps [of "Suc fuel"])
  next
    case False
    then have "n = length (fd_agents d)" using Suc.prems(1) by (simp add: at_agent_def)
    with finish_succeeds [of digest d k st p r sq] Suc.prems(1) d sq(2) at_agent_gates(3) [OF Suc.prems(1) d(2,3)]
    show ?thesis by (simp add: advance.simps [of "Suc fuel"])
  qed
next
  case 0
  then have "n = length (fd_agents d)" by (simp add: at_agent_def)
  with finish_succeeds [of digest d k st p r sq] 0(1) d sq(2) at_agent_gates(3) [OF 0(1) d(2,3)]
  show ?case by (simp add: advance.simps)
qed

text \<open>
  C8. An undisturbed run completes: when the run id is new and nobody holds a lease, the definition is
  valid and its budget covers its agents, and every agent completes its request, then the strategy
  returns the result of a completed Flow, which is what is stored, and it invoked exactly the agents
  of the definition, in the definition's order.
\<close>

theorem sequential_run_completes:
  assumes r: "svc_reachable (sq_digest sq) r" and fresh: "inj (uuid_stream r)"
    and new: "dict_get (repo_states r) k = None"
    and d: "valid_flow_definition d" "fd_strategy d = ''sequential''" "unlimited (fd_budget d)"
      "int (length (fd_agents d)) \<le> max_invocations (fd_budget d)"
      "list_all (\<lambda>a. valid_key (ap_id (fa_definition a))) (fd_agents d)"
    and dig: "\<And>j. sha256_pattern (sq_digest sq j)" and inp: "valid_flow_input inp"
    and sq: "sq_lease sq = None" "completes (sq_invoker sq)"
  shows "\<exists>res st r'. seq_run sq d inp (Some k) r = Some (Inr res, r') \<and>
    dict_get (repo_states r') k = Some st \<and> flow_result_of st = Inr res \<and> fs_status st = Completed \<and>
    map inv_agent_key (fs_invocations st) = map fa_key (fd_agents d)"
proof -
  obtain st0 r0 where b: "seq_begin sq d (Some k) r = (Inr st0, r0)" "at_agent (sq_digest sq) d k 0 st0 None r0"
    using seq_begin_succeeds [OF svc_reachable_inv [OF r] fresh new d(1,2) dig refl sq(1)] by blast
  from advance_completes [OF b(2) _ d(1,3-5) dig inp refl sq, of "length (fd_agents d)"] b(1)
  show ?thesis by (simp add: seq_run_def)
qed

lemma ex_done_fields: "ar_flow_run_id (ex_done k i a) = k" "ar_invocation_id (ex_done k i a) = i"
  "ar_agent_key (ex_done k i a) = a" "ar_status (ex_done k i a) = ACompleted"
  "result_count (Some (ex_done k i a)) key = 0"
  by (simp_all add: ex_done_def result_count_def)

lemma ex_completes: "completes ex_invoker"
  by (simp add: completes_def ex_invoker_def ex_done_valid valid_request_def ex_done_fields)

definition ex_new :: "flow_repo \<Rightarrow> bool" where
  "ex_new r \<longleftrightarrow> dict_get (repo_states r) 8 = None"

lemma ex_new_run: "dict_get (repo_states ex_s4) 8 = None"
proof -
  have "ex_new ex_s4" by code_simp
  then show ?thesis by (simp add: ex_new_def)
qed

theorem sequential_run_completes_witness:
  "\<exists>res st r'. seq_run ex_strategy ex_definition ex_input (Some 8) ex_s4 = Some (Inr res, r') \<and>
    dict_get (repo_states r') 8 = Some st \<and> flow_result_of st = Inr res \<and> fs_status st = Completed \<and>
    map inv_agent_key (fs_invocations st) = [''draft'', ''check'']"
proof -
  have d: "valid_flow_definition ex_definition" "fd_strategy ex_definition = ''sequential''"
    "unlimited (fd_budget ex_definition)"
    "int (length (fd_agents ex_definition)) \<le> max_invocations (fd_budget ex_definition)"
    "list_all (\<lambda>a. valid_key (ap_id (fa_definition a))) (fd_agents ex_definition)"
    "map fa_key (fd_agents ex_definition) = [''draft'', ''check'']" by code_simp+
  have "sha256_pattern (ex_digest j)" for j unfolding ex_digest_def by code_simp
  then show ?thesis
    using sequential_run_completes [of ex_strategy ex_s4 8 ex_definition ex_input] ex_svc_reachable(4)
      ex_fresh ex_new_run d ex_completes
    by (simp add: ex_strategy_def valid_flow_input_def ex_input_def)
qed

text \<open>
  C10. An agent whose id starts with one of \<open>_ . -\<close> is accepted in a definition but cannot be
  invoked: the profile's pattern allows such an id and the invocation request's does not. A Flow whose
  first agent has such an id is created and started, then the strategy raises \<open>ValidationError\<close>;
  the stored run stays running, with no invocation.
\<close>

theorem unusable_agent_id_strands:
  assumes r: "svc_reachable (sq_digest sq) r" and fresh: "inj (uuid_stream r)"
    and new: "dict_get (repo_states r) k = None"
    and d: "valid_flow_definition d" "fd_strategy d = ''sequential''" "unlimited (fd_budget d)"
      "int (length (fd_agents d)) \<le> max_invocations (fd_budget d)"
    and bad: "\<not> valid_key (ap_id (fa_definition (fd_agents d ! 0)))"
    and dig: "\<And>j. sha256_pattern (sq_digest sq j)" and inp: "valid_flow_input inp" and sq: "sq_lease sq = None"
  shows "\<exists>st r'. seq_run sq d inp (Some k) r = Some (Inl ValidationError, r') \<and>
    dict_get (repo_states r') k = Some st \<and> fs_status st = Running \<and> fs_invocations st = []"
proof -
  obtain st0 r0 where b: "seq_begin sq d (Some k) r = (Inr st0, r0)" "at_agent (sq_digest sq) d k 0 st0 None r0"
    using seq_begin_succeeds [OF svc_reachable_inv [OF r] fresh new d(1,2) dig refl sq] by blast
  have ne: "0 < length (fd_agents d)" using d(1) by (simp add: valid_flow_definition_def)
  have st0: "holds k st0 r0" "fs_status st0 = Running" "fs_invocations st0 = []"
    using b(2) by (auto simp: at_agent_def)
  have "before_transport st0 (next_time r0) True = Inr None"
    using at_agent_gates(1) [OF b(2) d(3,4) ne] .
  moreover have "\<not> valid_request (request_for (sq_digest sq) d (fs_run_id st0) 0 iid ii)" for iid ii
    using bad by (simp add: valid_request_def request_for_def Let_def)
  ultimately have "\<exists>r'. advance_step sq d inp st0 None r0 = (Inl ValidationError, r') \<and> repo_states r' = repo_states r0"
    using st0(3) inp
    by (simp add: advance_step_def pbind_app utc_now_def uuid4_def construct_def request_for_def Let_def
        handoff_of_def valid_invocation_input_def valid_flow_input_def)
  then obtain r' where step: "advance_step sq d inp st0 None r0 = (Inl ValidationError, r')"
    "repo_states r' = repo_states r0" by blast
  have "seq_run sq d inp (Some k) r = Some (Inl ValidationError, r')"
    using b(1) step(1) st0(3) ne by (cases "fd_agents d") (simp_all add: seq_run_def advance.simps [of "Suc _"])
  with step(2) st0 show ?thesis by simp
qed

definition ex_unusable :: flow_definition where
  "ex_unusable = ex_definition\<lparr>fd_agents := [\<lparr>fa_key = ''draft'', fa_definition = ex_agent ''_writer''\<rparr>]\<rparr>"

theorem unusable_agent_id_strands_witness:
  "\<exists>st r'. seq_run ex_strategy ex_unusable ex_input (Some 8) ex_s4 = Some (Inl ValidationError, r') \<and>
    dict_get (repo_states r') 8 = Some st \<and> fs_status st = Running \<and> fs_invocations st = []"
proof -
  have d: "valid_flow_definition ex_unusable" "fd_strategy ex_unusable = ''sequential''"
    "unlimited (fd_budget ex_unusable)"
    "int (length (fd_agents ex_unusable)) \<le> max_invocations (fd_budget ex_unusable)"
    "\<not> valid_key (ap_id (fa_definition (fd_agents ex_unusable ! 0)))" by code_simp+
  have "sha256_pattern (ex_digest j)" for j unfolding ex_digest_def by code_simp
  then show ?thesis
    using unusable_agent_id_strands [of ex_strategy ex_s4 8 ex_unusable ex_input] ex_svc_reachable(4)
      ex_fresh ex_new_run d
    by (simp add: ex_strategy_def valid_flow_input_def ex_input_def)
qed

end
