(* ===== verification/Agents.thy ===== *)
theory Agents
  imports Settlement
begin

text \<open>
  \<open>agent.py\<close>, \<open>run_handle.py\<close>, \<open>skills/registry.py\<close> and \<open>skills/validator.py\<close>: the facade that composes a profile,
  a model and the stores, runs prompts, resumes suspended runs and cancels runs. Its stores are those of the
  segment's state; between two operations the context in that state is the one of the last segment. Loading
  a skill reads files and is a parameter. Log contexts and notes on exceptions have no effect on the state.
  The task that \<open>asyncio.shield\<close> protects runs to its end.
\<close>

subsection \<open>Skills\<close>

record skill_registration =
  kg_manifest :: skill_manifest
  kg_path :: string

record 'w skill_registry =
  kr_skills :: "(string, skill_registration) dict"
  kr_load_manifest :: "string \<Rightarrow> ('w, exn, skill_manifest) prog"
  kr_load :: "string \<Rightarrow> ('w, exn, skill) prog"
  kr_resolve :: "string \<Rightarrow> string"

definition sorted_names :: "string list \<Rightarrow> string" where
  "sorted_names ns = join_with '', '' (foldr insert_text (remdups ns) [])"

definition skill_not_found :: "string \<Rightarrow> exn" where
  "skill_not_found name = OtherError ''SkillNotFoundError'' (''Skill '' @ quoted name @ '' is not registered'')"

definition register_path :: "'w skill_registry \<Rightarrow> string \<Rightarrow> ('w, exn, 'w skill_registry \<times> skill_manifest) prog" where
  "register_path reg path = pbind (kr_load_manifest reg path) (\<lambda>m. case dict_get (kr_skills reg) (sm_name m) of
     Some existing \<Rightarrow> praise (OtherError ''DuplicateSkillError'' (''Skill '' @ quoted (sm_name m) @ '' is already registered from '' @ quoted (kg_path existing)))
   | None \<Rightarrow> pret (reg\<lparr>kr_skills := dict_set (sm_name m) \<lparr>kg_manifest = m, kg_path = kr_resolve reg path\<rparr> (kr_skills reg)\<rparr>, m))"

text \<open>\<open>from_directory\<close>: \<open>files\<close> are the skill files of the directory, sorted, or \<open>None\<close> when it does not exist; \<open>reg\<close> has no skills yet.\<close>

fun register_paths :: "'w skill_registry \<Rightarrow> string list \<Rightarrow> ('w, exn, 'w skill_registry) prog" where
  "register_paths reg [] = pret reg"
| "register_paths reg (p # ps) = pbind (register_path reg p) (\<lambda>(reg', _). register_paths reg' ps)"

definition from_directory :: "'w skill_registry \<Rightarrow> string \<Rightarrow> string list option \<Rightarrow> ('w, exn, 'w skill_registry) prog" where
  "from_directory reg path files = (case files of None \<Rightarrow> praise (ValueError (''Skill directory '' @ quoted path @ '' does not exist''))
     | Some ps \<Rightarrow> register_paths reg ps)"

definition registry_manifest :: "'w skill_registry \<Rightarrow> string \<Rightarrow> exn + skill_manifest" where
  "registry_manifest reg name = (case dict_get (kr_skills reg) name of None \<Rightarrow> Inl (skill_not_found name) | Some g \<Rightarrow> Inr (kg_manifest g))"

definition load_skill :: "'w skill_registry \<Rightarrow> string \<Rightarrow> ('w, exn, skill) prog" where
  "load_skill reg name = (case dict_get (kr_skills reg) name of None \<Rightarrow> praise (skill_not_found name) | Some g \<Rightarrow> kr_load reg (kg_path g))"

fun select_skills :: "'w skill_registry \<Rightarrow> string list \<Rightarrow> ('w, exn, skill list) prog" where
  "select_skills reg [] = pret []"
| "select_skills reg (n # ns) = pbind (load_skill reg n) (\<lambda>k. pbind (select_skills reg ns) (\<lambda>ks. pret (k # ks)))"

definition requirements_error :: "string \<Rightarrow> exn" where
  "requirements_error t = OtherError ''SkillRequirementsError'' t"

definition check_skill :: "agent_profile \<Rightarrow> 'r tool_registry \<Rightarrow> skill \<Rightarrow> exn + unit" where
  "check_skill p tools k = (let m = sk_manifest k;
       unavailable = filter (\<lambda>t. t \<notin> set (ap_tools p)) (sm_allowed_tools m) in
     if unavailable \<noteq> []
     then Inl (requirements_error (''Skill '' @ quoted (sm_name m) @ '' tools are not enabled by AgentProfile: '' @ sorted_names unavailable))
     else rbind (require_tools tools (sm_required_tools m)) (\<lambda>_.
       if sm_required_permissions m - ap_permissions p \<noteq> {}
       then Inl (requirements_error (''Skill '' @ quoted (sm_name m) @ '' missing permissions: '' @
         join_with '', '' (sorted_list_of_set (sm_required_permissions m - ap_permissions p))))
       else Inr ()))"

definition select_and_validate_skills :: "string list \<Rightarrow> agent_profile \<Rightarrow> 'w skill_registry \<Rightarrow> 'r tool_registry \<Rightarrow> ('w, exn, skill list) prog" where
  "select_and_validate_skills names p skills tools = (let disabled = filter (\<lambda>n. n \<notin> set (ap_skills p)) names in
     if \<not> distinct names then praise (requirements_error ''selected skills must not contain duplicates'')
     else if disabled \<noteq> []
     then praise (OtherError ''SkillNotEnabledError'' (''skills not enabled by AgentProfile: '' @ sorted_names disabled))
     else pbind (select_skills skills names) (\<lambda>selected.
       pbind (plift (for_each (\<lambda>k _. check_skill p tools k) selected ())) (\<lambda>_. pret selected)))"

text \<open>Selected skills never widen what the profile allows.\<close>

lemma check_skill_ok: "check_skill p tools k = Inr u \<Longrightarrow> set (sm_allowed_tools (sk_manifest k)) \<subseteq> set (ap_tools p) \<and>
   sm_required_permissions (sk_manifest k) \<subseteq> ap_permissions p \<and> \<not> isl (require_tools tools (sm_required_tools (sk_manifest k)))"
  by (auto simp: check_skill_def Let_def result_iffs filter_empty_conv split: if_splits)

lemma check_skills_ok: "for_each (\<lambda>k _. check_skill p tools k) ks u = Inr u' \<Longrightarrow> k \<in> set ks \<Longrightarrow> check_skill p tools k = Inr ()"
  by (induction ks arbitrary: u) (auto simp: result_iffs)

lemma select_skills_length: "select_skills reg ns w = (Inr ks, w') \<Longrightarrow> length ks = length ns"
  by (induction ns arbitrary: w ks w') (auto simp: result_iffs)

lemma selected_within_profile:
  assumes "select_and_validate_skills names p reg tools w = (Inr ks, w')"
  shows "distinct names \<and> set names \<subseteq> set (ap_skills p) \<and> length ks = length names \<and>
    (\<forall>k \<in> set ks. set (sm_allowed_tools (sk_manifest k)) \<subseteq> set (ap_tools p) \<and> sm_required_permissions (sk_manifest k) \<subseteq> ap_permissions p)"
proof -
  from assms obtain u where ok: "distinct names" "set names \<subseteq> set (ap_skills p)" "select_skills reg names w = (Inr ks, w')"
    "for_each (\<lambda>k _. check_skill p tools k) ks () = Inr u"
    by (auto simp: select_and_validate_skills_def Let_def result_iffs filter_empty_conv split: if_splits)
  with check_skill_ok [OF check_skills_ok [OF ok(4)]] select_skills_length [OF ok(3)] show ?thesis by blast
qed

subsection \<open>An agent\<close>

record 'w agent_options =
  ao_profile :: "agent_profile option"
  ao_definition :: "agent_definition option"
  ao_services :: "'w services"
  ao_tools :: "'w runtime tool list"
  ao_runtime :: "'w services \<Rightarrow> 'w agent_runtime"
  ao_skills :: "'w skill_registry"
  ao_supervisor :: "supervisor option"
  ao_dumps :: "jobj \<Rightarrow> string"
  ao_resources :: "'w resource_spec list"
  ao_memories :: "'w memory_manager"
  ao_history_limit :: int
  ao_recorder :: "effect_recorder option"
  ao_confirmation_policy :: "confirmation_policy option"
  ao_result_policy :: "(tool_result \<Rightarrow> tool_result) option"

record 'w agent =
  an_definition :: "agent_definition option"
  an_profile :: agent_profile
  an_services :: "'w services"
  an_tools :: "'w runtime tool_registry"
  an_runtime :: "'w agent_runtime"
  an_skills :: "'w skill_registry"
  an_resources :: "'w resource_spec list"
  an_memories :: "'w memory_manager"
  an_history_limit :: int

text \<open>The executor of an agent: what the caller gave, or the defaults.\<close>

definition agent_executor :: "'w agent_options \<Rightarrow> agent_profile \<Rightarrow> 'w runtime tool_registry \<Rightarrow> 'w runtime executor" where
  "agent_executor opt p reg = (let w = srv_wire (ao_services opt) in
     \<lparr>tx_registry = reg, tx_recorder = ao_recorder opt,
      tx_policy = (case ao_confirmation_policy opt of Some cp \<Rightarrow> cp | None \<Rightarrow> declared_policy (wr_identity w) (wr_uuid5 w)),
      tx_enforce = (case ao_result_policy opt of Some f \<Rightarrow> f | None \<Rightarrow> enforce (wr_float_size w) (nat (ap_max_result_bytes p))),
      tx_str = cd_str (srv_codec (ao_services opt))\<rparr>)"

definition make_agent :: "'w agent_options \<Rightarrow> exn + 'w agent" where
  "make_agent opt =
     (case (ao_profile opt, ao_definition opt) of
       (None, None) \<Rightarrow> Inl (ValueError ''provide exactly one of profile or definition'')
     | (Some _, Some _) \<Rightarrow> Inl (ValueError ''provide exactly one of profile or definition'')
     | (pr, df) \<Rightarrow> (let p = (case df of Some d \<Rightarrow> to_profile d | None \<Rightarrow> the pr); my = ao_memories opt in
         rbind (make_registry (ao_tools opt) []) (\<lambda>reg. rbind (require_tools reg (ap_tools p)) (\<lambda>_.
         rbind (for_each (\<lambda>n _. rbind (registry_manifest (ao_skills opt) n) (\<lambda>_. Inr ())) (ap_skills p) ()) (\<lambda>_.
         if my_limit my < 1 \<or> 100 < my_limit my then Inl (ValueError ''memory_limit must be between 1 and 100'')
         else if (case my_namespace my of None \<Rightarrow> False | Some n \<Rightarrow> blank n) then Inl (ValueError ''memory_namespace must not be blank'')
         else if ao_history_limit opt < 2 \<or> ao_history_limit opt mod 2 \<noteq> 0
         then Inl (ValueError ''conversation_history_limit must be an even integer of at least 2'')
         else (let srv = (ao_services opt)\<lparr>srv_registry := Some reg, srv_executor := Some (agent_executor opt p reg),
               srv_supervisor := (case ao_supervisor opt of Some sv \<Rightarrow> sv | None \<Rightarrow> default_supervisor (ao_dumps opt))\<rparr> in
           Inr \<lparr>an_definition = df, an_profile = p, an_services = srv, an_tools = reg, an_runtime = ao_runtime opt srv, an_skills = ao_skills opt,
             an_resources = ao_resources opt, an_memories = my, an_history_limit = ao_history_limit opt\<rparr>))))))"

definition agent_execution :: "'w agent \<Rightarrow> string option \<Rightarrow> tool_confirmation option \<Rightarrow> 'w execution" where
  "agent_execution a input confirmation = \<lparr>xn_services = an_services a, xn_runtime = an_runtime a, xn_resources = an_resources a,
     xn_memories = an_memories a, xn_resume_input = input, xn_confirmation = confirmation\<rparr>"

definition enabled_tools :: "agent_profile \<Rightarrow> skill list \<Rightarrow> string list" where
  "enabled_tools p skills = (if skills = [] then ap_tools p
     else filter (\<lambda>n. \<exists>k \<in> set skills. n \<in> set (sm_allowed_tools (sk_manifest k))) (ap_tools p))"

fun resolve_each :: "attachment list \<Rightarrow> ('w, attachment list) run_task" where
  "resolve_each [] = pret []"
| "resolve_each (x # xs) = pbind (on_content (get_attachment (att_id x))) (\<lambda>stored.
     if stored \<noteq> x then praise (ValueError (''attachment '' @ quoted (str_uuid (att_id x)) @ '' does not match its stored reference''))
     else pbind (resolve_each xs) (\<lambda>ys. pret (stored # ys)))"

definition resolve_attachments :: "attachment list \<Rightarrow> ('w, attachment list) run_task" where
  "resolve_attachments xs = (if \<not> unique_ids (map att_id xs) then praise (ValueError ''attachments must be unique'') else resolve_each xs)"

definition on_conversations :: "'a conversation_prog \<Rightarrow> ('w, 'a) run_task" where
  "on_conversations m s = (case rt_conversations s of None \<Rightarrow> (Inl AssertionError, s)
     | Some cs \<Rightarrow> (case m cs of (r, cs') \<Rightarrow> (r, s\<lparr>rt_conversations := Some cs'\<rparr>)))"

definition on_checkpoints :: "(runtime_checkpoint checkpoint_store, exn, 'a) prog \<Rightarrow> ('w, 'a) run_task" where
  "on_checkpoints m s = (case m (rt_checkpoints s) of (r, cs) \<Rightarrow> (r, s\<lparr>rt_checkpoints := cs\<rparr>))"

subsection \<open>Cancellation\<close>

text \<open>The clock is that of the run store.\<close>

definition read_clock :: "('w, timestamp) run_task" where
  "read_clock s = (case utc_now (rt_runs s) of (r, rs) \<Rightarrow> (r, s\<lparr>rt_runs := rs\<rparr>))"

definition emit_for :: "uuid \<Rightarrow> event_type \<Rightarrow> jobj \<Rightarrow> ('w, unit) run_task" where
  "emit_for k t d = pthen (on_events (emit k t d)) (pret ())"

text \<open>\<open>request_cancellation\<close>: \<open>Agent.cancel\<close> and \<open>RunHandle.cancel\<close>.\<close>

definition release_turn :: "uuid option \<Rightarrow> uuid \<Rightarrow> run_status \<Rightarrow> ('w, unit) run_task" where
  "release_turn conversation k st = pbind pget (\<lambda>s. case conversation of None \<Rightarrow> pret ()
     | Some c \<Rightarrow> if rt_conversations s = None then pret () else pthen (on_conversations (finish_turn c k st None)) (pret ()))"

definition request_cancellation :: "'w services \<Rightarrow> uuid \<Rightarrow> ('w, run) run_task" where
  "request_cancellation srv k = pbind (on_runs srv (get_run k)) (\<lambda>existing. pbind (on_runs srv (request_cancel k)) (\<lambda>requested.
     if rn_status existing \<noteq> Waiting then pret requested
     else pbind read_clock (\<lambda>now.
       let cancelled = requested\<lparr>rn_status := Cancelled, rn_error := Some ''run cancellation requested while waiting for input'', rn_updated_at := now\<rparr> in
       pthen (release_turn (rn_conversation_id cancelled) k Cancelled)
       (pthen (on_runs srv (save_run cancelled))
       (pthen (on_checkpoints (delete_checkpoint k))
       (pthen (emit_for k RUN_CANCELLED [(''error'', opt_json JStr (rn_error cancelled)), (''while_waiting'', JBool True)]) (pret cancelled)))))))"

definition interrupted_run :: "run \<Rightarrow> timestamp \<Rightarrow> run" where
  "interrupted_run existing now = (let requested = rn_cancel_requested existing in
     existing\<lparr>rn_status := (if requested then Cancelled else Interrupted),
       rn_error := Some (if requested then ''run cancellation requested'' else ''runtime task interrupted''),
       rn_metadata := (if requested then rn_metadata existing
         else dict_set ''interruption'' (JObj [(''source'', JStr ''asyncio_task_cancelled''), (''recoverable'', JBool False)]) (rn_metadata existing)),
       rn_updated_at := now\<rparr>)"

definition interruption_data :: "run \<Rightarrow> jobj" where
  "interruption_data finalized = (''error'', opt_json JStr (rn_error finalized)) #
     (if rn_cancel_requested finalized then [(''cancel_source'', JStr ''requested'')]
      else [(''interruption_source'', JStr ''asyncio_task_cancelled''), (''recoverable'', JBool False)])"

definition finalize_found :: "'w services \<Rightarrow> uuid \<Rightarrow> run \<Rightarrow> ('w, run option) run_task" where
  "finalize_found srv k existing = (if rn_status existing \<notin> {Created, Running, Waiting} then pret (Some existing)
     else pbind read_clock (\<lambda>now. let finalized = interrupted_run existing now in
       pthen (release_turn (rn_conversation_id finalized) k (rn_status finalized))
       (pthen (on_runs srv (save_run finalized))
       (pthen (on_checkpoints (delete_checkpoint k))
       (pthen (emit_for k (if rn_cancel_requested existing then RUN_CANCELLED else RUN_INTERRUPTED) (interruption_data finalized))
       (pret (Some finalized)))))))"

definition finalize_task_interruption :: "'w services \<Rightarrow> uuid \<Rightarrow> ('w, run option) run_task" where
  "finalize_task_interruption srv k = ptry (on_runs srv (get_run k)) (\<lambda>r. case r of
     Inl e \<Rightarrow> if e = RunNotFoundError then pret None else praise e
   | Inr existing \<Rightarrow> finalize_found srv k existing)"

definition settle_task_interruption :: "'w agent \<Rightarrow> uuid \<Rightarrow> ('w, run option) run_task" where
  "settle_task_interruption a k = ptry (finalize_task_interruption (an_services a) k) (\<lambda>r. case r of
     Inl e \<Rightarrow> if e = CancelledError then praise e else pret None | Inr x \<Rightarrow> pret x)"

subsection \<open>Running a prompt\<close>

record run_request =
  rr_prompt :: string
  rr_conversation_id :: "uuid option"
  rr_skills :: "string list"
  rr_plan :: "execution_plan option"
  rr_planning :: bool
  rr_attachments :: "attachment list"
  rr_metadata :: jobj

text \<open>The \<open>except\<close> clause of \<open>_execute\<close>; \<open>turn\<close> is the conversation whose turn was begun.\<close>

definition run_failed :: "'w agent \<Rightarrow> uuid \<Rightarrow> uuid option \<Rightarrow> exn \<Rightarrow> ('w, agent_result) run_task" where
  "run_failed a k turn e = pbind (if e = CancelledError then settle_task_interruption a k else pret None) (\<lambda>interrupted.
     pthen (case turn of
         Some c \<Rightarrow> if interrupted = None
           then ptry (on_conversations (finish_turn c k (if e = CancelledError then Interrupted else Failed) None)) (\<lambda>_. pret ()) else pret ()
       | None \<Rightarrow> pret ())
     (praise e))"

text \<open>\<open>history[-limit:]\<close>.\<close>

definition recent :: "int \<Rightarrow> 'a list \<Rightarrow> 'a list" where
  "recent limit xs = drop (length xs - nat limit) xs"

definition prepare_run :: "'w agent \<Rightarrow> run_request \<Rightarrow> ('w, skill list \<times> string list \<times> attachment list) run_task" where
  "prepare_run a q = pbind (on_world (select_and_validate_skills (rr_skills q) (an_profile a) (an_skills a) (an_tools a))) (\<lambda>skills.
     pbind (resolve_attachments (rr_attachments q)) (\<lambda>atts. pret (skills, enabled_tools (an_profile a) skills, atts)))"

definition open_turn :: "'w agent \<Rightarrow> uuid \<Rightarrow> run_request \<Rightarrow> ('w, int option \<times> message list) run_task" where
  "open_turn a k q = (case rr_conversation_id q of None \<Rightarrow> pret (None, [])
     | Some c \<Rightarrow> pbind (on_conversations (begin_turn c k (ap_id (an_profile a)) (rr_prompt q))) (\<lambda>(turn, history).
         pret (Some (ct_sequence turn), recent (an_history_limit a) history)))"

definition run_context :: "'w agent \<Rightarrow> uuid \<Rightarrow> run_request \<Rightarrow> int option \<times> message list \<Rightarrow> skill list \<times> string list \<times> attachment list \<Rightarrow>
    exn + runtime_context" where
  "run_context a k q = (\<lambda>(turn, history) (skills, tools, atts). create_context k (an_profile a) (rr_prompt q)
     \<lparr>cq_run_id = Some k, cq_conversation_id = rr_conversation_id q, cq_turn_sequence = turn, cq_history = history, cq_skills = skills,
      cq_enabled_tools = Some tools, cq_plan = rr_plan q, cq_planning_requested = rr_planning q, cq_attachments = atts, cq_metadata = rr_metadata q\<rparr>)"

definition agent_execute :: "'w agent \<Rightarrow> nat \<Rightarrow> uuid \<Rightarrow> run_request \<Rightarrow> 'w runtime \<Rightarrow> ((exn + agent_result) \<times> 'w runtime) option" where
  "agent_execute a fuel k q s = (case prepare_run a q s of
     (Inl e, s1) \<Rightarrow> Some (run_failed a k None e s1)
   | (Inr prepared, s1) \<Rightarrow> (case open_turn a k q s1 of
       (Inl e, s2) \<Rightarrow> Some (run_failed a k None e s2)
     | (Inr turn, s2) \<Rightarrow> (case run_context a k q turn prepared of
         Inl e \<Rightarrow> Some (run_failed a k (rr_conversation_id q) e s2)
       | Inr c \<Rightarrow> (case execute_run (agent_execution a None None) fuel (s2\<lparr>rt_context := c\<rparr>) of
           None \<Rightarrow> None
         | Some (Inr r, s3) \<Rightarrow> Some (Inr r, s3)
         | Some (Inl e, s3) \<Rightarrow> Some (run_failed a k (rr_conversation_id q) e s3)))))"

text \<open>\<open>Agent.run\<close>; \<open>fresh\<close> is \<open>uuid4()\<close>.\<close>

definition agent_run :: "'w agent \<Rightarrow> nat \<Rightarrow> uuid \<Rightarrow> uuid option \<Rightarrow> run_request \<Rightarrow> 'w runtime \<Rightarrow> ((exn + agent_result) \<times> 'w runtime) option" where
  "agent_run a fuel fresh k q = agent_execute a fuel (case k of None \<Rightarrow> fresh | Some i \<Rightarrow> i) (q\<lparr>rr_metadata := []\<rparr>)"

definition invocation_run_request :: "(json \<Rightarrow> string) \<Rightarrow> agent_definition \<Rightarrow> string \<Rightarrow> uuid \<Rightarrow> uuid \<Rightarrow> string \<Rightarrow> attachment list \<Rightarrow> run_request" where
  "invocation_run_request digest d prompt flow_run invocation agent_key atts = \<lparr>rr_prompt = prompt, rr_conversation_id = None, rr_skills = ap_skills d,
     rr_plan = None, rr_planning = False, rr_attachments = atts, rr_metadata = [(''execution_scope'', JStr ''flow_invocation''),
       (''flow_run_id'', JStr (str_uuid flow_run)), (''invocation_id'', JStr (str_uuid invocation)), (''agent_key'', JStr agent_key),
       (''definition_id'', JStr (ap_id d)), (''definition_version'', JStr (ad_version d)),
       (''definition_fingerprint'', JStr (agent_fingerprint digest d))]\<rparr>"

definition execute_invocation :: "(json \<Rightarrow> string) \<Rightarrow> 'w agent \<Rightarrow> nat \<Rightarrow> string \<Rightarrow> uuid \<Rightarrow> uuid \<Rightarrow> string \<Rightarrow> attachment list \<Rightarrow> 'w runtime \<Rightarrow>
    ((exn + agent_result) \<times> 'w runtime) option" where
  "execute_invocation digest a fuel prompt flow_run invocation agent_key atts s = (case an_definition a of
     None \<Rightarrow> Some (Inl (ValueError ''Flow invocation requires an Agent constructed from AgentDefinition''), s)
   | Some d \<Rightarrow> agent_execute a fuel invocation (invocation_run_request digest d prompt flow_run invocation agent_key atts) s)"

subsection \<open>Resuming\<close>

definition check_waiting :: "'w agent \<Rightarrow> uuid \<Rightarrow> ('w, runtime_checkpoint) run_task" where
  "check_waiting a k = pbind (on_runs (an_services a) (get_run k)) (\<lambda>run.
     if rn_status run \<noteq> Waiting then praise (ValueError (''run '' @ quoted (str_uuid k) @ '' is not waiting for input''))
     else pbind (on_checkpoints (load_checkpoint k)) (\<lambda>cp.
       if ap_id (cp_profile cp) \<noteq> ap_id (an_profile a)
       then praise (ValueError (''run '' @ quoted (str_uuid k) @ '' belongs to profile '' @ quoted (ap_id (cp_profile cp)) @ '', not '' @ quoted (ap_id (an_profile a))))
       else pbind (plift (require_tools (an_tools a) (cp_enabled_tools cp))) (\<lambda>_. pret cp)))"

definition claim_waiting :: "'w agent \<Rightarrow> uuid \<Rightarrow> ('w, runtime_checkpoint) run_task" where
  "claim_waiting a k = ptry (on_checkpoints (claim_checkpoint k)) (\<lambda>r. case r of
     Inl e \<Rightarrow> pthen (if e = CancelledError then pthen (settle_task_interruption a k) (pret ()) else pret ()) (praise e) | Inr cp \<Rightarrow> pret cp)"

text \<open>The \<open>except\<close> clauses: an error gives the checkpoint back, an interruption settles the run.\<close>

definition resume_failed :: "'w agent \<Rightarrow> uuid \<Rightarrow> runtime_checkpoint \<Rightarrow> exn \<Rightarrow> ('w, agent_result) run_task" where
  "resume_failed a k cp e = pthen (if e = CancelledError then pthen (settle_task_interruption a k) (pret ())
     else on_checkpoints (save_checkpoint cp_run_id cp)) (praise e)"

definition continue_waiting :: "'w agent \<Rightarrow> nat \<Rightarrow> uuid \<Rightarrow> string option \<Rightarrow> tool_confirmation option \<Rightarrow> 'w runtime \<Rightarrow>
    ((exn + agent_result) \<times> 'w runtime) option" where
  "continue_waiting a fuel k input confirmation s = (case pbind (check_waiting a k) (\<lambda>_. claim_waiting a k) s of
     (Inl e, s1) \<Rightarrow> Some (Inl e, s1)
   | (Inr cp, s1) \<Rightarrow> (case execute_run (agent_execution a input confirmation) fuel (s1\<lparr>rt_context := restore cp\<rparr>) of
       None \<Rightarrow> None
     | Some (Inr r, s2) \<Rightarrow> Some (Inr r, s2)
     | Some (Inl e, s2) \<Rightarrow> Some (resume_failed a k cp e s2)))"

definition agent_resume :: "'w agent \<Rightarrow> nat \<Rightarrow> uuid \<Rightarrow> string \<Rightarrow> 'w runtime \<Rightarrow> ((exn + agent_result) \<times> 'w runtime) option" where
  "agent_resume a fuel k user_input s = (if blank user_input then Some (Inl (ValueError ''resume input must not be empty''), s)
     else continue_waiting a fuel k (Some user_input) None s)"

definition agent_confirm :: "'w agent \<Rightarrow> nat \<Rightarrow> uuid \<Rightarrow> tool_confirmation \<Rightarrow> 'w runtime \<Rightarrow> ((exn + agent_result) \<times> 'w runtime) option" where
  "agent_confirm a fuel k confirmation = continue_waiting a fuel k None (Some confirmation)"

definition agent_cancel :: "'w agent \<Rightarrow> uuid \<Rightarrow> ('w, run) run_task" where
  "agent_cancel a k = request_cancellation (an_services a) k"

definition agent_create_conversation :: "'w agent \<Rightarrow> jobj \<Rightarrow> ('w, conversation) run_task" where
  "agent_create_conversation a metadata = on_conversations (pbind uuid4 (\<lambda>i. pbind utc_now (\<lambda>t1. pbind utc_now (\<lambda>t2.
     pbind (plift (construct (\<lambda>c. cv_profile_id c \<noteq> []) \<lparr>cv_id = i, cv_profile_id = ap_id (an_profile a), cv_version = 0, cv_active_run_id = None,
       cv_created_at = t1, cv_updated_at = t2, cv_metadata = metadata\<rparr>)) (\<lambda>c. pthen (create_conversation c) (pret c))))))"

definition agent_add_attachment :: "(bytes \<Rightarrow> string) \<Rightarrow> string \<Rightarrow> string \<Rightarrow> bytes \<Rightarrow> jobj \<Rightarrow> ('w, attachment) run_task" where
  "agent_add_attachment sha256 name media payload metadata = on_content (add_attachment sha256 name media payload metadata)"

text \<open>
  The loop of \<open>start\<close>, over what it observes when it looks: the stored runs, and how the started task ended
  if it did. It needs as many observations as it takes until the run is stored or the task has failed.
\<close>

fun await_record :: "uuid \<Rightarrow> (run_store \<times> (exn + agent_result) option) list \<Rightarrow> (exn + unit) option" where
  "await_record k [] = None"
| "await_record k ((rs, task) # rest) = (if dict_get (rs_runs rs) k \<noteq> None then Some (Inr ())
     else (case task of Some (Inl e) \<Rightarrow> Some (Inl e) | _ \<Rightarrow> await_record k rest))"

subsection \<open>Starting a suspended segment\<close>

text \<open>Everything a segment needs before it looks at the answer.\<close>

definition prepared :: "'w execution \<Rightarrow> bool" where
  "prepared x \<longleftrightarrow> distinct (map sp_name (xn_resources x)) \<and> \<not> isl (make_memory_manager (xn_memories x))"

lemma returns_more: "returns (plift (Inr x))" "returns (set_context f)"
  by (simp_all add: returns_def leads_def on_context_def)

lemma take_answer_returns:
  assumes "pi_tool_call_id p \<noteq> []"
  shows "returns (take_answer srv p a)"
proof -
  have ok: "\<exists>m. tool_message t (pi_tool_call_id p) = Inr m" for t using assms by (simp add: tool_message_def valid_message_def)
  have "returns (answer_pending srv p r)" for r
  proof -
    obtain m where "tool_message (wr_text (srv_wire srv) r) (pi_tool_call_id p) = Inr m" using ok by blast
    then show ?thesis by (simp add: answer_pending_def returns_bind returns_more)
  qed
  then show ?thesis unfolding take_answer_def by (auto intro!: returns_bind returns_basic returns_more split: resume_answer.split)
qed

lemma announce_answer_returns: "returns (announce_answer srv p a)"
  unfolding announce_answer_def by (auto intro!: returns_bind returns_basic split: resume_answer.split)

lemma resume_begins:
  assumes others: "keeps_runs (srv_others (xn_services x))" and x: "prepared x" and st: "rc_state (rt_context s) = Waiting"
    and run: "stored (rc_run_id (rt_context s)) s" and p: "rc_pending_input (rt_context s) = Some p" "pi_tool_call_id p \<noteq> []"
    and ok: "check_resume (xn_services x) p (xn_resume_input x) (xn_confirmation x) = Inr a"
  shows "\<exists>s1. begin_segment x s = (Inr (), s1)"
proof -
  let ?srv = "xn_services x"
  obtain sc where sc: "make_scope (xn_resources x) = Inr sc" using x by (simp add: prepared_def make_scope_def)
  obtain m where m: "make_memory_manager (xn_memories x) = Inr m" using x by (cases "make_memory_manager (xn_memories x)") (auto simp: prepared_def)
  let ?s = "s\<lparr>rt_scope := sc\<rparr>"
  obtain s1 where s1: "take_answer ?srv p a ?s = (Inr (), s1)" using returnsD [OF take_answer_returns [OF p(2)], of ?srv a ?s] by auto
  have f1: "follows ?s s1" using following_answer(1) s1 by (rule keepsD)
  have st1: "rc_state (rt_context s1) = Waiting" using s1 st
    by (auto simp: take_answer_def answer_pending_def result_iffs on_context_def split: resume_answer.splits if_splits)
  let ?g = "\<lambda>c. c\<lparr>rc_pending_input := None, rc_output := None, rc_error := None, rc_provider_name := Some (srv_provider ?srv)\<rparr>"
  let ?s2 = "s1\<lparr>rt_context := (?g (rt_context s1))\<lparr>rc_state := Running\<rparr>\<rparr>"
  have "stored (rc_run_id (rt_context ?s2)) ?s2" using f1 run by (simp add: follows_def stored_def)
  from save_reflects [OF others this] obtain s3 where s3: "save_context_snapshot ?srv ?s2 = (Inr (), s3)" by blast
  obtain s4 where s4: "announce_answer ?srv p a s3 = (Inr (), s4)" using returnsD [OF announce_answer_returns, of ?srv p a s3] by auto
  have "enter_state Running (s1\<lparr>rt_context := ?g (rt_context s1)\<rparr>) = (Inr (), ?s2)"
    using st1 by (simp add: enter_state_eq transition_to_def)
  then have "prepare_resume ?srv (xn_resume_input x) (xn_confirmation x) ?s =
      (Inr (), emitted RUN_RESUMED [(''provider'', JStr (srv_provider ?srv)), (''from'', JStr ''waiting'')] s4)"
    using p ok s1 s3 s4 by (simp add: prepare_resume_def pbind_app on_context_def emit_event_eq)
  with sc m st show ?thesis by (simp add: begin_segment_def enter_segment_def pbind_app)
qed

lemma resume_refused:
  assumes x: "prepared x" and st: "rc_state (rt_context s) = Waiting" and p: "rc_pending_input (rt_context s) = Some p"
    and bad: "check_resume (xn_services x) p (xn_resume_input x) (xn_confirmation x) = Inl e"
  shows "\<exists>sc. execute_run x fuel s = Some (Inl e, s\<lparr>rt_scope := sc\<rparr>)"
proof -
  obtain sc where sc: "make_scope (xn_resources x) = Inr sc" using x by (simp add: prepared_def make_scope_def)
  obtain m where m: "make_memory_manager (xn_memories x) = Inr m" using x by (cases "make_memory_manager (xn_memories x)") (auto simp: prepared_def)
  from sc m st p bad show ?thesis by (auto simp: execute_run_def begin_segment_def enter_segment_def prepare_resume_def pbind_app)
qed

subsection \<open>A waiting run\<close>

text \<open>Nobody else writes the run.\<close>

definition leaves_run :: "uuid \<Rightarrow> (nat \<Rightarrow> run_store \<Rightarrow> run_store) \<Rightarrow> bool" where
  "leaves_run k others \<longleftrightarrow> (\<forall>n rs. dict_get (rs_runs (others n rs)) k = dict_get (rs_runs rs) k)"

text \<open>A run that a segment of this agent has left waiting.\<close>

definition waiting_run :: "'w agent \<Rightarrow> uuid \<Rightarrow> run \<Rightarrow> runtime_checkpoint \<Rightarrow> 'w runtime \<Rightarrow> bool" where
  "waiting_run a k r cp s \<longleftrightarrow> leaves_run k (srv_others (an_services a)) \<and> dict_get (rs_runs (rt_runs s)) k = Some r \<and> rn_id r = k \<and> rn_status r = Waiting \<and>
     dict_get (rt_checkpoints s) k = Some cp \<and> cp_run_id cp = k \<and> cp_state cp = Waiting \<and> ap_id (cp_profile cp) = ap_id (an_profile a) \<and>
     \<not> isl (require_tools (an_tools a) (cp_enabled_tools cp))"

abbreviation visited :: "'w services \<Rightarrow> 'w runtime \<Rightarrow> 'w runtime" where
  "visited srv s \<equiv> s\<lparr>rt_runs := srv_others srv (rt_turn s) (rt_runs s), rt_turn := Suc (rt_turn s)\<rparr>"

abbreviation claimed :: "'w agent \<Rightarrow> uuid \<Rightarrow> runtime_checkpoint \<Rightarrow> 'w runtime \<Rightarrow> 'w runtime" where
  "claimed a k cp s \<equiv> (visited (an_services a) s)\<lparr>rt_checkpoints := dict_pop k (rt_checkpoints s), rt_context := restore cp\<rparr>"

lemma read_run:
  assumes "leaves_run k (srv_others srv)" "dict_get (rs_runs (rt_runs s)) k = Some r"
  shows "on_runs srv (get_run k) s = (Inr r, visited srv s)" "dict_get (rs_runs (rt_runs (visited srv s))) k = Some r"
  using assms by (simp_all add: on_runs_def get_run_def leaves_run_def)

lemma waiting_claimed:
  assumes w: "waiting_run a k r cp s"
  shows "pbind (check_waiting a k) (\<lambda>_. claim_waiting a k) s = (Inr cp, (visited (an_services a) s)\<lparr>rt_checkpoints := dict_pop k (rt_checkpoints s)\<rparr>)"
proof -
  let ?s = "visited (an_services a) s"
  have "on_runs (an_services a) (get_run k) s = (Inr r, ?s)" using w by (intro read_run) (simp_all add: waiting_run_def)
  moreover obtain u where "require_tools (an_tools a) (cp_enabled_tools cp) = Inr u"
    using w by (cases "require_tools (an_tools a) (cp_enabled_tools cp)") (auto simp: waiting_run_def)
  ultimately show ?thesis using w
    by (simp add: check_waiting_def claim_waiting_def waiting_run_def pbind_app ptry_app on_checkpoints_def load_checkpoint_def claim_checkpoint_def)
qed

text \<open>The example: an agent, and a run of a conversation that waits for an answer.\<close>

definition ex_helper :: "nat agent" where
  "ex_helper = \<lparr>an_definition = None, an_profile = ex_profile, an_services = ex_services, an_tools = [], an_runtime = xn_runtime ex_execution,
     an_skills = \<lparr>kr_skills = [], kr_load_manifest = (\<lambda>_ w. (Inl KeyError, w)), kr_load = (\<lambda>_ w. (Inl KeyError, w)), kr_resolve = (\<lambda>p. p)\<rparr>,
     an_resources = [ex_spec ''a''], an_memories = ex_memories, an_history_limit = 2\<rparr>"

definition ex_suspended :: runtime_context where
  "ex_suspended = ex_runtime\<lparr>rc_run_id := 9, rc_conversation_id := Some 1, rc_turn_sequence := Some 1\<rparr>"

definition ex_checkpoint :: runtime_checkpoint where
  "ex_checkpoint = projr (checkpoint_from_context ex_suspended)"

definition ex_asking_run :: run where
  "ex_asking_run = ex_run\<lparr>rn_id := 9, rn_status := Waiting, rn_conversation_id := Some 1, rn_turn_sequence := Some 1\<rparr>"

definition ex_asking :: "nat runtime" where
  "ex_asking = ex_segment\<lparr>rt_runs := ex_runs\<lparr>rs_runs := [(9, ex_asking_run)]\<rparr>, rt_checkpoints := [(9, ex_checkpoint)], rt_conversations := Some ex_c2\<rparr>"

lemma ex_checkpoint_restores: "restore ex_checkpoint = ex_suspended"
  by (simp add: ex_checkpoint_def checkpoint_from_context_def ex_suspended_def ex_runtime_def construct_def valid_checkpoint_def restore_def)

lemma ex_checkpoint_fields: "cp_run_id ex_checkpoint = 9" "cp_state ex_checkpoint = Waiting" "cp_profile ex_checkpoint = ex_profile"
  "cp_enabled_tools ex_checkpoint = []" "cp_step_count ex_checkpoint = 1"
  "cp_pending_input ex_checkpoint = \<lparr>pi_tool_call_id = ''c1'', pi_tool_name = ''mail'', pi_prompt = ''ok?'', pi_metadata = []\<rparr>"
  by (simp_all add: ex_checkpoint_def checkpoint_from_context_def ex_suspended_def ex_runtime_def construct_def valid_checkpoint_def)

lemma ex_waits: "waiting_run ex_helper 9 ex_asking_run ex_checkpoint ex_asking"
  by (simp add: waiting_run_def leaves_run_def ex_helper_def ex_services_def ex_asking_def ex_asking_run_def ex_checkpoint_fields)

lemma ex_prepared: "prepared (agent_execution ex_helper input confirmation)"
  by (simp add: prepared_def agent_execution_def ex_helper_def make_memory_manager_def ex_memories_def)

lemma ex_good: "good_services ex_sha ex_memories ex_services" "calm_resources [ex_spec ''a'']"
  using ex_fit by (simp_all add: fit_def ex_execution_def)

lemma ex_can_resume: "fit ex_sha (agent_execution ex_helper input confirmation) (ex_asking\<lparr>rt_context := restore ex_checkpoint\<rparr>)"
  "conversation_ready (ex_asking\<lparr>rt_context := restore ex_checkpoint\<rparr>)"
  using ex_good ex_conversation_ready
  by (auto simp: fit_def agent_execution_def ex_helper_def ex_checkpoint_restores ex_suspended_def ex_runtime_def ex_profile_def stored_def has_run_def
      ex_asking_def ex_asking_run_def clear_text_def conversation_ready_def ex_start_context)

subsection \<open>Resuming and cancelling a waiting run\<close>

text \<open>A run in a permanent final state is left alone by the finalizer of interruptions.\<close>

lemma interruption_settled:
  assumes l: "leaves_run k (srv_others (an_services a))" and r: "dict_get (rs_runs (rt_runs s)) k = Some r" "rn_status r \<notin> {Created, Running, Waiting}"
  shows "settle_task_interruption a k s = (Inr (Some r), visited (an_services a) s)"
  using read_run(1) [OF l r(1)] r(2)
  by (simp add: settle_task_interruption_def finalize_task_interruption_def finalize_found_def ptry_app)

text \<open>
  C32. A refused answer loses nothing: when the input or the confirmation given to \<open>Agent.resume\<close> or
  \<open>Agent.confirm\<close> does not fit what a waiting run asks for, the caller gets that error and the run, its
  checkpoint, every log and every conversation are as before, so that another answer can follow.
\<close>

theorem refused_answer_keeps_run:
  assumes "waiting_run a k r cp s" "prepared (agent_execution a input confirmation)"
    and "check_resume (an_services a) (cp_pending_input cp) input confirmation = Inl e" "e \<noteq> CancelledError"
  shows "\<exists>s'. continue_waiting a fuel k input confirmation s = Some (Inl e, s') \<and> waiting_run a k r cp s' \<and>
    (\<forall>j. dict_get (rt_checkpoints s') j = dict_get (rt_checkpoints s) j) \<and> rt_events s' = rt_events s \<and> rt_conversations s' = rt_conversations s"
proof -
  let ?s = "claimed a k cp s"
  let ?x = "agent_execution a input confirmation"
  have "rc_state (rt_context ?s) = Waiting" "rc_pending_input (rt_context ?s) = Some (cp_pending_input cp)"
    using assms(1) by (simp_all add: waiting_run_def restore_def)
  from resume_refused [OF assms(2) this] assms(3) obtain sc where e: "execute_run ?x fuel ?s = Some (Inl e, ?s\<lparr>rt_scope := sc\<rparr>)"
    by (auto simp: agent_execution_def)
  let ?s' = "(visited (an_services a) s)\<lparr>rt_checkpoints := dict_set k cp (dict_pop k (rt_checkpoints s)), rt_context := restore cp, rt_scope := sc\<rparr>"
  have "continue_waiting a fuel k input confirmation s = Some (Inl e, ?s')"
    using e waiting_claimed [OF assms(1)] assms(1,4)
    by (simp add: continue_waiting_def resume_failed_def pbind_app on_checkpoints_def save_checkpoint_def waiting_run_def)
  moreover have "waiting_run a k r cp ?s'" using assms(1) by (simp add: waiting_run_def leaves_run_def)
  moreover have "dict_get (rt_checkpoints ?s') j = dict_get (rt_checkpoints s) j" for j
    using assms(1) by (simp add: waiting_run_def dict_get_pop)
  ultimately show ?thesis by (intro exI [of _ ?s']) simp
qed

theorem refused_answer_keeps_run_witness:
  "\<exists>s'. continue_waiting ex_helper 24 9 (Some []) None ex_asking = Some (Inl (ValueError ''resume input must not be empty''), s') \<and>
     waiting_run ex_helper 9 ex_asking_run ex_checkpoint s'"
proof -
  have "check_resume (an_services ex_helper) (cp_pending_input ex_checkpoint) (Some []) None = Inl (ValueError ''resume input must not be empty'')"
    by (simp add: check_resume_def ex_checkpoint_fields blank_def)
  from refused_answer_keeps_run [OF ex_waits ex_prepared this, of 24] show ?thesis by auto
qed

lemma resumed_ends:
  assumes w: "waiting_run a k r cp s" and prep: "prepared (agent_execution a input confirmation)"
    and ok: "check_resume (an_services a) (cp_pending_input cp) input confirmation = Inr answer" "pi_tool_call_id (cp_pending_input cp) \<noteq> []"
    and fit: "fit sha (agent_execution a input confirmation) (s\<lparr>rt_context := restore cp\<rparr>)" and conv: "conversation_ready (s\<lparr>rt_context := restore cp\<rparr>)"
    and sg: "reference_strategy (an_services a) (active_strategy (an_runtime a) (restore cp))"
    and fuel: "2 * nat (ap_max_steps (cp_profile cp) - cp_step_count cp) + 3 < fuel"
  shows "\<exists>res s2 b. execute_run (agent_execution a input confirmation) fuel (claimed a k cp s) = Some (res, s2) \<and>
    ended (agent_execution a input confirmation) b (claimed a k cp s) res s2"
proof -
  let ?x = "agent_execution a input confirmation" and ?s = "claimed a k cp s"
  have fit1: "fit sha ?x ?s" using fit w by (simp add: fit_def waiting_run_def leaves_run_def stored_def has_run_def restore_def)
  have others: "keeps_runs (srv_others (xn_services ?x))" using fit by (simp add: fit_def good_services_def)
  have begins: "\<exists>s2. begin_segment ?x ?s = (Inr (), s2)"
  proof (rule resume_begins [OF others prep])
    show "rc_state (rt_context ?s) = Waiting" "rc_pending_input (rt_context ?s) = Some (cp_pending_input cp)" "stored (rc_run_id (rt_context ?s)) ?s"
      using w by (simp_all add: restore_def waiting_run_def stored_def has_run_def leaves_run_def)
  qed (use ok in \<open>simp_all add: agent_execution_def\<close>)
  have "conversation_ready ?s" using conv conversation_ready_cong [of ?s "s\<lparr>rt_context := restore cp\<rparr>"] by simp
  moreover have "reference_strategy (xn_services ?x) (active_strategy (xn_runtime ?x) (rt_context ?s))" using sg by (simp add: agent_execution_def)
  moreover have "2 * nat (step_limit ?s - rc_step_count (rt_context ?s)) + 3 < fuel" using fuel by (simp add: restore_def)
  ultimately show ?thesis using begins execute_ends [OF fit1] by blast
qed

text \<open>
  C31. An accepted answer settles the run again: the resumed segment ends, the run is stored in a state with a
  result (or the interruption is raised again, and then the run does not wait), exactly one final event
  follows what the run logged before, and a checkpoint exists exactly when the run waits once more.
\<close>

theorem accepted_answer_settles:
  assumes w: "waiting_run a k r cp s" and prep: "prepared (agent_execution a input confirmation)"
    and ok: "check_resume (an_services a) (cp_pending_input cp) input confirmation = Inr answer" "pi_tool_call_id (cp_pending_input cp) \<noteq> []"
    and fit: "fit sha (agent_execution a input confirmation) (s\<lparr>rt_context := restore cp\<rparr>)" and conv: "conversation_ready (s\<lparr>rt_context := restore cp\<rparr>)"
    and sg: "reference_strategy (an_services a) (active_strategy (an_runtime a) (restore cp))"
    and fuel: "2 * nat (ap_max_steps (cp_profile cp) - cp_step_count cp) + 3 < fuel"
  shows "\<exists>res s' r' t es d. continue_waiting a fuel k input confirmation s = Some (res, s') \<and> dict_get (rs_runs (rt_runs s')) k = Some r' \<and>
    (case res of Inr g \<Rightarrow> run_to_result_status (rn_status r') = Some (ag_status g) | Inl e \<Rightarrow> e = CancelledError \<and> rn_status r' \<noteq> Waiting) \<and>
    terminal_event (rn_status r') = Some t \<and>
    map (\<lambda>v. (en_type v, en_data v)) (log_of k (rt_events s')) = map (\<lambda>v. (en_type v, en_data v)) (log_of k (rt_events s)) @ es @ [(t, d)] \<and>
    list_all (\<lambda>(t, d). t \<notin> set terminal_types) es \<and> (dict_get (rt_checkpoints s') k \<noteq> None \<longleftrightarrow> rn_status r' = Waiting)"
proof -
  define s1 where "s1 = claimed a k cp s"
  have c1: "rt_context s1 = restore cp" "rc_run_id (restore cp) = k" "rt_events s1 = rt_events s"
    using w by (simp_all add: s1_def waiting_run_def restore_def)
  from resumed_ends [OF assms] obtain res s2 b where
    e: "execute_run (agent_execution a input confirmation) fuel s1 = Some (res, s2)" "ended (agent_execution a input confirmation) b s1 res s2"
    unfolding s1_def by blast
  then obtain r' t es d where r': "dict_get (rs_runs (rt_runs s2)) k = Some r'" "reflects (rt_context s2) r'" and k2: "rc_run_id (rt_context s2) = k"
    and t: "terminal_event (rn_status r') = Some t" "run_log s2 = run_log s1 @ es @ [(t, d)]" "list_all (\<lambda>(t, d). t \<notin> set terminal_types) es"
    using c1 by (auto simp: ended_def stores_settled_def quiet_then_def reflects_def)
  have cps: "dict_get (rt_checkpoints s2) k \<noteq> None \<longleftrightarrow> rn_status r' = Waiting"
    using e(2) r' k2 by (auto simp: ended_def stores_settled_def checkpoint_settled_def reflects_def split: option.splits)
  note logs = t(2) [unfolded run_log_def k2 c1]
  have claim: "pbind (check_waiting a k) (\<lambda>_. claim_waiting a k) s = (Inr cp, (visited (an_services a) s)\<lparr>rt_checkpoints := dict_pop k (rt_checkpoints s)\<rparr>)"
    by (rule waiting_claimed [OF w])
  show ?thesis
  proof (cases res)
    case (Inr g)
    have "continue_waiting a fuel k input confirmation s = Some (Inr g, s2)" using e(1) claim Inr by (simp add: continue_waiting_def s1_def)
    moreover have "run_to_result_status (rn_status r') = Some (ag_status g)"
      using e(2) Inr r'(2) by (auto simp: ended_def build_result_def reflects_def split: option.splits)
    ultimately show ?thesis using r'(1) t logs cps by (intro exI [of _ "Inr g"] exI [of _ s2] exI [of _ r'] exI [of _ t] exI [of _ es] exI [of _ d]) simp
  next
    case (Inl e')
    with e(2) r'(2) have e': "e' = CancelledError" "rn_status r' \<noteq> Waiting" by (simp_all add: ended_def reflects_def)
    with t(1) have "rn_status r' \<notin> {Created, Running, Waiting}" by auto
    then have "settle_task_interruption a k s2 = (Inr (Some r'), visited (an_services a) s2)"
      using w r'(1) by (intro interruption_settled) (simp_all add: waiting_run_def)
    then have "continue_waiting a fuel k input confirmation s = Some (Inl CancelledError, visited (an_services a) s2)"
      using e(1) claim Inl e' by (simp add: continue_waiting_def s1_def resume_failed_def pbind_app)
    moreover have "dict_get (rs_runs (rt_runs (visited (an_services a) s2))) k = Some r'" using w r'(1) by (simp add: waiting_run_def leaves_run_def)
    ultimately show ?thesis using t logs cps e'(2)
      by (intro exI [of _ "Inl CancelledError"] exI [of _ "visited (an_services a) s2"] exI [of _ r'] exI [of _ t] exI [of _ es] exI [of _ d]) simp
  qed
qed

theorem accepted_answer_settles_witness:
  "\<exists>res s' r' t. continue_waiting ex_helper 24 9 (Some ''yes'') None ex_asking = Some (res, s') \<and> dict_get (rs_runs (rt_runs s')) 9 = Some r' \<and>
     terminal_event (rn_status r') = Some t"
proof -
  have "\<not> blank ''yes''" by code_simp
  then have ok: "check_resume (an_services ex_helper) (cp_pending_input ex_checkpoint) (Some ''yes'') None = Inr (Answered ''yes'')"
    by (simp add: check_resume_def ex_checkpoint_fields)
  have id: "pi_tool_call_id (cp_pending_input ex_checkpoint) \<noteq> []" by (simp add: ex_checkpoint_fields)
  have sg: "reference_strategy (an_services ex_helper) (active_strategy (an_runtime ex_helper) (restore ex_checkpoint))"
    using ex_reference [of "ex_asking\<lparr>rt_context := restore ex_checkpoint\<rparr>"] by (simp add: ex_helper_def ex_execution_def)
  have "2 * nat (ap_max_steps (cp_profile ex_checkpoint) - cp_step_count ex_checkpoint) + 3 < 24" by (simp add: ex_checkpoint_fields ex_profile_def)
  from accepted_answer_settles [OF ex_waits ex_prepared ok id ex_can_resume sg this] show ?thesis by blast
qed

text \<open>The steps of a cancellation.\<close>

lemma cancel_requested:
  assumes l: "leaves_run k (srv_others srv)" and r: "dict_get (rs_runs (rt_runs s)) k = Some r" "rn_status r \<in> {Created, Running, Waiting}"
  shows "\<exists>t rs. on_runs srv (request_cancel k) s = (Inr (r\<lparr>rn_cancel_requested := True, rn_updated_at := t\<rparr>), s\<lparr>rt_runs := rs, rt_turn := Suc (rt_turn s)\<rparr>) \<and>
    dict_get (rs_runs rs) k = Some (r\<lparr>rn_cancel_requested := True, rn_updated_at := t\<rparr>)"
proof -
  let ?rs = "srv_others srv (rt_turn s) (rt_runs s)"
  let ?r = "r\<lparr>rn_cancel_requested := True, rn_updated_at := clock_stream ?rs (clock_reads ?rs)\<rparr>"
  let ?rs' = "?rs\<lparr>clock_reads := Suc (clock_reads ?rs), rs_runs := dict_set k ?r (rs_runs ?rs)\<rparr>"
  have "dict_get (rs_runs ?rs) k = Some r" using l r(1) by (simp add: leaves_run_def)
  with r(2) have "on_runs srv (request_cancel k) s = (Inr ?r, s\<lparr>rt_runs := ?rs', rt_turn := Suc (rt_turn s)\<rparr>)"
    by (auto simp: on_runs_def request_cancel_def get_run_def pbind_app utc_now_def Let_def)
  moreover have "dict_get (rs_runs ?rs') k = Some ?r" by simp
  ultimately show ?thesis by blast
qed

lemma run_saved:
  assumes l: "leaves_run (rn_id r) (srv_others srv)" and r: "dict_get (rs_runs (rt_runs s)) (rn_id r) = Some q" "rn_cancel_requested r"
  shows "\<exists>rs. on_runs srv (save_run r) s = (Inr (), s\<lparr>rt_runs := rs, rt_turn := Suc (rt_turn s)\<rparr>) \<and> dict_get (rs_runs rs) (rn_id r) = Some r"
  using assms by (auto simp: on_runs_def save_run_def leaves_run_def)

text \<open>The turn of a run can be finished; and a conversation is free.\<close>

definition turn_held :: "uuid option \<Rightarrow> uuid \<Rightarrow> 'w runtime \<Rightarrow> bool" where
  "turn_held conversation k s \<longleftrightarrow> (case (conversation, rt_conversations s) of
     (Some c, Some cs) \<Rightarrow> (case dict_get (cs_conversations cs) c of None \<Rightarrow> False
       | Some cv \<Rightarrow> cv_active_run_id cv = Some k \<and> turn_index k (turns_of c cs) \<noteq> None) | _ \<Rightarrow> True)"

definition turn_free :: "uuid option \<Rightarrow> 'w runtime \<Rightarrow> bool" where
  "turn_free conversation s \<longleftrightarrow> (case (conversation, rt_conversations s) of
     (Some c, Some cs) \<Rightarrow> (case dict_get (cs_conversations cs) c of None \<Rightarrow> False | Some cv \<Rightarrow> cv_active_run_id cv = None) | _ \<Rightarrow> True)"

lemma turn_released:
  assumes "turn_held conversation k s" "st \<notin> {Created, Running, Waiting}"
  shows "\<exists>cs. release_turn conversation k st s = (Inr (), s\<lparr>rt_conversations := cs\<rparr>) \<and> turn_free conversation (s\<lparr>rt_conversations := cs\<rparr>)"
proof (cases "conversation = None \<or> rt_conversations s = None")
  case True
  then have "release_turn conversation k st s = (Inr (), s\<lparr>rt_conversations := rt_conversations s\<rparr>)" "turn_free conversation (s\<lparr>rt_conversations := rt_conversations s\<rparr>)"
    by (auto simp: release_turn_def turn_free_def pbind_app split: option.split)
  then show ?thesis by blast
next
  case False
  then obtain c cs where c: "conversation = Some c" "rt_conversations s = Some cs" by auto
  with assms obtain cv i where "dict_get (cs_conversations cs) c = Some cv" "cv_active_run_id cv = Some k" "turn_index k (turns_of c cs) = Some i"
    by (auto simp: turn_held_def split: option.splits)
  with c assms(2) show ?thesis
    by (auto simp: release_turn_def turn_free_def pbind_app on_conversations_def finish_turn_eq Let_def)
qed

lemma emit_for_eq: "\<exists>es v. emit_for k t d s = (Inr (), s\<lparr>rt_events := es\<rparr>) \<and> en_type v = t \<and> (\<forall>j. log_of j es = (if j = k then log_of k (rt_events s) @ [v] else log_of j (rt_events s)))"
  using emit_appends [of k t d "rt_events s"] by (auto simp: emit_for_def pbind_app on_events_def)

lemma waiting_cancelled:
  assumes w: "waiting_run a k r cp s" and turn: "turn_held (rn_conversation_id r) k s"
  shows "\<exists>r' s' v. agent_cancel a k s = (Inr r', s') \<and> dict_get (rs_runs (rt_runs s')) k = Some r' \<and> rn_status r' = Cancelled \<and> rn_cancel_requested r' \<and>
    rt_checkpoints s' = dict_pop k (rt_checkpoints s) \<and> en_type v = RUN_CANCELLED \<and>
    (\<forall>j. log_of j (rt_events s') = (if j = k then log_of k (rt_events s) @ [v] else log_of j (rt_events s))) \<and> turn_free (rn_conversation_id r) s'"
proof -
  let ?srv = "an_services a"
  have l: "leaves_run k (srv_others ?srv)" and r: "dict_get (rs_runs (rt_runs s)) k = Some r" "rn_status r = Waiting" "rn_id r = k"
    using w by (simp_all add: waiting_run_def)
  let ?s1 = "visited ?srv s"
  from cancel_requested [OF l read_run(2) [OF l r(1)]] r(2) obtain t rs where
    s2: "on_runs ?srv (request_cancel k) ?s1 = (Inr (r\<lparr>rn_cancel_requested := True, rn_updated_at := t\<rparr>), ?s1\<lparr>rt_runs := rs, rt_turn := Suc (rt_turn ?s1)\<rparr>)"
      "dict_get (rs_runs rs) k = Some (r\<lparr>rn_cancel_requested := True, rn_updated_at := t\<rparr>)" by auto
  let ?s2 = "?s1\<lparr>rt_turn := Suc (rt_turn ?s1), rt_runs := rs\<lparr>clock_reads := Suc (clock_reads rs)\<rparr>\<rparr>"
  define q where "q = r\<lparr>rn_cancel_requested := True, rn_status := Cancelled,
     rn_error := Some ''run cancellation requested while waiting for input'', rn_updated_at := clock_stream rs (clock_reads rs)\<rparr>"
  have q: "rn_id q = k" "rn_cancel_requested q" "rn_conversation_id q = rn_conversation_id r" "rn_status q = Cancelled" using r(3) by (simp_all add: q_def)
  have "turn_held (rn_conversation_id r) k ?s2" using turn by (simp add: turn_held_def)
  from turn_released [OF this, of Cancelled] obtain cs where s3: "release_turn (rn_conversation_id r) k Cancelled ?s2 = (Inr (), ?s2\<lparr>rt_conversations := cs\<rparr>)"
    "turn_free (rn_conversation_id r) (?s2\<lparr>rt_conversations := cs\<rparr>)" by auto
  let ?s3 = "?s2\<lparr>rt_conversations := cs\<rparr>"
  from run_saved [of q ?srv ?s3] l q s2(2) obtain rs' where s4: "on_runs ?srv (save_run q) ?s3 = (Inr (), ?s3\<lparr>rt_runs := rs', rt_turn := Suc (rt_turn ?s3)\<rparr>)"
    "dict_get (rs_runs rs') k = Some q" by auto
  let ?s4 = "?s3\<lparr>rt_runs := rs', rt_turn := Suc (rt_turn ?s3), rt_checkpoints := dict_pop k (rt_checkpoints s)\<rparr>"
  let ?d = "[(''error'', opt_json JStr (rn_error q)), (''while_waiting'', JBool True)]"
  from emit_for_eq [of k RUN_CANCELLED ?d ?s4] obtain es v where s5: "emit_for k RUN_CANCELLED ?d ?s4 = (Inr (), ?s4\<lparr>rt_events := es\<rparr>)"
    "en_type v = RUN_CANCELLED" "\<forall>j. log_of j es = (if j = k then log_of k (rt_events s) @ [v] else log_of j (rt_events s))" by auto
  have "agent_cancel a k s = (Inr q, ?s4\<lparr>rt_events := es\<rparr>)"
    using read_run(1) [OF l r(1)] s2(1) s3(1) s4(1) s5(1) r(2)
    by (simp add: agent_cancel_def request_cancellation_def pbind_app read_clock_def utc_now_def on_checkpoints_def delete_checkpoint_def Let_def q_def)
  with q s4(2) s5(2,3) s3(2) show ?thesis by (intro exI [of _ q] exI [of _ "?s4\<lparr>rt_events := es\<rparr>"] exI [of _ v]) (simp add: turn_free_def)
qed

text \<open>
  C33. Cancelling a waiting run settles it for good: it is stored as cancelled, its turn is finished and the
  conversation free, its checkpoint is gone, exactly one event, the cancellation, is appended to its log, and
  afterwards the run can neither be resumed nor cancelled again.
\<close>

theorem waiting_cancel_is_final:
  assumes w: "waiting_run a k r cp s" and turn: "turn_held (rn_conversation_id r) k s"
  shows "\<exists>r' s' v. agent_cancel a k s = (Inr r', s') \<and> dict_get (rs_runs (rt_runs s')) k = Some r' \<and> rn_status r' = Cancelled \<and>
    dict_get (rt_checkpoints s') k = None \<and> turn_free (rn_conversation_id r) s' \<and> en_type v = RUN_CANCELLED \<and>
    (\<forall>j. log_of j (rt_events s') = (if j = k then log_of k (rt_events s) @ [v] else log_of j (rt_events s))) \<and>
    fst (agent_cancel a k s') = Inl RunNotCancellableError \<and>
    (\<forall>fuel input confirmation. \<exists>t s''. continue_waiting a fuel k input confirmation s' = Some (Inl (ValueError t), s''))"
proof -
  have l: "leaves_run k (srv_others (an_services a))" using w by (simp add: waiting_run_def)
  from waiting_cancelled [OF assms] obtain r' s' v where c: "agent_cancel a k s = (Inr r', s')" "dict_get (rs_runs (rt_runs s')) k = Some r'"
    "rn_status r' = Cancelled" "rt_checkpoints s' = dict_pop k (rt_checkpoints s)" "en_type v = RUN_CANCELLED"
    "\<forall>j. log_of j (rt_events s') = (if j = k then log_of k (rt_events s) @ [v] else log_of j (rt_events s))" "turn_free (rn_conversation_id r) s'" by blast
  note read = read_run [OF l c(2)]
  from read(1) c(3) have "\<exists>t s''. continue_waiting a fuel k input confirmation s' = Some (Inl (ValueError t), s'')" for fuel input confirmation
    by (simp add: continue_waiting_def check_waiting_def pbind_app)
  moreover have "fst (agent_cancel a k s') = Inl RunNotCancellableError"
    using read l c(3) by (simp add: agent_cancel_def request_cancellation_def pbind_app on_runs_def request_cancel_def get_run_def leaves_run_def)
  ultimately show ?thesis using c by (intro exI [of _ r'] exI [of _ s'] exI [of _ v]) (simp add: dict_get_pop)
qed

theorem waiting_cancel_is_final_witness:
  "\<exists>r' s'. agent_cancel ex_helper 9 ex_asking = (Inr r', s') \<and> rn_status r' = Cancelled \<and> turn_free (Some 1) s' \<and>
     fst (agent_cancel ex_helper 9 s') = Inl RunNotCancellableError"
proof -
  have "turn_held (rn_conversation_id ex_asking_run) 9 ex_asking" using ex_conversation_ready
    by (auto simp: turn_held_def ex_asking_def ex_asking_run_def conversation_ready_def ex_start_context split: option.splits)
  from waiting_cancel_is_final [OF ex_waits this] show ?thesis by (auto simp: ex_asking_run_def)
qed

subsection \<open>A run never blocks its conversation\<close>

definition conversation_free :: "uuid \<Rightarrow> 'w runtime \<Rightarrow> bool" where
  "conversation_free c s \<longleftrightarrow> (\<exists>cs cv. rt_conversations s = Some cs \<and> dict_get (cs_conversations cs) c = Some cv \<and> cv_active_run_id cv = None)"

definition stays_free :: "'w runtime \<Rightarrow> 'w runtime \<Rightarrow> bool" where
  "stays_free s s' \<longleftrightarrow> (\<forall>c. conversation_free c s \<longrightarrow> conversation_free c s')"

interpretation freeing: kept_relation stays_free
  by unfold_locales (simp_all add: stays_free_def)

lemma stays_free_frame: "rt_conversations s' = rt_conversations s \<Longrightarrow> stays_free s s'"
  by (simp add: stays_free_def conversation_free_def)

lemma freeing_try:
  assumes m: "keeps stays_free m" and f: "\<And>r. keeps stays_free (f r)"
  shows "keeps stays_free (ptry m f)"
  unfolding keeps_def
proof
  fix s
  obtain r s1 where r: "m s = (r, s1)" by (cases "m s")
  with m have "stays_free s s1" by (rule keepsD)
  moreover have "stays_free s1 (snd (f r s1))" using f [of r] by (simp add: keeps_def)
  ultimately show "stays_free s (snd (ptry m f s))" using r by (simp add: ptry_app stays_free_def)
qed

lemma freeing_finish: "keeps stays_free (on_conversations (finish_turn c k st reply))"
  by (auto simp: keeps_def on_conversations_def stays_free_def conversation_free_def finish_turn_eq Let_def split: option.splits)

lemma freeing_stores: "keeps stays_free (on_runs srv m)" "keeps stays_free (on_checkpoints m')" "keeps stays_free read_clock" "keeps stays_free (emit_for k t d)"
  by (auto simp: keeps_def on_runs_def on_checkpoints_def read_clock_def emit_for_def on_events_def pbind_app intro!: stays_free_frame split: prod.split sum.split)

lemma freeing_release: "keeps stays_free (release_turn conversation k st)"
  unfolding release_turn_def by (auto intro!: freeing.bind freeing.basic freeing_finish split: option.split)

lemma freeing_settle: "keeps stays_free (settle_task_interruption a k)"
proof -
  have "keeps stays_free (finalize_found srv k r)" for srv r
    unfolding finalize_found_def Let_def by (auto intro!: freeing.bind freeing.basic freeing_stores freeing_release)
  then show ?thesis unfolding settle_task_interruption_def finalize_task_interruption_def
    by (auto intro!: freeing_try freeing.basic freeing_stores split: sum.split)
qed

lemma freeing_failed: "keeps stays_free (run_failed a k turn e)"
  unfolding run_failed_def by (auto intro!: freeing.bind freeing.basic freeing_settle freeing_try freeing_finish split: option.split)

text \<open>A turn that was begun is released by the \<open>except\<close> clause.\<close>

lemma failed_releases:
  assumes held: "turn_held (Some c) k s" "rt_conversations s \<noteq> None" and e: "e \<noteq> CancelledError"
  shows "\<exists>s'. run_failed a k (Some c) e s = (Inl e, s') \<and> conversation_free c s'"
proof -
  obtain cs where cs: "rt_conversations s = Some cs" using held(2) by auto
  with held obtain cv i where "dict_get (cs_conversations cs) c = Some cv" "cv_active_run_id cv = Some k" "turn_index k (turns_of c cs) = Some i"
    by (auto simp: turn_held_def split: option.splits)
  with cs e show ?thesis by (simp add: run_failed_def pbind_app ptry_app on_conversations_def finish_turn_eq Let_def conversation_free_def)
qed

lemma turn_index_snoc: "ct_run_id t = k \<Longrightarrow> turn_index k (ts @ [t]) \<noteq> None"
  by (simp add: turn_index_None)

lemma turn_opens:
  assumes f: "conversation_free c s" and q: "rr_conversation_id q = Some c"
  shows "case open_turn a k q s of (Inl e, s') \<Rightarrow> conversation_free c s'
    | (Inr (n, h), s') \<Rightarrow> n \<noteq> None \<and> turn_held (Some c) k s' \<and> rt_conversations s' \<noteq> None"
  using f q turn_index_snoc
  by (auto simp: open_turn_def conversation_free_def pbind_app on_conversations_def begin_turn_eq Let_def turn_held_def turns_of_def new_turn_def split: option.split)

text \<open>Selecting skills and resolving attachments touches no store of runs, events, checkpoints or conversations.\<close>

definition apart :: "'w runtime \<Rightarrow> 'w runtime \<Rightarrow> bool" where
  "apart s s' \<longleftrightarrow> rt_runs s' = rt_runs s \<and> rt_events s' = rt_events s \<and> rt_checkpoints s' = rt_checkpoints s \<and> rt_conversations s' = rt_conversations s"

interpretation preparing: kept_relation apart
  by unfold_locales (simp_all add: apart_def)

lemma prepare_apart: "keeps apart (prepare_run a q)"
proof -
  have w: "keeps apart (on_world m)" "keeps apart (on_content m')" for m m'
    by (auto simp: keeps_def on_world_def on_content_def apart_def split: prod.split)
  have "keeps apart (resolve_each xs)" for xs
  proof (induction xs)
    case Nil
    show ?case unfolding resolve_each.simps by (rule preparing.basic)
  next
    case (Cons y ys)
    show ?case unfolding resolve_each.simps by (auto intro!: preparing.bind preparing.basic w Cons.IH)
  qed
  then show ?thesis unfolding prepare_run_def resolve_attachments_def by (auto intro!: preparing.bind preparing.basic w)
qed

text \<open>A run that cannot start.\<close>

lemma start_refused:
  assumes others: "keeps_runs (srv_others (xn_services x))" and st: "rc_state (rt_context s) = Created" and r: "begin_segment x s = (Inl e, s')"
  shows "e \<noteq> CancelledError \<and> rt_conversations s' = rt_conversations s"
proof (cases "isl (make_scope (xn_resources x)) \<or> isl (make_memory_manager (xn_memories x))")
  case True
  then show ?thesis using r by (auto simp: begin_segment_def pbind_app make_scope_def make_memory_manager_def split: if_splits)
next
  case False
  obtain sc where sc: "make_scope (xn_resources x) = Inr sc" using False by (cases "make_scope (xn_resources x)") auto
  obtain m where m: "make_memory_manager (xn_memories x) = Inr m" using False by (cases "make_memory_manager (xn_memories x)") auto
  let ?s = "s\<lparr>rt_scope := sc\<rparr>" and ?srv = "xn_services x"
  have r': "enter_segment x ?s = (Inl e, s')" using r sc m by (simp add: begin_segment_def pbind_app)
  have conv: "rt_conversations s' = rt_conversations s" using keepsD [OF following_segment [OF others] r'] by (simp add: follows_def)
  obtain res s1 where s1: "store_new_run ?srv ?s = (res, s1)" by (cases "store_new_run ?srv ?s")
  have st': "rc_state (rt_context ?s) = Created" using st by simp
  have "res \<noteq> Inr ()" using stored_run_enters [OF others st'] s1 r' by fastforce
  then obtain e1 where e1: "res = Inl e1" by (cases res) auto
  then have "e = e1" using r' st s1 by (simp add: enter_segment_def create_stored_run_def pbind_app)
  moreover have "e1 \<noteq> CancelledError" using s1 e1
    by (auto simp: store_new_run_def on_runs_def pbind_app utc_now_def construct_def create_run_def split: prod.splits if_splits)
  ultimately show ?thesis using conv by simp
qed

text \<open>The context of a new run.\<close>

lemma run_contextD:
  assumes "run_context a k q turn prep = Inr c"
  shows "rc_run_id c = k" "rc_conversation_id c = rr_conversation_id q" "rc_profile c = an_profile a" "rc_state c = Created" "rc_step_count c = 0"
    "rc_tool_call_count c = 0" "rc_error c = None"
  using assms by (auto simp: run_context_def create_context_def split: prod.splits if_splits)

lemma run_context_error: "run_context a k q turn prep = Inl e \<Longrightarrow> e \<noteq> CancelledError"
  by (auto simp: run_context_def create_context_def split: prod.splits if_splits)

text \<open>An agent whose services meet the contract, with room in its budgets.\<close>

definition sound_agent :: "(bytes \<Rightarrow> string) \<Rightarrow> 'w agent \<Rightarrow> bool" where
  "sound_agent sha a \<longleftrightarrow> good_services sha (an_memories a) (an_services a) \<and> calm_resources (an_resources a) \<and> 0 \<le> ap_max_steps (an_profile a) \<and>
     0 \<le> ap_max_tool_calls (an_profile a) \<and> (\<forall>c. reference_strategy (an_services a) (active_strategy (an_runtime a) c))"

text \<open>The conversation is free, or held by a run that waits.\<close>

definition unblocked :: "uuid \<Rightarrow> uuid \<Rightarrow> 'w runtime \<Rightarrow> bool" where
  "unblocked c k s \<longleftrightarrow> (\<exists>cs cv. rt_conversations s = Some cs \<and> dict_get (cs_conversations cs) c = Some cv \<and>
     (cv_active_run_id cv = None \<or> cv_active_run_id cv = Some k \<and> (\<exists>r. dict_get (rs_runs (rt_runs s)) k = Some r \<and> rn_status r = Waiting)))"

lemma free_unblocked: "conversation_free c s \<Longrightarrow> unblocked c k s"
  by (auto simp: conversation_free_def unblocked_def)

lemma started_run_unblocks:
  assumes sound: "sound_agent sha a" and ctx: "run_context a k q turn prep = Inr ct" "rr_conversation_id q = Some c"
    and held: "turn_held (Some c) k s" "rt_conversations s \<noteq> None" and fuel: "2 * nat (ap_max_steps (an_profile a)) + 3 < fuel"
    and started: "begin_segment (agent_execution a None None) (s\<lparr>rt_context := ct\<rparr>) = (Inr u, s1)"
  shows "\<exists>res s'. execute_run (agent_execution a None None) fuel (s\<lparr>rt_context := ct\<rparr>) = Some (res, s') \<and> unblocked c k s' \<and>
    (\<forall>e. res = Inl e \<longrightarrow> conversation_free c s')"
proof -
  let ?x = "agent_execution a None None" and ?s = "s\<lparr>rt_context := ct\<rparr>"
  note [simp] = run_contextD [OF ctx(1)] ctx(2)
  have fit: "fit sha ?x ?s" using sound by (simp add: fit_def sound_agent_def agent_execution_def clear_text_def)
  have ref: "reference_strategy (xn_services ?x) (active_strategy (xn_runtime ?x) (rt_context ?s))" using sound by (simp add: sound_agent_def agent_execution_def)
  obtain cs where cs: "rt_conversations s = Some cs" using held(2) by auto
  have conv: "conversation_ready ?s" using held(1) cs by (auto simp: conversation_ready_def turn_held_def split: option.splits)
  have "2 * nat (step_limit ?s - rc_step_count (rt_context ?s)) + 3 < fuel" using fuel by simp
  from execute_ends [OF fit ref conv started this] obtain res s' b where e: "execute_run ?x fuel ?s = Some (res, s')" "ended ?x b ?s res s'" by blast
  then obtain r where r: "dict_get (rs_runs (rt_runs s')) k = Some r" "rn_status r = rc_state (rt_context s')" and cv: "conversation_settled s'"
    "rc_conversation_id (rt_context s') = Some c" "rc_run_id (rt_context s') = k"
    by (auto simp: ended_def stores_settled_def reflects_def)
  have res: "\<forall>e. res = Inl e \<longrightarrow> rc_state (rt_context s') \<noteq> Waiting" using e(2) by (auto simp: ended_def)
  from cv obtain cs' cv' where "rt_conversations s' = Some cs'" "dict_get (cs_conversations cs') c = Some cv'"
    "cv_active_run_id cv' = (if rc_state (rt_context s') = Waiting then Some k else None)" by (auto simp: conversation_settled_def)
  with r res have "unblocked c k s'" "\<forall>e. res = Inl e \<longrightarrow> conversation_free c s'" by (auto simp: unblocked_def conversation_free_def)
  with e(1) show ?thesis by blast
qed

lemma opened_run_unblocks:
  assumes sound: "sound_agent sha a" and q: "rr_conversation_id q = Some c" and held: "turn_held (Some c) k s" "rt_conversations s \<noteq> None"
    and fuel: "2 * nat (ap_max_steps (an_profile a)) + 3 < fuel"
  shows "\<exists>res s'. (case run_context a k q turn prep of
         Inl e \<Rightarrow> Some (run_failed a k (rr_conversation_id q) e s)
       | Inr ct \<Rightarrow> (case execute_run (agent_execution a None None) fuel (s\<lparr>rt_context := ct\<rparr>) of
           None \<Rightarrow> None
         | Some (Inr r, s3) \<Rightarrow> Some (Inr r, s3)
         | Some (Inl e, s3) \<Rightarrow> Some (run_failed a k (rr_conversation_id q) e s3))) = Some (res, s') \<and> unblocked c k s'"
proof (cases "run_context a k q turn prep")
  case (Inl e)
  from failed_releases [OF held run_context_error [OF Inl], of a] Inl q show ?thesis by (auto dest: free_unblocked)
next
  case (Inr ct)
  let ?x = "agent_execution a None None" and ?s = "s\<lparr>rt_context := ct\<rparr>"
  have others: "keeps_runs (srv_others (xn_services ?x))" using sound by (simp add: sound_agent_def good_services_def agent_execution_def)
  obtain b s1 where b: "begin_segment ?x ?s = (b, s1)" by (cases "begin_segment ?x ?s")
  show ?thesis
  proof (cases b)
    case (Inl e)
    with b start_refused [OF others, of ?s e s1] run_contextD [OF Inr] have e: "e \<noteq> CancelledError" "rt_conversations s1 = rt_conversations s" by simp_all
    then have "turn_held (Some c) k s1" "rt_conversations s1 \<noteq> None" using held by (simp_all add: turn_held_def)
    from failed_releases [OF this e(1), of a] b Inl Inr q show ?thesis by (auto simp: execute_run_def Let_def dest: free_unblocked)
  next
    case (Inr u)
    from started_run_unblocks [OF sound \<open>run_context a k q turn prep = Inr ct\<close> q held fuel] b Inr obtain res s' where
      e: "execute_run ?x fuel ?s = Some (res, s')" "unblocked c k s'" "\<forall>e. res = Inl e \<longrightarrow> conversation_free c s'" by blast
    show ?thesis
    proof (cases res)
      case (Inl e1)
      obtain r2 s2 where r2: "run_failed a k (Some c) e1 s' = (r2, s2)" by (cases "run_failed a k (Some c) e1 s'")
      have "conversation_free c s2" using keepsD [OF freeing_failed r2] e(3) Inl by (simp add: stays_free_def)
      then show ?thesis using e(1) Inl r2 q \<open>run_context a k q turn prep = Inr ct\<close> by (auto dest: free_unblocked)
    qed (use e q \<open>run_context a k q turn prep = Inr ct\<close> in auto)
  qed
qed

text \<open>
  C30. A run never blocks its conversation: whatever the prompt, the skills, the attachments and the run id
  are, and however the run fails, \<open>Agent.run\<close> on a free conversation ends, and afterwards the conversation is
  free again or held by this very run, stored as waiting for input.
\<close>

theorem run_never_blocks_conversation:
  assumes sound: "sound_agent sha a" and q: "rr_conversation_id q = Some c" and f: "conversation_free c s"
    and fuel: "2 * nat (ap_max_steps (an_profile a)) + 3 < fuel"
  shows "\<exists>res s'. agent_execute a fuel k q s = Some (res, s') \<and> unblocked c k s'"
proof -
  have failed: "\<exists>r s'. run_failed a k turn e s1 = (r, s') \<and> unblocked c k s'" if "conversation_free c s1" for turn e s1
    using that keepsD [OF freeing_failed, of a k turn e s1] free_unblocked
    by (cases "run_failed a k turn e s1") (auto simp: stays_free_def)
  obtain r1 s1 where s1: "prepare_run a q s = (r1, s1)" by (cases "prepare_run a q s")
  have f1: "conversation_free c s1" using keepsD [OF prepare_apart s1] f by (simp add: apart_def conversation_free_def)
  show ?thesis
  proof (cases r1)
    case (Inl e)
    with s1 failed [OF f1] show ?thesis by (simp add: agent_execute_def)
  next
    case (Inr prep)
    obtain r2 s2 where s2: "open_turn a k q s1 = (r2, s2)" by (cases "open_turn a k q s1")
    note opened = turn_opens [OF f1 q, where a = a and k = k, unfolded s2]
    show ?thesis
    proof (cases r2)
      case (Inl e)
      with opened have "conversation_free c s2" by simp
      with s1 s2 Inr Inl failed show ?thesis by (simp add: agent_execute_def)
    next
      case (Inr turn)
      with opened have held: "turn_held (Some c) k s2" "rt_conversations s2 \<noteq> None" by (auto split: prod.splits)
      from opened_run_unblocks [OF sound q held fuel, of turn prep] show ?thesis
        using s1 s2 \<open>r1 = Inr prep\<close> Inr by (simp add: agent_execute_def)
    qed
  qed
qed

definition ex_prompt :: run_request where
  "ex_prompt = \<lparr>rr_prompt = ''hello'', rr_conversation_id = Some 1, rr_skills = [], rr_plan = None, rr_planning = False, rr_attachments = [], rr_metadata = []\<rparr>"

theorem run_never_blocks_conversation_witness:
  "\<exists>res s'. agent_execute ex_helper 24 7 ex_prompt (ex_segment\<lparr>rt_conversations := Some ex_c1\<rparr>) = Some (res, s') \<and> unblocked 1 7 s'"
proof -
  have "sound_agent ex_sha ex_helper" using ex_good ex_reference [of "ex_segment\<lparr>rt_context := c\<rparr>" for c]
    by (simp add: sound_agent_def ex_helper_def ex_execution_def ex_profile_def)
  moreover have "conversation_free 1 (ex_segment\<lparr>rt_conversations := Some ex_c1\<rparr>)" by (simp add: conversation_free_def ex_c1_def create_conversation_def ex_conversation_def empty_conversations_def)
  ultimately show ?thesis using run_never_blocks_conversation [of ex_sha ex_helper ex_prompt 1 _ 24 7] by (simp add: ex_prompt_def ex_helper_def ex_profile_def)
qed

end
