(* ===== verification/Flow_Facade.thy ===== *)
theory Flow_Facade
  imports Flow_Sequential Agent_Invoker
begin

text \<open>
  \<open>flows/facade.py\<close>: \<open>Flow.sequence\<close> composes agents into a Flow, \<open>Flow.run\<close> starts it, and a \<open>FlowRun\<close> is a
  handle with the latest result. The strategy sees its invoker through the interface of
  \<open>flows/protocol.py\<close>, so the operations take the strategy as an argument.
\<close>

subsection \<open>Composition\<close>

record 'w flow =
  fl_definition :: flow_definition
  fl_invoker :: "'w runtime_invoker"

type_synonym 'w bindings = "(string \<times> 'w agent) list"

text \<open>One turn of the loop over the bindings: the configured agents and the Flow's agents so far.\<close>

definition bind_agent :: "string \<times> 'w agent \<Rightarrow> (string, 'w agent) dict \<times> flow_agent list \<Rightarrow> exn + (string, 'w agent) dict \<times> flow_agent list" where
  "bind_agent = (\<lambda>(key, a) (configured, agents).
     if dict_get configured key \<noteq> None then Inl (ValueError (''Flow Agent key '' @ quoted key @ '' is duplicated''))
     else (case an_definition a of None \<Rightarrow> Inl (ValueError (''Flow Agent '' @ quoted key @ '' must use AgentDefinition''))
       | Some d \<Rightarrow> rbind (construct (\<lambda>b. valid_key (fa_key b)) \<lparr>fa_key = key, fa_definition = d\<rparr>) (\<lambda>b.
           Inr (dict_set key a configured, agents @ [b]))))"

definition flow_sequence :: "(json \<Rightarrow> string) \<Rightarrow> (agent_handoff \<Rightarrow> string) \<Rightarrow> 'w bindings \<Rightarrow> string \<Rightarrow> string \<Rightarrow> flow_budget option \<Rightarrow> exn + 'w flow" where
  "flow_sequence digest dumps bindings ident version budget =
     (if bindings = [] then Inl (ValueError ''Flow.sequence requires at least one Agent'')
      else rbind (for_each bind_agent bindings ([], [])) (\<lambda>(configured, agents).
        rbind (construct valid_flow_definition \<lparr>fd_id = ident, fd_version = version, fd_agents = agents, fd_strategy = ''sequential'',
          fd_budget = (case budget of None \<Rightarrow> default_budget | Some b \<Rightarrow> b), fd_metadata = []\<rparr>) (\<lambda>d.
        rbind (make_prompt_builder dumps 20000) (\<lambda>build.
        rbind (make_runtime_invoker digest build d configured) (\<lambda>ri. Inr \<lparr>fl_definition = d, fl_invoker = ri\<rparr>)))))"

subsection \<open>Running\<close>

type_synonym 'w flow_handle = "'w flow \<times> flow_result"

definition handled :: "'w flow \<Rightarrow> ((exn + flow_result) \<times> flow_repo) option \<Rightarrow> ((exn + 'w flow_handle) \<times> flow_repo) option" where
  "handled f x = (case x of None \<Rightarrow> None | Some (r, repo) \<Rightarrow> Some (rbind r (\<lambda>res. Inr (f, res)), repo))"

definition flow_run :: "sequential \<Rightarrow> 'w flow \<Rightarrow> string \<Rightarrow> attachment list \<Rightarrow> uuid option \<Rightarrow> flow_repo \<Rightarrow> ((exn + 'w flow_handle) \<times> flow_repo) option" where
  "flow_run sq f prompt atts run_id repo = (case construct valid_flow_input \<lparr>fi_prompt = prompt, fi_attachments = atts\<rparr> of
     Inl e \<Rightarrow> Some (Inl e, repo)
   | Inr inp \<Rightarrow> handled f (seq_run sq (fl_definition f) inp run_id repo))"

definition handle_resume :: "sequential \<Rightarrow> 'w flow_handle \<Rightarrow> string \<Rightarrow> flow_repo \<Rightarrow> ((exn + 'w flow_handle) \<times> flow_repo) option" where
  "handle_resume sq h user_input repo = handled (fst h) (seq_resume sq (fl_definition (fst h)) (fr_run_id (snd h)) user_input repo)"

definition handle_confirm :: "sequential \<Rightarrow> 'w flow_handle \<Rightarrow> tool_confirmation \<Rightarrow> flow_repo \<Rightarrow> ((exn + 'w flow_handle) \<times> flow_repo) option" where
  "handle_confirm sq h confirmation repo = handled (fst h) (seq_confirm sq (fl_definition (fst h)) (fr_run_id (snd h)) confirmation repo)"

definition handle_cancel :: "sequential \<Rightarrow> 'w flow_handle \<Rightarrow> string \<Rightarrow> 'w flow_handle repo_prog" where
  "handle_cancel sq h reason = pbind (seq_cancel sq (fr_run_id (snd h)) reason) (\<lambda>res. pret (fst h, res))"

definition handle_events :: "'w flow_handle \<Rightarrow> int \<Rightarrow> runtime_event list repo_prog" where
  "handle_events h after_sequence = pbind (repo_events_of (fr_run_id (snd h))) (\<lambda>es. pret (filter (\<lambda>e. after_sequence < ev_sequence e) es))"

subsection \<open>What a composition accepts\<close>

definition bound :: "string \<times> 'w agent \<Rightarrow> flow_agent" where
  "bound b = \<lparr>fa_key = fst b, fa_definition = the (an_definition (snd b))\<rparr>"

lemma bound_key [simp]: "fa_key \<circ> bound = fst"
  by (auto simp: bound_def)

lemma bind_agents_exact:
  "for_each bind_agent bs (configured, agents) = Inr z \<longleftrightarrow>
     distinct (map fst bs) \<and> set (map fst bs) \<inter> set (dict_keys configured) = {} \<and> (\<forall>b \<in> set bs. valid_key (fst b) \<and> an_definition (snd b) \<noteq> None) \<and>
     z = (configured @ bs, agents @ map bound bs)"
proof (induction bs arbitrary: configured agents)
  case (Cons b bs)
  obtain key a where b: "b = (key, a)" by (cases b)
  show ?case
  proof (cases "dict_get configured key = None \<and> valid_key key \<and> an_definition a \<noteq> None")
    case True
    then obtain d where d: "an_definition a = Some d" by auto
    have new: "key \<notin> set (dict_keys configured)" using True by (auto simp: map_of_eq_None_iff)
    have "for_each bind_agent (b # bs) (configured, agents) = for_each bind_agent bs (configured @ [b], agents @ [bound b])"
      using True d dict_set_new [OF new] b by (simp add: bind_agent_def bound_def construct_def)
    with Cons.IH [of "configured @ [b]" "agents @ [bound b]"] True b new show ?thesis by auto
  next
    case False
    then show ?thesis using b by (auto simp: bind_agent_def result_iffs construct_def map_of_eq_None_iff split: option.splits)
  qed
qed auto

lemma bindings_validate:
  assumes "distinct (map fst bs)" "\<forall>b \<in> set bs. an_definition (snd b) \<noteq> None" "fd_agents d = map bound bs"
  shows "validate_bindings digest d bs = Inr ()"
proof -
  have checked: "check_binding digest bs (bound b) = Inr ()" if mem: "b \<in> set bs" for b
  proof -
    obtain key a where b: "b = (key, a)" by (cases b)
    then have "dict_get bs key = Some a" using mem assms(1) by simp
    moreover obtain d' where "an_definition a = Some d'" using mem b assms(2) by fastforce
    ultimately show ?thesis using b by (simp add: check_binding_def bound_def)
  qed
  have "for_each (\<lambda>b _. check_binding digest bs b) (map bound cs) () = Inr ()" if "set cs \<subseteq> set bs" for cs
    using that checked by (induction cs) auto
  from this [of bs] assms(3) show ?thesis by (simp add: validate_bindings_def bound_def comp_def)
qed

definition sequenceable :: "'w bindings \<Rightarrow> string \<Rightarrow> string \<Rightarrow> flow_budget \<Rightarrow> bool" where
  "sequenceable bs ident version budget \<longleftrightarrow> bs \<noteq> [] \<and> distinct (map fst bs) \<and>
     list_all (\<lambda>(key, a). valid_key key \<and> (case an_definition a of None \<Rightarrow> False | Some d \<Rightarrow> valid_agent_definition d)) bs \<and>
     valid_key ident \<and> valid_version version \<and> valid_budget budget"

definition composed :: "(json \<Rightarrow> string) \<Rightarrow> (agent_handoff \<Rightarrow> string) \<Rightarrow> 'w bindings \<Rightarrow> string \<Rightarrow> string \<Rightarrow> flow_budget \<Rightarrow> 'w flow" where
  "composed digest dumps bs ident version budget = (let d = \<lparr>fd_id = ident, fd_version = version, fd_agents = map bound bs, fd_strategy = ''sequential'',
       fd_budget = budget, fd_metadata = []\<rparr> in
     \<lparr>fl_definition = d, fl_invoker = \<lparr>ri_definition = d, ri_agents = bs, ri_build = build_prompt dumps 20000, ri_digest = digest\<rparr>\<rparr>)"

text \<open>
  C36. What \<open>Flow.sequence\<close> composes: it accepts exactly a non-empty list of agents that have valid definitions
  and distinct valid keys, together with a valid id, version and budget; the Flow then has these
  agents in this order, and the invoker it is wired to, whose own checks never refuse it, resolves every key to the agent
  bound to it.
\<close>

theorem flow_sequence_exact:
  "flow_sequence digest dumps bs ident version budget = Inr f \<longleftrightarrow>
     (let b = (case budget of None \<Rightarrow> default_budget | Some b \<Rightarrow> b) in
      sequenceable bs ident version b \<and> f = composed digest dumps bs ident version b)"
proof -
  let ?b = "case budget of None \<Rightarrow> default_budget | Some b \<Rightarrow> b"
  let ?d = "\<lparr>fd_id = ident, fd_version = version, fd_agents = map bound bs, fd_strategy = ''sequential'', fd_budget = ?b, fd_metadata = []\<rparr>"
  have seq: "valid_key ''sequential''" by code_simp
  define good where "good \<longleftrightarrow> distinct (map fst bs) \<and> (\<forall>b \<in> set bs. valid_key (fst b) \<and> an_definition (snd b) \<noteq> None)"
  have all: "good \<and> valid_flow_definition ?d \<and> bs \<noteq> [] \<longleftrightarrow> sequenceable bs ident version ?b"
    using seq unfolding good_def by (auto simp: valid_flow_definition_def sequenceable_def bound_def list_all_iff split: option.splits)
  have "flow_sequence digest dumps bs ident version budget = Inr f \<longleftrightarrow> bs \<noteq> [] \<and> good \<and> valid_flow_definition ?d \<and>
    (\<exists>ri. make_runtime_invoker digest (build_prompt dumps 20000) ?d bs = Inr ri \<and> f = \<lparr>fl_definition = ?d, fl_invoker = ri\<rparr>)"
    unfolding flow_sequence_def good_def by (auto simp: result_iffs bind_agents_exact make_prompt_builder_def)
  moreover have "make_runtime_invoker digest (build_prompt dumps 20000) ?d bs = Inr \<lparr>ri_definition = ?d, ri_agents = bs, ri_build = build_prompt dumps 20000, ri_digest = digest\<rparr>"
    if good using that bindings_validate [of bs ?d digest] by (simp add: good_def make_runtime_invoker_def)
  ultimately show ?thesis using all by (auto simp: composed_def Let_def)
qed

end
