(* ===== verification/Spec2Isabelle.thy ===== *)
theory Spec2Isabelle
  imports Flow_Worker Plan_History Flow_Facade
begin

text \<open>
  A verification development for \<open>base-agent\<close>, a Python framework that runs model-driven agents and
  composes them into durable, multi-agent Flows. All file names below are under
  \<open>src/src/base_agent\<close>.

  \<^bold>\<open>The program.\<close> A Flow definition (\<open>flows/models.py\<close>) lists agents. A strategy
  (\<open>flows/sequential.py\<close>) drives a Flow run: it asks the lifecycle service (\<open>flows/service.py\<close>) for
  each transition of the aggregate (\<open>flows/lifecycle.py\<close>), asks the budget policy (\<open>flows/budget.py\<close>)
  before and after each agent, and hands one agent's output to the next. The service commits the
  aggregate together with its events to a repository (\<open>flows/repository.py\<close>) with optimistic
  revisions and fenced leases (\<open>flows/lease.py\<close>). Workers (\<open>flows/worker.py\<close>) claim commands from a
  queue (\<open>flows/work.py\<close>), take the lease of the run, keep both alive by heartbeats and call the
  recovery handler (\<open>flows/recovery.py\<close>), which dispatches only what is safe, using the ledger of
  external side effects (\<open>flows/side_effects.py\<close>) that the recorder (\<open>flows/tool_effects.py\<close>) writes
  around tool calls. A single agent run belongs to the runtime (\<open>runtime/engine.py\<close>): it opens a segment
  with its resources, artifacts and memories, lets a strategy (\<open>orchestration/\<close>) take turns of asking the
  model and executing the tools it calls (\<open>tools/\<close>), watched by a supervisor (\<open>supervision/\<close>), and settles
  the run, its events, its checkpoint and its conversation in the stores (\<open>stores/in_memory.py\<close>);
  \<open>models/plan.py\<close> holds execution plans. Applications use the runtime through \<open>Agent\<close> (\<open>agent.py\<close>), which opens the
  turn of a conversation, runs, resumes and cancels; \<open>flows/facade.py\<close> builds a Flow from agents, and
  \<open>flows/runtime_invoker.py\<close> lets the strategy run them.

  \<^bold>\<open>Representation\<close> (theory \<open>Prelude\<close>). Classes are records, enums are datatypes, exceptions are the
  datatype \<open>exn\<close>, a dictionary is an association list in insertion order, and a computation that may
  raise is a state transformer that keeps what was written before the exception. Clock and \<open>uuid4\<close>
  are streams in the state; theorems hold for all streams (identifiers distinct where stated). A
  coroutine that holds a lock for its whole body is one atomic step. Where the code awaits in between,
  the model lets other tasks act there: the environment argument of the recorder, the schedule of
  turns of the worker, the interleaved service operations of an invoked agent, the observed logs of a
  subscription; overlapping calls of the recorder are a step relation on the list of their tasks. Step
  relations ask of an operation only that its arguments are validated objects. Where the code does
  not check that an identifier is new (the transitions of the aggregate, the work queue, the
  conversations), neither does the relation, and the theorem says what holds when it is and when it is not.
  In \<open>svc_step\<close>, \<open>ledger_step\<close> and \<open>starts_step\<close> identifiers are drawn from \<open>uuid4\<close> and new, as their texts say.

  \<^bold>\<open>Theories.\<close>
  \<^item> \<open>Flow_Models\<close>: definitions, budgets, requests and results with their validators and fingerprints.
  \<^item> \<open>Flow_Lifecycle\<close>: the aggregate and its transitions. Under all sequences of transitions the validators, which
    \<open>model_copy\<close> never runs, hold exactly as long as no invocation id has been used twice.
  \<^item> \<open>Flow_Budget\<close>: the gates, shown exact, and the text of a violation.
  \<^item> \<open>Flow_Interfaces\<close>, \<open>Flow_Repository\<close>: the locale \<open>optimistic_store\<close> states what the service relies
    on; the in-memory repository interprets it. No lost update, gapless logs, exclusive and fenced
    leases.
  \<^item> \<open>Flow_Service\<close>: every service operation; the event log refines the aggregate, failures change
    nothing, an open Flow can always be closed.
  \<^item> \<open>Flow_Sequential\<close>: the strategy; runs end, report the stored state, and complete when nothing
    disturbs them; two stranding defects.
  \<^item> \<open>Flow_Side_Effects\<close>: ledger and recorder, locale \<open>effect_ledger\<close>; \<open>start\<close> cut at its awaits; every call
    ends under every interference, confirmation is never lost.
  \<^item> \<open>Flow_Starts\<close>: any number of overlapping calls of \<open>start\<close>; at most one unprotected start per operation.
  \<^item> \<open>Flow_Work\<close>: the queue, locale \<open>fenced_delivery\<close>; claims are exact, superseded deliveries are lost,
    settled work is final unless its id is enqueued again.
  \<^item> \<open>Flow_Recovery\<close>, \<open>Flow_Worker\<close>: registry, recovery policy and handler, execution runner and polling
    worker; recovery acts only where no agent can be at work, an execution gives up its lease.
  \<^item> \<open>Runs\<close>, \<open>Stores\<close>: runs, messages, conversations, events, the state machine of a run, and the
    in-memory stores, with the locale \<open>stable_property\<close> of the prelude interpreted for each.
  \<^item> \<open>Tools\<close>: registry, confirmation policy, executor and size policy; no gate is bypassed, an unsafe
    tool acts once also when executions overlap, every execution returns a bounded result.
  \<^item> \<open>Supervision\<close>: the context and checkpoint of a run, the supervision policies and how a decision is
    applied; the default supervisor is exact, a checkpoint restores the context.
  \<^item> \<open>Plans\<close>: plans; the depth-first search decides acyclicity, steps respect their dependencies, a plan
    is never stuck.
  \<^item> \<open>Scopes\<close>: the state of a segment, its resources, artifacts and memories, and what a tool may do to it;
    resources are released in reverse, the lexical search is exact.
  \<^item> \<open>Model_Tool\<close>: one turn of the model-tool and of the ReAct strategy, with suspended batches, and the
    snapshots of a run. The overridable methods are the record \<open>hooks\<close>.
  \<^item> \<open>Turns\<close>: what a turn keeps. The locale \<open>turn_hooks\<close> is the contract of the overridden methods, the
    locale \<open>bounded_strategy\<close> that of a whole strategy; every strategy interprets both. The default
    supervisor meets the contract of supervisors.
  \<^item> \<open>Planning\<close>, \<open>Plan_Turns\<close>: the planning strategy, which executes the steps of a plan as turns of its own hooks
    and lets the model revise the pending ones; it meets both contracts.
  \<^item> \<open>Engine\<close>, \<open>Settlement\<close>: \<open>AgentRuntime\<close>. The loop ends (proved in \<open>bounded_strategy\<close>), and a segment that
    starts leaves its run settled: stored, announced once, within its budgets, checkpointed exactly when
    it waits, its conversation released. The locale \<open>kept_relation\<close> carries what starting a segment keeps.
  \<^item> \<open>Plan_History\<close>: the locales \<open>plan_relation\<close> and \<open>plan_turn\<close> carry a relation on the plan through a turn; in a whole
    segment a plan stays valid and never loses a settled step, and a review of it is exact.
  \<^item> \<open>Agents\<close>: \<open>agent.py\<close>, \<open>run_handle.py\<close> and the skill registry. A run never blocks its conversation, a refused answer
    loses nothing, an accepted one settles the run again, and cancelling a waiting run is final.
  \<^item> \<open>Agent_Invoker\<close>, \<open>Flow_Facade\<close>: \<open>flows/runtime_invoker.py\<close> and \<open>flows/facade.py\<close>. An invocation of a Flow
    either cannot start or is a settled run of its agent, however the agents share their stores; its report is faithful, and \<open>Flow.sequence\<close> composes exactly what it should.
  \<^item> This theory: what recorder, ledger and recovery handler guarantee together.

  \<^bold>\<open>Bounds.\<close> Unbounded loops of the code get a bound that is proved sufficient. The strategy's loop
  makes one pass per agent of the definition; the recorder's retry loop makes two passes, because a
  record moves forward at most twice before it is started; the search in a plan needs one interpreter
  frame more than the plan has steps; the loop over turns takes at most two turns per step of the profile's
  budget (one of them may only announce the summary of a plan) and three more for a suspended batch. \<open>run_forever\<close> takes a script with one entry per poll, a
  subscription and the waiting loops of \<open>Agent.start\<close> and of the invoker's \<open>cancel\<close> the list of states they observe, the worker a schedule of turns.

  \<^bold>\<open>Parameters.\<close> SHA-256, \<open>uuid5\<close> and JSON digests, the agents behind \<open>AgentInvoker\<close>, model providers,
  tools, resource factories and memory retrievers, the recovery dispatcher, the JSON of larger models and
  its parsers, and the text of foreign exceptions. What a theorem relies on from them is a hypothesis:
  tools act on a segment through its managers (\<open>well_behaved\<close>), supervisors decide within the budgets
  (\<open>bounded_supervisor\<close>) and give reasons that are not blank, parsed plans and steps have passed their validators
  (\<open>checked_texts\<close>), other tasks do not delete stored runs (\<open>keeps_runs\<close>), nor write a run that is being resumed,
  cancelled or invoked where that is stated (\<open>leaves_run\<close>), the exit of a resource is not
  itself cancelled (\<open>settles\<close>). The strategies are the three of the library (\<open>reference_strategy\<close>): model-tool, ReAct
  and planning; the theorems on segments do not cover a strategy of the application. The result policy of the tool
  executor (\<open>tx_enforce\<close>) is a total function: a policy or a serialisation that raises is not represented.

  \<^bold>\<open>Not modelled.\<close> The PostgreSQL stores are SQL text for an external database; the skill loader reads files; tool
  authoring builds tools by reflection on Python signatures; providers, sandboxes, data sources, web
  search, MCP and the HTTP server are input and output around external services; logging has no effect
  on the state. Cancellation of the task inside the settlement itself is not modelled.
\<close>

subsection \<open>Recorded side effects and recovery\<close>

text \<open>A started record without retry protection is evidence against every replay of its invocation.\<close>

lemma evidence_of_recorded:
  assumes "recorded l k = Some e" "active_invocation st = Some a" "se_invocation_id e = inv_id a" "rh_evidence h"
  shows "e \<in> set (evidence_for h st l)"
  using dict_get_in_values [OF assms(1)] assms(2-4) by (simp add: evidence_for_def)

lemma unsafe_not_retry_safe: "2 \<le> phase_rank (se_phase e) \<Longrightarrow> se_retry_mode e = UNSAFE \<Longrightarrow> \<not> retry_safe e"
  by (cases "se_phase e") (simp_all add: retry_safe_def)

lemma decide_unsafe:
  assumes "e \<in> set effs" "\<not> retry_safe e" "fs_status st = Running" "active_invocation st \<noteq> None"
    "wc_run_id c = fs_run_id st" "wc_kind c = EXECUTE \<or> wc_kind c = RECOVER"
  shows "decide parse c st effs = Inr (decided DoManualReview ACTIVE_SIDE_EFFECT_RETRY_UNSAFE)"
proof -
  have "effs \<noteq> []" "list_ex (\<lambda>e. \<not> retry_safe e) effs" using assms(1,2) by (auto simp: list_ex_iff)
  with assms(3-6) show ?thesis by (auto simp: decide_def terminal_statuses_def)
qed

text \<open>
  C17. The side-effect recorder and the recovery handler together. Once a tool call declared unsafe has been
  given a receipt inside an invocation, and as long as that invocation is the active one of its
  running Flow, every execute or recover command is refused with the reason
  \<open>active_side_effect_retry_unsafe\<close> and changes nothing, whatever ledger operations have been
  performed since: an agent that may have acted on the world is never replayed automatically.
\<close>

theorem unsafe_effect_blocks_recovery:
  assumes s: "ledger_reachable l0" and env: "interferes (next_uuid l0) env"
    and sent: "recorder_start digest env call t ModeUnsafe cx l0 = Some (Inr rc, l1)"
    and steps: "ledger_step\<^sup>*\<^sup>* l1 l" and h: "rh_evidence h"
    and run: "dict_get (repo_states r) (wc_run_id (wi_command item)) = Some st" "fs_run_id st = wc_run_id (wi_command item)"
      "fs_status st = Running" "active_invocation st = Some a" "cx_invocation_id cx = Some (inv_id a)"
    and d: "dict_get (rh_registry h) (fs_definition_id st, fs_definition_version st) = Some d" "same_definition (rh_digest h) st d"
    and kind: "wc_kind (wi_command item) = EXECUTE \<or> wc_kind (wi_command item) = RECOVER"
  shows "handle_work h item lease (r, l) = (Inl (FlowWorkBlockedError ''active_side_effect_retry_unsafe''), (r, l))"
proof -
  obtain e1 where e1: "recorded l1 (se_id e1) = Some e1" "2 \<le> phase_rank (se_phase e1)" "intends digest call t ModeUnsafe cx e1"
    using recorder_start_ends [OF ledger_reachable_inv [OF s] env, of digest call t ModeUnsafe cx] sent
    by (auto simp: receipted_def)
  obtain e where e: "recorded l (se_id e1) = Some e" "later e1 e" using led.steps_later [OF steps e1(1)] by blast
  have u: "2 \<le> phase_rank (se_phase e)" "se_retry_mode e = UNSAFE" "se_invocation_id e = inv_id a"
    using e(2) e1(2,3) run(5) by (auto simp: later_def has_same_intent_def intends_def)
  have "decide (rh_parse h) (wi_command item) st (evidence_for h st l) = Inr (decided DoManualReview ACTIVE_SIDE_EFFECT_RETRY_UNSAFE)"
    using decide_unsafe [OF evidence_of_recorded [OF e(1) run(4) u(3) h] unsafe_not_retry_safe [OF u(1,2)] run(3) _ _ kind] run(2,4)
    by simp
  with run(1) d show ?thesis by (simp add: handle_work_eq)
qed

definition ex_busy :: flow_repo where
  "ex_busy = (empty_repo (\<lambda>n. int n) (\<lambda>n. n))\<lparr>repo_states := [(7, ex_running)]\<rparr>"

theorem unsafe_effect_blocks_recovery_witness:
  "\<exists>rc l. recorder_start ex_hash ex_aborts ex_call ''mail'' ModeUnsafe ex_context ex_ledger = Some (Inr rc, l) \<and>
     handle_work ex_handler (ex_item RECOVER) ex_backend_lease (ex_busy, l) =
       (Inl (FlowWorkBlockedError ''active_side_effect_retry_unsafe''), (ex_busy, l))"
proof -
  obtain rc l where sent: "recorder_start ex_hash ex_aborts ex_call ''mail'' ModeUnsafe ex_context ex_ledger = Some (Inr rc, l)"
    using ex_receipt_unsafe by (auto simp: ex_receipt_def)
  have item: "wc_run_id (wi_command (ex_item RECOVER)) = 7" "wc_kind (wi_command (ex_item RECOVER)) = RECOVER" by code_simp+
  have st: "fs_run_id ex_running = 7" "fs_status ex_running = Running" "fs_definition_id ex_running = fd_id ex_definition"
    "fs_definition_version ex_running = fd_version ex_definition" "same_definition ex_digest ex_running ex_definition" by code_simp+
  have "map_option inv_id (active_invocation ex_running) = Some 20" by code_simp
  then obtain a where a: "active_invocation ex_running = Some a" "inv_id a = 20" by auto
  have "handle_work ex_handler (ex_item RECOVER) ex_backend_lease (ex_busy, l) =
      (Inl (FlowWorkBlockedError ''active_side_effect_retry_unsafe''), (ex_busy, l))"
    by (rule unsafe_effect_blocks_recovery [OF ex_ledger_reachable ex_aborts_interferes sent rtranclp.rtrancl_refl _ _ _ st(2) a(1),
        where d = ex_definition])
      (simp_all add: ex_busy_def ex_handler_def ex_context_def item st a(2))
  with sent show ?thesis by blast
qed

end
